(* ===== verification/Chain_Prelude.thy ===== *)
theory Chain_Prelude
  imports Main "HOL-Library.Word" "HOL-Library.AList" "HOL-Library.Multiset"
begin

unbundle bit_operations_syntax

text \<open>
  Shared ground of the development: the widths of the Rust integers, the saturating and
  checked operations of \<open>core\<close> and of \<open>alloy_primitives::U256\<close>, bit lengths, comparators and
  the stable \<open>sort_by\<close> of a Rust slice, hash maps as association lists, and the generic
  lemmas about them that the component theories use.
\<close>

section \<open>Types\<close>

type_synonym u16 = "16 word"
type_synonym u32 = "32 word"
type_synonym u64 = "64 word"
type_synonym u256 = "256 word"

type_synonym block_hash = "256 word"
type_synonym address = "160 word"

text \<open>
  \<open>std::collections::HashMap\<close> is an association list whose keys are distinct: \<open>map_of\<close> looks a
  key up, \<open>AList.update\<close> inserts or replaces, \<open>AList.delete\<close> removes, \<open>length\<close> is \<open>len\<close>.
  The order of the list stands for the unspecified iteration order of the table, so a fact
  proved for every list holds for every iteration order.
\<close>

type_synonym ('k, 'v) hmap = "('k \<times> 'v) list"

definition hmap_ok :: "('k, 'v) hmap \<Rightarrow> bool" where
  "hmap_ok m \<longleftrightarrow> distinct (map fst m)"

named_theorems map_simps
named_theorems word_nat

section \<open>Hash maps\<close>

lemma hmap_ok_Nil [simp, intro]: "hmap_ok []"
  by (simp add: hmap_ok_def)

lemma hmap_ok_update [simp, intro]: "hmap_ok m \<Longrightarrow> hmap_ok (AList.update k v m)"
  by (simp add: hmap_ok_def distinct_update)

lemma hmap_ok_delete [simp, intro]: "hmap_ok m \<Longrightarrow> hmap_ok (AList.delete k m)"
  by (simp add: hmap_ok_def distinct_delete)

lemma map_of_update [simp, map_simps]:
  "map_of (AList.update k v m) k' = (if k' = k then Some v else map_of m k')"
  by (simp add: update_conv')

lemma map_of_delete [simp, map_simps]:
  "map_of (AList.delete k m) k' = (if k' = k then None else map_of m k')"
  by (simp add: delete_conv')

lemma keys_update [map_simps]: "fst ` set (AList.update k v m) = insert k (fst ` set m)"
  by (auto simp: dom_update)

lemma map_of_keys_iff: "map_of m k = None \<longleftrightarrow> k \<notin> fst ` set m"
  by (simp add: map_of_eq_None_iff)

lemma length_update_new:
  "k \<notin> fst ` set m \<Longrightarrow> length (AList.update k v m) = Suc (length m)"
  by (induction m) auto

lemma length_update_old:
  "k \<in> fst ` set m \<Longrightarrow> length (AList.update k v m) = length m"
  by (induction m) auto

lemma length_update_le: "length (AList.update k v m) \<le> Suc (length m)"
  by (cases "k \<in> fst ` set m") (simp_all add: length_update_new length_update_old)

lemma length_delete_hmap:
  "hmap_ok m \<Longrightarrow> k \<in> fst ` set m \<Longrightarrow> Suc (length (AList.delete k m)) = length m"
proof (induction m)
  case Nil
  then show ?case by simp
next
  case (Cons p m)
  obtain a b where p: "p = (a, b)" by (cases p)
  show ?case
  proof (cases "a = k")
    case True
    with Cons.prems p have "k \<notin> fst ` set m" by (simp add: hmap_ok_def)
    then have "AList.delete k m = m" by (simp add: delete_id)
    with p True show ?thesis by simp
  next
    case False
    with Cons.prems p have "hmap_ok m" "k \<in> fst ` set m"
      by (auto simp: hmap_ok_def)
    with Cons.IH p False show ?thesis by simp
  qed
qed

lemma length_delete_hmap_le: "length (AList.delete k m) \<le> length m"
  by (rule length_delete_le)

section \<open>Comparators and slice sorting\<close>

text \<open>\<open>std::cmp::Ordering\<close>, \<open>Ord::cmp\<close> on totally ordered keys and \<open>Ordering::then_with\<close>.\<close>

datatype ordering = Less | Equal | Greater

definition cmp :: "'a::linorder \<Rightarrow> 'a \<Rightarrow> ordering" where
  "cmp a b = (if a < b then Less else if a = b then Equal else Greater)"

definition then_with :: "ordering \<Rightarrow> ordering \<Rightarrow> ordering" where
  "then_with a b = (if a = Equal then b else a)"

text \<open>\<open>slice::sort_by\<close>: a stable sort that never moves an element past one it equals.\<close>

fun insort_by :: "('a \<Rightarrow> 'a \<Rightarrow> ordering) \<Rightarrow> 'a \<Rightarrow> 'a list \<Rightarrow> 'a list" where
  "insort_by c x [] = [x]"
| "insort_by c x (y # ys) = (if c x y \<noteq> Greater then x # y # ys else y # insort_by c x ys)"

definition sort_by :: "('a \<Rightarrow> 'a \<Rightarrow> ordering) \<Rightarrow> 'a list \<Rightarrow> 'a list" where
  "sort_by c xs = foldr (insort_by c) xs []"

lemma mset_insort_by: "mset (insort_by c x xs) = add_mset x (mset xs)"
  by (induction xs) auto

lemma mset_sort_by [simp]: "mset (sort_by c xs) = mset xs"
  by (induction xs) (auto simp: sort_by_def mset_insort_by)

lemma set_sort_by [simp]: "set (sort_by c xs) = set xs"
  by (metis mset_sort_by set_mset_mset)

lemma length_sort_by [simp]: "length (sort_by c xs) = length xs"
  by (metis mset_sort_by size_mset)

lemma distinct_sort_by [simp]: "distinct (sort_by c xs) = distinct xs"
  by (metis mset_sort_by distinct_count_atmost_1 set_sort_by)

lemma sort_by_Nil [simp]: "sort_by c [] = []"
  by (simp add: sort_by_def)

text \<open>The contract a comparator owes to the sort: a total order without ties.\<close>

locale strict_comparator =
  fixes c :: "'a \<Rightarrow> 'a \<Rightarrow> ordering"
  assumes c_equal: "c a b = Equal \<longleftrightarrow> a = b"
    and c_swap: "c a b = Greater \<longleftrightarrow> c b a = Less"
    and c_trans: "c a b = Less \<Longrightarrow> c b d = Less \<Longrightarrow> c a d = Less"
begin

lemma less_total: "a \<noteq> b \<Longrightarrow> c a b = Less \<or> c b a = Less"
  using c_equal[of a b] c_swap[of a b] by (cases "c a b") auto

lemma less_irrefl: "c a a \<noteq> Less"
  using c_equal[of a a] by simp

lemma less_asym: "c a b = Less \<Longrightarrow> c b a \<noteq> Less"
  using c_trans[of a b a] less_irrefl[of a] by auto

lemma not_greater: "c a b \<noteq> Greater \<longleftrightarrow> c a b = Less \<or> a = b"
  using c_equal[of a b] by (cases "c a b") auto

lemma le_trans: "c a b \<noteq> Greater \<Longrightarrow> c b d \<noteq> Greater \<Longrightarrow> c a d \<noteq> Greater"
  using c_trans[of a b d] by (auto simp: not_greater)

lemma insort_by_sorted:
  "sorted_wrt (\<lambda>a b. c a b \<noteq> Greater) xs \<Longrightarrow>
   sorted_wrt (\<lambda>a b. c a b \<noteq> Greater) (insort_by c x xs)"
proof (induction xs)
  case Nil
  then show ?case by simp
next
  case (Cons y ys)
  have set_ins: "set (insort_by c x ys) = insert x (set ys)"
    by (metis mset_insort_by set_mset_mset set_mset_add_mset_insert)
  show ?case
  proof (cases "c x y = Greater")
    case True
    then have "c y x = Less" using c_swap by simp
    with Cons True show ?thesis by (auto simp: set_ins)
  next
    case False
    with Cons.prems show ?thesis using le_trans[OF False] by auto
  qed
qed

lemma sort_by_sorted: "sorted_wrt (\<lambda>a b. c a b \<noteq> Greater) (sort_by c xs)"
  by (induction xs) (auto simp: sort_by_def insort_by_sorted)

lemma sorted_unique:
  "sorted_wrt (\<lambda>a b. c a b \<noteq> Greater) xs \<Longrightarrow> sorted_wrt (\<lambda>a b. c a b \<noteq> Greater) ys
   \<Longrightarrow> distinct xs \<Longrightarrow> distinct ys \<Longrightarrow> set xs = set ys \<Longrightarrow> xs = ys"
proof (induction xs arbitrary: ys)
  case Nil
  then show ?case by simp
next
  case (Cons x xs)
  then obtain y ys' where ys: "ys = y # ys'" by (cases ys) auto
  have "x = y"
  proof (rule ccontr)
    assume ne: "x \<noteq> y"
    with Cons.prems ys have "x \<in> set ys'" "y \<in> set xs" by auto
    with Cons.prems ys have "c x y \<noteq> Greater" "c y x \<noteq> Greater" by auto
    then show False using ne not_greater less_asym by metis
  qed
  moreover have "xs = ys'"
  proof (rule Cons.IH)
    show "set xs = set ys'" using Cons.prems ys \<open>x = y\<close> by auto
  qed (use Cons.prems ys in auto)
  ultimately show ?case using ys by simp
qed

text \<open>The result depends on the set of elements only, not on the order they come in.\<close>

lemma sort_by_set_unique:
  "distinct xs \<Longrightarrow> distinct ys \<Longrightarrow> set xs = set ys \<Longrightarrow> sort_by c xs = sort_by c ys"
  by (rule sorted_unique) (auto simp: sort_by_sorted)

lemma sort_by_id: "sorted_wrt (\<lambda>a b. c a b \<noteq> Greater) xs \<Longrightarrow> distinct xs \<Longrightarrow> sort_by c xs = xs"
  by (rule sorted_unique) (auto simp: sort_by_sorted)

end

interpretation cmp_ord: strict_comparator "cmp :: 'a::linorder \<Rightarrow> 'a \<Rightarrow> ordering"
  by unfold_locales (auto simp: cmp_def split: if_splits)

section \<open>Ordered sets of a B-tree\<close>

text \<open>\<open>BTreeSet\<close> is the ascending list of its elements.\<close>

definition btree_insert :: "'a::linorder \<Rightarrow> 'a list \<Rightarrow> 'a list" where
  "btree_insert x xs = (if x \<in> set xs then xs else insort x xs)"

definition btree_remove :: "'a::linorder \<Rightarrow> 'a list \<Rightarrow> 'a list" where
  "btree_remove x xs = filter (\<lambda>y. y \<noteq> x) xs"

lemma set_btree_insert [simp]: "set (btree_insert x xs) = insert x (set xs)"
  by (auto simp: btree_insert_def set_insort_key)

lemma set_btree_remove [simp]: "set (btree_remove x xs) = set xs - {x}"
  by (auto simp: btree_remove_def)

lemma sorted_btree_insert [simp]: "sorted xs \<Longrightarrow> sorted (btree_insert x xs)"
  by (simp add: btree_insert_def sorted_insort)

lemma sorted_btree_remove [simp]: "sorted xs \<Longrightarrow> sorted (btree_remove x xs)"
  by (simp add: btree_remove_def sorted_wrt_filter)

lemma distinct_btree_insert [simp]: "distinct xs \<Longrightarrow> distinct (btree_insert x xs)"
  by (simp add: btree_insert_def distinct_insort)

lemma distinct_btree_remove [simp]: "distinct xs \<Longrightarrow> distinct (btree_remove x xs)"
  by (simp add: btree_remove_def)

section \<open>Machine arithmetic\<close>

definition saturating_add :: "'a::len word \<Rightarrow> 'a word \<Rightarrow> 'a word" where
  "saturating_add a b = (if unat a + unat b < 2 ^ LENGTH('a) then a + b else - 1)"

definition saturating_sub :: "'a::len word \<Rightarrow> 'a word \<Rightarrow> 'a word" where
  "saturating_sub a b = (if b \<le> a then a - b else 0)"

definition saturating_mul :: "'a::len word \<Rightarrow> 'a word \<Rightarrow> 'a word" where
  "saturating_mul a b = (if unat a * unat b < 2 ^ LENGTH('a) then a * b else - 1)"

definition checked_add :: "'a::len word \<Rightarrow> 'a word \<Rightarrow> 'a word option" where
  "checked_add a b = (if unat a + unat b < 2 ^ LENGTH('a) then Some (a + b) else None)"

text \<open>The same two operations without leaving the word: the sum has wrapped when it is below a summand.\<close>

lemma saturating_add_code [code]:
  "saturating_add a b = (if a + b < a then - 1 else (a + b :: 'a::len word))"
  by (auto simp: saturating_add_def no_olen_add_nat[symmetric])

lemma saturating_mul_code [code]:
  "saturating_mul a b = (if uint a * uint b < 2 ^ LENGTH('a) then a * b else (- 1 :: 'a::len word))"
proof -
  have "uint a * uint b < 2 ^ LENGTH('a) \<longleftrightarrow> unat a * unat b < 2 ^ LENGTH('a)"
    unfolding uint_nat of_nat_mult[symmetric] by (rule of_nat_less_numeral_power_cancel_iff)
  then show ?thesis by (simp add: saturating_mul_def)
qed

lemma checked_add_code [code]:
  "checked_add a b = (if a + b < a then None else Some (a + b :: 'a::len word))"
  by (simp add: checked_add_def no_olen_add_nat[symmetric] linorder_not_less)

lemma unat_max_word: "unat (- 1 :: 'a::len word) = 2 ^ LENGTH('a) - 1"
  by (simp add: unsigned_minus_1_eq_mask mask_eq_exp_minus_1)

lemma unat_saturating_add [word_nat]:
  "unat (saturating_add a (b :: 'a::len word)) = min (unat a + unat b) (2 ^ LENGTH('a) - 1)"
proof (cases "unat a + unat b < 2 ^ LENGTH('a)")
  case True
  then have "unat (a + b) = unat a + unat b" by (simp add: unat_word_ariths)
  with True show ?thesis by (simp add: saturating_add_def)
next
  case False
  then show ?thesis by (simp add: saturating_add_def unat_max_word)
qed

lemma saturating_add_ge: "a \<le> saturating_add a (b :: 'a::len word)"
proof -
  have "unat a < 2 ^ LENGTH('a)" by (rule unsigned_less)
  then have "unat a \<le> 2 ^ LENGTH('a) - 1" by linarith
  then show ?thesis by (simp add: word_le_nat_alt word_nat)
qed

lemma saturating_add_mono: "a \<le> a' \<Longrightarrow> saturating_add a b \<le> saturating_add a' b"
  by (simp add: word_le_nat_alt word_nat)

lemma unat_saturating_sub [word_nat]: "unat (saturating_sub a b) = unat a - unat b"
  by (auto simp: saturating_sub_def unat_sub word_le_nat_alt)

lemma unat_saturating_mul [word_nat]:
  "unat (saturating_mul a (b :: 'a::len word)) = min (unat a * unat b) (2 ^ LENGTH('a) - 1)"
proof (cases "unat a * unat b < 2 ^ LENGTH('a)")
  case True
  then have "unat (a * b) = unat a * unat b" by (simp add: unat_word_ariths)
  with True show ?thesis by (simp add: saturating_mul_def)
next
  case False
  then show ?thesis by (simp add: saturating_mul_def unat_max_word)
qed

lemma checked_add_Some: "checked_add a b = Some r \<Longrightarrow> unat r = unat a + unat b"
  by (auto simp: checked_add_def unat_word_ariths split: if_splits)

text \<open>Truncating signed division of Rust; the divisor is never zero where it is used.\<close>

definition trunc_div :: "int \<Rightarrow> int \<Rightarrow> int" where
  "trunc_div a b = (if (a < 0) = (b < 0) then \<bar>a\<bar> div \<bar>b\<bar> else - (\<bar>a\<bar> div \<bar>b\<bar>))"

lemma trunc_div_nonneg: "0 \<le> a \<Longrightarrow> 0 < b \<Longrightarrow> trunc_div a b = a div b"
  by (simp add: trunc_div_def)

lemma trunc_div_neg: "a < 0 \<Longrightarrow> 0 < b \<Longrightarrow> trunc_div a b = - ((- a) div b)"
  by (simp add: trunc_div_def)

lemma trunc_div_mono:
  assumes "a \<le> a'" and "0 < b"
  shows "trunc_div a b \<le> trunc_div a' b"
proof -
  consider "0 \<le> a" | "a < 0" "0 \<le> a'" | "a' < 0" using assms by linarith
  then show ?thesis
  proof cases
    case 1
    with assms show ?thesis by (simp add: trunc_div_nonneg zdiv_mono1)
  next
    case 2
    then have "trunc_div a b \<le> 0" "0 \<le> trunc_div a' b"
      using assms by (simp_all add: trunc_div_neg trunc_div_nonneg pos_imp_zdiv_nonneg_iff)
    then show ?thesis by simp
  next
    case 3
    with assms show ?thesis by (simp add: trunc_div_neg zdiv_mono1)
  qed
qed

section \<open>Bit lengths\<close>

fun bit_len :: "nat \<Rightarrow> nat" where
  "bit_len n = (if n = 0 then 0 else Suc (bit_len (n div 2)))"

declare bit_len.simps [simp del]

lemma bit_len_0 [simp]: "bit_len 0 = 0"
  by (simp add: bit_len.simps)

lemma bit_len_pos: "0 < n \<Longrightarrow> bit_len n = Suc (bit_len (n div 2))"
  by (simp add: bit_len.simps)

lemma bit_len_upper: "n < 2 ^ bit_len n"
proof (induction n rule: bit_len.induct)
  case (1 n)
  then show ?case by (cases "n = 0") (auto simp: bit_len_pos)
qed

lemma bit_len_lower: "0 < n \<Longrightarrow> 2 ^ (bit_len n - 1) \<le> n"
proof (induction n rule: bit_len.induct)
  case (1 n)
  show ?case
  proof (cases "n div 2 = 0")
    case True
    with "1.prems" have "n = 1" by simp
    then show ?thesis by (simp add: bit_len.simps)
  next
    case False
    then have "2 ^ (bit_len (n div 2) - 1) \<le> n div 2" using 1 by simp
    moreover have "bit_len (n div 2) \<noteq> 0" using False by (simp add: bit_len.simps)
    then have "bit_len n - 1 = Suc (bit_len (n div 2) - 1)"
      using "1.prems" by (simp add: bit_len_pos)
    ultimately show ?thesis by simp
  qed
qed

lemma bit_len_le: "n < 2 ^ k \<Longrightarrow> bit_len n \<le> k"
proof (cases "n = 0")
  case False
  assume "n < 2 ^ k"
  then have "(2::nat) ^ (bit_len n - 1) < 2 ^ k" using bit_len_lower[of n] False by linarith
  then have "bit_len n - 1 < k" by (rule power_less_imp_less_exp[rotated]) simp
  then show ?thesis by simp
qed simp

lemma bit_len_ge: "2 ^ k \<le> n \<Longrightarrow> Suc k \<le> bit_len n"
proof (rule ccontr)
  assume a: "2 ^ k \<le> n" and "\<not> Suc k \<le> bit_len n"
  then have "bit_len n \<le> k" by simp
  then have "(2::nat) ^ bit_len n \<le> 2 ^ k" by simp
  with a bit_len_upper[of n] show False by linarith
qed

lemma bit_len_unique: "2 ^ k \<le> n \<Longrightarrow> n < 2 ^ Suc k \<Longrightarrow> bit_len n = Suc k"
  using bit_len_ge[of k n] bit_len_le[of n "Suc k"] by simp

lemma bit_len_mono: "m \<le> n \<Longrightarrow> bit_len m \<le> bit_len n"
  using bit_len_upper[of n] by (intro bit_len_le) simp

text \<open>\<open>U256::leading_zeros\<close>.\<close>

definition leading_zeros :: "'a::len word \<Rightarrow> nat" where
  "leading_zeros w = LENGTH('a) - bit_len (unat w)"

lemma bit_len_word: "bit_len (unat (w :: 'a::len word)) \<le> LENGTH('a)"
  by (rule bit_len_le) (rule unsigned_less)

lemma unat_push_bit [word_nat]:
  "unat (w :: 'a::len word) * 2 ^ n < 2 ^ LENGTH('a) \<Longrightarrow> unat (push_bit n w) = unat w * 2 ^ n"
  by (simp add: unsigned_push_bit_eq push_bit_eq_mult[where 'a=nat] take_bit_nat_eq_self del: push_bit_eq_mult)

lemma unat_drop_bit [word_nat]: "unat (drop_bit n w) = unat w div 2 ^ n"
  by (metis drop_bit_eq_div unat_drop_bit_eq)

section \<open>Lists\<close>

lemma foldl_invariant:
  assumes "P a" and "\<And>a x. x \<in> set xs \<Longrightarrow> P a \<Longrightarrow> P (f a x)"
  shows "P (foldl f a xs)"
  using assms by (induction xs arbitrary: a) auto

lemma fold_invariant_set:
  assumes "P a" and "\<And>a x. x \<in> set xs \<Longrightarrow> P a \<Longrightarrow> P (f x a)"
  shows "P (fold f xs a)"
  using assms by (induction xs arbitrary: a) auto

end
