(* ===== verification/Header.thy ===== *)
theory Header
  imports Chain_Prelude
begin

text \<open>
  Block headers (\<open>crates/primitives/src/header.rs\<close>): the record, and structural validation. The
  RLP encoding and Keccak are third-party: a header's identity is a parameter
  \<open>hash :: header \<Rightarrow> block_hash\<close> of the definitions that need it. The \<open>txs_root\<close> and \<open>deferred_*\<close>
  roots are 256-bit values, addresses are 160-bit values, and both are ordered as their
  big-endian bytes are.
\<close>

record header =
  h_version :: u16
  h_parents :: "block_hash list"
  h_timestamp_ms :: u64
  h_bits :: u32
  h_nonce :: u64
  h_miner :: address
  h_txs_root :: u256
  h_deferred_height :: u64
  h_deferred_state_root :: u256
  h_deferred_receipts_root :: u256
  h_deferred_gas_used :: u64

definition HEADER_VERSION :: u16 where "HEADER_VERSION = 1"

datatype header_error = UnknownVersion u16 | NoParents | ParentsNotStrictlyAscending

text \<open>The loop over \<open>parents.windows(2)\<close>: true when some window is not ascending.\<close>

fun bad_window :: "block_hash list \<Rightarrow> bool" where
  "bad_window (a # b # xs) = (if a \<ge> b then True else bad_window (b # xs))"
| "bad_window _ = False"

definition validate_structure :: "header \<Rightarrow> header_error + unit" where
  "validate_structure h =
     (if h_version h \<noteq> HEADER_VERSION then Inl (UnknownVersion (h_version h))
      else if h_parents h = [] then Inl NoParents
      else if bad_window (h_parents h) then Inl ParentsNotStrictlyAscending
      else Inr ())"

lemma bad_window_iff: "\<not> bad_window xs \<longleftrightarrow> sorted_wrt (<) xs"
proof (induction xs rule: bad_window.induct)
  case (1 a b xs)
  then show ?case by (auto simp: not_le)
qed auto

lemma validate_structure_ok_iff:
  "validate_structure h = Inr () \<longleftrightarrow>
     h_version h = HEADER_VERSION \<and> h_parents h \<noteq> [] \<and> sorted_wrt (<) (h_parents h)"
  unfolding validate_structure_def bad_window_iff[symmetric] by simp

text \<open>
  Structural validation accepts exactly the headers of the current version with a non-empty,
  strictly ascending parent list, and therefore a given set of parents has exactly one accepted
  encoding: the parent list is not malleable.
\<close>

theorem validate_structure_canonical:
  "(validate_structure h = Inr () \<longleftrightarrow>
      h_version h = HEADER_VERSION \<and> h_parents h \<noteq> [] \<and> sorted_wrt (<) (h_parents h)) \<and>
   (validate_structure h = Inr () \<longrightarrow> validate_structure g = Inr () \<longrightarrow>
      set (h_parents h) = set (h_parents g) \<longrightarrow> h_parents h = h_parents g)"
proof (intro conjI impI)
  assume a: "validate_structure h = Inr ()" "validate_structure g = Inr ()"
    "set (h_parents h) = set (h_parents g)"
  then show "h_parents h = h_parents g"
    by (auto simp: validate_structure_ok_iff intro: strict_sorted_equal)
qed (rule validate_structure_ok_iff)

text \<open>A header used by the concrete examples of the development.\<close>

definition blank_header :: header where
  "blank_header = \<lparr>h_version = 1, h_parents = [], h_timestamp_ms = 0, h_bits = 0x207fffff, h_nonce = 0,
     h_miner = 0, h_txs_root = 0, h_deferred_height = 0, h_deferred_state_root = 0,
     h_deferred_receipts_root = 0, h_deferred_gas_used = 0\<rparr>"

theorem validate_structure_canonical_witness:
  "validate_structure (blank_header\<lparr>h_parents := [1, 2]\<rparr>) = Inr () \<and>
   validate_structure (blank_header\<lparr>h_parents := [2, 1]\<rparr>) \<noteq> Inr ()"
  using validate_structure_canonical[of "blank_header\<lparr>h_parents := [1, 2]\<rparr>" blank_header]
    validate_structure_canonical[of "blank_header\<lparr>h_parents := [2, 1]\<rparr>" blank_header]
  by (simp add: blank_header_def HEADER_VERSION_def)

end
