(* ===== verification/Compact.thy ===== *)
theory Compact
  imports Chain_Prelude
begin

text \<open>
  Compact difficulty targets (\<open>crates/difficulty/src/compact.rs\<close>): the \<open>nBits\<close> codec on 256-bit
  words, its errors, and the lemmas that relate it to arithmetic on naturals.
\<close>

section \<open>The codec\<close>

definition MANTISSA_BYTES :: nat where "MANTISSA_BYTES = 3"
definition MANTISSA_SIGN_BIT :: u32 where "MANTISSA_SIGN_BIT = 0x00800000"
definition MANTISSA_MASK :: u32 where "MANTISSA_MASK = 0x007fffff"

datatype compact_error = NegativeTarget u32 | ZeroTarget u32 | Overflow u32

text \<open>\<open>CompactTarget\<close> is a newtype over its \<open>bits\<close>; the word itself stands for it.\<close>

type_synonym compact_target = u32

definition to_target :: "compact_target \<Rightarrow> compact_error + u256" where
  "to_target c =
     (let exponent = unat (drop_bit 24 c); mantissa = c AND 0x00ffffff in
      if mantissa AND MANTISSA_SIGN_BIT \<noteq> 0 then Inl (NegativeTarget c)
      else if mantissa = 0 then Inl (ZeroTarget c)
      else if exponent \<le> MANTISSA_BYTES then
        (let shift = 8 * (MANTISSA_BYTES - exponent); shifted = drop_bit shift mantissa in
         if shifted = 0 then Inl (ZeroTarget c) else Inr (ucast shifted))
      else
        (let shift = 8 * (exponent - MANTISSA_BYTES) in
         if shift \<ge> 256 then Inl (Overflow c)
         else let target = (ucast mantissa :: u256) in
           if leading_zeros target < shift then Inl (Overflow c)
           else Inr (push_bit shift target)))"

text \<open>
  \<open>(x).to::<u32>()\<close> of \<open>U256\<close> panics when the value does not fit; \<open>narrow32\<close> is its option form.
  The byte count conversion \<open>u32::try_from(..).expect(..)\<close> is on a number of at most 32.
\<close>

definition narrow32 :: "u256 \<Rightarrow> u32 option" where
  "narrow32 w = (if unat w < 2 ^ 32 then Some (ucast w) else None)"

definition from_target_checked :: "u256 \<Rightarrow> compact_target option" where
  "from_target_checked target =
     (if target = 0 then Some 0
      else
        (let bits = 256 - leading_zeros target;
             exponent = (bits + 7) div 8;
             narrowed =
               (if exponent \<le> MANTISSA_BYTES
                then narrow32 (push_bit (8 * (MANTISSA_BYTES - exponent)) target)
                else narrow32 (drop_bit (8 * (exponent - MANTISSA_BYTES)) target))
         in case narrowed of None \<Rightarrow> None
            | Some n \<Rightarrow>
                (let m = n AND 0x00ffffff;
                     (mantissa, e) = (if m AND MANTISSA_SIGN_BIT \<noteq> 0
                                      then (drop_bit 8 m, exponent + 1) else (m, exponent))
                 in Some (push_bit 24 (of_nat e) OR (mantissa AND MANTISSA_MASK)))))"

text \<open>\<open>from_target\<close> itself; \<open>from_target_total\<close> below shows the default is never taken.\<close>

definition from_target :: "u256 \<Rightarrow> compact_target" where
  "from_target target = (case from_target_checked target of Some c \<Rightarrow> c | None \<Rightarrow> 0)"

section \<open>The codec on naturals\<close>

lemma and_24: "unat (c AND 0x00ffffff :: u32) = unat c mod 2 ^ 24"
proof -
  have "(0x00ffffff :: u32) = mask 24" by (simp add: mask_eq_exp_minus_1)
  then have "c AND 0x00ffffff = take_bit 24 c" by (simp only: take_bit_eq_mask)
  then show ?thesis by (metis take_bit_eq_mod unsigned_take_bit_eq)
qed

lemma and_23: "unat (c AND MANTISSA_MASK) = unat c mod 2 ^ 23"
proof -
  have "MANTISSA_MASK = mask 23" by (simp add: mask_eq_exp_minus_1 MANTISSA_MASK_def)
  then have "c AND MANTISSA_MASK = take_bit 23 c" by (simp only: take_bit_eq_mask)
  then show ?thesis by (metis take_bit_eq_mod unsigned_take_bit_eq)
qed

lemma sign_bit_clear:
  assumes "unat (m :: u32) < 2 ^ 24"
  shows "m AND MANTISSA_SIGN_BIT = 0 \<longleftrightarrow> unat m < 2 ^ 23"
proof -
  have "MANTISSA_SIGN_BIT = 2 ^ 23" by (simp add: MANTISSA_SIGN_BIT_def)
  then have "m AND MANTISSA_SIGN_BIT = 0 \<longleftrightarrow> \<not> bit m 23"
    by (metis and_exp_eq_0_iff_not_bit)
  also have "bit m 23 = bit (unat m) 23" by (simp add: bit_unsigned_iff)
  also have "\<dots> = odd (unat m div 2 ^ 23)" by (simp add: bit_iff_odd)
  also have "\<dots> = (\<not> unat m < 2 ^ 23)"
  proof (cases "unat m < 2 ^ 23")
    case False
    then have "unat m div 2 ^ 23 = 1" using assms by (intro div_nat_eqI) simp_all
    with False show ?thesis by simp
  qed simp
  finally show ?thesis by simp
qed

text \<open>
  \<open>expo n\<close> and \<open>mant n\<close> are the exponent and mantissa that encoding a non-zero target
  \<open>n\<close> arrives at, and \<open>rounded n\<close> is the target the encoding stands for.
\<close>

definition expo :: "nat \<Rightarrow> nat" where "expo n = bit_len n div 8 + 1"

definition mant :: "nat \<Rightarrow> nat" where
  "mant n = (if expo n \<le> 3 then n * 2 ^ (8 * (3 - expo n)) else n div 2 ^ (8 * (expo n - 3)))"

definition rounded :: "nat \<Rightarrow> nat" where
  "rounded n = n div 2 ^ (8 * (expo n - 3)) * 2 ^ (8 * (expo n - 3))"

lemma power_mult_diff: "(i::nat) \<le> j \<Longrightarrow> (2::nat) ^ i * 2 ^ (j - i) = 2 ^ j"
  by (simp flip: power_add)

lemma mant_bounds:
  assumes "0 < n"
  shows "2 ^ 15 \<le> mant n" and "mant n < 2 ^ 23"
proof -
  define L q where "L = bit_len n" and "q = L div 8"
  have lo: "2 ^ (L - 1) \<le> n" and hi: "n < 2 ^ L"
    using bit_len_lower[OF assms] bit_len_upper[of n] by (simp_all add: L_def)
  have L: "8 * q \<le> L" "L \<le> 8 * q + 7" by (simp_all add: q_def)
  have "0 < L" using assms by (simp add: L_def bit_len_pos)
  have e: "expo n = q + 1" by (simp add: expo_def L_def q_def)
  have lo': "2 ^ (8 * q - 1) \<le> n" using lo L by (meson diff_le_mono le_trans power_increasing one_le_numeral)
  have hi': "n < 2 ^ (8 * q + 7)" using hi L by (meson less_le_trans power_increasing one_le_numeral)
  show "mant n < 2 ^ 23"
  proof (cases "q \<le> 2")
    case True
    have "n * 2 ^ (8 * (2 - q)) < 2 ^ (8 * q + 7) * 2 ^ (8 * (2 - q))" using hi' by simp
    also have "\<dots> = 2 ^ (8 * q + 7 + 8 * (2 - q))" by (simp only: power_add)
    also have "8 * q + 7 + 8 * (2 - q) = 23" using True by simp
    finally show ?thesis using True by (simp add: mant_def e)
  next
    case False
    have "n < 2 ^ 23 * 2 ^ (8 * (q - 2))"
    proof -
      have "8 * q + 7 = 23 + 8 * (q - 2)" using False by simp
      then have "(2::nat) ^ (8 * q + 7) = 2 ^ 23 * 2 ^ (8 * (q - 2))" by (metis power_add)
      then show ?thesis using hi' by simp
    qed
    then have "n div 2 ^ (8 * (q - 2)) < 2 ^ 23" by (simp add: less_mult_imp_div_less)
    then show ?thesis using False by (simp add: mant_def e)
  qed
  show "2 ^ 15 \<le> mant n"
  proof (cases "q \<le> 2")
    case True
    show ?thesis
    proof (cases "q = 0")
      case True
      then show ?thesis using assms by (simp add: mant_def e)
    next
      case False
      have "(2::nat) ^ 15 = 2 ^ (8 * q - 1) * 2 ^ (8 * (2 - q))"
      proof -
        have "8 * q - 1 + 8 * (2 - q) = 15" using True False by simp
        then show ?thesis by (metis power_add)
      qed
      also have "\<dots> \<le> n * 2 ^ (8 * (2 - q))" using lo' by simp
      finally show ?thesis using True by (simp add: mant_def e)
    qed
  next
    case False
    have "(2::nat) ^ (8 * q - 1) = 2 ^ 15 * 2 ^ (8 * (q - 2))"
    proof -
      have "8 * q - 1 = 15 + 8 * (q - 2)" using False by simp
      then show ?thesis by (metis power_add)
    qed
    then have "2 ^ 15 * 2 ^ (8 * (q - 2)) \<le> n" using lo' by simp
    then have "2 ^ 15 \<le> n div 2 ^ (8 * (q - 2))" by (simp add: less_eq_div_iff_mult_less_eq)
    then show ?thesis using False by (simp add: mant_def e)
  qed
qed

lemma expo_bound: "n < 2 ^ 256 \<Longrightarrow> expo n \<le> 33"
  using bit_len_le[of n 256] by (simp add: expo_def)

lemma encode_cases:
  fixes n :: nat
  defines "e0 \<equiv> (bit_len n + 7) div 8"
  defines "m0 \<equiv> (if e0 \<le> 3 then n * 2 ^ (8 * (3 - e0)) else n div 2 ^ (8 * (e0 - 3)))"
  assumes "0 < n"
  shows "m0 < 2 ^ 24"
    and "m0 < 2 ^ 23 \<Longrightarrow> e0 = expo n \<and> m0 = mant n"
    and "2 ^ 23 \<le> m0 \<Longrightarrow> e0 + 1 = expo n \<and> m0 div 2 ^ 8 = mant n"
proof -
  define L q where "L = bit_len n" and "q = L div 8"
  have lo: "2 ^ (L - 1) \<le> n" and hi: "n < 2 ^ L"
    using bit_len_lower[OF assms(3)] bit_len_upper[of n] by (simp_all add: L_def)
  have "0 < L" using assms(3) by (simp add: L_def bit_len_pos)
  have e: "expo n = q + 1" by (simp add: expo_def L_def q_def)
  have "m0 < 2 ^ 24 \<and> (m0 < 2 ^ 23 \<longrightarrow> e0 = expo n \<and> m0 = mant n)
        \<and> (2 ^ 23 \<le> m0 \<longrightarrow> e0 + 1 = expo n \<and> m0 div 2 ^ 8 = mant n)"
  proof (cases "L mod 8 = 0")
    case False
    then have "e0 = expo n" by (simp add: e0_def e q_def L_def) presburger
    then have "m0 = mant n" by (simp add: m0_def mant_def)
    with mant_bounds(2)[OF assms(3)] \<open>e0 = expo n\<close> show ?thesis by simp
  next
    case True
    then have Lq: "L = 8 * q" by (auto simp: q_def)
    with \<open>0 < L\<close> have "0 < q" by simp
    have e0: "e0 = q" using Lq by (simp add: e0_def L_def)
    show ?thesis
    proof (cases "q \<le> 3")
      case small: True
      have m0: "m0 = n * 2 ^ (8 * (3 - q))" using small by (simp add: m0_def e0)
      have "(2::nat) ^ (L - 1) * 2 ^ (8 * (3 - q)) = 2 ^ 23"
      proof -
        have "L - 1 + 8 * (3 - q) = 23" using small Lq \<open>0 < q\<close> by simp
        then show ?thesis by (metis power_add)
      qed
      then have lo0: "2 ^ 23 \<le> m0" using lo by (metis m0 mult_le_mono1)
      have "(2::nat) ^ L * 2 ^ (8 * (3 - q)) = 2 ^ 24"
      proof -
        have "L + 8 * (3 - q) = 24" using small Lq \<open>0 < q\<close> by simp
        then show ?thesis by (metis power_add)
      qed
      then have hi0: "m0 < 2 ^ 24" using hi m0 by (metis mult_less_mono1 zero_less_numeral zero_less_power)
      have "m0 div 2 ^ 8 = mant n"
      proof (cases "q = 3")
        case True
        then show ?thesis by (simp add: m0 mant_def e)
      next
        case False
        then have "8 * (3 - q) = 8 + 8 * (2 - q)" using small by simp
        then have "m0 = 2 ^ 8 * (n * 2 ^ (8 * (2 - q)))" by (simp only: m0 power_add mult_ac)
        then show ?thesis using False small by (simp add: mant_def e)
      qed
      with lo0 hi0 e e0 show ?thesis by simp
    next
      case big: False
      have m0: "m0 = n div 2 ^ (8 * (q - 3))" using big by (simp add: m0_def e0)
      have "(2::nat) ^ (L - 1) = 2 ^ 23 * 2 ^ (8 * (q - 3))"
      proof -
        have "L - 1 = 23 + 8 * (q - 3)" using big Lq by simp
        then show ?thesis by (metis power_add)
      qed
      then have lo0: "2 ^ 23 \<le> m0" using lo by (simp add: m0 less_eq_div_iff_mult_less_eq)
      have "(2::nat) ^ L = 2 ^ 24 * 2 ^ (8 * (q - 3))"
      proof -
        have "L = 24 + 8 * (q - 3)" using big Lq by simp
        then show ?thesis by (metis power_add)
      qed
      then have hi0: "m0 < 2 ^ 24" using hi by (simp add: m0 less_mult_imp_div_less)
      have "(2::nat) ^ (8 * (q - 3)) * 2 ^ 8 = 2 ^ (8 * (q - 2))"
      proof -
        have "8 * (q - 3) + 8 = 8 * (q - 2)" using big by simp
        then show ?thesis by (metis power_add)
      qed
      then have "m0 div 2 ^ 8 = mant n" using big by (simp add: m0 mant_def e div_mult2_eq[symmetric])
      with lo0 hi0 e e0 show ?thesis by simp
    qed
  qed
  then show "m0 < 2 ^ 24" "m0 < 2 ^ 23 \<Longrightarrow> e0 = expo n \<and> m0 = mant n"
    "2 ^ 23 \<le> m0 \<Longrightarrow> e0 + 1 = expo n \<and> m0 div 2 ^ 8 = mant n" by blast+
qed

lemma assemble:
  assumes "e \<le> 33" and "unat (m :: u32) < 2 ^ 23"
  shows "unat (push_bit 24 (of_nat e) OR (m AND MANTISSA_MASK) :: u32) = e * 2 ^ 24 + unat m"
proof -
  have e: "unat (of_nat e :: u32) = e" using assms(1) by (simp add: unat_of_nat)
  have p: "unat (push_bit 24 (of_nat e) :: u32) = e * 2 ^ 24"
    using assms(1) by (subst unat_push_bit) (simp_all add: e)
  have mm: "m AND MANTISSA_MASK = m"
    using and_23[of m] assms(2) by (metis mod_less word_unat_eq_iff)
  have "push_bit 24 (of_nat e :: u32) AND m = 0"
  proof (rule bit_eqI)
    fix i
    have "\<not> bit m i" if "24 \<le> i"
    proof -
      have "(2::nat) ^ 23 \<le> 2 ^ i" using that by (intro power_increasing) auto
      then have "unat m < 2 ^ i" using assms(2) by linarith
      then have "\<not> bit (unat m) i" by (simp add: bit_iff_odd)
      then show ?thesis by (simp add: bit_unsigned_iff)
    qed
    then show "bit (push_bit 24 (of_nat e :: u32) AND m) i = bit (0 :: u32) i"
      by (auto simp: bit_and_iff bit_push_bit_iff)
  qed
  then have "push_bit 24 (of_nat e) OR m = push_bit 24 (of_nat e) + m"
    by (metis disjunctive_add_eq_or)
  moreover have "unat (push_bit 24 (of_nat e) + m) = e * 2 ^ 24 + unat m"
    using assms by (subst unat_word_ariths) (simp add: p del: unat_push_bit)
  ultimately show ?thesis by (simp add: mm)
qed

lemma from_target_nat:
  assumes "t \<noteq> 0"
  shows "from_target_checked t = Some (from_target t)"
    and "unat (from_target t) = expo (unat t) * 2 ^ 24 + mant (unat t)"
proof -
  define n where "n = unat t"
  have n0: "0 < n" using assms by (simp add: n_def unat_gt_0)
  have nlt: "n < 2 ^ 256" unfolding n_def using unsigned_less[of t] by simp
  define e0 where "e0 = (bit_len n + 7) div 8"
  define m0 where "m0 = (if e0 \<le> 3 then n * 2 ^ (8 * (3 - e0)) else n div 2 ^ (8 * (e0 - 3)))"
  note ec = encode_cases[OF n0, folded e0_def, folded m0_def]
  have bl: "bit_len n \<le> 256" using bit_len_le[OF nlt] .
  have bits: "256 - leading_zeros t = bit_len n"
    using bl by (simp add: leading_zeros_def n_def)
  define w where "w = (if e0 \<le> MANTISSA_BYTES then push_bit (8 * (MANTISSA_BYTES - e0)) t
                       else drop_bit (8 * (e0 - MANTISSA_BYTES)) t)"
  have w: "unat w = m0"
  proof (cases "e0 \<le> 3")
    case True
    then have "unat t * 2 ^ (8 * (3 - e0)) < 2 ^ LENGTH(256)" using ec(1) by (simp add: m0_def n_def)
    with True show ?thesis by (simp add: w_def m0_def MANTISSA_BYTES_def unat_push_bit n_def)
  next
    case False
    then show ?thesis by (simp add: w_def m0_def MANTISSA_BYTES_def Chain_Prelude.unat_drop_bit n_def)
  qed
  define nw where "nw = (ucast w :: u32)"
  have nw: "unat nw = m0" using ec(1) w by (simp add: nw_def unsigned_ucast_eq take_bit_eq_mod)
  have m: "unat (nw AND 0x00ffffff) = m0" using ec(1) by (simp add: and_24 nw)
  have narrowed: "(if e0 \<le> MANTISSA_BYTES then narrow32 (push_bit (8 * (MANTISSA_BYTES - e0)) t)
      else narrow32 (drop_bit (8 * (e0 - MANTISSA_BYTES)) t)) = Some nw"
    using w ec(1) by (auto simp: narrow32_def w_def nw_def split: if_splits)
  have sg: "(nw AND 0x00ffffff) AND MANTISSA_SIGN_BIT = 0 \<longleftrightarrow> m0 < 2 ^ 23"
    using sign_bit_clear[of "nw AND 0x00ffffff"] ec(1) by (simp only: m)
  define me where "me = (if (nw AND 0x00ffffff) AND MANTISSA_SIGN_BIT \<noteq> 0
       then (drop_bit 8 (nw AND 0x00ffffff), e0 + 1) else (nw AND 0x00ffffff, e0))"
  have "unat (drop_bit 8 (nw AND 0x00ffffff)) = m0 div 2 ^ 8"
    by (simp only: Chain_Prelude.unat_drop_bit m)
  then have me: "unat (fst me) = mant n" "snd me = expo n"
    using ec(2,3) sg m by (cases "m0 < 2 ^ 23"; simp only: me_def if_True if_False fst_conv snd_conv not_less simp_thms)+
  have eq: "from_target_checked t = Some (push_bit 24 (of_nat (snd me)) OR (fst me AND MANTISSA_MASK))"
    using assms unfolding from_target_checked_def Let_def bits e0_def[symmetric] narrowed
    by (simp add: me_def[symmetric] case_prod_beta)
  then show "from_target_checked t = Some (from_target t)" by (simp add: from_target_def)
  have "from_target t = push_bit 24 (of_nat (snd me)) OR (fst me AND MANTISSA_MASK)"
    using eq by (simp add: from_target_def)
  then show "unat (from_target t) = expo (unat t) * 2 ^ 24 + mant (unat t)"
    using assemble[of "snd me" "fst me"] me mant_bounds(2)[OF n0] expo_bound[OF nlt]
    by (simp add: n_def)
qed

lemma overflow_iff:
  assumes "0 < m" and "s < 256" and that: "bit_len m \<le> 256"
  shows "256 - bit_len m < s \<longleftrightarrow> 2 ^ 256 \<le> m * 2 ^ s"
proof
  assume "256 - bit_len m < s"
  then have "256 \<le> bit_len m - 1 + s" using that by simp
  then have "(2::nat) ^ 256 \<le> 2 ^ (bit_len m - 1 + s)" by (intro power_increasing) auto
  also have "\<dots> \<le> m * 2 ^ s" using bit_len_lower[OF assms(1)] by (simp add: power_add)
  finally show "2 ^ 256 \<le> m * 2 ^ s" .
next
  assume a: "2 ^ 256 \<le> m * 2 ^ s"
  show "256 - bit_len m < s"
  proof (rule ccontr)
    assume "\<not> 256 - bit_len m < s"
    then have "bit_len m + s \<le> 256" using that assms(2) by simp
    then have "(2::nat) ^ (bit_len m + s) \<le> 2 ^ 256" by (intro power_increasing) auto
    moreover have "m * 2 ^ s < 2 ^ (bit_len m + s)" using bit_len_upper[of m] by (simp add: power_add)
    ultimately show False using a by linarith
  qed
qed

text \<open>What a compact value decodes to, on naturals.\<close>

definition decodes :: "nat \<Rightarrow> nat \<Rightarrow> nat \<Rightarrow> bool" where
  "decodes e m t \<longleftrightarrow> 0 < t \<and> m < 2 ^ 23 \<and>
     (if e \<le> 3 then t = m div 2 ^ (8 * (3 - e)) else t = m * 2 ^ (8 * (e - 3)) \<and> t < 2 ^ 256)"

lemma to_target_nat:
  "to_target c = Inr t \<longleftrightarrow> decodes (unat c div 2 ^ 24) (unat c mod 2 ^ 24) (unat t)"
proof -
  define e m where "e = unat (drop_bit 24 c)" and "m = c AND 0x00ffffff"
  have e: "unat c div 2 ^ 24 = e" by (simp only: e_def Chain_Prelude.unat_drop_bit)
  have m: "unat m = unat c mod 2 ^ 24" by (simp only: m_def and_24)
  have m24: "unat m < 2 ^ 24" by (simp only: m) simp
  have tt: "to_target c =
      (if m AND MANTISSA_SIGN_BIT \<noteq> 0 then Inl (NegativeTarget c)
       else if m = 0 then Inl (ZeroTarget c)
       else if e \<le> 3 then
        (if drop_bit (8 * (3 - e)) m = 0 then Inl (ZeroTarget c) else Inr (ucast (drop_bit (8 * (3 - e)) m)))
       else if 8 * (e - 3) \<ge> 256 then Inl (Overflow c)
       else if leading_zeros (ucast m :: u256) < 8 * (e - 3) then Inl (Overflow c)
       else Inr (push_bit (8 * (e - 3)) (ucast m)))"
    by (simp only: to_target_def Let_def e_def m_def MANTISSA_BYTES_def)
  have um: "unat (ucast m :: u256) = unat m"
    using m24 by (simp add: unsigned_ucast_eq take_bit_eq_mod)
  consider (neg) "2 ^ 23 \<le> unat m" | (zero) "unat m = 0"
    | (small) "0 < unat m" "unat m < 2 ^ 23" "e \<le> 3"
    | (big) "0 < unat m" "unat m < 2 ^ 23" "\<not> e \<le> 3" by linarith
  then have "to_target c = Inr t \<longleftrightarrow> decodes e (unat m) (unat t)"
  proof cases
    case neg
    then show ?thesis using sign_bit_clear[OF m24] by (simp add: tt decodes_def)
  next
    case zero
    then have "m = 0" by (simp add: unat_eq_0)
    then show ?thesis by (auto simp: tt decodes_def MANTISSA_SIGN_BIT_def)
  next
    case small
    define d where "d = drop_bit (8 * (3 - e)) m"
    have d: "unat d = unat m div 2 ^ (8 * (3 - e))" by (simp add: d_def Chain_Prelude.unat_drop_bit)
    have "unat d \<le> unat m" by (simp add: d)
    then have ud: "unat (ucast d :: u256) = unat d"
      using m24 by (simp add: unsigned_ucast_eq take_bit_eq_mod)
    have "m AND MANTISSA_SIGN_BIT = 0" "m \<noteq> 0"
      using small sign_bit_clear[OF m24] by auto
    then have "to_target c = (if d = 0 then Inl (ZeroTarget c) else Inr (ucast d))"
      using small(3) by (simp add: tt d_def)
    moreover have "d = 0 \<longleftrightarrow> unat d = 0" by (simp add: unat_eq_0)
    moreover have "ucast d = t \<longleftrightarrow> unat t = unat d" using ud by (metis word_unat_eq_iff)
    ultimately show ?thesis using small by (auto simp: decodes_def d)
  next
    case big
    have ok: "m AND MANTISSA_SIGN_BIT = 0" "m \<noteq> 0"
      using big sign_bit_clear[OF m24] by auto
    have bl: "bit_len (unat m) \<le> 256" using bit_len_le[of "unat m" 256] m24 by simp
    have lz: "leading_zeros (ucast m :: u256) = 256 - bit_len (unat m)"
      by (simp add: leading_zeros_def um)
    show ?thesis
    proof (cases "8 * (e - 3) < 256 \<and> unat m * 2 ^ (8 * (e - 3)) < 2 ^ 256")
      case True
      then have "\<not> 256 - bit_len (unat m) < 8 * (e - 3)"
        using overflow_iff[OF big(1) _ bl] by (metis not_less)
      then have "to_target c = Inr (push_bit (8 * (e - 3)) (ucast m))"
        using big(3) ok True by (simp add: tt lz)
      moreover have "unat (push_bit (8 * (e - 3)) (ucast m :: u256)) = unat m * 2 ^ (8 * (e - 3))"
        using True by (subst unat_push_bit) (simp_all add: um)
      ultimately have "to_target c = Inr t \<longleftrightarrow> unat t = unat m * 2 ^ (8 * (e - 3))"
        by (metis sum.inject(2) word_unat_eq_iff)
      then show ?thesis using big True by (auto simp: decodes_def)
    next
      case False
      have "2 ^ 256 \<le> unat m * 2 ^ (8 * (e - 3))"
      proof (cases "8 * (e - 3) < 256")
        case True
        with False show ?thesis by simp
      next
        case c: False
        then have "(2::nat) ^ 256 \<le> 2 ^ (8 * (e - 3))" by (intro power_increasing) auto
        also have "\<dots> \<le> unat m * 2 ^ (8 * (e - 3))" using big(1) by simp
        finally show ?thesis .
      qed
      moreover have "to_target c = Inl (Overflow c)"
      proof (cases "8 * (e - 3) < 256")
        case True
        then have "256 - bit_len (unat m) < 8 * (e - 3)"
          using overflow_iff[OF big(1) True bl] calculation by simp
        then show ?thesis using big(3) ok True by (simp add: tt lz)
      next
        case False
        then show ?thesis using big(3) ok by (simp add: tt)
      qed
      ultimately show ?thesis using big by (auto simp: decodes_def)
    qed
  qed
  then show ?thesis by (simp only: e m)
qed

section \<open>Round trips\<close>

lemma expo_big: "\<not> expo n \<le> 3 \<Longrightarrow> 8 * (expo n - 3) \<le> bit_len n - 1"
  by (simp add: expo_def)

lemma rounded_le: "rounded n \<le> n"
  by (simp add: rounded_def)

lemma decodes_rounded:
  assumes "0 < n" and "n < 2 ^ 256"
  shows "decodes (expo n) (mant n) (rounded n)"
proof (cases "expo n \<le> 3")
  case True
  then show ?thesis using assms mant_bounds(2)[OF assms(1)]
    by (simp add: decodes_def mant_def rounded_def)
next
  case False
  have "rounded n = mant n * 2 ^ (8 * (expo n - 3))" using False by (simp add: rounded_def mant_def)
  moreover have "0 < mant n" using mant_bounds(1)[OF assms(1)] by (simp add: gr0I)
  ultimately show ?thesis
    using False assms(2) rounded_le[of n] mant_bounds(2)[OF assms(1)] by (auto simp: decodes_def)
qed

lemma to_target_from_target:
  assumes "t \<noteq> 0"
  shows "to_target (from_target t) = Inr (of_nat (rounded (unat t)))"
    and "unat (of_nat (rounded (unat t)) :: u256) = rounded (unat t)"
proof -
  have n: "0 < unat t" "unat t < 2 ^ 256" using assms unsigned_less[of t] by (simp_all add: unat_gt_0)
  have "rounded (unat t) < 2 ^ LENGTH(256)" using rounded_le[of "unat t"] n(2) by simp
  then show u: "unat (of_nat (rounded (unat t)) :: u256) = rounded (unat t)"
    by (simp add: unat_of_nat)
  have c: "unat (from_target t) = expo (unat t) * 2 ^ 24 + mant (unat t)"
    by (rule from_target_nat(2)[OF assms])
  have "mant (unat t) < 2 ^ 24" using mant_bounds(2)[OF n(1)] by simp
  then have "unat (from_target t) div 2 ^ 24 = expo (unat t)"
    "unat (from_target t) mod 2 ^ 24 = mant (unat t)" by (simp_all add: c)
  then show "to_target (from_target t) = Inr (of_nat (rounded (unat t)))"
    using decodes_rounded[OF n] u by (simp only: to_target_nat)
qed

lemma bit_len_rounded:
  assumes "0 < n" shows "bit_len (rounded n) = bit_len n"
proof (cases "expo n \<le> 3")
  case True
  then show ?thesis by (simp add: rounded_def)
next
  case False
  define s where "s = 8 * (expo n - 3)"
  obtain L where L: "bit_len n = Suc L" using assms by (simp add: bit_len_pos)
  have sL: "s \<le> L" using expo_big[OF False] L by (simp add: s_def)
  have lo: "2 ^ L \<le> n" using bit_len_lower[OF assms] L by simp
  have "(2::nat) ^ L = 2 ^ (L - s) * 2 ^ s" using sL by (simp flip: power_add)
  then have "2 ^ (L - s) \<le> n div 2 ^ s" using lo by (simp add: less_eq_div_iff_mult_less_eq)
  then have "2 ^ (L - s) * 2 ^ s \<le> n div 2 ^ s * 2 ^ s" by (rule mult_le_mono1)
  then have "2 ^ L \<le> rounded n"
    using \<open>(2::nat) ^ L = _\<close> by (simp add: rounded_def s_def)
  moreover have "rounded n < 2 ^ Suc L" using rounded_le[of n] bit_len_upper[of n] L by simp
  ultimately show ?thesis using bit_len_unique L by metis
qed

lemma rounded_pos: "0 < n \<Longrightarrow> 0 < rounded n"
  using bit_len_rounded[of n] by (metis bit_len_0 bit_len_pos gr0I nat.simps(3))

lemma expo_rounded: "0 < n \<Longrightarrow> expo (rounded n) = expo n"
  by (simp add: expo_def bit_len_rounded)

lemma rounded_rounded: "0 < n \<Longrightarrow> rounded (rounded n) = rounded n"
  by (simp add: rounded_def[of "rounded n"] expo_rounded) (simp add: rounded_def)

lemma mant_rounded: "0 < n \<Longrightarrow> mant (rounded n) = mant n"
  by (simp add: mant_def expo_rounded) (simp add: rounded_def)

lemma rounded_mono:
  assumes "0 < m" and "m \<le> n"
  shows "rounded m \<le> rounded n"
proof (cases "bit_len m = bit_len n")
  case True
  then have "expo m = expo n" by (simp add: expo_def)
  then show ?thesis using assms(2) by (simp add: rounded_def div_le_mono)
next
  case False
  then have lt: "bit_len m < bit_len n" using bit_len_mono[OF assms(2)] by simp
  have n: "0 < n" using assms by simp
  have "rounded m \<le> m" by (rule rounded_le)
  also have "m \<le> 2 ^ bit_len m" using bit_len_upper[of m] by simp
  also have "\<dots> \<le> (2::nat) ^ (bit_len n - 1)" using lt by (intro power_increasing) auto
  also have "\<dots> \<le> rounded n"
    using bit_len_lower[OF rounded_pos[OF n]] by (simp add: bit_len_rounded[OF n])
  finally show ?thesis .
qed

lemma rounded_loss:
  assumes "0 < n" shows "(n - rounded n) * 2 ^ 15 < n"
proof (cases "expo n \<le> 3")
  case True
  then show ?thesis using assms by (simp add: rounded_def)
next
  case False
  define s where "s = 8 * (expo n - 3)"
  have m: "mant n = n div 2 ^ s" using False by (simp add: mant_def s_def)
  have "n - rounded n = n mod 2 ^ s"
    by (simp add: rounded_def s_def minus_div_mult_eq_mod)
  then have "n - rounded n < 2 ^ s" by simp
  then have "(n - rounded n) * 2 ^ 15 < 2 ^ s * 2 ^ 15" by simp
  also have "\<dots> \<le> 2 ^ s * mant n" using mant_bounds(1)[OF assms] by simp
  also have "\<dots> \<le> n" by (simp add: m)
  finally show ?thesis .
qed

lemma decodes_rounded_fixed:
  assumes "decodes e m t" shows "rounded t = t"
proof -
  have t0: "0 < t" and m: "m < 2 ^ 23" using assms by (simp_all add: decodes_def)
  have bm: "bit_len m \<le> 23" using m by (rule bit_len_le)
  show ?thesis
  proof (cases "e \<le> 3")
    case True
    then have "t \<le> m" using assms by (simp add: decodes_def)
    then have "bit_len t \<le> 23" using m by (intro bit_len_le) simp
    then have "expo t \<le> 3" by (simp add: expo_def)
    then show ?thesis by (simp add: rounded_def)
  next
    case False
    define s where "s = 8 * (e - 3)"
    have t: "t = m * 2 ^ s" using assms False by (simp add: decodes_def s_def)
    have "t < 2 ^ (23 + s)" using m by (simp add: t power_add)
    then have "bit_len t \<le> 23 + s" by (rule bit_len_le)
    then have "8 * (expo t - 3) \<le> s" by (simp add: expo_def s_def)
    then have "2 ^ (8 * (expo t - 3)) dvd t" by (simp add: t le_imp_power_dvd dvd_mult)
    then show ?thesis by (simp add: rounded_def)
  qed
qed

lemma from_target_zero: "from_target 0 = 0"
  by (simp add: from_target_def from_target_checked_def)

text \<open>
  C40: Encoding a non-zero target never panics on a narrowing conversion, always yields a decodable
  compact value, never rounds the target up (a target is never made easier), and loses less than
  one part in \<open>2^15\<close> of it.
\<close>

theorem from_target_sound:
  assumes "t \<noteq> 0"
  shows "from_target_checked t = Some (from_target t) \<and>
    (\<exists>d. to_target (from_target t) = Inr d \<and> d \<noteq> 0 \<and> d \<le> t \<and> (unat t - unat d) * 2 ^ 15 < unat t)"
proof -
  have n: "0 < unat t" using assms by (simp add: unat_gt_0)
  note r = to_target_from_target[OF assms]
  have "of_nat (rounded (unat t)) \<noteq> (0 :: u256)"
    using r(2) rounded_pos[OF n] by (metis less_irrefl unat_0)
  moreover have "of_nat (rounded (unat t)) \<le> t"
    using r(2) rounded_le by (simp only: word_le_nat_alt)
  ultimately show ?thesis
    using from_target_nat(1)[OF assms] r rounded_loss[OF n] by metis
qed

theorem from_target_sound_witness:
  "\<exists>d. to_target (from_target (0xffffff :: u256)) = Inr d \<and> d \<le> 0xffffff"
proof -
  have "(0xffffff :: u256) \<noteq> 0" by simp
  from from_target_sound[OF this] show ?thesis by auto
qed

text \<open>
  Any compact value that decodes is preserved by re-encoding its target (the decoded target is
  a fixed point), and encoding is idempotent: re-encoding what an encoding decodes to gives the
  same bits.
\<close>

theorem compact_roundtrip:
  assumes "to_target c = Inr t"
  shows "to_target (from_target t) = Inr t \<and>
    (\<forall>u. u \<noteq> 0 \<longrightarrow> (\<forall>d. to_target (from_target u) = Inr d \<longrightarrow> from_target d = from_target u))"
proof
  have "decodes (unat c div 2 ^ 24) (unat c mod 2 ^ 24) (unat t)" using assms by (simp only: to_target_nat)
  then have fixed: "rounded (unat t) = unat t" and "0 < unat t"
    by (rule decodes_rounded_fixed) (use \<open>decodes _ _ _\<close> in \<open>simp only: decodes_def\<close>)
  then have "t \<noteq> 0" by (auto simp: unat_gt_0)
  then show "to_target (from_target t) = Inr t" using to_target_from_target(1)[of t] fixed by simp
next
  show "\<forall>u. u \<noteq> 0 \<longrightarrow> (\<forall>d. to_target (from_target u) = Inr d \<longrightarrow> from_target d = from_target u)"
  proof (intro allI impI)
    fix u d :: u256
    assume u: "u \<noteq> 0" and d: "to_target (from_target u) = Inr d"
    then have n: "0 < unat u" and du: "unat d = rounded (unat u)"
      using to_target_from_target[OF u] by (auto simp: unat_gt_0)
    then have "d \<noteq> 0" using rounded_pos[OF n] by auto
    then have "unat (from_target d) = unat (from_target u)"
      using from_target_nat(2)[OF u] from_target_nat(2)[of d]
      by (simp add: du expo_rounded[OF n] mant_rounded[OF n])
    then show "from_target d = from_target u" by (metis word_unat_eq_iff)
  qed
qed

theorem compact_roundtrip_witness:
  "to_target (from_target (push_bit 208 0xffff)) = Inr (push_bit 208 0xffff :: u256)"
proof -
  have "to_target 0x1d00ffff = Inr (push_bit 208 0xffff)"
    by (simp add: to_target_nat decodes_def Chain_Prelude.unat_push_bit)
  from compact_roundtrip[OF this] show ?thesis by blast
qed

text \<open>
  Encoding respects the order of targets: a harder target is never encoded as an easier one,
  so comparing decoded targets agrees with comparing the targets that were asked for.
\<close>

theorem from_target_mono:
  assumes "t \<noteq> 0" and "t \<le> u"
  shows "\<exists>d e. to_target (from_target t) = Inr d \<and> to_target (from_target u) = Inr e \<and> d \<le> e"
proof -
  have u: "u \<noteq> 0" using assms by (metis antisym word_zero_le)
  have "rounded (unat t) \<le> rounded (unat u)"
    using assms by (intro rounded_mono) (simp_all add: unat_gt_0 word_le_nat_alt)
  then show ?thesis
    using to_target_from_target[OF assms(1)] to_target_from_target[OF u] by (simp add: word_le_nat_alt)
qed

theorem from_target_mono_witness:
  "\<exists>d e. to_target (from_target (0x123456 :: u256)) = Inr d \<and>
     to_target (from_target (0xffffff :: u256)) = Inr e \<and> d \<le> e"
  by (rule from_target_mono) simp_all

text \<open>
  Decoding succeeds exactly on the encodings with a clear sign bit whose shifted mantissa is
  neither annihilated to zero nor pushed beyond 256 bits, and then yields a non-zero target that
  is that shifted mantissa.
\<close>

theorem to_target_exact:
  "to_target c = Inr t \<longleftrightarrow>
    (let e = unat c div 2 ^ 24; m = unat c mod 2 ^ 24 in
     m < 2 ^ 23 \<and> t \<noteq> 0 \<and>
     unat t = (if e \<le> 3 then m div 2 ^ (8 * (3 - e)) else m * 2 ^ (8 * (e - 3))))"
proof -
  have "unat t < 2 ^ 256" using unsigned_less[of t] by simp
  then show ?thesis by (auto simp: to_target_nat decodes_def Let_def unat_gt_0)
qed

end
