(* ===== verification/Work.thy ===== *)
theory Work
  imports Compact
begin

text \<open>
  Proof-of-work accumulation (\<open>crates/ghostdag/src/work.rs\<close>) and the work of a block's \<open>bits\<close>
  (\<open>DagStore::header_work\<close>).
\<close>

definition work_for_target :: "u256 \<Rightarrow> u256" where
  "work_for_target target =
     (if target = 0 then - 1
      else case checked_add target 1 of None \<Rightarrow> 1
        | Some denominator \<Rightarrow> (NOT target) div denominator + 1)"

lemma unat_not_word: "unat (NOT (w :: 'a::len word)) = 2 ^ LENGTH('a) - 1 - unat w"
proof -
  have "NOT w = - 1 - w" by (simp add: not_eq_complement)
  then have "unat (NOT w) = unat (- 1 :: 'a word) - unat w"
    by (metis unat_sub word_order.extremum)
  then show ?thesis by (simp add: unat_max_word)
qed

lemma unat_work:
  assumes "t \<noteq> 0"
  shows "unat (work_for_target t) = 2 ^ 256 div (unat t + 1)"
proof (cases "unat t + 1 < 2 ^ 256")
  case False
  have "unat t < 2 ^ 256" using unsigned_less[of t] by simp
  with False have t: "unat t + 1 = 2 ^ 256" by simp
  then have "checked_add t 1 = None" by (simp add: checked_add_def)
  then show ?thesis using assms t by (simp add: work_for_target_def)
next
  case True
  define n where "n = unat t"
  have n0: "0 < n" using assms by (simp add: n_def unat_gt_0)
  have c: "checked_add t 1 = Some (t + 1)" using True by (simp add: checked_add_def)
  have d: "unat (t + 1) = n + 1" using True by (simp add: n_def unat_word_ariths)
  have q: "unat ((NOT t) div (t + 1)) = (2 ^ 256 - 1 - n) div (n + 1)"
    by (simp add: unat_div_distrib d unat_not_word n_def)
  have "2 ^ 256 div (n + 1) = Suc ((2 ^ 256 - (n + 1)) div (n + 1))"
    by (rule le_div_geq) (use True in \<open>simp_all add: n_def\<close>)
  then have e: "2 ^ 256 div (n + 1) = (2 ^ 256 - 1 - n) div (n + 1) + 1" by simp
  have "2 ^ 256 div (n + 1) \<le> 2 ^ 256 div 2" using n0 by (intro div_le_mono2) auto
  then have "(2 ^ 256 - 1 - n) div (n + 1) + 1 < 2 ^ 256" using e by simp
  then have "unat ((NOT t) div (t + 1) + 1) = (2 ^ 256 - 1 - n) div (n + 1) + 1"
    using q by (simp add: unat_word_ariths)
  then show ?thesis using assms c e by (simp add: work_for_target_def n_def)
qed

lemma work_pos: "0 < unat (work_for_target t)"
proof (cases "t = 0")
  case True
  then show ?thesis by (simp add: work_for_target_def unat_max_word)
next
  case False
  have "unat t < 2 ^ 256" using unsigned_less[of t] by simp
  then have "1 \<le> 2 ^ 256 div (unat t + 1)" by (simp add: less_eq_div_iff_mult_less_eq)
  then show ?thesis using unat_work[OF False] by linarith
qed

text \<open>
  The work of a target is the expected number of hashes, \<open>\<lfloor>2^256 / (target + 1)\<rfloor>\<close>, computed
  without a 257-bit intermediate; it is never zero, and a zero target has the maximal work.
\<close>

theorem work_for_target_exact:
  "unat (work_for_target t) = (if t = 0 then 2 ^ 256 - 1 else 2 ^ 256 div (unat t + 1))
   \<and> work_for_target t \<noteq> 0"
  using unat_work[of t] work_pos[of t]
  by (auto simp: work_for_target_def unat_max_word)

text \<open>
  A smaller target is never less work, over the whole range of targets and including zero.
\<close>

theorem work_antitone:
  assumes "t \<le> u" shows "work_for_target u \<le> work_for_target t"
proof (cases "t = 0")
  case True
  then show ?thesis by (simp add: work_for_target_def)
next
  case False
  with assms have u: "u \<noteq> 0" by (metis antisym word_zero_le)
  have "2 ^ 256 div (unat u + 1) \<le> (2 ^ 256 :: nat) div (unat t + 1)"
    using assms by (intro div_le_mono2) (simp_all add: word_le_nat_alt)
  then show ?thesis using unat_work[OF False] unat_work[OF u] by (simp only: word_le_nat_alt)
qed

theorem work_antitone_witness: "work_for_target 255 \<le> work_for_target (1 :: u256)"
  by (rule work_antitone) simp

section \<open>Work of a header's declared difficulty\<close>

text \<open>\<open>CompactTarget(bits).to_target().unwrap_or(U256::MAX)\<close>.\<close>

definition bits_work :: "compact_target \<Rightarrow> u256" where
  "bits_work bits = work_for_target (case to_target bits of Inr t \<Rightarrow> t | Inl _ \<Rightarrow> - 1)"

lemma bits_work_pos: "0 < unat (bits_work b)"
  by (simp add: bits_work_def work_pos)

end
