(* ===== verification/Dag.thy ===== *)
theory Dag
  imports Header Work "HOL-Library.While_Combinator"
begin

text \<open>
  The DAG store and GHOSTDAG (\<open>crates/ghostdag/src/dag.rs\<close>), definitions only: the records, the
  memoised reachability search, selected-parent choice, the merge set and its topological sort,
  the k-cluster colouring and \<open>add_block\<close>. A header's identity is the parameter \<open>hash\<close>.

  The reachability cache sits behind a mutex and is written by methods that take \<open>&self\<close>; here
  it is an explicit argument and result of every function that may touch it, so the store \<open>s\<close>
  is the immutable part and \<open>add_block\<close> puts the final cache back. The counters \<open>k\<close>, blue score,
  heights and anticone sizes are naturals: a height or score is bounded by the number of stored
  blocks, and an anticone size by \<open>k + 1\<close>, so none wraps unless \<open>k\<close> is the largest \<open>u16\<close>.
\<close>

section \<open>State\<close>

record ghostdag_data =
  d_selected_parent :: block_hash
  d_blue_score :: nat
  d_blue_work :: u256
  d_mergeset_blues :: "block_hash list"
  d_mergeset_reds :: "block_hash list"
  d_mergeset_ordered :: "block_hash list"
  d_topological_height :: nat
  d_blues_anticone_sizes :: "(block_hash, nat) hmap"

text \<open>Keys are \<open>(descendant, ancestor)\<close>.\<close>

type_synonym cache = "(block_hash \<times> block_hash, bool) hmap"

record dag_store =
  s_k :: nat
  s_genesis :: block_hash
  s_headers :: "(block_hash, header) hmap"
  s_data :: "(block_hash, ghostdag_data) hmap"
  s_children :: "(block_hash, block_hash list) hmap"
  s_tips :: "block_hash list"
  s_reachability :: cache
  s_mergeset_size_limit :: nat

datatype dag_error =
    AlreadyPresent block_hash
  | NoParentsDag block_hash
  | MissingParent block_hash block_hash
  | MergesetTooLarge block_hash nat

datatype colour = Blue | Red

definition mergeset :: "ghostdag_data \<Rightarrow> block_hash list" where
  "mergeset d = d_mergeset_blues d @ d_mergeset_reds d"

definition header_work :: "header \<Rightarrow> u256" where
  "header_work h = bits_work (h_bits h)"

definition new_dag :: "(header \<Rightarrow> block_hash) \<Rightarrow> header \<Rightarrow> nat \<Rightarrow> nat \<Rightarrow> dag_store" where
  "new_dag hash genesis k mergeset_size_limit =
     (let genesis_hash = hash genesis in
      \<lparr>s_k = k, s_genesis = genesis_hash,
       s_headers = [(genesis_hash, genesis)],
       s_data = [(genesis_hash,
         \<lparr>d_selected_parent = genesis_hash, d_blue_score = 0, d_blue_work = header_work genesis,
          d_mergeset_blues = [], d_mergeset_reds = [], d_mergeset_ordered = [],
          d_topological_height = 0, d_blues_anticone_sizes = []\<rparr>)],
       s_children = [], s_tips = [genesis_hash], s_reachability = [],
       s_mergeset_size_limit = mergeset_size_limit\<rparr>)"

section \<open>Simple queries\<close>

definition dag_len :: "dag_store \<Rightarrow> nat" where "dag_len s = length (s_headers s)"

definition dag_is_empty :: "dag_store \<Rightarrow> bool" where "dag_is_empty s \<longleftrightarrow> length (s_headers s) \<le> 1"

definition contains :: "dag_store \<Rightarrow> block_hash \<Rightarrow> bool" where
  "contains s b \<longleftrightarrow> map_of (s_headers s) b \<noteq> None"

definition dag_header :: "dag_store \<Rightarrow> block_hash \<Rightarrow> header option" where
  "dag_header s b = map_of (s_headers s) b"

definition dag_data :: "dag_store \<Rightarrow> block_hash \<Rightarrow> ghostdag_data option" where
  "dag_data s b = map_of (s_data s) b"

definition topological_height :: "dag_store \<Rightarrow> block_hash \<Rightarrow> nat" where
  "topological_height s b = (case map_of (s_data s) b of None \<Rightarrow> 0 | Some d \<Rightarrow> d_topological_height d)"

definition blue_work_of :: "dag_store \<Rightarrow> block_hash \<Rightarrow> u256" where
  "blue_work_of s b = (case map_of (s_data s) b of None \<Rightarrow> 0 | Some d \<Rightarrow> d_blue_work d)"

definition block_work :: "dag_store \<Rightarrow> block_hash \<Rightarrow> u256" where
  "block_work s b = (case map_of (s_headers s) b of None \<Rightarrow> 0 | Some h \<Rightarrow> header_work h)"

definition compare_blocks :: "dag_store \<Rightarrow> block_hash \<Rightarrow> block_hash \<Rightarrow> ordering" where
  "compare_blocks s a b = then_with (cmp (blue_work_of s a) (blue_work_of s b)) (cmp a b)"

text \<open>\<open>sort_by(|a, b| self.compare_blocks(*b, *a))\<close>: descending.\<close>

definition dag_tips :: "dag_store \<Rightarrow> block_hash list" where
  "dag_tips s = sort_by (\<lambda>a b. compare_blocks s b a) (s_tips s)"

definition virtual_selected_parent :: "dag_store \<Rightarrow> block_hash" where
  "virtual_selected_parent s = (case dag_tips s of [] \<Rightarrow> s_genesis s | t # _ \<Rightarrow> t)"

text \<open>\<open>parents[0]\<close> panics on an empty list; \<open>add_block\<close> has refused that before it is reached.\<close>

definition select_parent :: "dag_store \<Rightarrow> block_hash list \<Rightarrow> block_hash" where
  "select_parent s parents =
     foldl (\<lambda>best p. if compare_blocks s p best = Greater then p else best) (hd parents) (tl parents)"

text \<open>
  The loop of \<open>selected_parent_chain\<close>: the state is the chain so far, the cursor, and whether the
  loop has broken out.
\<close>

definition chain_walk_step ::
  "dag_store \<Rightarrow> block_hash list \<times> block_hash \<times> bool \<Rightarrow> block_hash list \<times> block_hash \<times> bool" where
  "chain_walk_step s st =
     (case st of (chain, cursor, done) \<Rightarrow>
        let chain = chain @ [cursor] in
        if cursor = s_genesis s then (chain, cursor, True)
        else case map_of (s_data s) cursor of
            Some d \<Rightarrow> (chain, d_selected_parent d, False)
          | None \<Rightarrow> (chain, cursor, True))"

definition selected_parent_chain :: "dag_store \<Rightarrow> block_hash \<Rightarrow> block_hash list" where
  "selected_parent_chain s tip =
     fst (while (\<lambda>(chain, cursor, done). \<not> done) (chain_walk_step s) ([], tip, False))"

section \<open>Reachability\<close>

definition CACHE_CAPACITY :: nat where "CACHE_CAPACITY = 32768"

definition remember :: "block_hash \<Rightarrow> block_hash \<Rightarrow> bool \<Rightarrow> cache \<Rightarrow> cache" where
  "remember descendant anc answer c =
     AList.update (descendant, anc) answer (if length c \<ge> CACHE_CAPACITY then [] else c)"

lemma remember_code [code]:
  "remember descendant anc answer c =
     AList.update (descendant, anc) answer (if (32768::int) \<le> int (length c) then [] else c)"
  by (simp add: remember_def CACHE_CAPACITY_def)

text \<open>The inner loop over one block's parents; \<open>None\<close> is \<open>break 'search\<close> with the block found.\<close>

fun scan_parents ::
  "dag_store \<Rightarrow> block_hash \<Rightarrow> nat \<Rightarrow> block_hash list \<Rightarrow> block_hash list \<Rightarrow> block_hash set \<Rightarrow>
   (block_hash list \<times> block_hash set) option" where
  "scan_parents s anc anc_height [] queue seen = Some (queue, seen)"
| "scan_parents s anc anc_height (p # ps) queue seen =
     (if p = anc then None
      else if topological_height s p \<le> anc_height then scan_parents s anc anc_height ps queue seen
      else if p \<in> seen then scan_parents s anc anc_height ps queue seen
      else scan_parents s anc anc_height ps (queue @ [p]) (insert p seen))"

text \<open>Every block that some stored header names as a parent: what a search can ever visit.\<close>

definition named_parents :: "dag_store \<Rightarrow> block_hash set" where
  "named_parents s = (\<Union>(b, h) \<in> set (s_headers s). set (h_parents h))"

lemma finite_named_parents [simp]: "finite (named_parents s)"
  by (auto simp: named_parents_def)

lemma named_parentsI: "map_of (s_headers s) b = Some h \<Longrightarrow> p \<in> set (h_parents h) \<Longrightarrow> p \<in> named_parents s"
  by (force simp: named_parents_def dest: map_of_SomeD)

lemma scan_parents_grows:
  "scan_parents s anc ah ps q seen = Some (q', seen') \<Longrightarrow>
   \<exists>new. q' = q @ new \<and> distinct new \<and> seen' = seen \<union> set new \<and> set new \<inter> seen = {} \<and> set new \<subseteq> set ps"
proof (induction ps arbitrary: q seen)
  case Nil
  then show ?case by simp
next
  case (Cons p ps)
  show ?case
  proof (cases "topological_height s p \<le> ah \<or> p \<in> seen")
    case True
    with Cons.prems have "scan_parents s anc ah ps q seen = Some (q', seen')"
      by (auto split: if_splits)
    from Cons.IH[OF this] show ?thesis by auto
  next
    case False
    with Cons.prems have "scan_parents s anc ah ps (q @ [p]) (insert p seen) = Some (q', seen')"
      by (auto split: if_splits)
    from Cons.IH[OF this] obtain new where new: "q' = q @ [p] @ new" "distinct new"
      "seen' = insert p seen \<union> set new" "set new \<inter> insert p seen = {}" "set new \<subseteq> set ps" by auto
    with False show ?thesis by (intro exI[of _ "p # new"]) auto
  qed
qed

lemma worklist_decreases:
  assumes "finite A" and "set new \<subseteq> A" and "set new \<inter> seen = {}" and "seen' = seen \<union> set new"
  shows "(card (A - seen'), length (q @ new)) = (card (A - seen), length q) \<and> new = []
       \<or> card (A - seen') < card (A - seen)"
proof (cases "new = []")
  case True
  then show ?thesis using assms by simp
next
  case False
  then have "A - seen' \<subset> A - seen" using assms by (cases new) auto
  then show ?thesis using assms(1) by (simp add: psubset_card_mono)
qed

function ancestor_search ::
  "dag_store \<Rightarrow> block_hash \<Rightarrow> nat \<Rightarrow> block_hash list \<Rightarrow> block_hash set \<Rightarrow> bool" where
  "ancestor_search s anc anc_height [] seen = False"
| "ancestor_search s anc anc_height (current # queue) seen =
     (case map_of (s_headers s) current of
        None \<Rightarrow> ancestor_search s anc anc_height queue seen
      | Some h \<Rightarrow>
          (case scan_parents s anc anc_height (h_parents h) queue seen of
             None \<Rightarrow> True
           | Some (queue', seen') \<Rightarrow> ancestor_search s anc anc_height queue' seen'))"
  by pat_completeness auto
termination
proof (relation "measures [\<lambda>(s, anc, ah, q, seen). card (named_parents s - seen),
                           \<lambda>(s, anc, ah, q, seen). length q]", goal_cases)
  case (3 s anc ah cur q seen h p q' seen')
  from scan_parents_grows[of s anc ah "h_parents h" q seen q' seen'] 3 obtain new where
    new: "q' = q @ new" "seen' = seen \<union> set new" "set new \<inter> seen = {}" "set new \<subseteq> set (h_parents h)"
    by auto
  from new(4) 3(1) have "set new \<subseteq> named_parents s" by (auto intro: named_parentsI)
  from worklist_decreases[OF finite_named_parents this new(3,2), of q] show ?case by (auto simp: new(1))
qed auto

definition is_ancestor_of :: "dag_store \<Rightarrow> block_hash \<Rightarrow> block_hash \<Rightarrow> cache \<Rightarrow> bool \<times> cache" where
  "is_ancestor_of s anc descendant c =
     (if anc = descendant then (True, c)
      else case map_of c (descendant, anc) of
          Some cached \<Rightarrow> (cached, c)
        | None \<Rightarrow>
            (let anc_height = topological_height s anc in
             if topological_height s descendant \<le> anc_height
             then (False, remember descendant anc False c)
             else let found = ancestor_search s anc anc_height [descendant] {descendant}
               in (found, remember descendant anc found c)))"

section \<open>The merge set\<close>

text \<open>The parent loops of \<open>ordered_mergeset\<close>: enqueue what has not been seen, never the selected parent.\<close>

fun enqueue_new ::
  "block_hash \<Rightarrow> block_hash list \<Rightarrow> block_hash list \<Rightarrow> block_hash set \<Rightarrow> block_hash list \<times> block_hash set" where
  "enqueue_new sp [] queue seen = (queue, seen)"
| "enqueue_new sp (p # ps) queue seen =
     (if p \<noteq> sp \<and> p \<notin> seen then enqueue_new sp ps (queue @ [p]) (insert p seen)
      else enqueue_new sp ps queue seen)"

lemma enqueue_new_grows:
  "enqueue_new sp ps q seen = (q', seen') \<Longrightarrow>
   \<exists>new. q' = q @ new \<and> distinct new \<and> seen' = seen \<union> set new \<and> set new = set ps - insert sp seen"
proof (induction ps arbitrary: q seen)
  case Nil
  then show ?case by simp
next
  case (Cons p ps)
  show ?case
  proof (cases "p \<noteq> sp \<and> p \<notin> seen")
    case True
    with Cons.prems have "enqueue_new sp ps (q @ [p]) (insert p seen) = (q', seen')" by simp
    from Cons.IH[OF this] obtain new where new: "q' = q @ [p] @ new" "distinct new"
      "seen' = insert p seen \<union> set new" "set new = set ps - insert sp (insert p seen)" by auto
    with True show ?thesis by (intro exI[of _ "p # new"]) auto
  next
    case False
    with Cons.prems have "enqueue_new sp ps q seen = (q', seen')" by auto
    from Cons.IH[OF this] False show ?thesis by auto
  qed
qed

text \<open>The breadth-first loop; \<open>None\<close> is the merge set growing past the limit.\<close>

function mergeset_loop ::
  "dag_store \<Rightarrow> block_hash \<Rightarrow> block_hash list \<Rightarrow> block_hash set \<Rightarrow> block_hash list \<Rightarrow> cache \<Rightarrow>
   block_hash list option \<times> cache" where
  "mergeset_loop s sp [] seen found c = (Some found, c)"
| "mergeset_loop s sp (current # queue) seen found c =
     (let (in_past, c) = is_ancestor_of s current sp c in
      if in_past then mergeset_loop s sp queue seen found c
      else
        let found = found @ [current] in
        if length found > s_mergeset_size_limit s then (None, c)
        else case map_of (s_headers s) current of
            None \<Rightarrow> mergeset_loop s sp queue seen found c
          | Some h \<Rightarrow>
              (let (queue', seen') = enqueue_new sp (h_parents h) queue seen
               in mergeset_loop s sp queue' seen' found c))"
  by pat_completeness auto
termination
proof (relation "measures [\<lambda>(s, sp, q, seen, f, c). card (named_parents s - seen),
                           \<lambda>(s, sp, q, seen, f, c). length q]", goal_cases)
  case (4 s sp cur q seen f c p b c' f' h p' q' seen')
  from enqueue_new_grows[of sp "h_parents h" q seen q' seen'] 4 obtain new where
    new: "q' = q @ new" "seen' = seen \<union> set new" "set new = set (h_parents h) - insert sp seen"
    by auto
  have "set new \<subseteq> named_parents s" using new(3) 4 by (auto intro: named_parentsI)
  from worklist_decreases[OF finite_named_parents this _ new(2), of q] new(3)
  show ?case by (auto simp: new(1))
qed auto

fun topo_pass ::
  "dag_store \<Rightarrow> block_hash set \<Rightarrow> block_hash list \<Rightarrow> block_hash set \<Rightarrow> block_hash list \<Rightarrow>
   block_hash list \<Rightarrow> bool \<Rightarrow> block_hash set \<times> block_hash list \<times> block_hash list \<times> bool" where
  "topo_pass s members [] emitted out_blocks next_remaining progressed =
     (emitted, out_blocks, next_remaining, progressed)"
| "topo_pass s members (b # bs) emitted out_blocks next_remaining progressed =
     (let ready = (case map_of (s_headers s) b of None \<Rightarrow> True
                   | Some h \<Rightarrow> list_all (\<lambda>p. p \<notin> members \<or> p \<in> emitted) (h_parents h))
      in if ready then topo_pass s members bs (insert b emitted) (out_blocks @ [b]) next_remaining True
         else topo_pass s members bs emitted out_blocks (next_remaining @ [b]) progressed)"

lemma topo_pass_shape:
  "topo_pass s m bs em ob nr pr = (em', ob', nr', pr') \<Longrightarrow>
   \<exists>o1 n1. ob' = ob @ o1 \<and> nr' = nr @ n1 \<and> mset bs = mset o1 + mset n1 \<and> em' = em \<union> set o1 \<and>
     (pr' \<longleftrightarrow> pr \<or> o1 \<noteq> [])"
proof (induction bs arbitrary: em ob nr pr)
  case Nil
  then show ?case by auto
next
  case (Cons b bs)
  define ready where "ready = (case map_of (s_headers s) b of None \<Rightarrow> True
    | Some h \<Rightarrow> list_all (\<lambda>p. p \<notin> m \<or> p \<in> em) (h_parents h))"
  show ?case
  proof (cases ready)
    case True
    with Cons.prems have "topo_pass s m bs (insert b em) (ob @ [b]) nr True = (em', ob', nr', pr')"
      by (simp add: ready_def)
    from Cons.IH[OF this] obtain o1 n1 where "ob' = ob @ [b] @ o1" "nr' = nr @ n1"
      "mset bs = mset o1 + mset n1" "em' = insert b em \<union> set o1" "pr'" by auto
    then show ?thesis by (intro exI[of _ "b # o1"] exI[of _ n1]) auto
  next
    case False
    with Cons.prems have "topo_pass s m bs em ob (nr @ [b]) pr = (em', ob', nr', pr')"
      by (simp add: ready_def)
    from Cons.IH[OF this] obtain o1 n1 where "ob' = ob @ o1" "nr' = nr @ [b] @ n1"
      "mset bs = mset o1 + mset n1" "em' = em \<union> set o1" "pr' \<longleftrightarrow> pr \<or> o1 \<noteq> []" by auto
    then show ?thesis by (intro exI[of _ o1] exI[of _ "b # n1"]) auto
  qed
qed

function topo_loop ::
  "dag_store \<Rightarrow> block_hash set \<Rightarrow> block_hash list \<Rightarrow> block_hash set \<Rightarrow> block_hash list \<Rightarrow> block_hash list" where
  "topo_loop s members remaining emitted out_blocks =
     (if remaining = [] then out_blocks
      else let (emitted', out', next_remaining, progressed) =
                 topo_pass s members remaining emitted out_blocks [] False
        in if \<not> progressed then out' @ next_remaining
           else topo_loop s members next_remaining emitted' out')"
  by pat_completeness auto
termination
proof (relation "measure (\<lambda>(s, m, r, em, ob). length r)", goal_cases)
  case (2 s m r em ob p em' x ob' y nr pr)
  then have "topo_pass s m r em ob [] False = (em', ob', nr, pr)" by simp
  from topo_pass_shape[OF this] obtain o1 n1 where "nr = n1" "mset r = mset o1 + mset n1" "o1 \<noteq> []"
    using 2 by auto
  then have "length nr < length r" by (metis add.commute length_greater_0_conv less_add_same_cancel2
      size_mset size_union add_less_same_cancel1 less_add_same_cancel1)
  then show ?case by simp
qed simp

declare topo_loop.simps [simp del]

definition topological_sort :: "dag_store \<Rightarrow> block_hash list \<Rightarrow> block_hash list" where
  "topological_sort s blocks =
     topo_loop s (set blocks) (sort_by (compare_blocks s) blocks) {} []"

definition ordered_mergeset ::
  "dag_store \<Rightarrow> block_hash \<Rightarrow> header \<Rightarrow> block_hash \<Rightarrow> cache \<Rightarrow> (dag_error + block_hash list) \<times> cache" where
  "ordered_mergeset s block_id h selected_parent c =
     (let (queue, seen) = enqueue_new selected_parent (h_parents h) [] {} in
      case mergeset_loop s selected_parent queue seen [] c of
        (None, c) \<Rightarrow> (Inl (MergesetTooLarge block_id (s_mergeset_size_limit s)), c)
      | (Some found, c) \<Rightarrow> (Inr (topological_sort s found), c))"

section \<open>The k-cluster colouring\<close>

type_synonym updates = "(block_hash \<times> nat) list"

text \<open>
  The body shared by both loops of \<open>colour_candidate\<close>: over the blues of one block, with that
  block's anticone sizes. \<open>None\<close> is the early return of Red.
\<close>

fun scan_blues ::
  "dag_store \<Rightarrow> block_hash \<Rightarrow> (block_hash, nat) hmap \<Rightarrow> block_hash list \<Rightarrow> nat \<Rightarrow> updates \<Rightarrow> cache \<Rightarrow>
   (nat \<times> updates) option \<times> cache" where
  "scan_blues s candidate sizes [] candidate_anticone ups c = (Some (candidate_anticone, ups), c)"
| "scan_blues s candidate sizes (blue # blues) candidate_anticone ups c =
     (let (in_past, c) = is_ancestor_of s blue candidate c in
      if in_past then scan_blues s candidate sizes blues candidate_anticone ups c
      else
        let candidate_anticone = candidate_anticone + 1 in
        if candidate_anticone > s_k s then (None, c)
        else
          let existing = (case map_of sizes blue of None \<Rightarrow> 0 | Some n \<Rightarrow> n) in
          if existing \<ge> s_k s then (None, c)
          else scan_blues s candidate sizes blues candidate_anticone (ups @ [(blue, existing + 1)]) c)"

text \<open>The walk down the selected parent chain: \<open>Walk\<close> while it runs, \<open>Stop\<close> when it has left the loop.\<close>

datatype chain_walk =
    Walk block_hash nat updates cache
  | Stop "(nat \<times> updates) option" cache

fun walking :: "chain_walk \<Rightarrow> bool" where
  "walking (Walk _ _ _ _) = True"
| "walking (Stop _ _) = False"

fun walk_step :: "dag_store \<Rightarrow> block_hash \<Rightarrow> chain_walk \<Rightarrow> chain_walk" where
  "walk_step s candidate (Walk chain_block candidate_anticone ups c) =
     (let (in_past, c) = is_ancestor_of s chain_block candidate c in
      if in_past then Stop (Some (candidate_anticone, ups)) c
      else case map_of (s_data s) chain_block of
          None \<Rightarrow> Stop (Some (candidate_anticone, ups)) c
        | Some chain_data \<Rightarrow>
            (case scan_blues s candidate (d_blues_anticone_sizes chain_data)
                    (d_mergeset_blues chain_data) candidate_anticone ups c of
               (None, c) \<Rightarrow> Stop None c
             | (Some (candidate_anticone, ups), c) \<Rightarrow>
                 if chain_block = s_genesis s then Stop (Some (candidate_anticone, ups)) c
                 else Walk (d_selected_parent chain_data) candidate_anticone ups c))"
| "walk_step s candidate (Stop r c) = Stop r c"

definition walk_chain :: "dag_store \<Rightarrow> block_hash \<Rightarrow> chain_walk \<Rightarrow> chain_walk" where
  "walk_chain s candidate w = while walking (walk_step s candidate) w"

definition colour_candidate ::
  "dag_store \<Rightarrow> block_hash \<Rightarrow> block_hash \<Rightarrow> block_hash list \<Rightarrow> (block_hash, nat) hmap \<Rightarrow> cache \<Rightarrow>
   (colour \<times> nat \<times> updates) \<times> cache" where
  "colour_candidate s candidate selected_parent mergeset_blues blues_anticone_sizes c =
     (if length mergeset_blues > s_k s then ((Red, 0, []), c)
      else case scan_blues s candidate blues_anticone_sizes mergeset_blues 0 [] c of
          (None, c) \<Rightarrow> ((Red, 0, []), c)
        | (Some (candidate_anticone, ups), c) \<Rightarrow>
            (case walk_chain s candidate (Walk selected_parent candidate_anticone ups c) of
               Stop (Some (candidate_anticone, ups)) c \<Rightarrow> ((Blue, candidate_anticone, ups), c)
             | Stop None c \<Rightarrow> ((Red, 0, []), c)
             | Walk _ _ _ c \<Rightarrow> ((Red, 0, []), c)))"

section \<open>Adding a block\<close>

type_synonym colouring = "block_hash list \<times> block_hash list \<times> (block_hash, nat) hmap"

definition colour_step ::
  "dag_store \<Rightarrow> block_hash \<Rightarrow> block_hash \<Rightarrow> colouring \<times> cache \<Rightarrow> colouring \<times> cache" where
  "colour_step s selected_parent candidate st =
     (case st of ((blues, reds, sizes), c) \<Rightarrow>
       (case colour_candidate s candidate selected_parent blues sizes c of
          ((Blue, candidate_anticone, ups), c) \<Rightarrow>
            ((blues @ [candidate], reds,
              fold (\<lambda>(b, n) m. AList.update b n m) ups (AList.update candidate candidate_anticone sizes)), c)
        | ((Red, _, _), c) \<Rightarrow> ((blues, reds @ [candidate], sizes), c)))"

definition compute_ghostdag ::
  "(header \<Rightarrow> block_hash) \<Rightarrow> dag_store \<Rightarrow> header \<Rightarrow> cache \<Rightarrow> (dag_error + ghostdag_data) \<times> cache" where
  "compute_ghostdag hash s h c =
     (let selected_parent = select_parent s (h_parents h) in
      case map_of (s_data s) selected_parent of
        None \<Rightarrow> (Inl (MissingParent (hash h) selected_parent), c)
      | Some selected_data \<Rightarrow>
          (case ordered_mergeset s (hash h) h selected_parent c of
             (Inl e, c) \<Rightarrow> (Inl e, c)
           | (Inr ms, c) \<Rightarrow>
               (case fold (colour_step s selected_parent) ms
                       (([selected_parent], [], [(selected_parent, 0)]), c) of
                  ((blues, reds, sizes), c) \<Rightarrow>
                    (Inr \<lparr>d_selected_parent = selected_parent,
                       d_blue_score = d_blue_score selected_data + length blues,
                       d_blue_work =
                         saturating_add
                           (foldl (\<lambda>w b. saturating_add w (block_work s b)) (d_blue_work selected_data)
                              (drop 1 blues))
                           (header_work h),
                       d_mergeset_blues = blues, d_mergeset_reds = reds, d_mergeset_ordered = ms,
                       d_topological_height =
                         foldr (\<lambda>p m. max (topological_height s p) m) (h_parents h) 0 + 1,
                       d_blues_anticone_sizes = sizes\<rparr>, c))))"

definition add_child :: "block_hash \<Rightarrow> block_hash \<Rightarrow> (block_hash, block_hash list) hmap \<Rightarrow> (block_hash, block_hash list) hmap" where
  "add_child child p m =
     AList.update p ((case map_of m p of None \<Rightarrow> [] | Some cs \<Rightarrow> cs) @ [child]) m"

definition add_block ::
  "(header \<Rightarrow> block_hash) \<Rightarrow> dag_store \<Rightarrow> header \<Rightarrow> (dag_error + block_hash) \<times> dag_store" where
  "add_block hash s h =
     (let block_id = hash h in
      if contains s block_id then (Inl (AlreadyPresent block_id), s)
      else if h_parents h = [] then (Inl (NoParentsDag block_id), s)
      else case find (\<lambda>p. \<not> contains s p) (h_parents h) of
          Some p \<Rightarrow> (Inl (MissingParent block_id p), s)
        | None \<Rightarrow>
            (case compute_ghostdag hash s h (s_reachability s) of
               (Inl e, c) \<Rightarrow> (Inl e, s\<lparr>s_reachability := c\<rparr>)
             | (Inr d, c) \<Rightarrow>
                 (Inr block_id,
                  s\<lparr>s_children := fold (add_child block_id) (h_parents h) (s_children s),
                    s_tips := btree_insert block_id (fold btree_remove (h_parents h) (s_tips s)),
                    s_headers := AList.update block_id h (s_headers s),
                    s_data := AList.update block_id d (s_data s),
                    s_reachability := c\<rparr>)))"

end
