(* ===== verification/Dag_Reach.thy ===== *)
theory Dag_Reach
  imports Dag
begin

text \<open>
  Reachability in the DAG: the ancestor relation the code means, the well-formedness of a store,
  and the proof that the pruned, memoised search answers it exactly and keeps its cache valid.
\<close>

section \<open>The ancestor relation\<close>

definition blocks :: "dag_store \<Rightarrow> block_hash set" where
  "blocks s = fst ` set (s_headers s)"

definition parents_of :: "dag_store \<Rightarrow> block_hash \<Rightarrow> block_hash list" where
  "parents_of s b = (case map_of (s_headers s) b of None \<Rightarrow> [] | Some h \<Rightarrow> h_parents h)"

definition parent_rel :: "dag_store \<Rightarrow> (block_hash \<times> block_hash) set" where
  "parent_rel s = {(b, p). p \<in> set (parents_of s b)}"

definition ancestor :: "dag_store \<Rightarrow> block_hash \<Rightarrow> block_hash \<Rightarrow> bool" where
  "ancestor s a d \<longleftrightarrow> (d, a) \<in> (parent_rel s)\<^sup>*"

text \<open>The part of a store's well-formedness that reachability rests on.\<close>

definition topology_ok :: "dag_store \<Rightarrow> bool" where
  "topology_ok s \<longleftrightarrow>
     hmap_ok (s_headers s) \<and> hmap_ok (s_data s) \<and> fst ` set (s_data s) = blocks s \<and>
     s_genesis s \<in> blocks s \<and> parents_of s (s_genesis s) = [] \<and>
     (\<forall>b \<in> blocks s. b \<noteq> s_genesis s \<longrightarrow> parents_of s b \<noteq> []) \<and>
     (\<forall>b p. p \<in> set (parents_of s b) \<longrightarrow> p \<in> blocks s \<and> topological_height s p < topological_height s b)"

definition cache_ok :: "dag_store \<Rightarrow> cache \<Rightarrow> bool" where
  "cache_ok s c \<longleftrightarrow> length c \<le> CACHE_CAPACITY \<and>
     (\<forall>d a v. map_of c (d, a) = Some v \<longrightarrow> d \<in> blocks s \<and> a \<in> blocks s \<and> (v \<longleftrightarrow> ancestor s a d))"

lemma contains_iff: "contains s b \<longleftrightarrow> b \<in> blocks s"
  by (simp add: contains_def blocks_def map_of_keys_iff)

lemma header_of_block: "b \<in> blocks s \<Longrightarrow> \<exists>h. map_of (s_headers s) b = Some h"
  using contains_iff[of s b] by (auto simp: contains_def)

lemma data_of_block: "topology_ok s \<Longrightarrow> b \<in> blocks s \<Longrightarrow> \<exists>d. map_of (s_data s) b = Some d"
  unfolding topology_ok_def by (metis map_of_keys_iff not_None_eq)

lemma parents_in_blocks: "topology_ok s \<Longrightarrow> p \<in> set (parents_of s b) \<Longrightarrow> p \<in> blocks s"
  by (simp add: topology_ok_def)

lemma parent_height: "topology_ok s \<Longrightarrow> p \<in> set (parents_of s b) \<Longrightarrow> topological_height s p < topological_height s b"
  by (simp add: topology_ok_def)

lemma ancestor_refl [simp, intro]: "ancestor s a a"
  by (simp add: ancestor_def)

lemma ancestor_trans: "ancestor s a b \<Longrightarrow> ancestor s b c \<Longrightarrow> ancestor s a c"
  by (auto simp: ancestor_def)

lemma ancestor_parent: "p \<in> set (parents_of s b) \<Longrightarrow> ancestor s p b"
  by (auto simp: ancestor_def parent_rel_def)

lemma ancestor_cases:
  "ancestor s a d \<longleftrightarrow> a = d \<or> (\<exists>p \<in> set (parents_of s d). ancestor s a p)"
  by (auto simp: ancestor_def parent_rel_def elim: converse_rtranclE intro: converse_rtrancl_into_rtrancl)

lemma trancl_height:
  assumes "topology_ok s" and "(d, a) \<in> (parent_rel s)\<^sup>+"
  shows "topological_height s a < topological_height s d"
  using assms(2)
proof (induction rule: trancl_induct)
  case (base y)
  then show ?case using parent_height[OF assms(1)] by (simp add: parent_rel_def)
next
  case (step y z)
  then show ?case using parent_height[OF assms(1), of z y] by (simp add: parent_rel_def)
qed

lemma ancestor_height:
  "topology_ok s \<Longrightarrow> ancestor s a d \<Longrightarrow> a \<noteq> d \<Longrightarrow> topological_height s a < topological_height s d"
  using trancl_height[of s d a] by (auto simp: ancestor_def dest: rtranclD)

lemma ancestor_antisym: "topology_ok s \<Longrightarrow> ancestor s a b \<Longrightarrow> ancestor s b a \<Longrightarrow> a = b"
  using ancestor_height[of s a b] ancestor_height[of s b a] by fastforce

lemma ancestor_in_blocks: "topology_ok s \<Longrightarrow> ancestor s a d \<Longrightarrow> d \<in> blocks s \<Longrightarrow> a \<in> blocks s"
  unfolding ancestor_def
  by (erule rtranclE) (auto simp: parent_rel_def intro: parents_in_blocks)

lemma genesis_ancestor:
  assumes "topology_ok s" and "b \<in> blocks s"
  shows "ancestor s (s_genesis s) b"
  using assms(2)
proof (induction "topological_height s b" arbitrary: b rule: less_induct)
  case less
  show ?case
  proof (cases "b = s_genesis s")
    case False
    then obtain p where p: "p \<in> set (parents_of s b)"
      using assms(1) less.prems by (fastforce simp: topology_ok_def neq_Nil_conv)
    then have "ancestor s (s_genesis s) p"
      using less.hyps parent_height[OF assms(1) p] parents_in_blocks[OF assms(1) p] by blast
    then show ?thesis using p ancestor_cases by blast
  qed simp
qed

lemma finite_blocks [simp]: "finite (blocks s)"
  by (simp add: blocks_def)

section \<open>The search\<close>

lemma scan_parents_None:
  "scan_parents s a ah ps q seen = None \<longleftrightarrow> a \<in> set ps"
  by (induction ps arbitrary: q seen) auto

lemma scan_parents_Some:
  "scan_parents s a ah ps q seen = Some (q', seen') \<Longrightarrow>
   a \<notin> set ps \<and> (\<forall>p \<in> set ps. topological_height s p \<le> ah \<or> p \<in> seen') \<and> seen \<subseteq> seen'"
proof (induction ps arbitrary: q seen)
  case (Cons p ps)
  then show ?case by (fastforce split: if_splits)
qed simp

lemma search_sound:
  "ancestor_search s a ah q seen \<Longrightarrow> \<exists>x \<in> set q. (x, a) \<in> (parent_rel s)\<^sup>+"
proof (induction s a ah q seen rule: ancestor_search.induct)
  case (1 s a ah seen)
  then show ?case by simp
next
  case (2 s a ah cur q seen)
  show ?case
  proof (cases "map_of (s_headers s) cur")
    case None
    with 2 show ?thesis by auto
  next
    case (Some h)
    then have par: "parents_of s cur = h_parents h" by (simp add: parents_of_def)
    show ?thesis
    proof (cases "scan_parents s a ah (h_parents h) q seen")
      case None
      then have "(cur, a) \<in> parent_rel s" by (simp add: scan_parents_None parent_rel_def par)
      then show ?thesis by auto
    next
      case (Some r)
      then obtain q' seen' where r: "scan_parents s a ah (h_parents h) q seen = Some (q', seen')"
        by (cases r) auto
      from scan_parents_grows[OF r] obtain new where new: "q' = q @ new" "set new \<subseteq> set (h_parents h)"
        by auto
      have "ancestor_search s a ah q' seen'" using "2.prems" \<open>map_of (s_headers s) cur = Some h\<close> r by simp
      from "2.IH"(2)[OF \<open>map_of (s_headers s) cur = Some h\<close> r refl this]
      obtain x where x: "x \<in> set q'" "(x, a) \<in> (parent_rel s)\<^sup>+" by auto
      show ?thesis
      proof (cases "x \<in> set q")
        case True
        with x show ?thesis by auto
      next
        case False
        then have "(cur, x) \<in> parent_rel s" using x(1) new by (auto simp: parent_rel_def par)
        then have "(cur, a) \<in> (parent_rel s)\<^sup>+" using x(2) by (rule trancl_into_trancl2)
        then show ?thesis by auto
      qed
    qed
  qed
qed

text \<open>What a failed search has established about the blocks it saw.\<close>

definition explored :: "dag_store \<Rightarrow> block_hash \<Rightarrow> nat \<Rightarrow> block_hash set \<Rightarrow> block_hash set \<Rightarrow> bool" where
  "explored s a ah X S \<longleftrightarrow> (\<forall>x \<in> X. \<forall>p \<in> set (parents_of s x). p \<noteq> a \<and> (topological_height s p \<le> ah \<or> p \<in> S))"

lemma search_complete:
  "\<not> ancestor_search s a ah q seen \<Longrightarrow> explored s a ah (seen - set q) seen \<Longrightarrow>
   \<exists>S. seen \<subseteq> S \<and> explored s a ah S S"
proof (induction s a ah q seen rule: ancestor_search.induct)
  case (1 s a ah seen)
  then show ?case by (intro exI[of _ seen]) simp
next
  case (2 s a ah cur q seen)
  show ?case
  proof (cases "map_of (s_headers s) cur")
    case None
    then have "parents_of s cur = []" by (simp add: parents_of_def)
    then have "explored s a ah (seen - set q) seen" using "2.prems"(2) by (auto simp: explored_def)
    with 2 None show ?thesis by auto
  next
    case (Some h)
    then have par: "parents_of s cur = h_parents h" by (simp add: parents_of_def)
    with "2.prems"(1) Some obtain q' seen' where
      r: "scan_parents s a ah (h_parents h) q seen = Some (q', seen')"
      and ns: "\<not> ancestor_search s a ah q' seen'" by (auto split: option.splits)
    note sp = scan_parents_Some[OF r]
    from scan_parents_grows[OF r] obtain new where new: "q' = q @ new" "seen' = seen \<union> set new" by auto
    have "explored s a ah (seen' - set q') seen'"
      using "2.prems"(2) sp new by (fastforce simp: explored_def par)
    from "2.IH"(2)[OF Some r refl ns this] sp show ?thesis by auto
  qed
qed

lemma explored_unreachable:
  assumes "topology_ok s" and "explored s a (topological_height s a) S S" and "x \<in> S"
  shows "(x, a) \<notin> (parent_rel s)\<^sup>+"
proof
  assume "(x, a) \<in> (parent_rel s)\<^sup>+"
  then show False using assms(3)
  proof (induction rule: converse_trancl_induct)
    case (base y)
    then show ?case using assms(2) by (auto simp: explored_def parent_rel_def)
  next
    case (step y z)
    then have "topological_height s a < topological_height s z" using trancl_height[OF assms(1)] by blast
    with step assms(2) show ?case by (fastforce simp: explored_def parent_rel_def)
  qed
qed

lemma ancestor_search_iff:
  assumes "topology_ok s" and "a \<noteq> d"
  shows "ancestor_search s a (topological_height s a) [d] {d} \<longleftrightarrow> ancestor s a d"
proof
  assume "ancestor_search s a (topological_height s a) [d] {d}"
  from search_sound[OF this] show "ancestor s a d" by (auto simp: ancestor_def)
next
  assume anc: "ancestor s a d"
  then have "(d, a) \<in> (parent_rel s)\<^sup>+" using assms(2) by (auto simp: ancestor_def dest: rtranclD)
  moreover have "explored s a (topological_height s a) ({d} - set [d]) {d}" by (simp add: explored_def)
  ultimately show "ancestor_search s a (topological_height s a) [d] {d}"
    using search_complete[of s a "topological_height s a" "[d]" "{d}"] explored_unreachable[OF assms(1)]
    by blast
qed

section \<open>The cache\<close>

lemma cache_ok_Nil [simp]: "cache_ok s []"
  by (simp add: cache_ok_def)

lemma cache_ok_remember:
  assumes "cache_ok s c" and "a \<in> blocks s" and "d \<in> blocks s" and "v \<longleftrightarrow> ancestor s a d"
  shows "cache_ok s (remember d a v c)"
proof -
  have *: "cache_ok s (AList.update (d, a) v c0)"
    if "length c0 < CACHE_CAPACITY" and "cache_ok s c0" for c0
    using that assms(2-4) length_update_le[of "(d, a)" v c0] by (auto simp: cache_ok_def split: if_splits)
  show ?thesis
  proof (cases "CACHE_CAPACITY \<le> length c")
    case True
    have "0 < CACHE_CAPACITY" by (simp add: CACHE_CAPACITY_def)
    with True *[of "[]"] show ?thesis by (simp add: remember_def)
  next
    case False
    with *[of c] assms(1) show ?thesis by (simp add: remember_def)
  qed
qed

lemma is_ancestor_of_correct:
  assumes "topology_ok s" and "cache_ok s c" and "a \<in> blocks s" and "d \<in> blocks s"
    and "is_ancestor_of s a d c = (v, c')"
  shows "(v \<longleftrightarrow> ancestor s a d) \<and> cache_ok s c'"
proof (cases "a = d")
  case True
  with assms show ?thesis by (auto simp: is_ancestor_of_def)
next
  case False
  show ?thesis
  proof (cases "map_of c (d, a)")
    case (Some b)
    with assms False show ?thesis by (auto simp: is_ancestor_of_def cache_ok_def)
  next
    case None
    have "\<not> ancestor s a d" if "topological_height s d \<le> topological_height s a"
      using that ancestor_height[OF assms(1) _ False] by force
    then show ?thesis
      using assms False None ancestor_search_iff[OF assms(1) False] cache_ok_remember[OF assms(2,3,4)]
      by (auto simp: is_ancestor_of_def Let_def split: if_splits)
  qed
qed

text \<open>
  The contract a reachability oracle owes to its clients: on blocks of the store it answers the
  ancestor relation and keeps its private cache valid, whatever the cache holds.
\<close>

locale reachability_oracle =
  fixes ok :: "'s \<Rightarrow> bool" and members :: "'s \<Rightarrow> 'b set"
    and query :: "'s \<Rightarrow> 'b \<Rightarrow> 'b \<Rightarrow> 'c \<Rightarrow> bool \<times> 'c"
    and valid :: "'s \<Rightarrow> 'c \<Rightarrow> bool" and reach :: "'s \<Rightarrow> 'b \<Rightarrow> 'b \<Rightarrow> bool"
  assumes query_correct: "ok s \<Longrightarrow> valid s c \<Longrightarrow> a \<in> members s \<Longrightarrow> d \<in> members s \<Longrightarrow>
      query s a d c = (v, c') \<Longrightarrow> (v \<longleftrightarrow> reach s a d) \<and> valid s c'"
begin

lemma query_fst: "ok s \<Longrightarrow> valid s c \<Longrightarrow> a \<in> members s \<Longrightarrow> d \<in> members s \<Longrightarrow>
    fst (query s a d c) \<longleftrightarrow> reach s a d"
  using query_correct[of s c a d] by (cases "query s a d c") auto

lemma query_snd: "ok s \<Longrightarrow> valid s c \<Longrightarrow> a \<in> members s \<Longrightarrow> d \<in> members s \<Longrightarrow>
    valid s (snd (query s a d c))"
  using query_correct[of s c a d] by (cases "query s a d c") auto

lemma query_eq: "ok s \<Longrightarrow> valid s c \<Longrightarrow> a \<in> members s \<Longrightarrow> d \<in> members s \<Longrightarrow>
    \<exists>c'. query s a d c = (reach s a d, c') \<and> valid s c'"
  using query_correct[of s c a d] by (cases "query s a d c") auto

text \<open>Two caches never disagree on an answer: the memoisation is not observable.\<close>

lemma query_cache_irrelevant: "ok s \<Longrightarrow> valid s c \<Longrightarrow> valid s c' \<Longrightarrow> a \<in> members s \<Longrightarrow> d \<in> members s \<Longrightarrow>
    fst (query s a d c) = fst (query s a d c')"
  by (simp add: query_fst)

end

interpretation reach: reachability_oracle topology_ok blocks is_ancestor_of cache_ok ancestor
  by unfold_locales (rule is_ancestor_of_correct)

end
