(* ===== verification/Dag_Mergeset.thy ===== *)
theory Dag_Mergeset
  imports Dag_Reach
begin

text \<open>
  The block order and the merge set: selected-parent choice picks the maximum of a strict order,
  the breadth-first loop collects exactly \<open>past(block) \ past(selected parent)\<close>, and the
  topological sort is a function of that set alone that never places a block before an ancestor.
\<close>

section \<open>The block order\<close>

interpretation block_order: strict_comparator "compare_blocks s" for s
proof
  fix a b d
  show "compare_blocks s a b = Equal \<longleftrightarrow> a = b"
    by (auto simp: compare_blocks_def cmp_def then_with_def)
  show "compare_blocks s a b = Greater \<longleftrightarrow> compare_blocks s b a = Less"
    by (auto simp: compare_blocks_def cmp_def then_with_def)
  show "compare_blocks s a b = Less \<Longrightarrow> compare_blocks s b d = Less \<Longrightarrow> compare_blocks s a d = Less"
    by (auto simp: compare_blocks_def cmp_def then_with_def split: if_splits)
qed

definition best_of :: "dag_store \<Rightarrow> block_hash \<Rightarrow> block_hash list \<Rightarrow> bool" where
  "best_of s b xs \<longleftrightarrow> b \<in> set xs \<and> (\<forall>x \<in> set xs. compare_blocks s x b \<noteq> Greater)"

lemma best_of_unique: "best_of s a xs \<Longrightarrow> best_of s b ys \<Longrightarrow> set xs = set ys \<Longrightarrow> a = b"
  unfolding best_of_def using block_order.not_greater block_order.less_asym by metis

lemma best_of_extend:
  assumes "best_of s b (y # xs)" and "compare_blocks s x y \<noteq> Greater"
  shows "best_of s b (x # y # xs)"
proof -
  have "compare_blocks s y b \<noteq> Greater" using assms(1) by (simp add: best_of_def)
  with assms show ?thesis by (simp add: best_of_def block_order.le_trans)
qed

lemma best_of_swap: "best_of s b (x # y # xs) = best_of s b (y # x # xs)"
  by (auto simp: best_of_def)

lemma select_parent_best:
  assumes "parents \<noteq> []" shows "best_of s (select_parent s parents) parents"
proof -
  have "best_of s (foldl (\<lambda>best p. if compare_blocks s p best = Greater then p else best) b ps) (b # ps)"
    for b ps
  proof (induction ps arbitrary: b)
    case Nil
    then show ?case using block_order.c_equal[of s b b] by (simp add: best_of_def)
  next
    case (Cons p ps)
    show ?case
    proof (cases "compare_blocks s p b = Greater")
      case True
      then have "compare_blocks s b p \<noteq> Greater" using block_order.c_swap[of s p b] by simp
      with True show ?thesis by (simp add: best_of_extend[OF Cons[of p]])
    next
      case False
      then show ?thesis by (simp add: best_of_extend[OF Cons[of b], of p] best_of_swap[of s _ b])
    qed
  qed
  with assms show ?thesis by (cases parents) (auto simp: select_parent_def)
qed

lemma select_parent_in: "parents \<noteq> [] \<Longrightarrow> select_parent s parents \<in> set parents"
  using select_parent_best by (simp add: best_of_def)

section \<open>The merge set\<close>

text \<open>What the code's comment calls \<open>past(block) \ past(selected_parent)\<close>.\<close>

definition merge_set :: "dag_store \<Rightarrow> block_hash list \<Rightarrow> block_hash \<Rightarrow> block_hash set" where
  "merge_set s ps sp = {x. (\<exists>p \<in> set ps. ancestor s x p) \<and> \<not> ancestor s x sp}"

definition ms_inv ::
  "dag_store \<Rightarrow> block_hash \<Rightarrow> block_hash list \<Rightarrow> block_hash list \<Rightarrow> block_hash set \<Rightarrow> block_hash list \<Rightarrow> bool" where
  "ms_inv s sp ps q seen found \<longleftrightarrow>
     sp \<notin> seen \<and> set ps \<subseteq> insert sp seen \<and> seen \<subseteq> {x. \<exists>p \<in> set ps. ancestor s x p} \<and>
     set q \<subseteq> seen \<and> distinct q \<and> distinct found \<and>
     set found = {x \<in> seen - set q. \<not> ancestor s x sp} \<and>
     (\<forall>x \<in> set found. set (parents_of s x) \<subseteq> insert sp seen)"

lemma merge_set_in_blocks:
  "topology_ok s \<Longrightarrow> set ps \<subseteq> blocks s \<Longrightarrow> merge_set s ps sp \<subseteq> blocks s"
  by (auto simp: merge_set_def intro: ancestor_in_blocks)

lemma ms_inv_seen_blocks:
  "topology_ok s \<Longrightarrow> set ps \<subseteq> blocks s \<Longrightarrow> ms_inv s sp ps q seen found \<Longrightarrow> seen \<subseteq> blocks s"
  unfolding ms_inv_def using ancestor_in_blocks by blast

lemma ms_inv_init:
  assumes "enqueue_new sp ps [] {} = (q, seen)"
  shows "ms_inv s sp ps q seen []"
proof -
  from enqueue_new_grows[OF assms] have "distinct q" "seen = set q" "set q = set ps - {sp}" by auto
  then show ?thesis by (auto simp: ms_inv_def)
qed

lemma ms_inv_skip:
  assumes "ms_inv s sp ps (cur # q) seen found" and "ancestor s cur sp"
  shows "ms_inv s sp ps q seen found"
  using assms by (auto simp: ms_inv_def)

lemma ms_inv_take:
  assumes inv: "ms_inv s sp ps (cur # q) seen found" and na: "\<not> ancestor s cur sp"
    and en: "enqueue_new sp (parents_of s cur) q seen = (q', seen')"
  shows "ms_inv s sp ps q' seen' (found @ [cur])"
proof -
  from enqueue_new_grows[OF en] obtain new where new: "q' = q @ new" "distinct new"
    "seen' = seen \<union> set new" "set new = set (parents_of s cur) - insert sp seen" by auto
  from inv have cur: "cur \<in> seen" "cur \<notin> set q" "cur \<notin> set found" and q: "set q \<subseteq> seen" "distinct q"
    and found: "distinct found" "set found = {x \<in> seen - set (cur # q). \<not> ancestor s x sp}"
    "\<forall>x \<in> set found. set (parents_of s x) \<subseteq> insert sp seen"
    and seen: "sp \<notin> seen" "set ps \<subseteq> insert sp seen" "seen \<subseteq> {x. \<exists>p \<in> set ps. ancestor s x p}"
    by (auto simp: ms_inv_def)
  have disj: "set new \<inter> seen = {}" "sp \<notin> set new" using new(4) by auto
  have "set new \<subseteq> {x. \<exists>p \<in> set ps. ancestor s x p}"
  proof
    fix x assume "x \<in> set new"
    then have "ancestor s x cur" using new(4) ancestor_parent by auto
    with cur(1) seen(3) show "x \<in> {x. \<exists>p \<in> set ps. ancestor s x p}" using ancestor_trans by blast
  qed
  moreover have "set (found @ [cur]) = {x \<in> seen' - set q'. \<not> ancestor s x sp}"
    using found(2) cur na disj q by (auto simp: new(1,3))
  ultimately show ?thesis
    unfolding ms_inv_def using cur q found seen disj new by (auto simp: new(1,3))
qed

lemma ms_inv_found_sub: "ms_inv s sp ps q seen found \<Longrightarrow> set found \<subseteq> merge_set s ps sp"
  by (auto simp: ms_inv_def merge_set_def)

text \<open>With the queue empty the loop has found the whole merge set.\<close>

lemma ms_inv_final:
  assumes "ms_inv s sp ps [] seen found"
  shows "set found = merge_set s ps sp \<and> distinct found"
proof -
  have found: "set found = {x \<in> seen. \<not> ancestor s x sp}" and ps: "set ps \<subseteq> insert sp seen"
    and closed: "\<forall>x \<in> set found. set (parents_of s x) \<subseteq> insert sp seen"
    using assms by (auto simp: ms_inv_def)
  have "x \<in> set found" if "(p, x) \<in> (parent_rel s)\<^sup>*" "p \<in> set ps" "\<not> ancestor s x sp" for p x
    using that
  proof (induction rule: rtrancl_induct)
    case base
    then show ?case using ps by (auto simp: found)
  next
    case (step y z)
    have "ancestor s z y" using step.hyps(2) by (simp add: parent_rel_def ancestor_parent)
    then have "y \<in> set found" using step ancestor_trans by blast
    then have "z \<in> insert sp seen" using closed step.hyps(2) by (auto simp: parent_rel_def)
    then show ?case using step.prems by (auto simp: found)
  qed
  then have "merge_set s ps sp \<subseteq> set found" by (auto simp: merge_set_def ancestor_def)
  with ms_inv_found_sub[OF assms] assms show ?thesis by (auto simp: ms_inv_def)
qed

lemma enqueue_new_parents_of:
  "(case map_of (s_headers s) cur of None \<Rightarrow> (q, seen) | Some h \<Rightarrow> enqueue_new sp (h_parents h) q seen)
   = enqueue_new sp (parents_of s cur) q seen"
  by (simp add: parents_of_def split: option.splits)

lemma mergeset_loop_correct:
  "topology_ok s \<Longrightarrow> set ps \<subseteq> blocks s \<Longrightarrow> sp \<in> blocks s \<Longrightarrow>
   ms_inv s sp ps q seen found \<Longrightarrow> cache_ok s c \<Longrightarrow> length found \<le> s_mergeset_size_limit s \<Longrightarrow>
   mergeset_loop s sp q seen found c = (r, c') \<Longrightarrow>
   cache_ok s c' \<and>
   (case r of
      Some ms \<Rightarrow> set ms = merge_set s ps sp \<and> distinct ms \<and> length ms \<le> s_mergeset_size_limit s
    | None \<Rightarrow> card (merge_set s ps sp) > s_mergeset_size_limit s)"
proof (induction s sp q seen found c rule: mergeset_loop.induct)
  case (1 s sp seen found c)
  then show ?case using ms_inv_final by auto
next
  case (2 s sp cur q seen found c)
  have "cur \<in> blocks s" using ms_inv_seen_blocks[OF 2(4,5,7)] 2(7) by (auto simp: ms_inv_def)
  then obtain c1 where q1: "is_ancestor_of s cur sp c = (ancestor s cur sp, c1)" and c1: "cache_ok s c1"
    using reach.query_eq[OF 2(4,8) _ 2(6)] by blast
  show ?case
  proof (cases "ancestor s cur sp")
    case True
    with 2(1)[OF q1[symmetric] refl True 2(4,5,6) ms_inv_skip[OF 2(7) True] c1] 2(9,10) q1
    show ?thesis by simp
  next
    case na: False
    obtain h where h: "map_of (s_headers s) cur = Some h" using header_of_block[OF \<open>cur \<in> blocks s\<close>] by blast
    obtain q' seen' where en: "enqueue_new sp (h_parents h) q seen = (q', seen')" by fastforce
    have inv': "ms_inv s sp ps q' seen' (found @ [cur])"
      by (rule ms_inv_take[OF 2(7) na]) (simp add: parents_of_def h en)
    show ?thesis
    proof (cases "length (found @ [cur]) > s_mergeset_size_limit s")
      case True
      have "card (set (found @ [cur])) \<le> card (merge_set s ps sp)"
        using ms_inv_found_sub[OF inv'] finite_subset[OF merge_set_in_blocks[OF 2(4,5)] finite_blocks]
        by (rule card_mono[rotated])
      moreover have "distinct (found @ [cur])" using inv' by (simp add: ms_inv_def)
      ultimately have "length (found @ [cur]) \<le> card (merge_set s ps sp)" by (simp only: distinct_card)
      with True 2(10) q1 na c1 show ?thesis by auto
    next
      case False
      have "mergeset_loop s sp q' seen' (found @ [cur]) c1 = (r, c')"
        using 2(10) q1 na False h en by simp
      with 2(3)[OF q1[symmetric] refl na refl False h en[symmetric] refl 2(4,5,6) inv' c1] False
      show ?thesis by simp
    qed
  qed
qed

section \<open>The topological sort\<close>

text \<open>\<open>parents_first s m em xs\<close>: with \<open>em\<close> already emitted, no block of \<open>xs\<close> comes before a parent in \<open>m\<close>.\<close>

fun parents_first ::
  "dag_store \<Rightarrow> block_hash set \<Rightarrow> block_hash set \<Rightarrow> block_hash list \<Rightarrow> bool" where
  "parents_first s m em [] = True"
| "parents_first s m em (x # xs) \<longleftrightarrow>
     set (parents_of s x) \<inter> m \<subseteq> em \<and> parents_first s m (insert x em) xs"

lemma parents_first_append:
  "parents_first s m em (xs @ ys) \<longleftrightarrow> parents_first s m em xs \<and> parents_first s m (em \<union> set xs) ys"
  by (induction xs arbitrary: em) auto

lemma ready_iff:
  "(case map_of (s_headers s) b of None \<Rightarrow> True
    | Some h \<Rightarrow> list_all (\<lambda>p. p \<notin> m \<or> p \<in> em) (h_parents h)) \<longleftrightarrow> set (parents_of s b) \<inter> m \<subseteq> em"
  by (auto simp: parents_of_def list_all_iff split: option.splits)

lemma topo_pass_Cons:
  "topo_pass s m (b # bs) em ob nr pr =
     (if set (parents_of s b) \<inter> m \<subseteq> em then topo_pass s m bs (insert b em) (ob @ [b]) nr True
      else topo_pass s m bs em ob (nr @ [b]) pr)"
  by (simp only: topo_pass.simps Let_def ready_iff)

lemma topo_pass_first:
  "topo_pass s m bs em ob nr pr = (em', ob', nr', pr') \<Longrightarrow> parents_first s m {} ob \<Longrightarrow> em = set ob \<Longrightarrow>
   parents_first s m {} ob' \<and> em' = set ob'"
proof (induction bs arbitrary: em ob nr pr)
  case (Cons b bs)
  show ?case
  proof (cases "set (parents_of s b) \<inter> m \<subseteq> em")
    case True
    with Cons.prems have "topo_pass s m bs (insert b em) (ob @ [b]) nr True = (em', ob', nr', pr')"
      by (simp only: topo_pass_Cons if_True)
    from Cons.IH[OF this] Cons.prems(2,3) True show ?thesis by (auto simp: parents_first_append)
  next
    case False
    with Cons.prems have "topo_pass s m bs em ob (nr @ [b]) pr = (em', ob', nr', pr')"
      by (simp only: topo_pass_Cons if_False)
    from Cons.IH[OF this] Cons.prems(2,3) show ?thesis by auto
  qed
qed simp

text \<open>A pass over a well-formed DAG always makes progress: a block of least height is ready.\<close>

lemma topo_pass_progress:
  "topo_pass s m bs em ob nr pr = (em', ob', nr', pr') \<Longrightarrow> b \<in> set bs \<Longrightarrow>
   set (parents_of s b) \<inter> m \<subseteq> em \<Longrightarrow> pr'"
proof (induction bs arbitrary: em ob nr pr)
  case (Cons a bs)
  show ?case
  proof (cases "set (parents_of s a) \<inter> m \<subseteq> em")
    case True
    with Cons.prems have "topo_pass s m bs (insert a em) (ob @ [a]) nr True = (em', ob', nr', pr')"
      by (simp only: topo_pass_Cons if_True)
    from topo_pass_shape[OF this] show ?thesis by auto
  next
    case False
    with Cons.prems(1) have "topo_pass s m bs em ob (nr @ [a]) pr = (em', ob', nr', pr')"
      by (simp only: topo_pass_Cons if_False)
    moreover have "b \<in> set bs" using False Cons.prems(2,3) by auto
    ultimately show ?thesis using Cons.IH Cons.prems(3) by blast
  qed
qed simp

lemma topo_loop_correct:
  "topology_ok s \<Longrightarrow> m \<subseteq> set ob \<union> set r \<Longrightarrow> em = set ob \<Longrightarrow> parents_first s m {} ob \<Longrightarrow>
   parents_first s m {} (topo_loop s m r em ob) \<and> mset (topo_loop s m r em ob) = mset ob + mset r"
proof (induction s m r em ob rule: topo_loop.induct)
  case (1 s m r em ob)
  show ?case
  proof (cases "r = []")
    case True
    with 1 show ?thesis by (subst (1 2) topo_loop.simps) simp
  next
    case False
    obtain em' ob' nr pr where pass: "topo_pass s m r em ob [] False = (em', ob', nr, pr)"
      by (metis prod_cases4)
    from topo_pass_shape[OF pass] obtain o1 where shape: "ob' = ob @ o1" "mset r = mset o1 + mset nr"
      by auto
    from topo_pass_first[OF pass 1(5,4)] have first: "parents_first s m {} ob'" "em' = set ob'" by auto
    obtain b where b: "b \<in> set r" and least: "\<forall>x \<in> set r. topological_height s b \<le> topological_height s x"
      using False ex_has_least_nat[of "\<lambda>x. x \<in> set r" "hd r" "topological_height s"] by auto
    have "set (parents_of s b) \<inter> m \<subseteq> em"
    proof
      fix p assume p: "p \<in> set (parents_of s b) \<inter> m"
      then have "topological_height s p < topological_height s b" using parent_height[OF 1(2)] by simp
      then have "p \<notin> set r" using least by force
      with p 1(3,4) show "p \<in> em" by auto
    qed
    from topo_pass_progress[OF pass b this] have pr: "pr" .
    have "set r = set o1 \<union> set nr" using shape(2) by (metis set_mset_mset set_mset_union)
    then have sub: "m \<subseteq> set ob' \<union> set nr" using 1(3) shape(1) by auto
    have "topo_loop s m r em ob = topo_loop s m nr em' ob'"
      by (subst topo_loop.simps) (simp add: False pass pr)
    moreover note 1(1)[OF False pass[symmetric] refl refl refl, simplified pr not_True_eq_False, OF _ 1(2) sub first(2,1)]
    ultimately show ?thesis using first(2) by (simp add: shape ac_simps Un_commute)
  qed
qed

lemma topological_sort_correct:
  assumes "topology_ok s"
  shows "parents_first s (set bs) {} (topological_sort s bs)" and "mset (topological_sort s bs) = mset bs"
  using topo_loop_correct[OF assms, of "set bs" "[]" "sort_by (compare_blocks s) bs" "{}"]
  by (simp_all add: topological_sort_def)

text \<open>The order the blocks were collected in does not matter.\<close>

lemma topological_sort_set:
  "distinct xs \<Longrightarrow> distinct ys \<Longrightarrow> set xs = set ys \<Longrightarrow> topological_sort s xs = topological_sort s ys"
  unfolding topological_sort_def using block_order.sort_by_set_unique by metis

section \<open>The ordered merge set\<close>

lemma merge_set_convex:
  assumes "a \<in> merge_set s ps sp" and "x \<in> merge_set s ps sp" and "ancestor s a x" and "a \<noteq> x"
  shows "\<exists>p \<in> set (parents_of s x). ancestor s a p \<and> p \<in> merge_set s ps sp"
proof -
  from assms(3,4) obtain p where p: "p \<in> set (parents_of s x)" "ancestor s a p"
    using ancestor_cases by blast
  with assms(1,2) ancestor_parent[OF p(1)] have "p \<in> merge_set s ps sp"
    unfolding merge_set_def using ancestor_trans by blast
  with p show ?thesis by blast
qed

text \<open>From parents to ancestors: in the emitted order nothing precedes one of its ancestors.\<close>

lemma parents_first_ancestors:
  assumes "parents_first s (merge_set s ps sp) {} ms" and "distinct ms" and "set ms = merge_set s ps sp"
    and "ms = us @ x # vs" and "a \<in> set vs"
  shows "\<not> ancestor s a x"
  using assms(4,5)
proof (induction "length us" arbitrary: us x vs rule: less_induct)
  case less
  show ?case
  proof
    assume anc: "ancestor s a x"
    have ne: "a \<noteq> x" and mem: "a \<in> merge_set s ps sp" "x \<in> merge_set s ps sp"
      using assms(2,3) less.prems by auto
    from merge_set_convex[OF mem anc ne] obtain p where
      p: "p \<in> set (parents_of s x)" "ancestor s a p" "p \<in> merge_set s ps sp" by blast
    have "set (parents_of s x) \<inter> merge_set s ps sp \<subseteq> set us"
      using assms(1) less.prems(1) by (simp add: parents_first_append)
    with p obtain us1 us2 where us: "us = us1 @ p # us2" using split_list[of p us] by blast
    have "length us1 < length us" and "ms = us1 @ p # (us2 @ x # vs)" and "a \<in> set (us2 @ x # vs)"
      using us less.prems by auto
    from less.hyps[OF this] p(2) show False by blast
  qed
qed

definition topo_ordered :: "dag_store \<Rightarrow> block_hash list \<Rightarrow> bool" where
  "topo_ordered s ms \<longleftrightarrow> (\<forall>us x vs a. ms = us @ x # vs \<longrightarrow> a \<in> set vs \<longrightarrow> \<not> ancestor s a x)"

lemma ordered_mergeset_correct:
  assumes ok: "topology_ok s" "cache_ok s c" and ps: "set (h_parents h) \<subseteq> blocks s" and sp: "sp \<in> blocks s"
    and run: "ordered_mergeset s b h sp c = (r, c')"
  shows "cache_ok s c' \<and>
    (case r of
       Inr ms \<Rightarrow> set ms = merge_set s (h_parents h) sp \<and> distinct ms \<and> topo_ordered s ms \<and>
          length ms \<le> s_mergeset_size_limit s \<and>
          (\<forall>xs. set xs = merge_set s (h_parents h) sp \<longrightarrow> distinct xs \<longrightarrow> ms = topological_sort s xs)
     | Inl e \<Rightarrow> e = MergesetTooLarge b (s_mergeset_size_limit s) \<and>
          s_mergeset_size_limit s < card (merge_set s (h_parents h) sp))"
proof -
  obtain q seen where en: "enqueue_new sp (h_parents h) [] {} = (q, seen)" by fastforce
  obtain found c1 where loop: "mergeset_loop s sp q seen [] c = (found, c1)" by fastforce
  note correct = mergeset_loop_correct[OF ok(1) ps sp ms_inv_init[OF en] ok(2) _ loop, simplified]
  show ?thesis
  proof (cases found)
    case None
    with correct run en loop show ?thesis by (auto simp: ordered_mergeset_def)
  next
    case (Some f)
    with correct have f: "set f = merge_set s (h_parents h) sp" "distinct f"
      "length f \<le> s_mergeset_size_limit s" "cache_ok s c1" by auto
    have r: "r = Inr (topological_sort s f)" "c' = c1"
      using run en loop Some by (auto simp: ordered_mergeset_def)
    note ts = topological_sort_correct[OF ok(1), of f]
    have set: "set (topological_sort s f) = merge_set s (h_parents h) sp"
      using mset_eq_setD[OF ts(2)] f(1) by simp
    have dist: "distinct (topological_sort s f)" using mset_eq_imp_distinct_iff[OF ts(2)] f(2) by simp
    have len: "length (topological_sort s f) \<le> s_mergeset_size_limit s"
      using mset_eq_length[OF ts(2)] f(3) by simp
    have "topo_ordered s (topological_sort s f)"
      unfolding topo_ordered_def
      using parents_first_ancestors[OF ts(1)[unfolded f(1)] dist set] by blast
    moreover have "topological_sort s f = topological_sort s xs"
      if "set xs = merge_set s (h_parents h) sp" "distinct xs" for xs
      using topological_sort_set[OF f(2) that(2)] that(1) f(1) by simp
    ultimately show ?thesis unfolding r sum.case using set dist len f(4) by blast
  qed
qed

end
