(* ===== verification/Dag_Colour.thy ===== *)
theory Dag_Colour
  imports Dag_Mergeset
begin

text \<open>
  The selected parent chain and the k-cluster colouring: both chain walks end, and the colouring
  with its cache, early returns and accumulators is the cache-free test over the blues concurrent
  with the candidate.
\<close>

section \<open>The selected parent chain\<close>

definition selected_parent_of :: "dag_store \<Rightarrow> block_hash \<Rightarrow> block_hash" where
  "selected_parent_of s b = (case map_of (s_data s) b of None \<Rightarrow> b | Some d \<Rightarrow> d_selected_parent d)"

definition blues_of :: "dag_store \<Rightarrow> block_hash \<Rightarrow> block_hash list" where
  "blues_of s b = (case map_of (s_data s) b of None \<Rightarrow> [] | Some d \<Rightarrow> d_mergeset_blues d)"

definition sizes_of :: "dag_store \<Rightarrow> block_hash \<Rightarrow> (block_hash, nat) hmap" where
  "sizes_of s b = (case map_of (s_data s) b of None \<Rightarrow> [] | Some d \<Rightarrow> d_blues_anticone_sizes d)"

definition size_in :: "(block_hash, nat) hmap \<Rightarrow> block_hash \<Rightarrow> nat" where
  "size_in m b = (case map_of m b of None \<Rightarrow> 0 | Some n \<Rightarrow> n)"

definition data_shape :: "dag_store \<Rightarrow> bool" where
  "data_shape s \<longleftrightarrow>
     (\<forall>b \<in> blocks s. set (blues_of s b) \<subseteq> blocks s \<and>
        (b \<noteq> s_genesis s \<longrightarrow> selected_parent_of s b \<in> set (parents_of s b)))"

lemma selected_parent_below:
  assumes "topology_ok s" "data_shape s" "b \<in> blocks s" "b \<noteq> s_genesis s"
  shows "selected_parent_of s b \<in> blocks s" "ancestor s (selected_parent_of s b) b"
    "topological_height s (selected_parent_of s b) < topological_height s b"
  using assms parents_in_blocks[OF assms(1)] parent_height[OF assms(1)] ancestor_parent
  by (auto simp: data_shape_def)

abbreviation chain_running :: "block_hash list \<times> block_hash \<times> bool \<Rightarrow> bool" where
  "chain_running \<equiv> (\<lambda>(chain, cursor, done). \<not> done)"

lemma chain_walk_step_block:
  assumes "topology_ok s" "b \<in> blocks s"
  shows "chain_walk_step s (acc, b, False) =
    (if b = s_genesis s then (acc @ [b], b, True) else (acc @ [b], selected_parent_of s b, False))"
  using data_of_block[OF assms] by (auto simp: chain_walk_step_def selected_parent_of_def)

lemma chain_walk_step_genesis [simp]:
  "chain_walk_step s (acc, s_genesis s, False) = (acc @ [s_genesis s], s_genesis s, True)"
  by (simp add: chain_walk_step_def)

lemma chain_walk_ends:
  assumes "topology_ok s" "data_shape s" "b \<in> blocks s"
  shows "\<exists>ch. \<forall>acc. while_option chain_running (chain_walk_step s) (acc, b, False)
                    = Some (acc @ ch, s_genesis s, True)"
  using assms(3)
proof (induction "topological_height s b" arbitrary: b rule: less_induct)
  case less
  show ?case
  proof (cases "b = s_genesis s")
    case True
    then show ?thesis
      by (intro exI[of _ "[b]"] allI, subst while_option_unfold, subst while_option_unfold)
        simp
  next
    case False
    from less.hyps[OF selected_parent_below(3,1)[OF assms(1,2) less.prems False]] obtain ch where
      ch: "\<forall>acc. while_option chain_running (chain_walk_step s) (acc, selected_parent_of s b, False)
            = Some (acc @ ch, s_genesis s, True)" by blast
    show ?thesis
      by (intro exI[of _ "b # ch"] allI, subst while_option_unfold)
        (simp add: chain_walk_step_block[OF assms(1) less.prems] False ch)
  qed
qed

lemma selected_parent_chain_unfold:
  assumes "topology_ok s" "data_shape s" "b \<in> blocks s"
  shows "selected_parent_chain s b =
    (if b = s_genesis s then [b] else b # selected_parent_chain s (selected_parent_of s b))"
proof (cases "b = s_genesis s")
  case True
  then have "while_option chain_running (chain_walk_step s) ([], b, False) = Some ([b], b, True)"
    by (subst while_option_unfold, subst while_option_unfold)
      simp
  with True show ?thesis by (simp add: selected_parent_chain_def while_def)
next
  case False
  from chain_walk_ends[OF assms(1,2) selected_parent_below(1)[OF assms False]] obtain ch where
    ch: "\<forall>acc. while_option chain_running (chain_walk_step s) (acc, selected_parent_of s b, False)
            = Some (acc @ ch, s_genesis s, True)" by blast
  have "while_option chain_running (chain_walk_step s) ([], b, False) = Some (b # ch, s_genesis s, True)"
    by (subst while_option_unfold) (simp add: chain_walk_step_block[OF assms(1,3)] False ch)
  with False ch show ?thesis by (simp add: selected_parent_chain_def while_def)
qed

lemma selected_parent_chain_shape:
  assumes "topology_ok s" "data_shape s" "b \<in> blocks s"
  shows "selected_parent_chain s b \<noteq> [] \<and> hd (selected_parent_chain s b) = b \<and>
    last (selected_parent_chain s b) = s_genesis s \<and>
    successively (\<lambda>x y. y = selected_parent_of s x \<and> y \<in> set (parents_of s x)) (selected_parent_chain s b) \<and>
    set (selected_parent_chain s b) \<subseteq> {x \<in> blocks s. ancestor s x b} \<and>
    distinct (selected_parent_chain s b)"
  using assms(3)
proof (induction "topological_height s b" arbitrary: b rule: less_induct)
  case less
  note unf = selected_parent_chain_unfold[OF assms(1,2) less.prems]
  show ?case
  proof (cases "b = s_genesis s")
    case True
    with unf less.prems show ?thesis by simp
  next
    case False
    let ?p = "selected_parent_of s b"
    note below = selected_parent_below[OF assms(1,2) less.prems False]
    note IH = less.hyps[OF below(3,1)]
    have "b \<notin> set (selected_parent_chain s ?p)"
    proof
      assume "b \<in> set (selected_parent_chain s ?p)"
      then have "ancestor s b ?p" using IH by blast
      from ancestor_antisym[OF assms(1) this below(2)] below(3) show False by simp
    qed
    moreover have "?p \<in> set (parents_of s b)" using assms(2) less.prems False by (simp add: data_shape_def)
    ultimately show ?thesis
      using unf False IH less.prems below(2) by (auto simp: successively_Cons intro: ancestor_trans)
  qed
qed

section \<open>Scanning blues\<close>

text \<open>The blues of a list that are not in the candidate's past, with their recorded sizes.\<close>

definition concurrent :: "dag_store \<Rightarrow> block_hash \<Rightarrow> (block_hash, nat) hmap \<Rightarrow> block_hash list \<Rightarrow> updates" where
  "concurrent s cand sizes bs = map (\<lambda>b. (b, size_in sizes b)) (filter (\<lambda>b. \<not> ancestor s b cand) bs)"

definition bump :: "updates \<Rightarrow> updates" where "bump = map (\<lambda>(b, n). (b, n + 1))"

definition cluster_ok :: "nat \<Rightarrow> nat \<Rightarrow> updates \<Rightarrow> bool" where
  "cluster_ok k n P \<longleftrightarrow> n + length P \<le> k \<and> (\<forall>(b, m) \<in> set P. m < k)"

definition scan_result :: "nat \<Rightarrow> nat \<Rightarrow> updates \<Rightarrow> updates \<Rightarrow> (nat \<times> updates) option" where
  "scan_result k n ups P = (if cluster_ok k n P then Some (n + length P, ups @ bump P) else None)"

lemma bump_simps [simp]: "bump [] = []" "bump ((b, n) # P) = (b, n + 1) # bump P" "bump (P @ Q) = bump P @ bump Q"
  by (simp_all add: bump_def)

lemma concurrent_Nil [simp]: "concurrent s cand sizes [] = []"
  by (simp add: concurrent_def)

lemma concurrent_Cons:
  "concurrent s cand sizes (b # bs) =
     (if ancestor s b cand then concurrent s cand sizes bs
      else (b, size_in sizes b) # concurrent s cand sizes bs)"
  by (simp add: concurrent_def)

lemma cluster_ok_simps [simp]:
  "n \<le> k \<Longrightarrow> cluster_ok k n []"
  "cluster_ok k n ((b, m) # P) \<longleftrightarrow> m < k \<and> n + 1 \<le> k \<and> cluster_ok k (n + 1) P"
  by (auto simp: cluster_ok_def)

lemma cluster_ok_append:
  "cluster_ok k n (P @ Q) \<longleftrightarrow> cluster_ok k n P \<and> cluster_ok k (n + length P) Q"
  by (auto simp: cluster_ok_def)

lemma scan_blues_correct:
  "topology_ok s \<Longrightarrow> cache_ok s c \<Longrightarrow> cand \<in> blocks s \<Longrightarrow> set bs \<subseteq> blocks s \<Longrightarrow> n \<le> s_k s \<Longrightarrow>
   scan_blues s cand sizes bs n ups c = (r, c') \<Longrightarrow>
   r = scan_result (s_k s) n ups (concurrent s cand sizes bs) \<and> cache_ok s c'"
proof (induction bs arbitrary: n ups c)
  case Nil
  then show ?case by (simp add: scan_result_def)
next
  case (Cons b bs)
  then obtain c1 where q: "is_ancestor_of s b cand c = (ancestor s b cand, c1)" and c1: "cache_ok s c1"
    using reach.query_eq[of s c b cand] by auto
  show ?case
  proof (cases "ancestor s b cand")
    case True
    with Cons.IH[OF Cons.prems(1) c1 Cons.prems(3) _ Cons.prems(5)] Cons.prems(4,6) q
    show ?thesis by (simp add: concurrent_Cons)
  next
    case na: False
    show ?thesis
    proof (cases "n + 1 \<le> s_k s \<and> size_in sizes b < s_k s")
      case True
      then have "scan_blues s cand sizes bs (n + 1) (ups @ [(b, size_in sizes b + 1)]) c1 = (r, c')"
        using Cons.prems(6) q na by (auto simp: size_in_def split: option.splits)
      from Cons.IH[OF Cons.prems(1) c1 Cons.prems(3) _ _ this] Cons.prems(4) True na
      show ?thesis by (simp add: concurrent_Cons scan_result_def)
    next
      case False
      then have "r = None \<and> c' = c1"
        using Cons.prems(6) q na by (auto simp: size_in_def not_less split: option.splits if_splits)
      with False na c1 show ?thesis by (auto simp: concurrent_Cons scan_result_def)
    qed
  qed
qed

section \<open>Walking the chain\<close>

text \<open>The chain blocks the walk visits: those above the first one in the candidate's past.\<close>

definition chain_above :: "dag_store \<Rightarrow> block_hash \<Rightarrow> block_hash \<Rightarrow> block_hash list" where
  "chain_above s b cand = takeWhile (\<lambda>x. \<not> ancestor s x cand) (selected_parent_chain s b)"

definition chain_concurrent :: "dag_store \<Rightarrow> block_hash \<Rightarrow> block_hash \<Rightarrow> updates" where
  "chain_concurrent s b cand =
     concat (map (\<lambda>x. concurrent s cand (sizes_of s x) (blues_of s x)) (chain_above s b cand))"

lemma chain_concurrent_stop: "b \<in> blocks s \<Longrightarrow> topology_ok s \<Longrightarrow> data_shape s \<Longrightarrow>
    ancestor s b cand \<Longrightarrow> chain_concurrent s b cand = []"
  by (subst chain_concurrent_def, subst chain_above_def, subst selected_parent_chain_unfold) auto

lemma chain_concurrent_step: "b \<in> blocks s \<Longrightarrow> topology_ok s \<Longrightarrow> data_shape s \<Longrightarrow>
    \<not> ancestor s b cand \<Longrightarrow> cand \<in> blocks s \<Longrightarrow>
    chain_concurrent s b cand =
      concurrent s cand (sizes_of s b) (blues_of s b) @ chain_concurrent s (selected_parent_of s b) cand"
  using genesis_ancestor[of s cand]
  by (subst chain_concurrent_def, subst chain_above_def, subst selected_parent_chain_unfold)
    (auto simp: chain_concurrent_def chain_above_def)

lemma walk_step_block:
  assumes "topology_ok s" "cache_ok s c" "data_shape s" "b \<in> blocks s" "cand \<in> blocks s" "n \<le> s_k s"
    and "\<not> ancestor s b cand"
  shows "\<exists>c'. cache_ok s c' \<and> walk_step s cand (Walk b n ups c) =
    (case scan_result (s_k s) n ups (concurrent s cand (sizes_of s b) (blues_of s b)) of
       None \<Rightarrow> Stop None c'
     | Some (n, ups) \<Rightarrow> Walk (selected_parent_of s b) n ups c')"
proof -
  from reach.query_eq[OF assms(1,2,4,5)] obtain c1 where
    q: "is_ancestor_of s b cand c = (ancestor s b cand, c1)" and c1: "cache_ok s c1" by blast
  from data_of_block[OF assms(1,4)] obtain d where d: "map_of (s_data s) b = Some d" by blast
  obtain r c2 where sc: "scan_blues s cand (d_blues_anticone_sizes d) (d_mergeset_blues d) n ups c1 = (r, c2)"
    by fastforce
  have "blues_of s b = d_mergeset_blues d" using d by (simp add: blues_of_def)
  with assms(3,4) have "set (d_mergeset_blues d) \<subseteq> blocks s" unfolding data_shape_def by metis
  from scan_blues_correct[OF assms(1) c1 assms(5) this assms(6) sc]
  have r: "r = scan_result (s_k s) n ups (concurrent s cand (d_blues_anticone_sizes d) (d_mergeset_blues d))"
    "cache_ok s c2" by auto
  have "b \<noteq> s_genesis s" using assms(7) genesis_ancestor[OF assms(1,5)] by auto
  then show ?thesis
    using q assms(7) d sc r
    by (intro exI[of _ c2]) (auto simp: sizes_of_def blues_of_def selected_parent_of_def split: option.splits)
qed

lemma walk_step_stop:
  assumes "topology_ok s" "cache_ok s c" "b \<in> blocks s" "cand \<in> blocks s" "ancestor s b cand"
  shows "\<exists>c'. cache_ok s c' \<and> walk_step s cand (Walk b n ups c) = Stop (Some (n, ups)) c'"
  using reach.query_eq[OF assms(1-4)] assms(5) by auto

lemma scan_result_append:
  "scan_result k n ups (P @ Q) =
     (case scan_result k n ups P of None \<Rightarrow> None | Some (n, ups) \<Rightarrow> scan_result k n ups Q)"
  by (auto simp: scan_result_def cluster_ok_append split: option.splits)

lemma walk_ends:
  assumes ok: "topology_ok s" "data_shape s" and cand: "cand \<in> blocks s" and b: "b \<in> blocks s"
    and c: "cache_ok s c" and n: "n \<le> s_k s"
  shows "\<exists>c'. cache_ok s c' \<and> while_option walking (walk_step s cand) (Walk b n ups c)
      = Some (Stop (scan_result (s_k s) n ups (chain_concurrent s b cand)) c')"
  using b c n
proof (induction "topological_height s b" arbitrary: b n ups c rule: less_induct)
  case less
  show ?case
  proof (cases "ancestor s b cand")
    case True
    from walk_step_stop[OF ok(1) less.prems(2,1) cand True] obtain c' where
      "cache_ok s c'" "walk_step s cand (Walk b n ups c) = Stop (Some (n, ups)) c'" by blast
    then show ?thesis
      using True less.prems ok
      by (intro exI[of _ c'], subst while_option_unfold, subst while_option_unfold)
        (simp add: chain_concurrent_stop scan_result_def)
  next
    case False
    let ?P = "concurrent s cand (sizes_of s b) (blues_of s b)"
    note step = chain_concurrent_step[OF less.prems(1) ok False cand]
    from walk_step_block[OF ok(1) less.prems(2) ok(2) less.prems(1) cand less.prems(3) False]
    obtain c1 where c1: "cache_ok s c1" "walk_step s cand (Walk b n ups c) =
      (case scan_result (s_k s) n ups ?P of
         None \<Rightarrow> Stop None c1 | Some (n, ups) \<Rightarrow> Walk (selected_parent_of s b) n ups c1)" by blast
    show ?thesis
    proof (cases "scan_result (s_k s) n ups ?P")
      case None
      with c1 show ?thesis
        by (intro exI[of _ c1], subst while_option_unfold, subst while_option_unfold)
          (simp add: step scan_result_append)
    next
      case (Some r)
      then obtain n1 ups1 where r: "scan_result (s_k s) n ups ?P = Some (n1, ups1)" by (cases r) auto
      then have n1: "n1 \<le> s_k s" by (auto simp: scan_result_def cluster_ok_def split: if_splits)
      have "b \<noteq> s_genesis s" using False genesis_ancestor[OF ok(1) cand] by auto
      note below = selected_parent_below[OF ok less.prems(1) this]
      from less.hyps[OF below(3,1) c1(1) n1] obtain c2 where
        "cache_ok s c2" "while_option walking (walk_step s cand) (Walk (selected_parent_of s b) n1 ups1 c1)
          = Some (Stop (scan_result (s_k s) n1 ups1 (chain_concurrent s (selected_parent_of s b) cand)) c2)"
        by blast
      with c1 r show ?thesis
        by (intro exI[of _ c2], subst while_option_unfold) (simp add: step scan_result_append)
    qed
  qed
qed

section \<open>The colour of a candidate\<close>

definition anticone_blues ::
  "dag_store \<Rightarrow> block_hash \<Rightarrow> block_hash \<Rightarrow> block_hash list \<Rightarrow> (block_hash, nat) hmap \<Rightarrow> updates" where
  "anticone_blues s cand sp blues sizes = concurrent s cand sizes blues @ chain_concurrent s sp cand"

lemma colour_candidate_correct:
  assumes ok: "topology_ok s" "data_shape s" "cache_ok s c" and cand: "cand \<in> blocks s" and sp: "sp \<in> blocks s"
    and blues: "set blues \<subseteq> blocks s"
  shows "\<exists>c'. cache_ok s c' \<and> colour_candidate s cand sp blues sizes c =
    ((if length blues \<le> s_k s \<and> cluster_ok (s_k s) 0 (anticone_blues s cand sp blues sizes)
      then (Blue, length (anticone_blues s cand sp blues sizes), bump (anticone_blues s cand sp blues sizes))
      else (Red, 0, [])), c')"
proof (cases "length blues \<le> s_k s")
  case False
  with ok(3) show ?thesis by (auto simp: colour_candidate_def)
next
  case True
  obtain r c1 where sc: "scan_blues s cand sizes blues 0 [] c = (r, c1)" by fastforce
  from scan_blues_correct[OF ok(1,3) cand blues _ sc]
  have r: "r = scan_result (s_k s) 0 [] (concurrent s cand sizes blues)" and c1: "cache_ok s c1" by auto
  show ?thesis
  proof (cases r)
    case None
    with r have "\<not> cluster_ok (s_k s) 0 (anticone_blues s cand sp blues sizes)"
      by (auto simp: scan_result_def anticone_blues_def cluster_ok_append split: if_splits)
    with True None sc c1 show ?thesis by (auto simp: colour_candidate_def)
  next
    case (Some p)
    obtain n ups where p: "p = (n, ups)" by fastforce
    with r Some have n: "n \<le> s_k s" by (auto simp: scan_result_def cluster_ok_def split: if_splits)
    from walk_ends[OF ok(1,2) cand sp c1 n, of ups] obtain c2 where c2: "cache_ok s c2"
      "walk_chain s cand (Walk sp n ups c1)
        = Stop (scan_result (s_k s) n ups (chain_concurrent s sp cand)) c2"
      by (auto simp: walk_chain_def while_def)
    have "scan_result (s_k s) 0 [] (anticone_blues s cand sp blues sizes)
        = scan_result (s_k s) n ups (chain_concurrent s sp cand)"
      unfolding anticone_blues_def scan_result_append using r[symmetric] Some p by simp
    with True sc Some p c2 show ?thesis
      by (intro exI[of _ c2]) (simp add: colour_candidate_def scan_result_def split: if_splits)
  qed
qed

end
