(* ===== verification/Dag_Spec.thy ===== *)
theory Dag_Spec
  imports Dag_Colour
begin

text \<open>
  The abstract specification of GHOSTDAG: a block's data as a function of its past, with no cache,
  no worklist and no early return. \<open>compute_ghostdag\<close> refines it, and it depends on nothing but
  the past, which is what makes nodes agree.
\<close>

section \<open>The specification\<close>

definition colour_spec :: "dag_store \<Rightarrow> block_hash \<Rightarrow> block_hash \<Rightarrow> colouring \<Rightarrow> colouring" where
  "colour_spec s sp cand st =
     (case st of (blues, reds, sizes) \<Rightarrow>
        let A = anticone_blues s cand sp blues sizes in
        if length blues \<le> s_k s \<and> cluster_ok (s_k s) 0 A
        then (blues @ [cand], reds,
              fold (\<lambda>(b, n) m. AList.update b n m) (bump A) (AList.update cand (length A) sizes))
        else (blues, reds @ [cand], sizes))"

definition mergeset_order :: "dag_store \<Rightarrow> block_hash list \<Rightarrow> block_hash \<Rightarrow> block_hash list" where
  "mergeset_order s ps sp = topological_sort s (sorted_list_of_set (merge_set s ps sp))"

definition colouring_spec :: "dag_store \<Rightarrow> block_hash list \<Rightarrow> colouring" where
  "colouring_spec s ps =
     (let sp = select_parent s ps in fold (colour_spec s sp) (mergeset_order s ps sp) ([sp], [], [(sp, 0)]))"

definition ghostdag_spec :: "dag_store \<Rightarrow> header \<Rightarrow> ghostdag_data" where
  "ghostdag_spec s h =
     (let ps = h_parents h; sp = select_parent s ps in
      case colouring_spec s ps of (blues, reds, sizes) \<Rightarrow>
        \<lparr>d_selected_parent = sp,
         d_blue_score = (case map_of (s_data s) sp of None \<Rightarrow> 0 | Some d \<Rightarrow> d_blue_score d) + length blues,
         d_blue_work =
           saturating_add (foldl (\<lambda>w b. saturating_add w (block_work s b)) (blue_work_of s sp) (drop 1 blues))
             (header_work h),
         d_mergeset_blues = blues, d_mergeset_reds = reds, d_mergeset_ordered = mergeset_order s ps sp,
         d_topological_height = foldr (\<lambda>p m. max (topological_height s p) m) ps 0 + 1,
         d_blues_anticone_sizes = sizes\<rparr>)"

section \<open>The merge set's order\<close>

lemma mergeset_order_correct:
  assumes "topology_ok s" "set ps \<subseteq> blocks s"
  shows "set (mergeset_order s ps sp) = merge_set s ps sp" "distinct (mergeset_order s ps sp)"
    "topo_ordered s (mergeset_order s ps sp)" "length (mergeset_order s ps sp) = card (merge_set s ps sp)"
proof -
  have fin: "finite (merge_set s ps sp)"
    using merge_set_in_blocks[OF assms] finite_subset finite_blocks by blast
  let ?xs = "sorted_list_of_set (merge_set s ps sp)"
  note ts = topological_sort_correct[OF assms(1), of ?xs, folded mergeset_order_def]
  show set: "set (mergeset_order s ps sp) = merge_set s ps sp" using mset_eq_setD[OF ts(2)] fin by simp
  show dist: "distinct (mergeset_order s ps sp)" using mset_eq_imp_distinct_iff[OF ts(2)] by simp
  have "parents_first s (merge_set s ps sp) {} (mergeset_order s ps sp)" using ts(1) fin by simp
  from parents_first_ancestors[OF this dist set]
  show "topo_ordered s (mergeset_order s ps sp)" unfolding topo_ordered_def by blast
  show "length (mergeset_order s ps sp) = card (merge_set s ps sp)"
    using mset_eq_length[OF ts(2)] by simp
qed

lemma ordered_mergeset_spec:
  assumes ok: "topology_ok s" "cache_ok s c" and ps: "set (h_parents h) \<subseteq> blocks s" and sp: "sp \<in> blocks s"
  shows "\<exists>c'. cache_ok s c' \<and> ordered_mergeset s b h sp c =
    (if card (merge_set s (h_parents h) sp) \<le> s_mergeset_size_limit s
     then Inr (mergeset_order s (h_parents h) sp) else Inl (MergesetTooLarge b (s_mergeset_size_limit s)), c')"
proof -
  obtain r c' where run: "ordered_mergeset s b h sp c = (r, c')" by fastforce
  have fin: "finite (merge_set s (h_parents h) sp)"
    using merge_set_in_blocks[OF ok(1) ps] finite_subset finite_blocks by blast
  note correct = ordered_mergeset_correct[OF ok ps sp run]
  show ?thesis
  proof (cases r)
    case (Inl e)
    with correct run show ?thesis by (intro exI[of _ c']) auto
  next
    case (Inr ms)
    with correct have ms: "set ms = merge_set s (h_parents h) sp" "distinct ms"
      "length ms \<le> s_mergeset_size_limit s" "cache_ok s c'"
      and eq: "\<forall>xs. set xs = merge_set s (h_parents h) sp \<longrightarrow> distinct xs \<longrightarrow> ms = topological_sort s xs"
      by auto
    have "ms = mergeset_order s (h_parents h) sp" unfolding mergeset_order_def
      using eq[rule_format, of "sorted_list_of_set (merge_set s (h_parents h) sp)"] fin by simp
    moreover have "card (merge_set s (h_parents h) sp) \<le> s_mergeset_size_limit s"
      using ms distinct_card[of ms] by simp
    ultimately show ?thesis using run Inr ms(4) by (intro exI[of _ c']) simp
  qed
qed

section \<open>Colouring the merge set\<close>

definition colouring_ok :: "dag_store \<Rightarrow> block_hash \<Rightarrow> block_hash list \<Rightarrow> colouring \<Rightarrow> bool" where
  "colouring_ok s sp done st \<longleftrightarrow>
     (case st of (blues, reds, sizes) \<Rightarrow>
        (\<exists>bs. blues = sp # bs \<and> distinct (blues @ reds) \<and> set (bs @ reds) = set done) \<and>
        length blues \<le> s_k s + 1)"

lemma colour_spec_ok:
  assumes "colouring_ok s sp done st" and "cand \<notin> insert sp (set done)"
  shows "colouring_ok s sp (done @ [cand]) (colour_spec s sp cand st)"
proof -
  obtain blues reds sizes where st: "st = (blues, reds, sizes)" by (cases st) auto
  from assms(1) obtain bs where bs: "blues = sp # bs" "distinct (blues @ reds)" "set (bs @ reds) = set done"
    "length blues \<le> s_k s + 1" by (auto simp: colouring_ok_def st)
  have new: "cand \<noteq> sp" "cand \<notin> set bs" "cand \<notin> set reds" using assms(2) bs(3) by auto
  show ?thesis
    unfolding st colour_spec_def Let_def colouring_ok_def
    using bs new by (auto simp del: add_Suc_right)
qed

lemma colour_fold_ok:
  "colouring_ok s sp done st \<Longrightarrow> distinct xs \<Longrightarrow> set xs \<inter> insert sp (set done) = {} \<Longrightarrow>
   colouring_ok s sp (done @ xs) (fold (colour_spec s sp) xs st)"
proof (induction xs arbitrary: "done" st)
  case (Cons x xs)
  have "colouring_ok s sp (done @ [x]) (colour_spec s sp x st)"
    using Cons.prems by (intro colour_spec_ok) auto
  from Cons.IH[OF this] Cons.prems show ?case by auto
qed simp

lemma colouring_spec_ok:
  assumes "topology_ok s" "set ps \<subseteq> blocks s"
  shows "colouring_ok s (select_parent s ps) (mergeset_order s ps (select_parent s ps)) (colouring_spec s ps)"
proof -
  let ?sp = "select_parent s ps"
  have "colouring_ok s ?sp [] ([?sp], [], [(?sp, 0)])" by (simp add: colouring_ok_def)
  moreover have "?sp \<notin> merge_set s ps ?sp" by (simp add: merge_set_def)
  ultimately show ?thesis
    using colour_fold_ok[of s ?sp "[]" _ "mergeset_order s ps ?sp"] mergeset_order_correct(1,2)[OF assms, of ?sp]
    by (simp add: colouring_spec_def Let_def)
qed

lemma colouring_ok_blocks:
  "colouring_ok s sp done (blues, reds, sizes) \<Longrightarrow> sp \<in> blocks s \<Longrightarrow> set done \<subseteq> blocks s \<Longrightarrow>
   set blues \<subseteq> blocks s \<and> set reds \<subseteq> blocks s"
  by (auto simp: colouring_ok_def)

lemma colour_step_refines:
  assumes ok: "topology_ok s" "data_shape s" "cache_ok s c" and cand: "cand \<in> blocks s" and sp: "sp \<in> blocks s"
    and blues: "set (fst st) \<subseteq> blocks s"
  shows "\<exists>c'. cache_ok s c' \<and> colour_step s sp cand (st, c) = (colour_spec s sp cand st, c')"
proof -
  obtain blues reds sizes where st: "st = (blues, reds, sizes)" by (cases st) auto
  from colour_candidate_correct[OF ok cand sp, of blues sizes] blues st show ?thesis
    by (auto simp: colour_step_def colour_spec_def Let_def split: if_splits)
qed

lemma colour_spec_blues: "set (fst (colour_spec s sp cand st)) \<subseteq> insert cand (set (fst st))"
  by (auto simp: colour_spec_def Let_def split: prod.splits if_splits)

lemma colour_fold_refines:
  assumes "topology_ok s" "data_shape s" and "sp \<in> blocks s"
  shows "set xs \<subseteq> blocks s \<Longrightarrow> set (fst st) \<subseteq> blocks s \<Longrightarrow> cache_ok s c \<Longrightarrow>
    \<exists>c'. cache_ok s c' \<and> fold (colour_step s sp) xs (st, c) = (fold (colour_spec s sp) xs st, c')"
proof (induction xs arbitrary: st c)
  case (Cons x xs)
  from colour_step_refines[OF assms(1,2) Cons.prems(3) _ assms(3) Cons.prems(2), of x] Cons.prems(1)
  obtain c1 where c1: "cache_ok s c1" "colour_step s sp x (st, c) = (colour_spec s sp x st, c1)" by auto
  have "set (fst (colour_spec s sp x st)) \<subseteq> blocks s"
    using colour_spec_blues[of s sp x st] Cons.prems(1,2) by auto
  from Cons.IH[OF _ this c1(1)] Cons.prems(1) c1(2) show ?case by simp
qed simp

lemma compute_ghostdag_correct:
  assumes ok: "topology_ok s" "data_shape s" "cache_ok s c"
    and ps: "h_parents h \<noteq> []" "set (h_parents h) \<subseteq> blocks s"
  shows "\<exists>c'. cache_ok s c' \<and> compute_ghostdag hash s h c =
    (if card (merge_set s (h_parents h) (select_parent s (h_parents h))) \<le> s_mergeset_size_limit s
     then Inr (ghostdag_spec s h) else Inl (MergesetTooLarge (hash h) (s_mergeset_size_limit s)), c')"
proof -
  let ?sp = "select_parent s (h_parents h)"
  have sp: "?sp \<in> blocks s" using select_parent_in[OF ps(1)] ps(2) by auto
  from data_of_block[OF ok(1) sp] obtain d where d: "map_of (s_data s) ?sp = Some d" by blast
  from ordered_mergeset_spec[OF ok(1,3) ps(2) sp, of "hash h"] obtain c1 where
    c1: "cache_ok s c1" and om: "ordered_mergeset s (hash h) h ?sp c =
      (if card (merge_set s (h_parents h) ?sp) \<le> s_mergeset_size_limit s
       then Inr (mergeset_order s (h_parents h) ?sp) else Inl (MergesetTooLarge (hash h) (s_mergeset_size_limit s)), c1)"
    by blast
  show ?thesis
  proof (cases "card (merge_set s (h_parents h) ?sp) \<le> s_mergeset_size_limit s")
    case False
    with c1 d om show ?thesis by (intro exI[of _ c1]) (simp add: compute_ghostdag_def Let_def)
  next
    case True
    have "set (mergeset_order s (h_parents h) ?sp) \<subseteq> blocks s"
      using mergeset_order_correct(1)[OF ok(1) ps(2)] merge_set_in_blocks[OF ok(1) ps(2)] by simp
    from colour_fold_refines[OF ok(1,2) sp this _ c1, of "([?sp], [], [(?sp, 0)])"] sp obtain c2 where
      c2: "cache_ok s c2" "fold (colour_step s ?sp) (mergeset_order s (h_parents h) ?sp) (([?sp], [], [(?sp, 0)]), c1)
        = (colouring_spec s (h_parents h), c2)" by (auto simp: colouring_spec_def Let_def)
    with True d om show ?thesis
      by (intro exI[of _ c2])
        (auto simp: compute_ghostdag_def ghostdag_spec_def Let_def blue_work_of_def split: prod.splits)
  qed
qed

end
