(* ===== verification/Dag_Local.thy ===== *)
theory Dag_Local
  imports Dag_Spec
begin

text \<open>
  Locality: two stores that agree on an ancestor-closed set of blocks give a block with parents in
  that set the same GHOSTDAG data. Whatever else a node has stored, and in whatever order, is
  irrelevant.
\<close>

definition agree :: "block_hash set \<Rightarrow> dag_store \<Rightarrow> dag_store \<Rightarrow> bool" where
  "agree X s t \<longleftrightarrow> s_k s = s_k t \<and> s_genesis s = s_genesis t \<and>
     X \<subseteq> blocks s \<and> X \<subseteq> blocks t \<and>
     (\<forall>x \<in> X. map_of (s_headers s) x = map_of (s_headers t) x \<and> map_of (s_data s) x = map_of (s_data t) x) \<and>
     (\<forall>x \<in> X. set (parents_of s x) \<subseteq> X)"

lemma agree_parents: "agree X s t \<Longrightarrow> x \<in> X \<Longrightarrow> parents_of s x = parents_of t x"
  by (simp add: agree_def parents_of_def)

lemma agree_sym:
  assumes "agree X s t" shows "agree X t s"
proof -
  have "\<forall>x \<in> X. set (parents_of t x) \<subseteq> X"
    using assms agree_parents[OF assms] by (simp add: agree_def)
  with assms show ?thesis by (simp add: agree_def)
qed

lemma agree_fields:
  assumes "agree X s t" "x \<in> X"
  shows "topological_height s x = topological_height t x" "blue_work_of s x = blue_work_of t x"
    "block_work s x = block_work t x" "selected_parent_of s x = selected_parent_of t x"
    "blues_of s x = blues_of t x" "sizes_of s x = sizes_of t x"
  using assms
  by (simp_all add: agree_def topological_height_def blue_work_of_def block_work_def
      selected_parent_of_def blues_of_def sizes_of_def)

lemma agree_rtrancl:
  assumes "agree X s t" and "(d, a) \<in> (parent_rel s)\<^sup>*" and "d \<in> X"
  shows "a \<in> X \<and> (d, a) \<in> (parent_rel t)\<^sup>*"
  using assms(2)
proof (induction rule: rtrancl_induct)
  case base
  then show ?case using assms(3) by simp
next
  case (step y z)
  then have "z \<in> X" using assms(1) by (auto simp: agree_def parent_rel_def)
  moreover have "(y, z) \<in> parent_rel t" using step agree_parents[OF assms(1), of y] by (simp add: parent_rel_def)
  ultimately show ?case using step by auto
qed

lemma agree_ancestor: "agree X s t \<Longrightarrow> d \<in> X \<Longrightarrow> ancestor s a d \<longleftrightarrow> ancestor t a d"
  using agree_rtrancl[of X s t d a] agree_rtrancl[OF agree_sym, of X s t d a] by (auto simp: ancestor_def)

lemma agree_ancestor_in: "agree X s t \<Longrightarrow> d \<in> X \<Longrightarrow> ancestor s a d \<Longrightarrow> a \<in> X"
  using agree_rtrancl[of X s t d a] by (simp add: ancestor_def)

lemma agree_merge_set:
  assumes "agree X s t" "set ps \<subseteq> X" "sp \<in> X"
  shows "merge_set s ps sp = merge_set t ps sp" "merge_set s ps sp \<subseteq> X"
  using assms agree_ancestor[OF assms(1)] agree_ancestor_in[OF assms(1)]
  by (auto simp: merge_set_def subset_iff)

section \<open>Choices and sorts\<close>

lemma agree_compare: "agree X s t \<Longrightarrow> a \<in> X \<Longrightarrow> b \<in> X \<Longrightarrow> compare_blocks s a b = compare_blocks t a b"
  by (simp add: compare_blocks_def agree_fields(2))

lemma agree_select_parent:
  assumes "agree X s t" "set ps \<subseteq> X" "ps \<noteq> []"
  shows "select_parent s ps = select_parent t ps"
proof -
  have "best_of s (select_parent t ps) ps"
    using select_parent_best[OF assms(3), of t] assms(1,2) agree_compare[OF assms(1)]
    by (fastforce simp: best_of_def)
  from best_of_unique[OF select_parent_best[OF assms(3)] this] show ?thesis by simp
qed

lemma insort_by_cong:
  "(\<And>a b. a \<in> insert x (set xs) \<Longrightarrow> b \<in> insert x (set xs) \<Longrightarrow> c a b = c' a b) \<Longrightarrow>
   insort_by c x xs = insort_by c' x xs"
  by (induction xs) auto

lemma sort_by_cong:
  "(\<And>a b. a \<in> set xs \<Longrightarrow> b \<in> set xs \<Longrightarrow> c a b = c' a b) \<Longrightarrow> sort_by c xs = sort_by c' xs"
proof (induction xs)
  case (Cons x xs)
  then have "sort_by c xs = sort_by c' xs" by simp
  moreover have "insort_by c x (sort_by c xs) = insort_by c' x (sort_by c xs)"
    using Cons.prems by (intro insort_by_cong) (auto simp del: Chain_Prelude.sort_by_def)
  ultimately show ?case by (simp add: sort_by_def)
qed simp

lemma agree_topo_pass:
  "agree X s t \<Longrightarrow> set bs \<subseteq> X \<Longrightarrow> topo_pass s m bs em ob nr pr = topo_pass t m bs em ob nr pr"
proof (induction bs arbitrary: em ob nr pr)
  case (Cons b bs)
  then show ?case by (simp only: topo_pass_Cons agree_parents[of X s t b] list.set insert_subset)
qed simp

lemma agree_topo_loop:
  "agree X s t \<Longrightarrow> set r \<subseteq> X \<Longrightarrow> topo_loop s m r em ob = topo_loop t m r em ob"
proof (induction s m r em ob rule: topo_loop.induct)
  case (1 s m r em ob)
  obtain em' ob' nr pr where pass: "topo_pass s m r em ob [] False = (em', ob', nr, pr)"
    by (metis prod_cases4)
  then have pass': "topo_pass t m r em ob [] False = (em', ob', nr, pr)"
    using agree_topo_pass[OF 1(2,3)] by simp
  from topo_pass_shape[OF pass] have "set nr \<subseteq> set r"
    by (metis append_Nil le_sup_iff set_mset_mset set_mset_union subset_refl)
  then have "topo_loop s m nr em' ob' = topo_loop t m nr em' ob'" if "r \<noteq> []" "pr"
    using 1(1)[OF that(1) pass[symmetric] refl refl refl _ 1(2)] 1(3) that(2) by auto
  then show ?case
    by (subst (1 2) topo_loop.simps) (simp add: pass pass')
qed

lemma agree_mergeset_order:
  assumes "agree X s t" "set ps \<subseteq> X" "sp \<in> X"
  shows "mergeset_order s ps sp = mergeset_order t ps sp"
proof -
  let ?xs = "sorted_list_of_set (merge_set s ps sp)"
  have sub: "set ?xs \<subseteq> X"
    using agree_merge_set(2)[OF assms] by (cases "finite (merge_set s ps sp)") auto
  then have "sort_by (compare_blocks s) ?xs = sort_by (compare_blocks t) ?xs"
    using agree_compare[OF assms(1)] by (intro sort_by_cong) auto
  moreover have "set (sort_by (compare_blocks s) ?xs) \<subseteq> X" using sub by simp
  ultimately show ?thesis
    unfolding mergeset_order_def topological_sort_def agree_merge_set(1)[OF assms, symmetric]
    using agree_topo_loop[OF assms(1)] by simp
qed

section \<open>The chain and the colouring\<close>

lemma agree_chain:
  assumes "agree X s t" "topology_ok s" "data_shape s" "topology_ok t" "data_shape t"
  shows "b \<in> X \<Longrightarrow> selected_parent_chain s b = selected_parent_chain t b \<and> set (selected_parent_chain s b) \<subseteq> X"
proof (induction "topological_height s b" arbitrary: b rule: less_induct)
  case less
  have bs: "b \<in> blocks s" "b \<in> blocks t" and gen: "s_genesis s = s_genesis t"
    using less.prems assms(1) by (auto simp: agree_def)
  note unf = selected_parent_chain_unfold[OF assms(2,3) bs(1)] selected_parent_chain_unfold[OF assms(4,5) bs(2)]
  show ?case
  proof (cases "b = s_genesis s")
    case True
    with unf gen less.prems show ?thesis by simp
  next
    case False
    note below = selected_parent_below[OF assms(2,3) bs(1) False]
    have "selected_parent_of s b \<in> X" using agree_ancestor_in[OF assms(1) less.prems below(2)] .
    note IH = less.hyps[OF below(3) this]
    have "selected_parent_chain t b = b # selected_parent_chain s (selected_parent_of s b)"
      using unf(2) gen False IH agree_fields(4)[OF assms(1) less.prems] by simp
    moreover have "selected_parent_chain s b = b # selected_parent_chain s (selected_parent_of s b)"
      using unf(1) False by simp
    ultimately show ?thesis using IH less.prems by (simp only:) auto
  qed
qed

lemma agree_concurrent:
  assumes "agree X s t" "cand \<in> X"
  shows "concurrent s cand sizes bs = concurrent t cand sizes bs"
  by (simp add: concurrent_def agree_ancestor[OF assms])

lemma agree_anticone_blues:
  assumes "agree X s t" "topology_ok s" "data_shape s" "topology_ok t" "data_shape t" "cand \<in> X" "sp \<in> X"
  shows "anticone_blues s cand sp blues sizes = anticone_blues t cand sp blues sizes"
proof -
  note chain = agree_chain[OF assms(1-5,7)]
  have above: "chain_above s sp cand = chain_above t sp cand"
    using chain by (simp add: chain_above_def agree_ancestor[OF assms(1,6)])
  have "set (chain_above s sp cand) \<subseteq> X"
    unfolding chain_above_def using chain set_takeWhileD by fastforce
  then have "chain_concurrent s sp cand = chain_concurrent t sp cand"
    unfolding chain_concurrent_def above[symmetric]
    using agree_fields(5,6)[OF assms(1)] agree_concurrent[OF assms(1,6)]
    by (intro arg_cong[where f = concat] map_cong) auto
  then show ?thesis by (simp add: anticone_blues_def agree_concurrent[OF assms(1,6)])
qed

lemma agree_colouring:
  assumes "agree X s t" "topology_ok s" "data_shape s" "topology_ok t" "data_shape t" "set ps \<subseteq> X" "ps \<noteq> []"
  shows "colouring_spec s ps = colouring_spec t ps"
proof -
  let ?sp = "select_parent s ps"
  have sp: "?sp \<in> X" using select_parent_in[OF assms(7)] assms(6) by auto
  have "s_k s = s_k t" using assms(1) by (simp add: agree_def)
  then have "colour_spec s ?sp cand = colour_spec t ?sp cand" if "cand \<in> X" for cand
    by (simp add: colour_spec_def agree_anticone_blues[OF assms(1-5) that sp] fun_eq_iff)
  moreover have "set (mergeset_order s ps ?sp) \<subseteq> X"
    using mergeset_order_correct(1)[OF assms(2), of ps ?sp] agree_merge_set(2)[OF assms(1,6) sp] assms(1,6)
    by (auto simp: agree_def)
  ultimately show ?thesis
    unfolding colouring_spec_def Let_def agree_select_parent[OF assms(1,6,7), symmetric]
      agree_mergeset_order[OF assms(1,6) sp, symmetric]
    by (intro fold_cong refl) (simp_all add: subset_iff)
qed

lemma colouring_blues_in:
  assumes "agree X s t" "topology_ok s" "set ps \<subseteq> X" "ps \<noteq> []"
  shows "set (fst (colouring_spec s ps)) \<subseteq> X"
proof -
  let ?sp = "select_parent s ps"
  have sp: "?sp \<in> X" using select_parent_in[OF assms(4)] assms(3) by auto
  have ps: "set ps \<subseteq> blocks s" using assms(1,3) by (auto simp: agree_def)
  have "set (mergeset_order s ps ?sp) \<subseteq> X"
    using mergeset_order_correct(1)[OF assms(2) ps] agree_merge_set(2)[OF assms(1,3) sp] by simp
  with colouring_spec_ok[OF assms(2) ps] sp show ?thesis
    by (cases "colouring_spec s ps") (auto simp: colouring_ok_def)
qed

lemma ghostdag_spec_local:
  assumes "agree X s t" "topology_ok s" "data_shape s" "topology_ok t" "data_shape t"
    "set (h_parents h) \<subseteq> X" "h_parents h \<noteq> []"
  shows "ghostdag_spec s h = ghostdag_spec t h"
proof -
  let ?ps = "h_parents h" let ?sp = "select_parent s ?ps"
  have sp: "?sp \<in> X" using select_parent_in[OF assms(7)] assms(6) by auto
  obtain blues reds sizes where col: "colouring_spec s ?ps = (blues, reds, sizes)" by (metis prod_cases3)
  have "set blues \<subseteq> X" using colouring_blues_in[OF assms(1,2,6,7)] col by simp
  then have "set (drop 1 blues) \<subseteq> X" by (auto dest: in_set_dropD)
  then have "foldl (\<lambda>w b. saturating_add w (block_work s b)) w (drop 1 blues)
      = foldl (\<lambda>w b. saturating_add w (block_work t b)) w (drop 1 blues)" for w
    using agree_fields(3)[OF assms(1)] by (intro foldl_cong) auto
  moreover have "foldr (\<lambda>p m. max (topological_height s p) m) ?ps 0
      = foldr (\<lambda>p m. max (topological_height t p) m) ?ps 0"
    using agree_fields(1)[OF assms(1)] assms(6) by (intro foldr_cong) auto
  moreover have "map_of (s_data s) ?sp = map_of (s_data t) ?sp" using assms(1) sp by (simp add: agree_def)
  ultimately show ?thesis
    unfolding ghostdag_spec_def Let_def agree_select_parent[OF assms(1,6,7), symmetric]
      agree_colouring[OF assms, symmetric] agree_mergeset_order[OF assms(1,6) sp, symmetric]
      agree_fields(2)[OF assms(1) sp] col
    by simp
qed

end
