(* ===== verification/Dag_Inv.thy ===== *)
theory Dag_Inv
  imports Dag_Local
begin

text \<open>
  The invariant of the DAG store: every store built from a genesis block by \<open>add_block\<close> and
  reachability queries on stored blocks is well formed, its tips and child edges are what they
  should be, its cache is sound and bounded, and every block carries its specified data.
\<close>

section \<open>The invariant\<close>

definition hash_keyed :: "(header \<Rightarrow> block_hash) \<Rightarrow> dag_store \<Rightarrow> bool" where
  "hash_keyed hash s \<longleftrightarrow> (\<forall>b h. map_of (s_headers s) b = Some h \<longrightarrow> hash h = b)"

definition tips_ok :: "dag_store \<Rightarrow> bool" where
  "tips_ok s \<longleftrightarrow> sorted (s_tips s) \<and> distinct (s_tips s) \<and>
     set (s_tips s) = {b \<in> blocks s. \<forall>c \<in> blocks s. b \<notin> set (parents_of s c)}"

definition children_of :: "(block_hash, block_hash list) hmap \<Rightarrow> block_hash \<Rightarrow> block_hash list" where
  "children_of m p = (case map_of m p of None \<Rightarrow> [] | Some cs \<Rightarrow> cs)"

definition children_ok :: "dag_store \<Rightarrow> bool" where
  "children_ok s \<longleftrightarrow> hmap_ok (s_children s) \<and>
     (\<forall>p. set (children_of (s_children s) p) = {c \<in> blocks s. p \<in> set (parents_of s c)})"

definition genesis_data :: "block_hash \<Rightarrow> header \<Rightarrow> ghostdag_data" where
  "genesis_data b h =
     \<lparr>d_selected_parent = b, d_blue_score = 0, d_blue_work = header_work h,
      d_mergeset_blues = [], d_mergeset_reds = [], d_mergeset_ordered = [],
      d_topological_height = 0, d_blues_anticone_sizes = []\<rparr>"

definition data_spec :: "dag_store \<Rightarrow> bool" where
  "data_spec s \<longleftrightarrow> (\<forall>b h. map_of (s_headers s) b = Some h \<longrightarrow>
     map_of (s_data s) b = Some (if b = s_genesis s then genesis_data b h else ghostdag_spec s h))"

definition dag_ok :: "(header \<Rightarrow> block_hash) \<Rightarrow> dag_store \<Rightarrow> bool" where
  "dag_ok hash s \<longleftrightarrow> topology_ok s \<and> data_shape s \<and> cache_ok s (s_reachability s) \<and>
     hash_keyed hash s \<and> tips_ok s \<and> children_ok s \<and> data_spec s"

lemma dag_okD:
  assumes "dag_ok hash s"
  shows "topology_ok s" "data_shape s" "cache_ok s (s_reachability s)" "hash_keyed hash s" "tips_ok s"
    "children_ok s" "data_spec s"
  using assms by (simp_all add: dag_ok_def)

section \<open>Fields the definitions do not read\<close>

definition same_graph :: "dag_store \<Rightarrow> dag_store \<Rightarrow> bool" where
  "same_graph s t \<longleftrightarrow> s_headers s = s_headers t \<and> s_data s = s_data t \<and> s_genesis s = s_genesis t \<and> s_k s = s_k t"

lemma same_graph_simps:
  assumes "same_graph s t"
  shows "blocks s = blocks t" "parents_of s = parents_of t" "topological_height s = topological_height t"
    "ancestor s = ancestor t" "topology_ok s = topology_ok t" "data_shape s = data_shape t"
    "cache_ok s = cache_ok t" "hash_keyed hash s = hash_keyed hash t"
proof -
  show bl: "blocks s = blocks t" and pa: "parents_of s = parents_of t"
    and ht: "topological_height s = topological_height t"
    using assms by (simp_all add: same_graph_def blocks_def parents_of_def topological_height_def fun_eq_iff)
  then show anc: "ancestor s = ancestor t"
    by (simp add: fun_eq_iff ancestor_def parent_rel_def)
  show "topology_ok s = topology_ok t" "cache_ok s = cache_ok t" "hash_keyed hash s = hash_keyed hash t"
    using assms bl pa ht anc
    by (simp_all add: same_graph_def topology_ok_def cache_ok_def hash_keyed_def fun_eq_iff)
  show "data_shape s = data_shape t"
    using assms bl pa by (simp add: same_graph_def data_shape_def blues_of_def selected_parent_of_def)
qed

lemma same_graph_agree:
  assumes "same_graph s t" "topology_ok s" shows "agree (blocks s) s t"
  using assms same_graph_simps(1)[OF assms(1)] parents_in_blocks[OF assms(2)]
  by (auto simp: agree_def same_graph_def)

lemma parents_nonempty: "topology_ok s \<Longrightarrow> b \<in> blocks s \<Longrightarrow> b \<noteq> s_genesis s \<Longrightarrow> parents_of s b \<noteq> []"
  by (simp add: topology_ok_def)

lemma data_spec_transfer:
  assumes "agree (blocks s) s t" "topology_ok s" "data_shape s" "topology_ok t" "data_shape t"
    and "data_spec s" and "b \<in> blocks s" and h: "map_of (s_headers s) b = Some h"
  shows "map_of (s_data t) b = Some (if b = s_genesis t then genesis_data b h else ghostdag_spec t h)"
proof -
  have "map_of (s_data t) b = map_of (s_data s) b" "s_genesis t = s_genesis s"
    using assms(1,7) by (auto simp: agree_def)
  moreover have "ghostdag_spec s h = ghostdag_spec t h" if "b \<noteq> s_genesis s"
  proof -
    have par: "parents_of s b = h_parents h" by (simp add: parents_of_def h)
    have "set (h_parents h) \<subseteq> blocks s" using parents_in_blocks[OF assms(2), of _ b] par by auto
    moreover have "h_parents h \<noteq> []" using parents_nonempty[OF assms(2,7) that] par by simp
    ultimately show ?thesis by (rule ghostdag_spec_local[OF assms(1-5)])
  qed
  ultimately show ?thesis using assms(6) h by (simp add: data_spec_def)
qed

lemma dag_ok_cache:
  assumes "dag_ok hash s" and "cache_ok s c"
  shows "dag_ok hash (s\<lparr>s_reachability := c\<rparr>)"
proof -
  let ?t = "s\<lparr>s_reachability := c\<rparr>"
  have sg: "same_graph s ?t" by (simp add: same_graph_def)
  note simps = same_graph_simps[OF sg, symmetric]
  note ok = dag_okD[OF assms(1)]
  have t: "topology_ok ?t" "data_shape ?t" using ok simps by simp_all
  have "data_spec ?t"
    unfolding data_spec_def
  proof (intro allI impI)
    fix b h assume "map_of (s_headers ?t) b = Some h"
    then have h: "map_of (s_headers s) b = Some h" by simp
    then have "b \<in> blocks s" using contains_iff[of s b] by (simp add: contains_def)
    from data_spec_transfer[OF same_graph_agree[OF sg ok(1)] ok(1,2) t ok(7) this h]
    show "map_of (s_data ?t) b = Some (if b = s_genesis ?t then genesis_data b h else ghostdag_spec ?t h)" .
  qed
  with t ok assms(2) simps show ?thesis
    by (simp add: dag_ok_def tips_ok_def children_ok_def)
qed

section \<open>Inserting a block\<close>

lemma foldr_max_ge: "p \<in> set ps \<Longrightarrow> f p \<le> foldr (\<lambda>p m. max (f p) m) ps (0::nat)"
  by (induction ps) (auto simp: le_max_iff_disj)

definition inserted :: "dag_store \<Rightarrow> block_hash \<Rightarrow> header \<Rightarrow> dag_store \<Rightarrow> bool" where
  "inserted s b h t \<longleftrightarrow> s_headers t = AList.update b h (s_headers s) \<and>
     s_data t = AList.update b (ghostdag_spec s h) (s_data s) \<and> s_genesis t = s_genesis s \<and> s_k t = s_k s"

lemma inserted_basic:
  assumes "inserted s b h t" "b \<notin> blocks s"
  shows "blocks t = insert b (blocks s)" "parents_of t b = h_parents h"
    "x \<noteq> b \<Longrightarrow> parents_of t x = parents_of s x" "x \<noteq> b \<Longrightarrow> topological_height t x = topological_height s x"
    "topological_height t b = d_topological_height (ghostdag_spec s h)"
    "x \<noteq> b \<Longrightarrow> blues_of t x = blues_of s x" "x \<noteq> b \<Longrightarrow> selected_parent_of t x = selected_parent_of s x"
    "blues_of t b = d_mergeset_blues (ghostdag_spec s h)"
    "selected_parent_of t b = d_selected_parent (ghostdag_spec s h)"
  using assms
  by (simp_all add: inserted_def blocks_def keys_update parents_of_def topological_height_def blues_of_def
      selected_parent_of_def)

lemma ghostdag_spec_fields:
  "d_selected_parent (ghostdag_spec s h) = select_parent s (h_parents h)"
  "d_mergeset_blues (ghostdag_spec s h) = fst (colouring_spec s (h_parents h))"
  "d_mergeset_reds (ghostdag_spec s h) = fst (snd (colouring_spec s (h_parents h)))"
  "d_mergeset_ordered (ghostdag_spec s h) = mergeset_order s (h_parents h) (select_parent s (h_parents h))"
  "d_topological_height (ghostdag_spec s h) = foldr (\<lambda>p m. max (topological_height s p) m) (h_parents h) 0 + 1"
  by (simp_all add: ghostdag_spec_def Let_def split: prod.splits)

lemma topology_ok_agree:
  assumes "topology_ok s" shows "agree (blocks s) s s"
  using parents_in_blocks[OF assms] by (auto simp: agree_def)

lemma inserted_topology:
  assumes "inserted s b h t" "b \<notin> blocks s" "topology_ok s" "h_parents h \<noteq> []" "set (h_parents h) \<subseteq> blocks s"
  shows "topology_ok t"
proof -
  note basic = inserted_basic[OF assms(1,2)]
  have "s_genesis t = s_genesis s" and "s_genesis s \<noteq> b" using assms(1-3) by (auto simp: inserted_def topology_ok_def)
  moreover have "p \<in> blocks t \<and> topological_height t p < topological_height t x"
    if p: "p \<in> set (parents_of t x)" for x p
  proof (cases "x = b")
    case True
    then have "p \<in> set (h_parents h)" using p basic(2) by simp
    then have "p \<in> blocks s" "p \<noteq> b" "topological_height s p \<le> foldr (\<lambda>p m. max (topological_height s p) m) (h_parents h) 0"
      using assms(2,5) foldr_max_ge[of p "h_parents h" "topological_height s"] by auto
    then show ?thesis using True basic(1,4,5) ghostdag_spec_fields(5) by simp
  next
    case False
    then have p': "p \<in> set (parents_of s x)" using p basic(3) by simp
    then have "p \<noteq> b" using parents_in_blocks[OF assms(3)] assms(2) by auto
    with p' show ?thesis
      using False parents_in_blocks[OF assms(3) p'] parent_height[OF assms(3) p'] basic(1,4) by auto
  qed
  moreover have "hmap_ok (s_headers t)" "hmap_ok (s_data t)" "fst ` set (s_data t) = blocks t"
    using assms(1,3) basic(1) by (auto simp: inserted_def topology_ok_def keys_update)
  moreover have "parents_of t x \<noteq> []" if "x \<in> blocks t" "x \<noteq> s_genesis t" for x
    using that assms(3,4) basic(1,2,3) \<open>s_genesis t = s_genesis s\<close> by (cases "x = b") (auto simp: topology_ok_def)
  ultimately show ?thesis
    using assms(3) basic(1,3) by (auto simp: topology_ok_def)
qed

lemma inserted_agree:
  assumes "inserted s b h t" "b \<notin> blocks s" "topology_ok s"
  shows "agree (blocks s) s t"
  using assms parents_in_blocks[OF assms(3)]
  by (auto simp: agree_def inserted_def inserted_basic(1)[OF assms(1,2)])

lemma inserted_shape:
  assumes "inserted s b h t" "b \<notin> blocks s" "topology_ok s" "data_shape s" "h_parents h \<noteq> []"
    "set (h_parents h) \<subseteq> blocks s"
  shows "data_shape t"
proof -
  note basic = inserted_basic[OF assms(1,2)]
  have "set (blues_of t b) \<subseteq> blocks s"
    using colouring_blues_in[OF topology_ok_agree[OF assms(3)] assms(3,6,5)]
    by (simp add: basic(8) ghostdag_spec_fields)
  moreover have "selected_parent_of t b \<in> set (parents_of t b)"
    using select_parent_in[OF assms(5)] by (simp add: basic(2,9) ghostdag_spec_fields)
  moreover have "set (blues_of t x) \<subseteq> blocks s \<and>
      (x \<noteq> s_genesis t \<longrightarrow> selected_parent_of t x \<in> set (parents_of t x))" if "x \<in> blocks s" for x
  proof -
    have "x \<noteq> b" "s_genesis t = s_genesis s" using that assms(1,2) by (auto simp: inserted_def)
    then show ?thesis using that assms(4) basic(3,6,7) by (simp add: data_shape_def)
  qed
  ultimately show ?thesis unfolding data_shape_def basic(1) by auto
qed

lemma inserted_cache:
  assumes "inserted s b h t" "b \<notin> blocks s" "topology_ok s" "cache_ok s c"
  shows "cache_ok t c"
  unfolding cache_ok_def
proof (intro conjI allI impI)
  show "length c \<le> CACHE_CAPACITY" using assms(4) by (simp add: cache_ok_def)
  fix d a v assume "map_of c (d, a) = Some v"
  with assms(4) have v: "d \<in> blocks s" "a \<in> blocks s" "v = ancestor s a d" by (auto simp: cache_ok_def)
  then show "d \<in> blocks t" "a \<in> blocks t" using inserted_basic(1)[OF assms(1,2)] by auto
  show "v = ancestor t a d" using agree_ancestor[OF inserted_agree[OF assms(1-3)] v(1)] v(3) by simp
qed

lemma inserted_data_spec:
  assumes ins: "inserted s b h t" "b \<notin> blocks s" and ok: "topology_ok s" "data_shape s"
    and ps: "h_parents h \<noteq> []" "set (h_parents h) \<subseteq> blocks s" and ds: "data_spec s"
  shows "data_spec t"
  unfolding data_spec_def
proof (intro allI impI)
  fix x g assume g: "map_of (s_headers t) x = Some g"
  note agr = inserted_agree[OF ins ok(1)]
  note t = inserted_topology[OF ins ok(1) ps] inserted_shape[OF ins ok ps]
  show "map_of (s_data t) x = Some (if x = s_genesis t then genesis_data x g else ghostdag_spec t g)"
  proof (cases "x = b")
    case True
    have "b \<noteq> s_genesis t" using ins ok(1) by (auto simp: inserted_def topology_ok_def)
    moreover have "g = h" "map_of (s_data t) b = Some (ghostdag_spec s h)"
      using g True ins(1) by (auto simp: inserted_def)
    ultimately show ?thesis using True ghostdag_spec_local[OF agr ok t ps(2,1)] by simp
  next
    case False
    then have g': "map_of (s_headers s) x = Some g" using g ins(1) by (simp add: inserted_def)
    then have "x \<in> blocks s" using contains_iff[of s x] by (simp add: contains_def)
    from data_spec_transfer[OF agr ok t ds this g'] show ?thesis .
  qed
qed

section \<open>Tips and children\<close>

lemma childless_new:
  assumes "inserted s b h t" "b \<notin> blocks s" "topology_ok s" "set (h_parents h) \<subseteq> blocks s"
  shows "{x \<in> blocks t. \<forall>c \<in> blocks t. x \<notin> set (parents_of t c)}
    = insert b ({x \<in> blocks s. \<forall>c \<in> blocks s. x \<notin> set (parents_of s c)} - set (h_parents h))"
proof -
  note basic = inserted_basic[OF assms(1,2)]
  have "parents_of t c = parents_of s c" if "c \<in> blocks s" for c
    using that assms(2) basic(3)[of c] by (cases "c = b") auto
  then have "x \<in> set (parents_of t c) \<longleftrightarrow> x \<in> set (parents_of s c)" if "c \<in> blocks s" for x c
    using that by simp
  moreover have "b \<notin> set (parents_of s c)" for c using assms(2,3) parents_in_blocks by blast
  moreover have "b \<notin> set (h_parents h)" using assms(2,4) by blast
  ultimately show ?thesis unfolding basic(1) by (auto simp: basic(2))
qed

lemma fold_btree_remove:
  "set (fold btree_remove ps xs) = set xs - set ps"
  "sorted xs \<Longrightarrow> sorted (fold btree_remove ps xs)"
  "distinct xs \<Longrightarrow> distinct (fold btree_remove ps xs)"
  by (induction ps arbitrary: xs) auto

lemma inserted_tips:
  assumes "inserted s b h t" "b \<notin> blocks s" "topology_ok s" "set (h_parents h) \<subseteq> blocks s" "tips_ok s"
    and "s_tips t = btree_insert b (fold btree_remove (h_parents h) (s_tips s))"
  shows "tips_ok t"
proof -
  have "sorted (s_tips s)" "distinct (s_tips s)"
    and set: "set (s_tips s) = {x \<in> blocks s. \<forall>c \<in> blocks s. x \<notin> set (parents_of s c)}"
    using assms(5) by (simp_all add: tips_ok_def)
  then show ?thesis
    unfolding tips_ok_def childless_new[OF assms(1-4)]
    by (simp add: assms(6) fold_btree_remove set)
qed

lemma add_child_eq: "add_child b q m = AList.update q (children_of m q @ [b]) m"
  by (simp add: add_child_def children_of_def)

lemma children_of_update [simp]:
  "children_of (AList.update q cs m) p = (if p = q then cs else children_of m p)"
  by (simp add: children_of_def)

lemma fold_add_child:
  "hmap_ok m \<Longrightarrow> hmap_ok (fold (add_child b) ps m)"
  "set (children_of (fold (add_child b) ps m) p)
     = set (children_of m p) \<union> (if p \<in> set ps then {b} else {})"
  by (induction ps arbitrary: m) (auto simp: add_child_eq)

lemma inserted_children:
  assumes "inserted s b h t" "b \<notin> blocks s" "topology_ok s" "children_ok s"
    and "s_children t = fold (add_child b) (h_parents h) (s_children s)"
  shows "children_ok t"
proof -
  note basic = inserted_basic[OF assms(1,2)]
  have "parents_of t c = parents_of s c" if "c \<in> blocks s" for c
    using that assms(2) basic(3)[of c] by (cases "c = b") auto
  then have "{c \<in> blocks t. p \<in> set (parents_of t c)}
      = {c \<in> blocks s. p \<in> set (parents_of s c)} \<union> (if p \<in> set (h_parents h) then {b} else {})" for p
    unfolding basic(1) by (auto simp: basic(2))
  moreover have "hmap_ok (s_children s)"
    "set (children_of (s_children s) p) = {c \<in> blocks s. p \<in> set (parents_of s c)}" for p
    using assms(4) by (simp_all add: children_ok_def)
  ultimately show ?thesis
    unfolding children_ok_def assms(5) fold_add_child(2) by (simp add: fold_add_child(1))
qed

section \<open>Adding a block\<close>

text \<open>What \<open>add_block\<close> answers, given a well-formed store.\<close>

definition add_block_result :: "(header \<Rightarrow> block_hash) \<Rightarrow> dag_store \<Rightarrow> header \<Rightarrow> dag_error + block_hash" where
  "add_block_result hash s h =
     (if hash h \<in> blocks s then Inl (AlreadyPresent (hash h))
      else if h_parents h = [] then Inl (NoParentsDag (hash h))
      else case find (\<lambda>p. p \<notin> blocks s) (h_parents h) of
          Some p \<Rightarrow> Inl (MissingParent (hash h) p)
        | None \<Rightarrow>
            if card (merge_set s (h_parents h) (select_parent s (h_parents h))) \<le> s_mergeset_size_limit s
            then Inr (hash h) else Inl (MergesetTooLarge (hash h) (s_mergeset_size_limit s)))"

lemma find_missing_None: "find (\<lambda>p. p \<notin> A) ps = None \<longleftrightarrow> set ps \<subseteq> A"
  by (auto simp: find_None_iff)

lemma add_block_cases:
  assumes ok: "dag_ok hash s" and run: "add_block hash s h = (r, t)"
  shows "r = add_block_result hash s h \<and>
    (case r of
       Inl e \<Rightarrow> (\<exists>c. cache_ok s c \<and> t = s\<lparr>s_reachability := c\<rparr>)
     | Inr b \<Rightarrow> b = hash h \<and> b \<notin> blocks s \<and> h_parents h \<noteq> [] \<and> set (h_parents h) \<subseteq> blocks s \<and>
         inserted s b h t \<and> cache_ok s (s_reachability t) \<and> s_mergeset_size_limit t = s_mergeset_size_limit s \<and>
         s_tips t = btree_insert b (fold btree_remove (h_parents h) (s_tips s)) \<and>
         s_children t = fold (add_child b) (h_parents h) (s_children s))"
proof -
  note dag = dag_okD[OF ok]
  have same: "\<exists>c. cache_ok s c \<and> s = s\<lparr>s_reachability := c\<rparr>" using dag(3) by (intro exI[of _ "s_reachability s"]) simp
  consider (early) "hash h \<in> blocks s \<or> h_parents h = [] \<or> \<not> set (h_parents h) \<subseteq> blocks s"
    | (full) "hash h \<notin> blocks s" "h_parents h \<noteq> []" "set (h_parents h) \<subseteq> blocks s" by blast
  then show ?thesis
  proof cases
    case early
    with run same show ?thesis
      unfolding add_block_def add_block_result_def contains_iff Let_def
      by (auto simp: find_missing_None[symmetric] split: option.splits if_splits)
  next
    case full
    then have find: "find (\<lambda>p. p \<notin> blocks s) (h_parents h) = None" by (simp add: find_missing_None)
    from compute_ghostdag_correct[OF dag(1-3) full(2,3), of hash] obtain c where c: "cache_ok s c"
      and cg: "compute_ghostdag hash s h (s_reachability s) =
        (if card (merge_set s (h_parents h) (select_parent s (h_parents h))) \<le> s_mergeset_size_limit s
         then Inr (ghostdag_spec s h) else Inl (MergesetTooLarge (hash h) (s_mergeset_size_limit s)), c)" by blast
    show ?thesis
    proof (cases "card (merge_set s (h_parents h) (select_parent s (h_parents h))) \<le> s_mergeset_size_limit s")
      case True
      with run full find cg have "r = Inr (hash h)" "t = s\<lparr>s_children := fold (add_child (hash h)) (h_parents h) (s_children s),
          s_tips := btree_insert (hash h) (fold btree_remove (h_parents h) (s_tips s)),
          s_headers := AList.update (hash h) h (s_headers s),
          s_data := AList.update (hash h) (ghostdag_spec s h) (s_data s), s_reachability := c\<rparr>"
        by (simp_all add: add_block_def contains_iff Let_def)
      with True full find c show ?thesis by (simp add: add_block_result_def inserted_def)
    next
      case False
      with run full find cg c show ?thesis by (auto simp: add_block_def add_block_result_def contains_iff Let_def)
    qed
  qed
qed

lemma add_block_ok:
  assumes ok: "dag_ok hash s" and run: "add_block hash s h = (r, t)"
  shows "dag_ok hash t"
proof (cases r)
  case (Inl e)
  with add_block_cases[OF assms] dag_ok_cache[OF ok] show ?thesis by auto
next
  case (Inr b)
  note dag = dag_okD[OF ok]
  from add_block_cases[OF assms] Inr have b: "b = hash h" and ins: "inserted s b h t" "b \<notin> blocks s"
    and ps: "h_parents h \<noteq> []" "set (h_parents h) \<subseteq> blocks s" and c: "cache_ok s (s_reachability t)"
    and tips: "s_tips t = btree_insert b (fold btree_remove (h_parents h) (s_tips s))"
    and ch: "s_children t = fold (add_child b) (h_parents h) (s_children s)" by auto
  have "hash_keyed hash t" using dag(4) ins(1) b by (auto simp: hash_keyed_def inserted_def)
  then show ?thesis
    using inserted_topology[OF ins dag(1) ps] inserted_shape[OF ins dag(1,2) ps] inserted_cache[OF ins dag(1) c]
      inserted_tips[OF ins dag(1) ps(2) dag(5) tips] inserted_children[OF ins dag(1,6) ch]
      inserted_data_spec[OF ins dag(1,2) ps dag(7)]
    by (simp add: dag_ok_def)
qed

end
