(* ===== verification/Dag_Props.thy ===== *)
theory Dag_Props
  imports Dag_Inv
begin

text \<open>
  What the DAG store promises, for every store a node can reach: exact reachability, exact
  errors, the merge set and its order, the selected chain, independence of insertion order.
\<close>

section \<open>Reachable stores\<close>

text \<open>
  A store starts at a genesis block without parents and changes by \<open>add_block\<close>, whether it
  succeeds or fails, and by reachability queries on stored blocks, which may fill the cache.
\<close>

inductive dag_reachable :: "(header \<Rightarrow> block_hash) \<Rightarrow> header \<Rightarrow> nat \<Rightarrow> nat \<Rightarrow> dag_store \<Rightarrow> bool"
  for hash genesis k limit where
  start: "h_parents genesis = [] \<Longrightarrow> dag_reachable hash genesis k limit (new_dag hash genesis k limit)"
| add: "dag_reachable hash genesis k limit s \<Longrightarrow>
    dag_reachable hash genesis k limit (snd (add_block hash s h))"
| query: "dag_reachable hash genesis k limit s \<Longrightarrow> a \<in> blocks s \<Longrightarrow> d \<in> blocks s \<Longrightarrow>
    dag_reachable hash genesis k limit
      (s\<lparr>s_reachability := snd (is_ancestor_of s a d (s_reachability s))\<rparr>)"

lemma new_dag_fields [simp]:
  "s_k (new_dag hash genesis k limit) = k"
  "s_genesis (new_dag hash genesis k limit) = hash genesis"
  "s_headers (new_dag hash genesis k limit) = [(hash genesis, genesis)]"
  "s_data (new_dag hash genesis k limit) = [(hash genesis, genesis_data (hash genesis) genesis)]"
  "s_children (new_dag hash genesis k limit) = []"
  "s_tips (new_dag hash genesis k limit) = [hash genesis]"
  "s_reachability (new_dag hash genesis k limit) = []"
  "s_mergeset_size_limit (new_dag hash genesis k limit) = limit"
  by (simp_all add: new_dag_def Let_def genesis_data_def)

lemma new_dag_ok:
  assumes "h_parents genesis = []"
  shows "dag_ok hash (new_dag hash genesis k limit)"
proof -
  let ?s = "new_dag hash genesis k limit"
  have bl: "blocks ?s = {hash genesis}" and gen: "s_genesis ?s = hash genesis"
    by (auto simp: blocks_def)
  have par: "parents_of ?s b = []" for b using assms by (simp add: parents_of_def)
  have "topology_ok ?s"
    unfolding topology_ok_def bl gen par by (simp add: hmap_ok_def)
  moreover have "data_shape ?s"
    unfolding data_shape_def bl gen by (simp add: blues_of_def genesis_data_def)
  moreover have "cache_ok ?s (s_reachability ?s)" by simp
  moreover have "hash_keyed hash ?s" by (simp add: hash_keyed_def)
  moreover have "tips_ok ?s" unfolding tips_ok_def bl par by auto
  moreover have "children_ok ?s"
    unfolding children_ok_def bl par by (simp add: children_of_def)
  moreover have "data_spec ?s" by (simp add: data_spec_def)
  ultimately show ?thesis by (simp add: dag_ok_def)
qed

lemma reachable_ok: "dag_reachable hash genesis k limit s \<Longrightarrow> dag_ok hash s"
proof (induction rule: dag_reachable.induct)
  case start
  then show ?case by (rule new_dag_ok)
next
  case (add s h)
  then show ?case using add_block_ok[of hash s h] by (metis prod.collapse)
next
  case (query s a d)
  then have "cache_ok s (snd (is_ancestor_of s a d (s_reachability s)))"
    using reach.query_snd[of s] dag_okD(1,3) by blast
  with query.IH show ?case by (rule dag_ok_cache)
qed

section \<open>Limits that never change\<close>

text \<open>Every stored block's merge set was within the limit when it joined, and still is.\<close>

definition limits_ok :: "dag_store \<Rightarrow> bool" where
  "limits_ok s \<longleftrightarrow> (\<forall>b \<in> blocks s. b \<noteq> s_genesis s \<longrightarrow>
     card (merge_set s (parents_of s b) (select_parent s (parents_of s b))) \<le> s_mergeset_size_limit s)"

lemma limits_ok_agree:
  assumes "agree (blocks s) s t" "topology_ok s" "limits_ok s" "b \<in> blocks s" "b \<noteq> s_genesis s"
  shows "card (merge_set t (parents_of t b) (select_parent t (parents_of t b))) \<le> s_mergeset_size_limit s"
proof -
  have ps: "set (parents_of s b) \<subseteq> blocks s" "parents_of s b \<noteq> []"
    using parents_in_blocks[OF assms(2)] parents_nonempty[OF assms(2,4,5)] by auto
  have sp: "select_parent s (parents_of s b) \<in> blocks s" using select_parent_in[OF ps(2)] ps(1) by auto
  show ?thesis
    unfolding agree_parents[OF assms(1,4), symmetric] agree_select_parent[OF assms(1) ps, symmetric]
      agree_merge_set(1)[OF assms(1) ps(1) sp, symmetric]
    using assms(3-5) by (simp add: limits_ok_def)
qed

lemma limits_ok_same:
  assumes "topology_ok s" "limits_ok s" shows "limits_ok (s\<lparr>s_reachability := c\<rparr>)"
proof -
  have sg: "same_graph s (s\<lparr>s_reachability := c\<rparr>)" by (simp add: same_graph_def)
  from limits_ok_agree[OF same_graph_agree[OF sg assms(1)] assms] show ?thesis
    unfolding limits_ok_def[of "s\<lparr>s_reachability := c\<rparr>"] same_graph_simps(1)[OF sg, symmetric] by simp
qed

lemma add_block_limits:
  assumes "dag_ok hash s" "limits_ok s"
  shows "limits_ok (snd (add_block hash s h))"
proof (cases "add_block hash s h")
  case (Pair r t)
  note cases = add_block_cases[OF assms(1) Pair] and top = dag_okD(1)[OF assms(1)]
  show ?thesis
  proof (cases r)
    case (Inl e)
    with cases limits_ok_same[OF top assms(2)] Pair show ?thesis by auto
  next
    case (Inr b)
    with cases have ins: "inserted s b h t" "b \<notin> blocks s" and ps: "h_parents h \<noteq> []" "set (h_parents h) \<subseteq> blocks s"
      and lim: "s_mergeset_size_limit t = s_mergeset_size_limit s" and b: "b = hash h"
      and res: "add_block_result hash s h = Inr b" by auto
    note agr = inserted_agree[OF ins top]
    have sp: "select_parent s (h_parents h) \<in> blocks s" using select_parent_in[OF ps(1)] ps(2) by auto
    have "card (merge_set s (h_parents h) (select_parent s (h_parents h))) \<le> s_mergeset_size_limit s"
      using res by (auto simp: add_block_result_def split: if_splits option.splits)
    then have "card (merge_set t (h_parents h) (select_parent t (h_parents h))) \<le> s_mergeset_size_limit s"
      using agree_merge_set(1)[OF agr ps(2) sp] agree_select_parent[OF agr ps(2,1)] by simp
    moreover have "s_genesis t = s_genesis s" using ins(1) by (simp add: inserted_def)
    ultimately show ?thesis
      using limits_ok_agree[OF agr top assms(2)] lim Pair
      by (auto simp: limits_ok_def inserted_basic(1,2)[OF ins])
  qed
qed

lemma add_block_config:
  assumes "dag_ok hash s"
  shows "s_k (snd (add_block hash s h)) = s_k s" "s_genesis (snd (add_block hash s h)) = s_genesis s"
    "s_mergeset_size_limit (snd (add_block hash s h)) = s_mergeset_size_limit s"
proof -
  obtain r t where run: "add_block hash s h = (r, t)" by fastforce
  from add_block_cases[OF assms run] run
  show "s_k (snd (add_block hash s h)) = s_k s" "s_genesis (snd (add_block hash s h)) = s_genesis s"
    "s_mergeset_size_limit (snd (add_block hash s h)) = s_mergeset_size_limit s"
    by (cases r; auto simp: inserted_def)+
qed

lemma reachable_limits:
  "dag_reachable hash genesis k limit s \<Longrightarrow>
   limits_ok s \<and> s_k s = k \<and> s_mergeset_size_limit s = limit \<and> s_genesis s = hash genesis \<and>
   map_of (s_headers s) (hash genesis) = Some genesis"
proof (induction rule: dag_reachable.induct)
  case start
  have "blocks (new_dag hash genesis k limit) = {hash genesis}" by (simp add: blocks_def)
  then show ?case by (simp add: limits_ok_def)
next
  case (add s h)
  note ok = reachable_ok[OF add.hyps]
  obtain r t where run: "add_block hash s h = (r, t)" by fastforce
  have "map_of (s_headers t) (hash genesis) = Some genesis"
  proof (cases r)
    case (Inl e)
    with add_block_cases[OF ok run] add.IH show ?thesis by auto
  next
    case (Inr b)
    with add_block_cases[OF ok run] have "inserted s b h t" "b \<notin> blocks s" by auto
    moreover have "hash genesis \<in> blocks s" using add.IH contains_iff[of s "hash genesis"] by (simp add: contains_def)
    ultimately show ?thesis using add.IH by (auto simp: inserted_def)
  qed
  with add.IH add_block_limits[OF ok, of h] add_block_config[OF ok, of h] run show ?case by simp
next
  case (query s a d)
  then show ?case using limits_ok_same[OF dag_okD(1)[OF reachable_ok]] by simp
qed

section \<open>The data of a stored block\<close>

lemma block_data:
  assumes "dag_ok hash s" "b \<in> blocks s" "b \<noteq> s_genesis s"
  obtains h where "map_of (s_headers s) b = Some h" "hash h = b" "map_of (s_data s) b = Some (ghostdag_spec s h)"
    "h_parents h = parents_of s b" "parents_of s b \<noteq> []" "set (parents_of s b) \<subseteq> blocks s"
proof -
  note ok = dag_okD[OF assms(1)]
  from header_of_block[OF assms(2)] obtain h where h: "map_of (s_headers s) b = Some h" by blast
  moreover from h have "h_parents h = parents_of s b" by (simp add: parents_of_def)
  moreover have "hash h = b" "map_of (s_data s) b = Some (ghostdag_spec s h)"
    using ok(4,7) h assms(3) by (auto simp: hash_keyed_def data_spec_def)
  ultimately show ?thesis
    using that parents_nonempty[OF ok(1) assms(2,3)] parents_in_blocks[OF ok(1)] by blast
qed

definition past :: "dag_store \<Rightarrow> block_hash \<Rightarrow> block_hash set" where
  "past s b = {a. ancestor s a b \<and> a \<noteq> b}"

lemma past_parents:
  assumes "topology_ok s"
  shows "past s b = {a. \<exists>p \<in> set (parents_of s b). ancestor s a p}"
proof -
  have "a \<noteq> b" if "p \<in> set (parents_of s b)" "ancestor s a p" for a p
    using parent_height[OF assms that(1)] ancestor_height[OF assms that(2)] by (cases "a = p") auto
  moreover have "ancestor s a b" if "p \<in> set (parents_of s b)" "ancestor s a p" for a p
    using ancestor_trans[OF that(2) ancestor_parent[OF that(1)]] .
  ultimately show ?thesis using ancestor_cases[of s _ b] unfolding past_def by blast
qed

lemma merge_set_past:
  assumes "topology_ok s"
  shows "merge_set s (parents_of s b) sp = past s b - past s sp - {sp}"
  unfolding merge_set_def past_parents[OF assms, of b] by (auto simp: past_def)

lemma colouring_of_block:
  assumes "dag_ok hash s" "b \<in> blocks s" "b \<noteq> s_genesis s"
  shows "\<exists>d bs. map_of (s_data s) b = Some d \<and> d_selected_parent d = select_parent s (parents_of s b) \<and>
    d_mergeset_blues d = d_selected_parent d # bs \<and> distinct (d_mergeset_blues d @ d_mergeset_reds d) \<and>
    set (bs @ d_mergeset_reds d) = set (d_mergeset_ordered d) \<and> length (d_mergeset_blues d) \<le> s_k s + 1 \<and>
    d_mergeset_ordered d = mergeset_order s (parents_of s b) (d_selected_parent d)"
proof -
  note ok = dag_okD[OF assms(1)]
  obtain h where h: "map_of (s_data s) b = Some (ghostdag_spec s h)" "h_parents h = parents_of s b"
    "parents_of s b \<noteq> []" "set (parents_of s b) \<subseteq> blocks s" by (rule block_data[OF assms])
  obtain blues reds sizes where col: "colouring_spec s (parents_of s b) = (blues, reds, sizes)" by (metis prod_cases3)
  with colouring_spec_ok[OF ok(1) h(4)] h show ?thesis
    by (auto simp: ghostdag_spec_fields colouring_ok_def)
qed

definition stored_headers :: "dag_store \<Rightarrow> header set" where
  "stored_headers s = ran (map_of (s_headers s))"

section \<open>Properties\<close>

text \<open>
  C11: In every reachable store the pruned, memoised reachability query answers exactly whether the
  first block is the second or lies in its past along parent edges, whatever earlier queries and
  insertions left in the cache, and the cache never exceeds its capacity.
\<close>

theorem is_ancestor_exact:
  assumes "dag_reachable hash genesis k limit s" and "a \<in> blocks s" and "d \<in> blocks s"
    and "is_ancestor_of s a d (s_reachability s) = (v, c)"
  shows "(v \<longleftrightarrow> (d, a) \<in> (parent_rel s)\<^sup>*) \<and> length c \<le> CACHE_CAPACITY"
  using is_ancestor_of_correct[OF dag_okD(1,3)[OF reachable_ok[OF assms(1)]] assms(2-4)]
  by (simp add: ancestor_def cache_ok_def)

text \<open>
  C13: \<open>add_block\<close> answers, on every reachable store, the first that applies of: already present, no
  parents, the first missing parent, merge set over the limit; and otherwise the block's hash. A
  refused block leaves the store as it was but for the reachability cache; an accepted one adds
  itself and changes no stored header and no stored GHOSTDAG data.
\<close>

theorem add_block_exact:
  assumes "dag_reachable hash genesis k limit s"
  shows "fst (add_block hash s h) = add_block_result hash s h \<and>
    (case fst (add_block hash s h) of
       Inl e \<Rightarrow> (\<exists>c. snd (add_block hash s h) = s\<lparr>s_reachability := c\<rparr>)
     | Inr b \<Rightarrow> blocks (snd (add_block hash s h)) = insert b (blocks s) \<and> b \<notin> blocks s \<and>
         map_of (s_headers (snd (add_block hash s h))) b = Some h \<and>
         (\<forall>x \<in> blocks s. map_of (s_headers (snd (add_block hash s h))) x = map_of (s_headers s) x \<and>
            map_of (s_data (snd (add_block hash s h))) x = map_of (s_data s) x))"
proof -
  obtain r t where run: "add_block hash s h = (r, t)" by fastforce
  note cases = add_block_cases[OF reachable_ok[OF assms] run]
  show ?thesis
  proof (cases r)
    case (Inl e)
    with cases obtain c where "t = s\<lparr>s_reachability := c\<rparr>" by auto
    moreover have "fst (add_block hash s h) = Inl e" "snd (add_block hash s h) = t" using run Inl by simp_all
    ultimately show ?thesis using cases run Inl by auto
  next
    case (Inr b)
    with cases have ins: "inserted s b h t" "b \<notin> blocks s" by auto
    then have "x \<noteq> b" if "x \<in> blocks s" for x using that by auto
    with Inr cases run ins inserted_basic(1)[OF ins] show ?thesis by (auto simp: inserted_def)
  qed
qed

text \<open>
  C12: For every stored block but genesis, the recorded merge set is exactly the block's past less
  its selected parent and the selected parent's past, listed without repetition, never a block
  before one of its ancestors, and within the configured limit; blues and reds partition it (the
  selected parent being the first blue), and there are at most \<open>k + 1\<close> blues.
\<close>

theorem mergeset_exact:
  assumes "dag_reachable hash genesis k limit s" and "b \<in> blocks s" and "b \<noteq> s_genesis s"
  shows "\<exists>d bs. map_of (s_data s) b = Some d \<and> d_selected_parent d \<in> set (parents_of s b) \<and>
    set (d_mergeset_ordered d) = past s b - past s (d_selected_parent d) - {d_selected_parent d} \<and>
    distinct (d_mergeset_ordered d) \<and> topo_ordered s (d_mergeset_ordered d) \<and>
    length (d_mergeset_ordered d) \<le> limit \<and>
    d_mergeset_blues d = d_selected_parent d # bs \<and>
    mset (bs @ d_mergeset_reds d) = mset (d_mergeset_ordered d) \<and> length (d_mergeset_blues d) \<le> k + 1"
proof -
  note ok = reachable_ok[OF assms(1)] note dag = dag_okD[OF ok] and lim = reachable_limits[OF assms(1)]
  from colouring_of_block[OF ok assms(2,3)] obtain d bs where
    d: "map_of (s_data s) b = Some d" "d_selected_parent d = select_parent s (parents_of s b)"
      "d_mergeset_blues d = d_selected_parent d # bs" "distinct (d_mergeset_blues d @ d_mergeset_reds d)"
      "set (bs @ d_mergeset_reds d) = set (d_mergeset_ordered d)" "length (d_mergeset_blues d) \<le> s_k s + 1"
      "d_mergeset_ordered d = mergeset_order s (parents_of s b) (d_selected_parent d)" by blast
  have ps: "parents_of s b \<noteq> []" "set (parents_of s b) \<subseteq> blocks s"
    using parents_nonempty[OF dag(1) assms(2,3)] parents_in_blocks[OF dag(1)] by auto
  note mo = mergeset_order_correct[OF dag(1) ps(2), of "d_selected_parent d", folded d(7)]
  have "mset (bs @ d_mergeset_reds d) = mset (d_mergeset_ordered d)"
    using d(3,4,5) mo(2) by (intro set_eq_iff_mset_eq_distinct[THEN iffD1]) auto
  moreover have "length (d_mergeset_ordered d) \<le> limit"
    using mo(4) lim assms(2,3) d(2) by (auto simp: limits_ok_def)
  moreover have "d_selected_parent d \<in> set (parents_of s b)" using select_parent_in[OF ps(1)] d(2) by simp
  ultimately show ?thesis
    using d(1,3,6) mo(1-3) lim unfolding merge_set_past[OF dag(1)] by blast
qed

lemma same_data:
  assumes "dag_reachable hash genesis k limit s" and "dag_reachable hash genesis k limit t"
    and "inj_on hash (stored_headers s \<union> stored_headers t)" and "b \<in> blocks s" and "b \<in> blocks t"
  shows "map_of (s_data s) b = map_of (s_data t) b"
  using assms(4,5)
proof (induction "topological_height s b" arbitrary: b rule: less_induct)
  case less
  note ok = reachable_ok[OF assms(1)] reachable_ok[OF assms(2)]
  note dag = dag_okD[OF ok(1)] dag_okD[OF ok(2)]
  note conf = reachable_limits[OF assms(1)] reachable_limits[OF assms(2)]
  have same_header: "map_of (s_headers s) x = map_of (s_headers t) x" if "x \<in> blocks s" "x \<in> blocks t" for x
    using header_of_block[OF that(1)] header_of_block[OF that(2)] dag(4,11) inj_onD[OF assms(3)]
    unfolding hash_keyed_def stored_headers_def by (metis UnCI ranI)
  show ?case
  proof (cases "b = s_genesis s")
    case True
    then show ?thesis using conf dag(7,14) by (simp add: data_spec_def)
  next
    case False
    from block_data[OF ok(1) less.prems(1) False] obtain h where
      h: "map_of (s_headers s) b = Some h" "map_of (s_data s) b = Some (ghostdag_spec s h)"
        "h_parents h = parents_of s b" "parents_of s b \<noteq> []" "set (parents_of s b) \<subseteq> blocks s" by blast
    have ht: "map_of (s_headers t) b = Some h" using same_header[OF less.prems] h(1) by simp
    have data_t: "map_of (s_data t) b = Some (ghostdag_spec t h)"
      using ht dag(14) False conf by (simp add: data_spec_def)
    have mem: "x \<in> blocks s \<and> x \<in> blocks t \<and> parents_of s x = parents_of t x" if "ancestor s x b" for x
      using that unfolding ancestor_def
    proof (induction rule: rtrancl_induct)
      case base
      then show ?case using less.prems same_header by (simp add: parents_of_def)
    next
      case (step y z)
      then have "z \<in> set (parents_of s y)" "z \<in> set (parents_of t y)" by (auto simp: parent_rel_def)
      then have "z \<in> blocks s" "z \<in> blocks t" using parents_in_blocks[OF dag(1)] parents_in_blocks[OF dag(8)] by auto
      then show ?case using same_header by (simp add: parents_of_def)
    qed
    have "agree (past s b) s t"
      unfolding agree_def
    proof (intro conjI ballI)
      show "s_k s = s_k t" "s_genesis s = s_genesis t" using conf by auto
      show "past s b \<subseteq> blocks s" "past s b \<subseteq> blocks t" using mem by (auto simp: past_def)
      fix x assume x: "x \<in> past s b"
      then have xb: "x \<in> blocks s" "x \<in> blocks t" using mem by (auto simp: past_def)
      show "map_of (s_headers s) x = map_of (s_headers t) x" using same_header[OF xb] .
      show "map_of (s_data s) x = map_of (s_data t) x"
        using less.hyps[OF _ xb] ancestor_height[OF dag(1)] x by (simp add: past_def)
      show "set (parents_of s x) \<subseteq> past s b"
        using x ancestor_parent ancestor_trans unfolding past_parents[OF dag(1)] by blast
    qed
    moreover have "set (h_parents h) \<subseteq> past s b" "h_parents h \<noteq> []"
      unfolding past_parents[OF dag(1)] using h(3,4) by auto
    ultimately show ?thesis
      using ghostdag_spec_local[of "past s b" s t h] dag(1,2,8,9) h(2) data_t by simp
  qed
qed

section \<open>A concrete store\<close>

text \<open>
  Blocks numbered by their nonce, which is also their hash. \<open>example_dag\<close> has a fork, 1 and 2 on
  genesis, merged by 3.
\<close>

definition ex_block :: "u64 \<Rightarrow> block_hash list \<Rightarrow> header" where
  "ex_block n ps = blank_header\<lparr>h_nonce := n, h_bits := 0, h_parents := ps\<rparr>"

definition ex_hash :: "header \<Rightarrow> block_hash" where "ex_hash h = ucast (h_nonce h)"

lemma ex_hash_block [simp]: "ex_hash (ex_block n ps) = ucast n"
  by (simp add: ex_hash_def ex_block_def)

definition ex_dag :: "nat \<Rightarrow> nat \<Rightarrow> (u64 \<times> block_hash list) list \<Rightarrow> dag_store" where
  "ex_dag k limit bs =
     foldl (\<lambda>s (n, ps). snd (add_block ex_hash s (ex_block n ps))) (new_dag ex_hash (ex_block 0 []) k limit) bs"

definition example_dag :: dag_store where
  "example_dag = ex_dag 2 10 [(1, [0]), (2, [0]), (3, [1, 2])]"

lemma ex_dag_reachable: "dag_reachable ex_hash (ex_block 0 []) k limit (ex_dag k limit bs)"
proof (induction bs rule: rev_induct)
  case Nil
  have "h_parents (ex_block 0 []) = []" by (simp add: ex_block_def)
  then show ?case by (simp add: ex_dag_def dag_reachable.start)
next
  case (snoc x xs)
  then show ?case by (cases x) (simp add: ex_dag_def dag_reachable.add)
qed

lemmas example_reachable = ex_dag_reachable[of 2 10 "[(1, [0]), (2, [0]), (3, [1, 2])]", folded example_dag_def]

definition example_check :: "dag_store \<Rightarrow> bool" where
  "example_check s \<longleftrightarrow> list_all (contains s) [0, 1, 2, 3] \<and> \<not> contains s 7 \<and> \<not> contains s 9 \<and>
     s_genesis s = 0 \<and> map_option d_mergeset_blues (dag_data s 3) = Some [2, 1] \<and>
     map_option d_selected_parent (dag_data s 3) = Some 2 \<and>
     fst (is_ancestor_of s 1 3 (s_reachability s)) \<and> \<not> fst (is_ancestor_of s 1 2 (s_reachability s))"

lemma example_check: "example_check example_dag"
  by code_simp

lemmas example_facts = example_check[unfolded example_check_def]

lemma example_blocks [simp]:
  "0 \<in> blocks example_dag" "1 \<in> blocks example_dag" "2 \<in> blocks example_dag" "3 \<in> blocks example_dag"
  "7 \<notin> blocks example_dag" "9 \<notin> blocks example_dag"
  using example_facts by (simp_all add: contains_iff[symmetric])

lemma example_genesis [simp]: "s_genesis example_dag = 0"
  using example_facts by simp

theorem is_ancestor_exact_witness:
  "(3, 1) \<in> (parent_rel example_dag)\<^sup>* \<and> (2, 1) \<notin> (parent_rel example_dag)\<^sup>*"
  using is_ancestor_exact[OF example_reachable example_blocks(2,4) surjective_pairing]
    is_ancestor_exact[OF example_reachable example_blocks(2,3) surjective_pairing] example_facts
  by blast

theorem add_block_exact_witness:
  "fst (add_block ex_hash example_dag (ex_block 7 [])) = Inl (NoParentsDag 7) \<and>
   fst (add_block ex_hash example_dag (ex_block 7 [9])) = Inl (MissingParent 7 9)"
  using add_block_exact[OF example_reachable, of "ex_block 7 []"]
    add_block_exact[OF example_reachable, of "ex_block 7 [9]"]
  by (simp add: add_block_result_def ex_hash_def ex_block_def)

theorem mergeset_exact_witness:
  "\<exists>d. map_of (s_data example_dag) 3 = Some d \<and>
    set (d_mergeset_ordered d) = past example_dag 3 - past example_dag (d_selected_parent d) - {d_selected_parent d} \<and>
    length (d_mergeset_blues d) = 2"
proof -
  obtain d where "map_of (s_data example_dag) 3 = Some d" "length (d_mergeset_blues d) = 2"
    using example_facts by (auto simp: dag_data_def)
  with mergeset_exact[OF example_reachable, of 3] show ?thesis by auto
qed

text \<open>The same three blocks in another order of arrival.\<close>

lemma other_order_facts:
  "(\<lambda>s. contains s 3 \<and> map (h_nonce \<circ> snd) (s_headers s) = [0, 2, 1, 3]) (ex_dag 2 10 [(2, [0]), (1, [0]), (3, [1, 2])])"
  by code_simp

lemma example_headers:
  "stored_headers (ex_dag 2 10 bs) \<subseteq> insert (ex_block 0 []) ((\<lambda>(n, ps). ex_block n ps) ` set bs)"
proof (induction bs rule: rev_induct)
  case Nil
  then show ?case by (simp add: ex_dag_def stored_headers_def)
next
  case (snoc x xs)
  obtain n ps where x: "x = (n, ps)" by fastforce
  let ?s = "ex_dag 2 10 xs"
  obtain r t where run: "add_block ex_hash ?s (ex_block n ps) = (r, t)" by fastforce
  have "stored_headers t \<subseteq> insert (ex_block n ps) (stored_headers ?s)"
    using add_block_cases[OF reachable_ok[OF ex_dag_reachable] run]
    by (cases r) (auto simp: inserted_def stored_headers_def ran_def split: if_splits)
  then show ?case using snoc run x by (auto simp: ex_dag_def)
qed

text \<open>
  C9: Two nodes that started from the same genesis with the same parameters and received blocks in
  any orders hold identical GHOSTDAG data (selected parent, blue score and work, merge set, its
  order and colours) for every block both of them have, provided the hashes of
  the headers they hold do not collide.
\<close>

theorem dag_order_independent:
  assumes "dag_reachable hash genesis k limit s" and "dag_reachable hash genesis k limit t"
    and "inj_on hash (stored_headers s \<union> stored_headers t)" and "b \<in> blocks s" and "b \<in> blocks t"
  shows "map_of (s_data s) b = map_of (s_data t) b"
  by (rule same_data[OF assms])

theorem dag_order_independent_witness:
  "map_of (s_data example_dag) 3 = map_of (s_data (ex_dag 2 10 [(2, [0]), (1, [0]), (3, [1, 2])])) 3"
proof -
  let ?t = "ex_dag 2 10 [(2, [0]), (1, [0]), (3, [1, 2])]"
  have "stored_headers example_dag \<union> stored_headers ?t
      \<subseteq> {ex_block 0 [], ex_block 1 [0], ex_block 2 [0], ex_block 3 [1, 2]}"
    using example_headers[of "[(1, [0]), (2, [0]), (3, [1, 2])]"] example_headers[of "[(2, [0]), (1, [0]), (3, [1, 2])]"]
    by (auto simp: example_dag_def)
  moreover have "inj_on ex_hash {ex_block 0 [], ex_block 1 [0], ex_block 2 [0], ex_block 3 [1, 2]}"
    by (intro inj_onI) (elim insertE emptyE; simp)
  ultimately have "inj_on ex_hash (stored_headers example_dag \<union> stored_headers ?t)"
    by (rule inj_on_subset[rotated])
  moreover have "3 \<in> blocks ?t" using other_order_facts by (simp add: contains_iff[symmetric])
  ultimately show ?thesis
    using dag_order_independent[OF example_reachable ex_dag_reachable] by simp
qed

end
