(* ===== verification/Dag_Chain.thy ===== *)
theory Dag_Chain
  imports Dag_Props
begin

text \<open>
  Work, score, tips and the selected chain of reachable stores, the exact colouring rule, and what
  the colouring and the cache do not guarantee.
\<close>

section \<open>Blue work\<close>

lemma foldl_saturating_ge: "w \<le> foldl (\<lambda>w b. saturating_add w (f b)) w bs"
proof (induction bs arbitrary: w)
  case (Cons b bs)
  show ?case using Cons[of "saturating_add w (f b)"] saturating_add_ge[of w "f b"] by simp
qed simp

lemma compare_not_greater_work: "compare_blocks s a b \<noteq> Greater \<Longrightarrow> blue_work_of s a \<le> blue_work_of s b"
  by (auto simp: compare_blocks_def cmp_def then_with_def split: if_splits)

lemma parent_work:
  assumes "dag_ok hash s" "b \<in> blocks s" "p \<in> set (parents_of s b)"
  shows "blue_work_of s p \<le> blue_work_of s b"
proof -
  note ok = dag_okD[OF assms(1)]
  have "b \<noteq> s_genesis s" using assms(3) ok(1) by (auto simp: topology_ok_def)
  from block_data[OF assms(1,2) this] obtain h where
    h: "map_of (s_data s) b = Some (ghostdag_spec s h)" "h_parents h = parents_of s b" "parents_of s b \<noteq> []" by blast
  let ?sp = "select_parent s (parents_of s b)"
  have "blue_work_of s p \<le> blue_work_of s ?sp"
    using select_parent_best[OF h(3), of s] assms(3) by (auto simp: best_of_def intro: compare_not_greater_work)
  also have "\<dots> \<le> d_blue_work (ghostdag_spec s h)"
    unfolding ghostdag_spec_def Let_def h(2)
    by (auto split: prod.splits intro: order_trans[OF foldl_saturating_ge saturating_add_ge])
  also have "\<dots> = blue_work_of s b" using h(1) by (simp add: blue_work_of_def)
  finally show ?thesis .
qed

lemma ancestor_work:
  assumes "dag_ok hash s" "ancestor s a b" "b \<in> blocks s"
  shows "blue_work_of s a \<le> blue_work_of s b"
  using assms(2,3) unfolding ancestor_def
proof (induction rule: converse_rtrancl_induct)
  case (step y z)
  have z: "z \<in> set (parents_of s y)" using step by (simp add: parent_rel_def)
  then have "z \<in> blocks s" using parents_in_blocks[OF dag_okD(1)[OF assms(1)]] by blast
  with step.IH parent_work[OF assms(1) step.prems z] show ?case by simp
qed simp

section \<open>Tips\<close>

lemma finite_has_greatest:
  assumes "finite A" "a \<in> A"
  obtains t where "t \<in> A" "\<forall>x \<in> A. (f x :: nat) \<le> f t"
proof -
  have "Max (f ` A) \<in> f ` A" using assms by (intro Max_in) auto
  then obtain t where "t \<in> A" "f t = Max (f ` A)" by auto
  with that assms(1) show thesis by (metis Max_ge finite_imageI imageI)
qed

lemma below_a_tip:
  assumes "dag_ok hash s" "b \<in> blocks s"
  shows "\<exists>t \<in> set (s_tips s). ancestor s b t"
proof -
  let ?A = "{x \<in> blocks s. ancestor s b x}"
  have "finite ?A" "b \<in> ?A" using assms(2) by auto
  then obtain t where t: "t \<in> ?A" and max: "\<forall>x \<in> ?A. topological_height s x \<le> topological_height s t"
    by (rule finite_has_greatest)
  have "t \<notin> set (parents_of s c)" if "c \<in> blocks s" for c
  proof
    assume c: "t \<in> set (parents_of s c)"
    then have "c \<in> ?A" using that t ancestor_parent ancestor_trans by blast
    with max parent_height[OF dag_okD(1)[OF assms(1)] c] show False by (meson linorder_not_less)
  qed
  with t dag_okD(5)[OF assms(1)] show ?thesis by (auto simp: tips_ok_def)
qed

interpretation descending_order: strict_comparator "\<lambda>a b. compare_blocks s b a" for s
  by unfold_locales (use block_order.c_equal block_order.c_swap block_order.c_trans in metis)+

lemma sorted_distinct_strict:
  "sorted_wrt (\<lambda>a b. compare_blocks s b a \<noteq> Greater) xs \<Longrightarrow> distinct xs \<Longrightarrow>
   sorted_wrt (\<lambda>a b. compare_blocks s a b = Greater) xs"
proof (induction xs)
  case (Cons x xs)
  then show ?case by (auto simp: block_order.not_greater block_order.c_swap[of s x])
qed simp

text \<open>
  C15: In every reachable store the tips are exactly the childless blocks, without repetition and in
  descending block order; the virtual selected parent is one of them, and no block of the whole
  store has more blue work.
\<close>

theorem tips_exact:
  assumes "dag_reachable hash genesis k limit s"
  shows "set (dag_tips s) = {b \<in> blocks s. \<forall>c \<in> blocks s. b \<notin> set (parents_of s c)} \<and>
    distinct (dag_tips s) \<and> sorted_wrt (\<lambda>a b. compare_blocks s a b = Greater) (dag_tips s) \<and>
    virtual_selected_parent s \<in> set (dag_tips s) \<and>
    (\<forall>b \<in> blocks s. blue_work_of s b \<le> blue_work_of s (virtual_selected_parent s))"
proof -
  note ok = reachable_ok[OF assms] note dag = dag_okD[OF ok]
  have tips: "set (s_tips s) = {b \<in> blocks s. \<forall>c \<in> blocks s. b \<notin> set (parents_of s c)}" "distinct (s_tips s)"
    using dag(5) by (simp_all add: tips_ok_def)
  have set: "set (dag_tips s) = set (s_tips s)" and dist: "distinct (dag_tips s)"
    using tips(2) by (simp_all add: dag_tips_def)
  have sorted: "sorted_wrt (\<lambda>a b. compare_blocks s a b = Greater) (dag_tips s)"
    by (rule sorted_distinct_strict[OF _ dist]) (simp add: dag_tips_def descending_order.sort_by_sorted)
  have "s_genesis s \<in> blocks s" using dag(1) by (simp add: topology_ok_def)
  from below_a_tip[OF ok this] obtain v rest where v: "dag_tips s = v # rest"
    using set by (cases "dag_tips s") auto
  have vsp: "virtual_selected_parent s = v" by (simp add: virtual_selected_parent_def v)
  have "blue_work_of s b \<le> blue_work_of s v" if b: "b \<in> blocks s" for b
  proof -
    from below_a_tip[OF ok b] obtain t where t: "t \<in> set (dag_tips s)" "ancestor s b t" using set by auto
    then have "t \<in> blocks s" using set tips(1) by auto
    with ancestor_work[OF ok t(2)] have "blue_work_of s b \<le> blue_work_of s t" .
    also have "\<dots> \<le> blue_work_of s v"
      using t(1) sorted v block_order.c_swap[of s v t] compare_not_greater_work[of s t v] by auto
    finally show ?thesis .
  qed
  then show ?thesis using set tips(1) dist sorted v vsp by auto
qed

theorem tips_exact_witness:
  "virtual_selected_parent example_dag \<in> blocks example_dag \<and>
   blue_work_of example_dag 1 \<le> blue_work_of example_dag (virtual_selected_parent example_dag)"
  using tips_exact[OF example_reachable] by auto

section \<open>The selected chain\<close>

text \<open>
  C16: Walking selected parents from any stored block returns: the loop of \<open>selected_parent_chain\<close>
  terminates, starts at the block, steps from each block to its selected parent (one of its
  parents, and the best of them in the block order), ends at genesis and repeats nothing.
\<close>

theorem selected_chain_exact:
  assumes "dag_reachable hash genesis k limit s" and "b \<in> blocks s"
  shows "while_option chain_running (chain_walk_step s) ([], b, False)
      = Some (selected_parent_chain s b, hash genesis, True) \<and>
    hd (selected_parent_chain s b) = b \<and> last (selected_parent_chain s b) = hash genesis \<and>
    distinct (selected_parent_chain s b) \<and>
    successively (\<lambda>x y. y \<in> set (parents_of s x) \<and>
        (\<forall>p \<in> set (parents_of s x). p \<noteq> y \<longrightarrow> compare_blocks s p y = Less)) (selected_parent_chain s b)"
proof -
  note ok = reachable_ok[OF assms(1)] note dag = dag_okD[OF ok]
  have gen: "s_genesis s = hash genesis" using reachable_limits[OF assms(1)] by simp
  note shape = selected_parent_chain_shape[OF dag(1,2) assms(2)]
  from chain_walk_ends[OF dag(1,2) assms(2)] obtain ch where
    "while_option chain_running (chain_walk_step s) ([], b, False) = Some (ch, hash genesis, True)"
    using gen by force
  then have "while_option chain_running (chain_walk_step s) ([], b, False)
      = Some (selected_parent_chain s b, hash genesis, True)"
    by (simp add: selected_parent_chain_def while_def)
  moreover have "y \<in> set (parents_of s x) \<and>
        (\<forall>p \<in> set (parents_of s x). p \<noteq> y \<longrightarrow> compare_blocks s p y = Less)"
    if "x \<in> blocks s" "y = selected_parent_of s x" "y \<in> set (parents_of s x)" for x y
  proof -
    have "x \<noteq> s_genesis s" using that(3) dag(1) by (auto simp: topology_ok_def)
    from block_data[OF ok that(1) this] obtain h where
      h: "map_of (s_data s) x = Some (ghostdag_spec s h)" "h_parents h = parents_of s x" "parents_of s x \<noteq> []" by blast
    then have "y = select_parent s (parents_of s x)"
      using that(2) by (simp add: selected_parent_of_def ghostdag_spec_fields)
    with select_parent_best[OF h(3), of s] that(3) show ?thesis
      by (auto simp: best_of_def block_order.not_greater)
  qed
  then have "successively (\<lambda>x y. y \<in> set (parents_of s x) \<and>
        (\<forall>p \<in> set (parents_of s x). p \<noteq> y \<longrightarrow> compare_blocks s p y = Less)) (selected_parent_chain s b)"
    using shape by (auto elim!: successively_mono)
  ultimately show ?thesis using shape gen by simp
qed

theorem selected_chain_exact_witness:
  "hd (selected_parent_chain example_dag 3) = 3 \<and> last (selected_parent_chain example_dag 3) = 0"
  using selected_chain_exact[OF example_reachable example_blocks(4)] by simp

section \<open>Blue score\<close>

definition chain_blues :: "dag_store \<Rightarrow> block_hash \<Rightarrow> block_hash set" where
  "chain_blues s b = (\<Union>x \<in> set (selected_parent_chain s b). set (blues_of s x))"

lemma blues_of_block:
  assumes "dag_ok hash s" "b \<in> blocks s" "b \<noteq> s_genesis s"
  shows "set (blues_of s b) \<subseteq> past s b" "set (blues_of s b) \<inter> past s (selected_parent_of s b) = {}"
    "distinct (blues_of s b)"
proof -
  note ok = dag_okD[OF assms(1)]
  from colouring_of_block[OF assms] obtain d bs where
    d: "map_of (s_data s) b = Some d" "d_selected_parent d = select_parent s (parents_of s b)"
      "d_mergeset_blues d = d_selected_parent d # bs" "distinct (d_mergeset_blues d @ d_mergeset_reds d)"
      "set (bs @ d_mergeset_reds d) = set (d_mergeset_ordered d)"
      "d_mergeset_ordered d = mergeset_order s (parents_of s b) (d_selected_parent d)" by blast
  have ps: "parents_of s b \<noteq> []" "set (parents_of s b) \<subseteq> blocks s"
    using parents_nonempty[OF ok(1) assms(2,3)] parents_in_blocks[OF ok(1)] by auto
  have "set bs \<subseteq> past s b - past s (d_selected_parent d) - {d_selected_parent d}"
    using d(5,6) mergeset_order_correct(1)[OF ok(1) ps(2)] merge_set_past[OF ok(1)] by auto
  moreover have "d_selected_parent d \<in> past s b"
    unfolding past_parents[OF ok(1)] using select_parent_in[OF ps(1)] d(2) by auto
  moreover have "d_selected_parent d \<notin> past s (d_selected_parent d)" by (simp add: past_def)
  ultimately show "set (blues_of s b) \<subseteq> past s b" "set (blues_of s b) \<inter> past s (selected_parent_of s b) = {}"
    "distinct (blues_of s b)"
    using d(1,3,4) by (auto simp: blues_of_def selected_parent_of_def)
qed

lemma blue_score_step:
  assumes "dag_ok hash s" "b \<in> blocks s" "b \<noteq> s_genesis s"
  shows "d_blue_score (the (map_of (s_data s) b))
    = d_blue_score (the (map_of (s_data s) (selected_parent_of s b))) + length (blues_of s b)"
proof -
  from block_data[OF assms] obtain h where h: "map_of (s_data s) b = Some (ghostdag_spec s h)" by blast
  then have sp: "selected_parent_of s b = select_parent s (h_parents h)"
    by (simp add: selected_parent_of_def ghostdag_spec_fields)
  have "selected_parent_of s b \<in> blocks s"
    using selected_parent_below(1)[OF dag_okD(1,2)[OF assms(1)] assms(2,3)] .
  from data_of_block[OF dag_okD(1)[OF assms(1)] this] sp h show ?thesis
    by (auto simp: blues_of_def ghostdag_spec_def Let_def split: prod.splits)
qed

lemma blue_score_chain:
  assumes "dag_reachable hash genesis k limit s" and "b \<in> blocks s"
  shows "(\<exists>d. map_of (s_data s) b = Some d \<and> d_blue_score d = card (chain_blues s b)) \<and> chain_blues s b \<subseteq> past s b"
  using assms(2)
proof (induction "topological_height s b" arbitrary: b rule: less_induct)
  case less
  note ok = reachable_ok[OF assms(1)] note dag = dag_okD[OF ok]
  note unf = selected_parent_chain_unfold[OF dag(1,2) less.prems]
  from data_of_block[OF dag(1) less.prems] obtain d where d: "map_of (s_data s) b = Some d" by blast
  show ?case
  proof (cases "b = s_genesis s")
    case True
    from header_of_block[OF less.prems] obtain h where "map_of (s_headers s) b = Some h" by blast
    then have "map_of (s_data s) b = Some (genesis_data b h)" using dag(7) True by (simp add: data_spec_def)
    with True unf show ?thesis by (simp add: chain_blues_def blues_of_def genesis_data_def)
  next
    case False
    let ?p = "selected_parent_of s b"
    note below = selected_parent_below[OF dag(1,2) less.prems False]
    note blues = blues_of_block[OF ok less.prems False]
    from less.hyps[OF below(3,1)] obtain dp where
      dp: "map_of (s_data s) ?p = Some dp" "d_blue_score dp = card (chain_blues s ?p)" "chain_blues s ?p \<subseteq> past s ?p"
      by blast
    have un: "chain_blues s b = set (blues_of s b) \<union> chain_blues s ?p"
      using unf False by (simp add: chain_blues_def)
    have "card (chain_blues s b) = length (blues_of s b) + card (chain_blues s ?p)"
      unfolding un distinct_card[OF blues(3), symmetric]
      using blues(2) dp(3) by (intro card_Un_disjoint) (auto simp: chain_blues_def)
    moreover have "past s ?p \<subseteq> past s b"
      using below(2) ancestor_trans ancestor_antisym[OF dag(1)] unfolding past_def by blast
    ultimately show ?thesis
      using blue_score_step[OF ok less.prems False] d dp blues(1) un by auto
  qed
qed

text \<open>
  A stored block's blue score is the number of distinct blue blocks along its selected chain, all
  of them strictly in its past: genesis scores 0, and no block counts itself.
\<close>

theorem blue_score_exact:
  assumes "dag_reachable hash genesis k limit s" and "b \<in> blocks s"
  shows "(\<exists>d. map_of (s_data s) b = Some d \<and> d_blue_score d = card (chain_blues s b)) \<and> chain_blues s b \<subseteq> past s b"
  by (rule blue_score_chain[OF assms])

theorem blue_score_exact_witness:
  "\<exists>d. map_of (s_data example_dag) 3 = Some d \<and> d_blue_score d = card (chain_blues example_dag 3)"
  using blue_score_exact[OF example_reachable example_blocks(4)] by simp

section \<open>The colouring rule\<close>



section \<open>What is not guaranteed\<close>

text \<open>
  The rule reads the size of a blue further down the chain from the record of the chain block that
  merged it, which is never rewritten when later blocks find more blues concurrent with it. Two
  candidates of one merge set, or of successive ones, can each be counted against the same stale
  record, so the k-cluster property the comments describe can fail: below, with \<open>k = 2\<close>, block 2
  is blue with three concurrent blues.
\<close>

definition stale_dag :: dag_store where
  "stale_dag = ex_dag 2 10 [(1, [0]), (2, [0]), (3, [1]), (4, [3]), (5, [1, 2]), (6, [4, 5])]"

definition stale_check :: "dag_store \<Rightarrow> bool" where
  "stale_check s \<longleftrightarrow> list_all (contains s) [1, 2, 3, 4, 5, 6] \<and> selected_parent_chain s 6 = [6, 5, 2, 0] \<and>
     map_option d_mergeset_blues (dag_data s 6) = Some [5, 3, 4] \<and>
     map_option d_mergeset_blues (dag_data s 5) = Some [2, 1] \<and>
     list_all (\<lambda>x. \<not> fst (is_ancestor_of s x 2 []) \<and> \<not> fst (is_ancestor_of s 2 x [])) [1, 3, 4]"

lemma stale_check: "stale_check stale_dag"
  by code_simp

lemma k_cluster_can_fail:
  "\<exists>s. dag_reachable ex_hash (ex_block 0 []) 2 10 s \<and> 2 \<in> chain_blues s 6 \<and>
     {1, 3, 4} \<subseteq> {x \<in> chain_blues s 6. \<not> ancestor s x 2 \<and> \<not> ancestor s 2 x} \<and> 2 < card {1, 3, 4 :: block_hash}"
proof (intro exI conjI)
  show reach: "dag_reachable ex_hash (ex_block 0 []) 2 10 stale_dag"
    unfolding stale_dag_def by (rule ex_dag_reachable)
  note facts = stale_check[unfolded stale_check_def]
  then have bl: "1 \<in> blocks stale_dag" "2 \<in> blocks stale_dag" "3 \<in> blocks stale_dag" "4 \<in> blocks stale_dag"
    by (simp_all add: contains_iff)
  show "2 \<in> chain_blues stale_dag 6"
    using facts by (auto simp: chain_blues_def blues_of_def dag_data_def)
  have "fst (is_ancestor_of stale_dag a d []) = ancestor stale_dag a d"
    if "a \<in> blocks stale_dag" "d \<in> blocks stale_dag" for a d
    using that by (intro reach.query_fst dag_okD(1)[OF reachable_ok[OF reach]]) auto
  with facts bl show "{1, 3, 4} \<subseteq> {x \<in> chain_blues stale_dag 6. \<not> ancestor stale_dag x 2 \<and> \<not> ancestor stale_dag 2 x}"
    by (auto simp: chain_blues_def blues_of_def dag_data_def)
qed simp

text \<open>
  A query about a block that is not stored yet caches \<open>false\<close>, and the entry survives the block's
  insertion: from then on genesis is reported not to be an ancestor of it.
\<close>

definition early_query :: dag_store where
  "early_query =
     (let s = new_dag ex_hash (ex_block 0 []) 2 10; c = snd (is_ancestor_of s 0 9 [])
      in snd (add_block ex_hash (s\<lparr>s_reachability := c\<rparr>) (ex_block 9 [0])))"

lemma early_query_poisons_cache:
  "contains early_query 9 \<and> map_option h_parents (dag_header early_query 9) = Some [0] \<and>
   fst (is_ancestor_of early_query 0 9 (s_reachability early_query)) = False \<and>
   fst (is_ancestor_of early_query 0 9 []) = True"
  by code_simp

end
