(* ===== verification/Ordering.thy ===== *)
theory Ordering
  imports Dag "HOL-Library.Sublist"
begin

text \<open>
  The merge-set ordering rule (\<open>crates/ghostdag/src/ordering.rs\<close>): the base sequence of a chain
  block, first-occurrence deduplication, and layering into rounds. A transaction is of any type
  \<open>'tx\<close>; \<open>keys tx\<close> is its \<open>access_keys()\<close>. Rounds are \<open>u32\<close> with the code's saturating increment.
\<close>

section \<open>Definitions\<close>

definition base_sequence :: "dag_store \<Rightarrow> block_hash \<Rightarrow> block_hash list" where
  "base_sequence s chain_block =
     (case dag_data s chain_block of None \<Rightarrow> [chain_block]
      | Some d \<Rightarrow> d_mergeset_ordered d @ [chain_block])"

type_synonym last_touch = "(address, u32) hmap"

definition round_of :: "last_touch \<Rightarrow> address list \<Rightarrow> u32" where
  "round_of last_touch ks =
     foldl (\<lambda>round key. case map_of last_touch key of
              None \<Rightarrow> round | Some previous \<Rightarrow> max round (saturating_add previous 1)) 0 ks"

definition touch :: "address list \<Rightarrow> u32 \<Rightarrow> last_touch \<Rightarrow> last_touch" where
  "touch ks round last_touch = foldl (\<lambda>m key. AList.update key round m) last_touch ks"

text \<open>The loop both \<open>rounds\<close> and \<open>layer_and_sort\<close> contain.\<close>

fun assign_rounds :: "('tx \<Rightarrow> address list) \<Rightarrow> 'tx list \<Rightarrow> last_touch \<Rightarrow> u32 list \<Rightarrow> u32 list" where
  "assign_rounds keys [] last_touch out_rounds = out_rounds"
| "assign_rounds keys (t # ts) last_touch out_rounds =
     (let round = round_of last_touch (keys t)
      in assign_rounds keys ts (touch (keys t) round last_touch) (out_rounds @ [round]))"

definition rounds :: "('tx \<Rightarrow> address list) \<Rightarrow> 'tx list \<Rightarrow> u32 list" where
  "rounds keys transactions = assign_rounds keys transactions [] []"

definition compare_rounds :: "u32 list \<Rightarrow> nat \<Rightarrow> nat \<Rightarrow> ordering" where
  "compare_rounds rs i j = then_with (cmp (rs ! i) (rs ! j)) (cmp i j)"

definition layer_and_sort :: "('tx \<Rightarrow> address list) \<Rightarrow> 'tx list \<Rightarrow> nat list" where
  "layer_and_sort keys transactions =
     sort_by (compare_rounds (assign_rounds keys transactions [] [])) [0..<length transactions]"

fun dedup_seen :: "('a \<Rightarrow> 'k) \<Rightarrow> 'k set \<Rightarrow> 'a list \<Rightarrow> 'a list" where
  "dedup_seen key seen [] = []"
| "dedup_seen key seen (x # xs) =
     (if key x \<in> seen then dedup_seen key seen xs else x # dedup_seen key (insert (key x) seen) xs)"

definition deduplicate :: "'a list \<Rightarrow> ('a \<Rightarrow> 'k) \<Rightarrow> 'a list" where
  "deduplicate items key = dedup_seen key {} items"

section \<open>Rounds\<close>

definition conflict :: "('tx \<Rightarrow> address list) \<Rightarrow> 'tx list \<Rightarrow> nat \<Rightarrow> nat \<Rightarrow> bool" where
  "conflict keys ts i j \<longleftrightarrow> set (keys (ts ! i)) \<inter> set (keys (ts ! j)) \<noteq> {}"

text \<open>What one round must be, in the code's saturating arithmetic.\<close>

definition is_round :: "('tx \<Rightarrow> address list) \<Rightarrow> 'tx list \<Rightarrow> u32 list \<Rightarrow> nat \<Rightarrow> u32 \<Rightarrow> bool" where
  "is_round keys ts out j r \<longleftrightarrow>
     (\<forall>i < j. conflict keys ts i j \<longrightarrow> saturating_add (out ! i) 1 \<le> r) \<and>
     (r = 0 \<or> (\<exists>i < j. conflict keys ts i j \<and> r = saturating_add (out ! i) 1))"

definition touch_inv :: "('tx \<Rightarrow> address list) \<Rightarrow> 'tx list \<Rightarrow> last_touch \<Rightarrow> u32 list \<Rightarrow> bool" where
  "touch_inv keys ps m out \<longleftrightarrow> length out = length ps \<and>
     (\<forall>k. map_of m k = None \<longleftrightarrow> (\<forall>i < length ps. k \<notin> set (keys (ps ! i)))) \<and>
     (\<forall>k r. map_of m k = Some r \<longrightarrow> (\<exists>i < length ps. k \<in> set (keys (ps ! i)) \<and> out ! i = r) \<and>
        (\<forall>i < length ps. k \<in> set (keys (ps ! i)) \<longrightarrow> out ! i \<le> r)) \<and>
     (\<forall>j < length ps. is_round keys ps out j (out ! j))"

lemma round_of_snoc:
  "round_of m (ks @ [k]) = (case map_of m k of None \<Rightarrow> round_of m ks
     | Some p \<Rightarrow> max (round_of m ks) (saturating_add p 1))"
  unfolding round_of_def by (simp split: option.splits)

lemma round_of_bound: "k \<in> set ks \<Longrightarrow> map_of m k = Some p \<Longrightarrow> saturating_add p 1 \<le> round_of m ks"
  by (induction ks rule: rev_induct) (auto simp: round_of_def le_max_iff_disj split: option.splits)

lemma round_of_attained:
  "round_of m ks = 0 \<or> (\<exists>k \<in> set ks. \<exists>p. map_of m k = Some p \<and> round_of m ks = saturating_add p 1)"
proof (induction ks rule: rev_induct)
  case (snoc k ks)
  then show ?case by (auto simp: round_of_snoc max_def split: option.splits)
qed (simp add: round_of_def)

lemma map_of_touch [simp]: "map_of (touch ks r m) k = (if k \<in> set ks then Some r else map_of m k)"
  by (induction ks rule: rev_induct) (auto simp: touch_def)

lemma is_round_snoc:
  "j < length ps \<Longrightarrow> length out = length ps \<Longrightarrow>
   is_round keys (ps @ [t]) (out @ [r]) j x \<longleftrightarrow> is_round keys ps out j x"
  by (auto simp: is_round_def conflict_def nth_append)

lemma touch_inv_step:
  assumes inv: "touch_inv keys ps m out"
  shows "touch_inv keys (ps @ [t]) (touch (keys t) (round_of m (keys t)) m) (out @ [round_of m (keys t)])"
proof -
  let ?n = "length ps" let ?r = "round_of m (keys t)"
  have len: "length out = ?n" and none: "\<And>k. map_of m k = None \<longleftrightarrow> (\<forall>i < ?n. k \<notin> set (keys (ps ! i)))"
    and some: "\<And>k r. map_of m k = Some r \<Longrightarrow> (\<exists>i < ?n. k \<in> set (keys (ps ! i)) \<and> out ! i = r) \<and>
        (\<forall>i < ?n. k \<in> set (keys (ps ! i)) \<longrightarrow> out ! i \<le> r)"
    and rounds: "\<And>j. j < ?n \<Longrightarrow> is_round keys ps out j (out ! j)"
    using inv by (auto simp: touch_inv_def)
  have bound: "saturating_add (out ! i) 1 \<le> ?r" if "i < ?n" "k \<in> set (keys (ps ! i))" "k \<in> set (keys t)" for i k
  proof -
    from none[of k] that obtain p where p: "map_of m k = Some p" by blast
    have "saturating_add (out ! i) 1 \<le> saturating_add p 1"
      using some[OF p] that(1,2) by (intro saturating_add_mono) blast
    also have "\<dots> \<le> ?r" by (rule round_of_bound[OF that(3) p])
    finally show ?thesis .
  qed
  have new: "is_round keys (ps @ [t]) (out @ [?r]) ?n ?r"
  proof -
    have "?r = 0 \<or> (\<exists>i < ?n. set (keys (ps ! i)) \<inter> set (keys t) \<noteq> {} \<and> ?r = saturating_add (out ! i) 1)"
      using round_of_attained[of m "keys t"] some by blast
    with bound len show ?thesis by (fastforce simp: is_round_def conflict_def nth_append)
  qed
  have le: "out ! i \<le> ?r" if "i < ?n" "k \<in> set (keys (ps ! i))" "k \<in> set (keys t)" for i k
    using order_trans[OF saturating_add_ge bound[OF that]] .
  show ?thesis
    unfolding touch_inv_def
  proof (intro conjI allI impI)
    fix k
    show "map_of (touch (keys t) ?r m) k = None \<longleftrightarrow> (\<forall>i < length (ps @ [t]). k \<notin> set (keys ((ps @ [t]) ! i)))"
      using none[of k] by (auto simp: nth_append less_Suc_eq)
    fix r assume r: "map_of (touch (keys t) ?r m) k = Some r"
    show "\<exists>i < length (ps @ [t]). k \<in> set (keys ((ps @ [t]) ! i)) \<and> (out @ [?r]) ! i = r"
    proof (cases "k \<in> set (keys t)")
      case True
      with r len show ?thesis by (intro exI[of _ ?n]) (simp add: nth_append)
    next
      case False
      with r some[of k r] obtain i where "i < ?n" "k \<in> set (keys (ps ! i))" "out ! i = r" by auto
      with len show ?thesis by (intro exI[of _ i]) (simp add: nth_append)
    qed
    fix i assume i: "i < length (ps @ [t])" "k \<in> set (keys ((ps @ [t]) ! i))"
    show "(out @ [?r]) ! i \<le> r"
    proof (cases "i < ?n")
      case True
      with i r some[of k r] le[of i k] len show ?thesis by (auto simp: nth_append split: if_splits)
    next
      case False
      with i r len show ?thesis by (auto simp: nth_append less_Suc_eq split: if_splits)
    qed
  next
    fix j assume "j < length (ps @ [t])"
    then show "is_round keys (ps @ [t]) (out @ [?r]) j ((out @ [?r]) ! j)"
      using new rounds[of j] len is_round_snoc[of j ps out] by (cases "j = ?n") (auto simp: nth_append)
  qed (simp add: len)
qed

lemma assign_rounds_inv:
  "touch_inv keys ps m out \<Longrightarrow> \<exists>m'. touch_inv keys (ps @ ts) m' (assign_rounds keys ts m out)"
proof (induction ts arbitrary: ps m out)
  case (Cons t ts)
  from Cons.IH[OF touch_inv_step[OF Cons.prems, of t]] show ?case by (simp add: Let_def)
qed auto

lemma rounds_inv: "length (rounds keys ts) = length ts \<and> (\<forall>j < length ts. is_round keys ts (rounds keys ts) j (rounds keys ts ! j))"
  using assign_rounds_inv[of keys "[]" "[]" "[]" ts] by (auto simp: touch_inv_def rounds_def)

lemma rounds_small:
  assumes "length ts \<le> 2 ^ 32" "j < length ts"
  shows "unat (rounds keys ts ! j) \<le> j"
  using assms(2)
proof (induction j rule: less_induct)
  case (less j)
  have "is_round keys ts (rounds keys ts) j (rounds keys ts ! j)" using rounds_inv less.prems by blast
  then consider "rounds keys ts ! j = 0" | i where "i < j" "rounds keys ts ! j = saturating_add (rounds keys ts ! i) 1"
    by (auto simp: is_round_def)
  then show ?case
  proof cases
    case 2
    have "unat (rounds keys ts ! i) \<le> i" using less.IH[OF 2(1)] less.prems 2(1) by simp
    then show ?thesis using 2 by (simp add: word_nat)
  qed simp
qed

lemma rounds_increment:
  assumes "length ts \<le> 2 ^ 32" "i < j" "j < length ts"
  shows "unat (saturating_add (rounds keys ts ! i) 1) = unat (rounds keys ts ! i) + 1"
  using rounds_small[OF assms(1), of i keys] assms by (simp add: word_nat)

text \<open>
  While a merge set holds at most \<open>2 ^ 32\<close> transactions, the round the single forward pass gives a
  transaction is exactly 0 when no earlier transaction shares an address with it, and otherwise one
  more than the highest round among the earlier transactions that do. Transactions of one round
  therefore have pairwise disjoint access sets, and every conflict advances the round.
\<close>

theorem rounds_exact:
  assumes "length ts \<le> 2 ^ 32" and "j < length ts"
  shows "unat (rounds keys ts ! j) = Max (insert 0 ((\<lambda>i. unat (rounds keys ts ! i) + 1) ` {i. i < j \<and> conflict keys ts i j})) \<and>
    (\<forall>i < j. rounds keys ts ! i = rounds keys ts ! j \<longrightarrow> set (keys (ts ! i)) \<inter> set (keys (ts ! j)) = {})"
proof -
  let ?r = "rounds keys ts"
  have inc: "unat (saturating_add (?r ! i) 1) = unat (?r ! i) + 1" if "i < j" for i
    using rounds_increment[OF assms(1) that assms(2)] .
  have round: "is_round keys ts ?r j (?r ! j)" using rounds_inv assms(2) by blast
  then have above: "unat (?r ! i) + 1 \<le> unat (?r ! j)" if "i < j" "conflict keys ts i j" for i
    using that inc[OF that(1)] by (auto simp: is_round_def word_le_nat_alt)
  have "unat (?r ! j) \<in> insert 0 ((\<lambda>i. unat (?r ! i) + 1) ` {i. i < j \<and> conflict keys ts i j})"
    using round inc by (auto simp: is_round_def)
  then have "Max (insert 0 ((\<lambda>i. unat (?r ! i) + 1) ` {i. i < j \<and> conflict keys ts i j})) = unat (?r ! j)"
    using above by (intro Max_eqI) auto
  moreover have "\<not> conflict keys ts i j" if "i < j" "?r ! i = ?r ! j" for i
    using above[OF that(1)] that(2) by auto
  ultimately show ?thesis by (auto simp: conflict_def)
qed

text \<open>Two transfers that share address 9, and one that touches neither.\<close>

definition sample_txs :: "address list list" where
  "sample_txs = [[1, 9], [2, 9], [3, 4]]"

theorem rounds_exact_witness:
  "unat (rounds id sample_txs ! 1) = Max (insert 0 ((\<lambda>i. unat (rounds id sample_txs ! i) + 1) ` {0})) \<and>
   unat (rounds id sample_txs ! 2) = 0"
proof -
  have "conflict id sample_txs 0 1" and "\<not> conflict id sample_txs 0 2" "\<not> conflict id sample_txs 1 2"
    by (simp_all add: conflict_def sample_txs_def)
  then have "i < 2 \<Longrightarrow> \<not> conflict id sample_txs i 2" and "i < 1 \<Longrightarrow> i = 0 \<and> conflict id sample_txs i 1" for i
    by (metis less_2_cases One_nat_def, metis less_one)
  then have "{i. i < 1 \<and> conflict id sample_txs i 1} = {0}" "{i. i < 2 \<and> conflict id sample_txs i 2} = {}"
    using \<open>conflict id sample_txs 0 1\<close> by auto
  note sets = this
  have "length sample_txs = 3" by (simp add: sample_txs_def)
  then show ?thesis
    using rounds_exact[of sample_txs 1 id, unfolded sets] rounds_exact[of sample_txs 2 id, unfolded sets] by simp
qed

section \<open>The execution order\<close>

interpretation round_order: strict_comparator "compare_rounds rs" for rs
  by unfold_locales (auto simp: compare_rounds_def then_with_def cmp_def split: if_splits)

lemma sorted_wrt_distinct: "sorted_wrt P xs \<Longrightarrow> distinct xs \<Longrightarrow> sorted_wrt (\<lambda>i j. i \<noteq> j \<and> P i j) xs"
  by (induction xs) auto

text \<open>
  C35: The execution order is a permutation of the transactions in which conflicting transactions
  never swap: whenever two of them share an address (as any two from one sender do), the earlier in
  the base sequence executes first. This holds for every input, even where rounds saturate.
\<close>

theorem layer_and_sort_order:
  "mset (layer_and_sort keys ts) = mset [0..<length ts] \<and>
   sorted_wrt (\<lambda>i j. conflict keys ts i j \<longrightarrow> i < j) (layer_and_sort keys ts)"
proof -
  let ?r = "rounds keys ts" let ?o = "layer_and_sort keys ts"
  have perm: "mset ?o = mset [0..<length ts]" by (simp add: layer_and_sort_def)
  then have mem: "set ?o = {0..<length ts}" "distinct ?o"
    by (metis atLeastLessThan_upt mset_eq_setD, metis distinct_upt mset_eq_imp_distinct_iff)
  have "sorted_wrt (\<lambda>i j. compare_rounds ?r i j \<noteq> Greater) ?o"
    unfolding layer_and_sort_def rounds_def by (rule round_order.sort_by_sorted)
  then have "sorted_wrt (\<lambda>i j. i \<noteq> j \<and> compare_rounds ?r i j \<noteq> Greater) ?o"
    using mem(2) by (rule sorted_wrt_distinct)
  moreover have "i < j" if "i \<in> set ?o" "j \<in> set ?o" "i \<noteq> j \<and> compare_rounds ?r i j \<noteq> Greater" "conflict keys ts i j" for i j
  proof (rule ccontr)
    assume "\<not> i < j"
    then have "j < i" using that(3) by simp
    moreover have "conflict keys ts j i" using that(4) by (auto simp: conflict_def)
    ultimately have "saturating_add (?r ! j) 1 \<le> ?r ! i"
      using rounds_inv[of keys ts] that(1) mem(1) by (auto simp: is_round_def)
    then have "?r ! j \<le> ?r ! i" using saturating_add_ge order_trans by blast
    with \<open>j < i\<close> that(3) show False by (auto simp: compare_rounds_def then_with_def cmp_def split: if_splits)
  qed
  ultimately have "sorted_wrt (\<lambda>i j. conflict keys ts i j \<longrightarrow> i < j) ?o"
    by (elim sorted_wrt_mono_rel[rotated]) blast
  with perm show ?thesis ..
qed

theorem layer_and_sort_order_witness:
  "layer_and_sort id sample_txs = [0, 2, 1] \<and> conflict id sample_txs 0 1 \<and>
   sorted_wrt (\<lambda>i j. conflict id sample_txs i j \<longrightarrow> i < j) (layer_and_sort id sample_txs)"
proof -
  have "layer_and_sort id sample_txs = [0, 2, 1]" by code_simp
  moreover have "conflict id sample_txs 0 1" by (simp add: conflict_def sample_txs_def)
  ultimately show ?thesis using layer_and_sort_order[of id sample_txs] by blast
qed

section \<open>Deduplication\<close>

lemma dedup_seen_keys:
  "distinct (map key (dedup_seen key seen xs)) \<and>
   key ` set (dedup_seen key seen xs) = key ` set xs - seen \<and> subseq (dedup_seen key seen xs) xs"
  by (induction xs arbitrary: seen) auto

lemma dedup_seen_first:
  "x \<in> set (dedup_seen key seen xs) \<Longrightarrow> find (\<lambda>y. key y = key x) xs = Some x"
proof (induction xs arbitrary: seen)
  case (Cons a xs)
  show ?case
  proof (cases "key a \<in> seen")
    case True
    with Cons.prems have x: "x \<in> set (dedup_seen key seen xs)" by simp
    with dedup_seen_keys[of key seen xs] have "key x \<notin> seen" by blast
    with True Cons.IH[OF x] show ?thesis by auto
  next
    case False
    with Cons.prems have "x = a \<or> x \<in> set (dedup_seen key (insert (key a) seen) xs)" by simp
    moreover have "key x \<noteq> key a" if "x \<in> set (dedup_seen key (insert (key a) seen) xs)"
      using dedup_seen_keys[of key "insert (key a) seen" xs] that by blast
    ultimately show ?thesis using Cons.IH[of "insert (key a) seen"] by auto
  qed
qed simp

text \<open>
  Deduplication keeps, in the original order, exactly one item for every key that occurs, and that
  item is the first with its key.
\<close>

theorem deduplicate_exact:
  "subseq (deduplicate items key) items \<and> distinct (map key (deduplicate items key)) \<and>
   key ` set (deduplicate items key) = key ` set items \<and>
   list_all (\<lambda>x. find (\<lambda>y. key y = key x) items = Some x) (deduplicate items key)"
  using dedup_seen_keys[of key "{}" items] dedup_seen_first[of _ key "{}" items]
  by (auto simp: deduplicate_def list_all_iff)

end
