(* ===== verification/Reorg.thy ===== *)
theory Reorg
  imports Dag_Chain
begin

text \<open>
  Selected-chain reorganisation (\<open>crates/chain/src/reorg.rs\<close>). The loop's own guard is the fuel:
  \<open>MAX_REORG_WALK\<close> turns, after which it breaks with what it has.
\<close>

section \<open>Definitions\<close>

record chain_reorg =
  removed :: "block_hash list"
  added :: "block_hash list"

definition reorg_is_empty :: "chain_reorg \<Rightarrow> bool" where
  "reorg_is_empty r \<longleftrightarrow> removed r = [] \<and> added r = []"

definition is_extension :: "chain_reorg \<Rightarrow> bool" where
  "is_extension r \<longleftrightarrow> removed r = [] \<and> added r \<noteq> []"

definition depth :: "chain_reorg \<Rightarrow> nat" where "depth r = length (removed r)"

definition MAX_REORG_WALK :: nat where "MAX_REORG_WALK = 100000000"

fun reorg_walk ::
  "dag_store \<Rightarrow> nat \<Rightarrow> block_hash \<Rightarrow> block_hash \<Rightarrow> block_hash list \<Rightarrow> block_hash list \<Rightarrow>
   block_hash list \<times> block_hash list" where
  "reorg_walk s 0 old_cursor new_cursor rem_acc add_acc = (rem_acc, add_acc)"
| "reorg_walk s (Suc turns) old_cursor new_cursor rem_acc add_acc =
     (if old_cursor = new_cursor then (rem_acc, add_acc)
      else if topological_height s old_cursor \<ge> topological_height s new_cursor then
        (let rem_acc = rem_acc @ [old_cursor] in
         case dag_data s old_cursor of
           None \<Rightarrow> (rem_acc, add_acc)
         | Some d \<Rightarrow>
             if old_cursor = d_selected_parent d then (rem_acc, add_acc)
             else reorg_walk s turns (d_selected_parent d) new_cursor rem_acc add_acc)
      else
        (let add_acc = add_acc @ [new_cursor] in
         case dag_data s new_cursor of
           None \<Rightarrow> (rem_acc, add_acc)
         | Some d \<Rightarrow>
             if new_cursor = d_selected_parent d then (rem_acc, add_acc)
             else reorg_walk s turns old_cursor (d_selected_parent d) rem_acc add_acc))"

definition compute_reorg :: "dag_store \<Rightarrow> block_hash \<Rightarrow> block_hash \<Rightarrow> chain_reorg" where
  "compute_reorg s old_tip new_tip =
     (if old_tip = new_tip then \<lparr>removed = [], added = []\<rparr>
      else case reorg_walk s MAX_REORG_WALK old_tip new_tip [] [] of
        (rem, add) \<Rightarrow> \<lparr>removed = rem, added = rev add\<rparr>)"

section \<open>The guard is never reached\<close>

lemma height_above_genesis:
  assumes "topology_ok s" "b \<in> blocks s" "b \<noteq> s_genesis s"
  shows "0 < topological_height s b"
proof -
  from parents_nonempty[OF assms] obtain p where "p \<in> set (parents_of s b)" by (cases "parents_of s b") auto
  from parent_height[OF assms(1) this] show ?thesis by simp
qed

lemma foldr_max_attained:
  "ps \<noteq> [] \<Longrightarrow> \<exists>p \<in> set ps. foldr (\<lambda>p m. max (f p) m) ps (0::nat) = f p"
proof (induction ps)
  case (Cons p ps)
  then show ?case by (cases "ps = []") (auto simp: max_def)
qed simp

lemma height_below_past:
  assumes "dag_ok hash s" "b \<in> blocks s"
  shows "topological_height s b < card {x. ancestor s x b}"
  using assms(2)
proof (induction "topological_height s b" arbitrary: b rule: less_induct)
  case less
  note top = dag_okD(1)[OF assms(1)]
  have fin: "finite {x. ancestor s x y}" if "y \<in> blocks s" for y
    using finite_subset[of "{x. ancestor s x y}" "blocks s"] ancestor_in_blocks[OF top _ that] by auto
  show ?case
  proof (cases "b = s_genesis s")
    case True
    from header_of_block[OF less.prems] obtain h where "map_of (s_headers s) b = Some h" by blast
    with True dag_okD(7)[OF assms(1)] have "topological_height s b = 0"
      by (simp add: data_spec_def topological_height_def genesis_data_def)
    then show ?thesis using fin[OF less.prems] by (auto simp: card_gt_0_iff)
  next
    case False
    from block_data[OF assms(1) less.prems False] obtain h where
      h: "map_of (s_data s) b = Some (ghostdag_spec s h)" "h_parents h = parents_of s b" "parents_of s b \<noteq> []" by blast
    from foldr_max_attained[OF h(3), of "topological_height s"] obtain p where
      p: "p \<in> set (parents_of s b)" "topological_height s b = topological_height s p + 1"
      using h(1,2) by (auto simp: topological_height_def[of s b] ghostdag_spec_fields)
    have pb: "p \<in> blocks s" using parents_in_blocks[OF top p(1)] .
    have "\<not> ancestor s b p" using ancestor_height[OF top, of b p] p(2) by fastforce
    then have "{x. ancestor s x p} \<subset> {x. ancestor s x b}"
      using ancestor_trans[OF _ ancestor_parent[OF p(1)]] by blast
    then have "card {x. ancestor s x p} < card {x. ancestor s x b}" using fin[OF less.prems] by (simp add: psubset_card_mono)
    with less.hyps[OF _ pb] p(2) show ?thesis by simp
  qed
qed

lemma height_below_len:
  assumes "dag_ok hash s" "b \<in> blocks s"
  shows "topological_height s b < dag_len s"
proof -
  have "{x. ancestor s x b} \<subseteq> blocks s" using ancestor_in_blocks[OF dag_okD(1)[OF assms(1)] _ assms(2)] by blast
  then have "card {x. ancestor s x b} \<le> card (blocks s)" by (intro card_mono) auto
  also have "\<dots> \<le> dag_len s" unfolding blocks_def dag_len_def by (metis card_image_le card_length finite_set le_trans)
  finally show ?thesis using height_below_past[OF assms] by simp
qed

section \<open>The walk\<close>

lemma chain_heights:
  assumes "topology_ok s" "data_shape s" "b \<in> blocks s" "x \<in> set (selected_parent_chain s b)"
  shows "x = b \<or> topological_height s x < topological_height s b"
  using selected_parent_chain_shape[OF assms(1-3)] assms(4) ancestor_height[OF assms(1), of x b] by blast

lemma reorg_walk_correct:
  assumes top: "topology_ok s" "data_shape s"
  shows "old \<in> blocks s \<Longrightarrow> new \<in> blocks s \<Longrightarrow> topological_height s old + topological_height s new \<le> turns \<Longrightarrow>
    set rm \<inter> set (selected_parent_chain s new) = {} \<Longrightarrow> set ad \<inter> set (selected_parent_chain s old) = {} \<Longrightarrow>
    set rm \<inter> set ad = {} \<Longrightarrow>
    \<exists>rm' ad' common. reorg_walk s turns old new rm ad = (rm @ rm', ad @ ad') \<and>
      selected_parent_chain s old = rm' @ common \<and> selected_parent_chain s new = ad' @ common \<and>
      common \<noteq> [] \<and> set (rm @ rm') \<inter> set (ad @ ad') = {}"
proof (induction turns arbitrary: old new rm ad)
  case 0
  have "old = s_genesis s" using 0(3) height_above_genesis[OF top(1) 0(1)] by linarith
  moreover have "new = s_genesis s" using 0(3) height_above_genesis[OF top(1) 0(2)] by linarith
  ultimately have "old = new" by simp
  with 0 selected_parent_chain_shape[OF top 0(1)] show ?case by simp
next
  case (Suc turns)
  note shape = selected_parent_chain_shape[OF top]
  show ?case
  proof (cases "old = new")
    case True
    with Suc.prems shape[OF Suc.prems(1)] show ?thesis by simp
  next
    case ne: False
    show ?thesis
    proof (cases "topological_height s new \<le> topological_height s old")
      case True
      have "old \<noteq> s_genesis s"
        using True ne height_above_genesis[OF top(1) Suc.prems(2)] height_above_genesis[OF top(1)]
          genesis_ancestor[OF top(1) Suc.prems(2)] ancestor_height[OF top(1)] by fastforce
      note below = selected_parent_below[OF top Suc.prems(1) this]
      note unf = selected_parent_chain_unfold[OF top Suc.prems(1)]
      have notin: "old \<notin> set (selected_parent_chain s new)" using chain_heights[OF top Suc.prems(2)] True ne by fastforce
      from data_of_block[OF top(1) Suc.prems(1)] obtain d where d: "map_of (s_data s) old = Some d" by blast
      then have sp: "selected_parent_of s old = d_selected_parent d" by (simp add: selected_parent_of_def)
      have "old \<notin> set ad" using Suc.prems(5) shape[OF Suc.prems(1)] by (metis disjoint_iff hd_in_set)
      then obtain rm' ad' common where IH:
        "reorg_walk s turns (selected_parent_of s old) new (rm @ [old]) ad = ((rm @ [old]) @ rm', ad @ ad')"
        "selected_parent_chain s (selected_parent_of s old) = rm' @ common" "selected_parent_chain s new = ad' @ common"
        "common \<noteq> []" "set ((rm @ [old]) @ rm') \<inter> set (ad @ ad') = {}"
        using Suc.IH[OF below(1) Suc.prems(2), of "rm @ [old]" ad] below(3) Suc.prems(3-6) notin unf \<open>old \<noteq> s_genesis s\<close>
        by auto
      have "old \<noteq> d_selected_parent d" using below(3) sp by auto
      with IH True ne d sp unf \<open>old \<noteq> s_genesis s\<close> show ?thesis
        by (intro exI[of _ "old # rm'"] exI[of _ ad'] exI[of _ common]) (simp add: dag_data_def)
    next
      case False
      have "new \<noteq> s_genesis s"
        using False genesis_ancestor[OF top(1) Suc.prems(1)] ancestor_height[OF top(1)] by fastforce
      note below = selected_parent_below[OF top Suc.prems(2) this]
      note unf = selected_parent_chain_unfold[OF top Suc.prems(2)]
      have notin: "new \<notin> set (selected_parent_chain s old)" using chain_heights[OF top Suc.prems(1)] False ne by fastforce
      from data_of_block[OF top(1) Suc.prems(2)] obtain d where d: "map_of (s_data s) new = Some d" by blast
      then have sp: "selected_parent_of s new = d_selected_parent d" by (simp add: selected_parent_of_def)
      have "new \<notin> set rm" using Suc.prems(4) shape[OF Suc.prems(2)] by (metis disjoint_iff hd_in_set)
      then obtain rm' ad' common where IH:
        "reorg_walk s turns old (selected_parent_of s new) rm (ad @ [new]) = (rm @ rm', (ad @ [new]) @ ad')"
        "selected_parent_chain s old = rm' @ common" "selected_parent_chain s (selected_parent_of s new) = ad' @ common"
        "common \<noteq> []" "set (rm @ rm') \<inter> set ((ad @ [new]) @ ad') = {}"
        using Suc.IH[OF Suc.prems(1) below(1), of rm "ad @ [new]"] below(3) Suc.prems(3-6) notin unf \<open>new \<noteq> s_genesis s\<close>
        by auto
      have "new \<noteq> d_selected_parent d" using below(3) sp by auto
      with IH False ne d sp unf \<open>new \<noteq> s_genesis s\<close> show ?thesis
        by (intro exI[of _ rm'] exI[of _ "new # ad'"] exI[of _ common]) (simp add: dag_data_def)
    qed
  qed
qed

lemma compute_reorg_split:
  assumes ok: "dag_ok hash s" and "old \<in> blocks s" and "new \<in> blocks s" and "2 * dag_len s \<le> MAX_REORG_WALK"
  shows "\<exists>common. common \<noteq> [] \<and>
    selected_parent_chain s old = removed (compute_reorg s old new) @ common \<and>
    selected_parent_chain s new = rev (added (compute_reorg s old new)) @ common \<and>
    set (removed (compute_reorg s old new)) \<inter> set (added (compute_reorg s old new)) = {}"
proof -
  note dag = dag_okD[OF ok]
  show ?thesis
  proof (cases "old = new")
    case True
    with selected_parent_chain_shape[OF dag(1,2) assms(2)] show ?thesis by (auto simp: compute_reorg_def)
  next
    case False
    have "topological_height s old + topological_height s new \<le> MAX_REORG_WALK"
      using height_below_len[OF ok assms(2)] height_below_len[OF ok assms(3)] assms(4) by simp
    from reorg_walk_correct[OF dag(1,2) assms(2,3) this, of "[]" "[]"] False show ?thesis
      by (auto simp: compute_reorg_def)
  qed
qed

text \<open>
  C17: On every reachable store of at most 50 million blocks, the lockstep walk finishes within its
  guard and splits the two selected chains exactly: the old chain is the removed blocks (tip first)
  followed by the shared part, the new chain is the added blocks (in reverse of their execution
  order) followed by the same shared part, which is never empty; no block is both removed and added.
\<close>

theorem compute_reorg_exact:
  assumes "dag_reachable hash genesis k limit s" and "old \<in> blocks s" and "new \<in> blocks s"
    and "2 * dag_len s \<le> MAX_REORG_WALK"
  shows "\<exists>common. common \<noteq> [] \<and>
    selected_parent_chain s old = removed (compute_reorg s old new) @ common \<and>
    selected_parent_chain s new = rev (added (compute_reorg s old new)) @ common \<and>
    set (removed (compute_reorg s old new)) \<inter> set (added (compute_reorg s old new)) = {}"
  by (rule compute_reorg_split[OF reachable_ok[OF assms(1)] assms(2-4)])

theorem compute_reorg_exact_witness:
  "\<exists>common. common \<noteq> [] \<and> selected_parent_chain example_dag 1 = removed (compute_reorg example_dag 1 3) @ common"
proof -
  have "dag_len example_dag = 4" by code_simp
  then have "2 * dag_len example_dag \<le> MAX_REORG_WALK" by (simp add: MAX_REORG_WALK_def)
  from compute_reorg_exact[OF example_reachable example_blocks(2,4) this] show ?thesis by blast
qed

end
