(* ===== verification/Execution_Order.thy ===== *)
theory Execution_Order
  imports Ordering Reorg
begin

text \<open>
  Where the DAG meets execution: the base sequences of the selected chain, one after another, are a
  complete and ancestor-first enumeration of everything the tip has in its past.
\<close>

definition executed_blocks :: "dag_store \<Rightarrow> block_hash \<Rightarrow> block_hash list" where
  "executed_blocks s tip = concat (map (base_sequence s) (rev (selected_parent_chain s tip)))"

abbreviation ancestors_first :: "dag_store \<Rightarrow> block_hash list \<Rightarrow> bool" where
  "ancestors_first s \<equiv> sorted_wrt (\<lambda>x y. \<not> ancestor s y x)"

lemma topo_ordered_sorted: "topo_ordered s xs \<Longrightarrow> ancestors_first s xs"
proof (induction xs)
  case (Cons x xs)
  have "\<not> ancestor s a x" if "a \<in> set xs" for a
    using Cons.prems that unfolding topo_ordered_def by (metis append_Nil)
  moreover have "topo_ordered s xs"
    using Cons.prems unfolding topo_ordered_def by (metis append_Cons)
  ultimately show ?case using Cons.IH by simp
qed simp

lemma mergeset_of_block:
  assumes "dag_ok hash s" "b \<in> blocks s" "b \<noteq> s_genesis s"
  shows "\<exists>ms. base_sequence s b = ms @ [b] \<and> distinct ms \<and> ancestors_first s ms \<and>
    set ms = past s b - past s (selected_parent_of s b) - {selected_parent_of s b}"
proof -
  note ok = dag_okD[OF assms(1)]
  from colouring_of_block[OF assms] obtain d where
    d: "map_of (s_data s) b = Some d" "d_mergeset_ordered d = mergeset_order s (parents_of s b) (d_selected_parent d)"
    by blast
  have ps: "set (parents_of s b) \<subseteq> blocks s" using parents_in_blocks[OF ok(1)] by auto
  note mo = mergeset_order_correct[OF ok(1) ps, of "d_selected_parent d", folded d(2)]
  have "base_sequence s b = d_mergeset_ordered d @ [b]" using d(1) by (simp add: base_sequence_def dag_data_def)
  moreover have "set (d_mergeset_ordered d) = past s b - past s (selected_parent_of s b) - {selected_parent_of s b}"
    using mo(1) merge_set_past[OF ok(1)] d(1) by (simp add: selected_parent_of_def)
  ultimately show ?thesis using mo(2) topo_ordered_sorted[OF mo(3)] by blast
qed

lemma executed_blocks_genesis:
  assumes "dag_ok hash s" shows "executed_blocks s (s_genesis s) = [s_genesis s]"
proof -
  note ok = dag_okD[OF assms]
  have g: "s_genesis s \<in> blocks s" using ok(1) by (simp add: topology_ok_def)
  from header_of_block[OF g] obtain h where "map_of (s_headers s) (s_genesis s) = Some h" by blast
  with ok(7) have "map_of (s_data s) (s_genesis s) = Some (genesis_data (s_genesis s) h)" by (simp add: data_spec_def)
  then have "base_sequence s (s_genesis s) = [s_genesis s]" by (simp add: base_sequence_def dag_data_def genesis_data_def)
  moreover have "selected_parent_chain s (s_genesis s) = [s_genesis s]"
    using selected_parent_chain_unfold[OF ok(1,2) g] by simp
  ultimately show ?thesis by (simp add: executed_blocks_def)
qed

lemma executed_blocks_step:
  assumes "dag_ok hash s" "b \<in> blocks s" "b \<noteq> s_genesis s"
  shows "executed_blocks s b = executed_blocks s (selected_parent_of s b) @ base_sequence s b"
  using selected_parent_chain_unfold[OF dag_okD(1,2)[OF assms(1)] assms(2)] assms(3) by (simp add: executed_blocks_def)

text \<open>
  C10: Executing the base sequences of the selected chain in turn visits every block the tip has in its
  past, and the tip, exactly once, and never a block before one of its ancestors: genesis first,
  nothing lost among parallel branches, nothing executed twice.
\<close>

theorem execution_order_complete:
  assumes "dag_reachable hash genesis k limit s" and "tip \<in> blocks s"
  shows "set (executed_blocks s tip) = {x. (tip, x) \<in> (parent_rel s)\<^sup>*} \<and> distinct (executed_blocks s tip) \<and>
    sorted_wrt (\<lambda>x y. (x, y) \<notin> (parent_rel s)\<^sup>*) (executed_blocks s tip)"
proof -
  note ok = reachable_ok[OF assms(1)] note dag = dag_okD[OF ok]
  have "set (executed_blocks s b) = {x. ancestor s x b} \<and> distinct (executed_blocks s b) \<and>
      ancestors_first s (executed_blocks s b)" if "b \<in> blocks s" for b
    using that
  proof (induction "topological_height s b" arbitrary: b rule: less_induct)
    case less
    show ?case
    proof (cases "b = s_genesis s")
      case True
      have "{x. ancestor s x b} = {b}" using dag(1) ancestor_cases[of s _ b] True by (auto simp: topology_ok_def)
      with executed_blocks_genesis[OF ok] True show ?thesis by simp
    next
      case False
      let ?p = "selected_parent_of s b"
      note below = selected_parent_below[OF dag(1,2) less.prems False]
      from mergeset_of_block[OF ok less.prems False] obtain ms where
        ms: "base_sequence s b = ms @ [b]" "distinct ms" "ancestors_first s ms" "set ms = past s b - past s ?p - {?p}" by blast
      have step: "executed_blocks s b = executed_blocks s ?p @ ms @ [b]"
        using executed_blocks_step[OF ok less.prems False] ms(1) by simp
      note IH = less.hyps[OF below(3,1)]
      have sub: "ancestor s x b \<and> x \<noteq> b" if "ancestor s x ?p" for x
        using ancestor_trans[OF that below(2)] ancestor_antisym[OF dag(1) below(2)] that below(3) by auto
      have E: "set (executed_blocks s ?p) = {x. ancestor s x ?p}" "distinct (executed_blocks s ?p)"
        "ancestors_first s (executed_blocks s ?p)" using IH by blast+
      have set: "set (executed_blocks s b) = {x. ancestor s x b}"
        unfolding step set_append E(1) ms(4) using sub by (auto simp: past_def)
      have cross: "\<not> ancestor s y x" if "x \<in> set (executed_blocks s ?p)" "y \<in> set ms" for x y
        using that ancestor_trans unfolding E(1) ms(4) past_def by blast
      have last: "\<not> ancestor s b x \<and> x \<noteq> b" if "x \<in> set (executed_blocks s ?p) \<union> set ms" for x
        using that ancestor_antisym[OF dag(1), of x b] sub unfolding E(1) ms(4) past_def by blast
      have "set (executed_blocks s ?p) \<inter> set ms = {}" using cross ancestor_refl by blast
      then have dist: "distinct (executed_blocks s b)"
        unfolding step using E(2) ms(2) last by auto
      have "ancestors_first s (executed_blocks s b)"
        unfolding step sorted_wrt_append using E(3) ms(3) cross last by simp
      with set dist show ?thesis by blast
    qed
  qed
  from this[OF assms(2)] show ?thesis by (simp add: ancestor_def)
qed

theorem execution_order_complete_witness:
  "set (executed_blocks example_dag 3) = {x. (3, x) \<in> (parent_rel example_dag)\<^sup>*}"
  using execution_order_complete[OF example_reachable example_blocks(4)] by blast

end
