(* ===== verification/World_State.thy ===== *)
theory World_State
  imports Chain_Prelude
begin

text \<open>
  The world state (\<open>crates/execution/src/state.rs\<close>) and the undo journal
  (\<open>crates/chain/src/journal.rs\<close>). The ordered maps are partial functions, so two states with the
  same entries are equal. Bytecode and revm's account wrapper are third party: bytecode is a type
  variable \<open>'code\<close>, and a changed account carries the answers of its predicates as fields.
\<close>

section \<open>Accounts and state\<close>

record 'code account_info =
  i_balance :: u256
  i_nonce :: u64
  i_code_hash :: u256
  i_code :: "'code option"

record 'code account_state =
  a_info :: "'code account_info"
  a_storage :: "u256 \<rightharpoonup> u256"

record 'code world_state =
  w_accounts :: "address \<rightharpoonup> 'code account_state"
  w_code :: "u256 \<rightharpoonup> 'code"
  w_block_hashes :: "u64 \<rightharpoonup> u256"

text \<open>A changed account as revm hands it over, with the slots it changed and their present values.\<close>

record 'code revm_account =
  r_info :: "'code account_info"
  r_storage :: "(u256 \<times> u256) list"
  r_touched :: bool
  r_selfdestructed :: bool
  r_created :: bool
  r_not_existing :: bool
  r_empty :: bool

type_synonym 'code changes = "(address \<times> 'code revm_account) list"

definition KECCAK256_EMPTY :: u256 where
  "KECCAK256_EMPTY = 0xc5d2460186f7233c927e7db2dcc703c0e500b653ca82273b7bfad8045d85a470"

definition new_state :: "'code world_state" where
  "new_state = \<lparr>w_accounts = Map.empty, w_code = Map.empty, w_block_hashes = Map.empty\<rparr>"

definition state_len :: "'code world_state \<Rightarrow> nat" where "state_len s = card (dom (w_accounts s))"

definition state_is_empty :: "'code world_state \<Rightarrow> bool" where "state_is_empty s \<longleftrightarrow> w_accounts s = Map.empty"

definition account :: "'code world_state \<Rightarrow> address \<Rightarrow> 'code account_state option" where
  "account s a = w_accounts s a"

definition balance :: "'code world_state \<Rightarrow> address \<Rightarrow> u256" where
  "balance s a = (case w_accounts s a of None \<Rightarrow> 0 | Some acc \<Rightarrow> i_balance (a_info acc))"

definition nonce :: "'code world_state \<Rightarrow> address \<Rightarrow> u64" where
  "nonce s a = (case w_accounts s a of None \<Rightarrow> 0 | Some acc \<Rightarrow> i_nonce (a_info acc))"

definition storage_slot :: "'code world_state \<Rightarrow> address \<Rightarrow> u256 \<Rightarrow> u256" where
  "storage_slot s a slot =
     (case w_accounts s a of None \<Rightarrow> 0
      | Some acc \<Rightarrow> (case a_storage acc slot of None \<Rightarrow> 0 | Some v \<Rightarrow> v))"

definition code_at :: "'code world_state \<Rightarrow> address \<Rightarrow> 'code option" where
  "code_at s a =
     (case w_accounts s a of None \<Rightarrow> None
      | Some acc \<Rightarrow> let h = i_code_hash (a_info acc) in if h = KECCAK256_EMPTY then None else w_code s h)"

definition insert_account :: "address \<Rightarrow> 'code account_state \<Rightarrow> 'code world_state \<Rightarrow> 'code world_state" where
  "insert_account a acc s = s\<lparr>w_accounts := (w_accounts s)(a \<mapsto> acc)\<rparr>"

definition remove_account :: "address \<Rightarrow> 'code world_state \<Rightarrow> 'code world_state" where
  "remove_account a s = s\<lparr>w_accounts := (w_accounts s)(a := None)\<rparr>"

definition insert_code :: "('code \<Rightarrow> u256) \<Rightarrow> 'code \<Rightarrow> 'code world_state \<Rightarrow> u256 \<times> 'code world_state" where
  "insert_code hash_slow c s = (let h = hash_slow c in (h, s\<lparr>w_code := (w_code s)(h \<mapsto> c)\<rparr>))"

definition insert_block_hash :: "u64 \<Rightarrow> u256 \<Rightarrow> 'code world_state \<Rightarrow> 'code world_state" where
  "insert_block_hash number h s = s\<lparr>w_block_hashes := (w_block_hashes s)(number \<mapsto> h)\<rparr>"

text \<open>The \<open>Database\<close> view the EVM reads through; \<open>default_code\<close> is \<open>Bytecode::default()\<close>.\<close>

definition basic_ref :: "'code world_state \<Rightarrow> address \<Rightarrow> 'code account_info option" where
  "basic_ref s a = map_option a_info (w_accounts s a)"

definition code_by_hash_ref :: "'code \<Rightarrow> 'code world_state \<Rightarrow> u256 \<Rightarrow> 'code" where
  "code_by_hash_ref default_code s h = (case w_code s h of None \<Rightarrow> default_code | Some c \<Rightarrow> c)"

definition storage_ref :: "'code world_state \<Rightarrow> address \<Rightarrow> u256 \<Rightarrow> u256" where
  "storage_ref s a index = storage_slot s a index"

definition block_hash_ref :: "'code world_state \<Rightarrow> u64 \<Rightarrow> u256" where
  "block_hash_ref s number = (case w_block_hashes s number of None \<Rightarrow> 0 | Some h \<Rightarrow> h)"

section \<open>Committing a transaction's changes\<close>

definition write_slot :: "u256 \<times> u256 \<Rightarrow> (u256 \<rightharpoonup> u256) \<Rightarrow> (u256 \<rightharpoonup> u256)" where
  "write_slot sv m = (case sv of (slot, v) \<Rightarrow> if v = 0 then m(slot := None) else m(slot \<mapsto> v))"

definition commit_one ::
  "('code \<Rightarrow> bool) \<Rightarrow> address \<times> 'code revm_account \<Rightarrow> 'code world_state \<Rightarrow> 'code world_state" where
  "commit_one code_is_empty change s =
     (case change of (a, r) \<Rightarrow>
        if \<not> r_touched r then s
        else if r_selfdestructed r then remove_account a s
        else if r_empty r \<and> r_not_existing r then remove_account a s
        else
          let s = (case i_code (r_info r) of
                     Some c \<Rightarrow> if code_is_empty c then s
                               else s\<lparr>w_code := (w_code s)(i_code_hash (r_info r) \<mapsto> c)\<rparr>
                   | None \<Rightarrow> s);
              old = (case w_accounts s a of None \<Rightarrow> Map.empty | Some acc \<Rightarrow> a_storage acc);
              cleared = (if r_created r then Map.empty else old)
          in insert_account a \<lparr>a_info = r_info r, a_storage = fold write_slot (r_storage r) cleared\<rparr> s)"

definition commit :: "('code \<Rightarrow> bool) \<Rightarrow> 'code changes \<Rightarrow> 'code world_state \<Rightarrow> 'code world_state" where
  "commit code_is_empty cs s = fold (commit_one code_is_empty) cs s"

section \<open>The state root\<close>

text \<open>
  \<open>state_root\<close> lists the accounts in address order and, per account, the non-zero slots in slot order;
  the two trie builders and \<open>EMPTY_ROOT_HASH\<close> are third-party parameters.
\<close>

record trie_account =
  t_nonce :: u64
  t_balance :: u256
  t_storage_root :: u256
  t_code_hash :: u256

definition btree_entries :: "('k::linorder \<rightharpoonup> 'v) \<Rightarrow> ('k \<times> 'v) list" where
  "btree_entries m = map (\<lambda>k. (k, the (m k))) (sorted_list_of_set (dom m))"

definition iter_accounts :: "'code world_state \<Rightarrow> (address \<times> 'code account_state) list" where
  "iter_accounts s = btree_entries (w_accounts s)"

definition account_root :: "u256 \<Rightarrow> ((u256 \<times> u256) list \<Rightarrow> u256) \<Rightarrow> 'code account_state \<Rightarrow> trie_account" where
  "account_root empty_root storage_root_unhashed acc =
     \<lparr>t_nonce = i_nonce (a_info acc), t_balance = i_balance (a_info acc),
      t_storage_root =
        (if a_storage acc = Map.empty then empty_root
         else storage_root_unhashed (filter (\<lambda>(_, v). v \<noteq> 0) (btree_entries (a_storage acc)))),
      t_code_hash = i_code_hash (a_info acc)\<rparr>"

definition state_root ::
  "u256 \<Rightarrow> ((u256 \<times> u256) list \<Rightarrow> u256) \<Rightarrow> ((address \<times> trie_account) list \<Rightarrow> u256) \<Rightarrow> 'code world_state \<Rightarrow> u256" where
  "state_root empty_root storage_root_unhashed state_root_unhashed s =
     state_root_unhashed
       (map (\<lambda>(a, acc). (a, account_root empty_root storage_root_unhashed acc)) (btree_entries (w_accounts s)))"

section \<open>The undo record\<close>

text \<open>\<open>entry(address).or_insert(..)\<close> fills a vacant entry only.\<close>

type_synonym 'code undo_record = "(address, 'code account_state option) hmap"

definition or_insert :: "'k \<Rightarrow> 'v \<Rightarrow> ('k, 'v) hmap \<Rightarrow> ('k, 'v) hmap" where
  "or_insert k v m = (case map_of m k of Some _ \<Rightarrow> m | None \<Rightarrow> AList.update k v m)"

definition new_record :: "'code undo_record" where "new_record = []"

definition note_account :: "address \<Rightarrow> 'code world_state \<Rightarrow> 'code undo_record \<Rightarrow> 'code undo_record" where
  "note_account a s prior = or_insert a (account s a) prior"

definition record_len :: "'code undo_record \<Rightarrow> nat" where "record_len prior = length prior"

definition record_is_empty :: "'code undo_record \<Rightarrow> bool" where "record_is_empty prior \<longleftrightarrow> prior = []"

definition merge_record :: "'code undo_record \<Rightarrow> 'code undo_record \<Rightarrow> 'code undo_record" where
  "merge_record prior other = fold (\<lambda>(a, p) m. or_insert a p m) other prior"

definition restore_one :: "address \<times> 'code account_state option \<Rightarrow> 'code world_state \<Rightarrow> 'code world_state" where
  "restore_one entry s =
     (case entry of (a, Some acc) \<Rightarrow> insert_account a acc s | (a, None) \<Rightarrow> remove_account a s)"

definition apply_record :: "'code undo_record \<Rightarrow> 'code world_state \<Rightarrow> 'code world_state" where
  "apply_record prior s = fold restore_one prior s"

section \<open>What a commit does\<close>

text \<open>The storage invariant: no stored slot holds zero.\<close>

definition zero_free :: "'code world_state \<Rightarrow> bool" where
  "zero_free s \<longleftrightarrow> (\<forall>a acc. w_accounts s a = Some acc \<longrightarrow> (\<forall>slot. a_storage acc slot \<noteq> Some 0))"

lemma fold_write_slot_zero: "(\<forall>slot. m slot \<noteq> Some 0) \<Longrightarrow> fold write_slot ws m slot \<noteq> Some 0"
  by (induction ws arbitrary: m) (auto simp: write_slot_def split: prod.splits)

lemma commit_one_accounts:
  "w_accounts (commit_one e (a, r) s) = (w_accounts s)(a :=
     if \<not> r_touched r then w_accounts s a
     else if r_selfdestructed r \<or> r_empty r \<and> r_not_existing r then None
     else Some \<lparr>a_info = r_info r,
            a_storage = fold write_slot (r_storage r)
              (if r_created r then Map.empty
               else case w_accounts s a of None \<Rightarrow> Map.empty | Some acc \<Rightarrow> a_storage acc)\<rparr>)"
  by (auto simp: commit_one_def remove_account_def insert_account_def Let_def fun_eq_iff split: option.splits)

lemma commit_other: "a \<notin> fst ` set cs \<Longrightarrow> w_accounts (commit e cs s) a = w_accounts s a"
  unfolding commit_def
proof (induction cs arbitrary: s)
  case (Cons c cs)
  obtain b r where c: "c = (b, r)" by fastforce
  with Cons.prems have "a \<noteq> b" and "a \<notin> fst ` set cs" by auto
  with Cons.IH[of "commit_one e c s"] c show ?case by (simp add: commit_one_accounts)
qed simp

lemma commit_at:
  assumes "distinct (map fst cs)" and "(a, r) \<in> set cs"
  shows "w_accounts (commit e cs s) a = w_accounts (commit_one e (a, r) s) a"
  using assms
proof (induction cs arbitrary: s)
  case (Cons c cs)
  show ?case
  proof (cases "c = (a, r)")
    case True
    with Cons.prems have "a \<notin> fst ` set cs" by auto
    with True commit_other[OF this, of e "commit_one e (a, r) s"] show ?thesis by (simp add: commit_def)
  next
    case False
    obtain b q where c: "c = (b, q)" by fastforce
    with False Cons.prems have "(a, r) \<in> set cs" "a \<noteq> b" "distinct (map fst cs)" by force+
    with Cons.IH[of "commit_one e c s"] c show ?thesis by (simp add: commit_def commit_one_accounts)
  qed
qed simp

lemma commit_zero_free: "zero_free s \<Longrightarrow> zero_free (commit e cs s)"
  unfolding commit_def
proof (induction cs arbitrary: s)
  case (Cons c cs)
  obtain a r where c: "c = (a, r)" by fastforce
  have "zero_free (commit_one e (a, r) s)"
    using Cons.prems unfolding zero_free_def commit_one_accounts
    by (auto intro!: fold_write_slot_zero split: if_splits option.splits)
  with Cons.IH c show ?case by simp
qed simp

text \<open>
  Committing a transaction's changes decides every account on its own: an account not among the
  changes, or not touched, keeps its value; a selfdestructed one, or one that is empty and did not
  exist, is gone; any other gets its new info and its old slots (none, if it was just created) with
  the written slots on top, and no stored slot ever holds zero.
\<close>

theorem commit_exact:
  assumes "distinct (map fst cs)" and "zero_free s"
  shows "w_accounts (commit e cs s) a =
      (case map_of cs a of
         None \<Rightarrow> w_accounts s a
       | Some r \<Rightarrow>
           if \<not> r_touched r then w_accounts s a
           else if r_selfdestructed r \<or> r_empty r \<and> r_not_existing r then None
           else Some \<lparr>a_info = r_info r,
                  a_storage = fold write_slot (r_storage r)
                    (if r_created r then Map.empty
                     else case w_accounts s a of None \<Rightarrow> Map.empty | Some acc \<Rightarrow> a_storage acc)\<rparr>) \<and>
    zero_free (commit e cs s)"
proof (cases "map_of cs a")
  case None
  then have "a \<notin> fst ` set cs" by (simp add: map_of_keys_iff)
  from commit_other[OF this] None commit_zero_free[OF assms(2)] show ?thesis by simp
next
  case (Some r)
  then have "(a, r) \<in> set cs" by (rule map_of_SomeD)
  from commit_at[OF assms(1) this] Some commit_zero_free[OF assms(2)] show ?thesis
    by (simp add: commit_one_accounts)
qed

text \<open>One account spends, one is destroyed.\<close>

definition sample_info :: "u256 \<Rightarrow> nat account_info" where
  "sample_info b = \<lparr>i_balance = b, i_nonce = 0, i_code_hash = KECCAK256_EMPTY, i_code = None\<rparr>"

definition sample_state :: "nat world_state" where
  "sample_state = insert_account 1 \<lparr>a_info = sample_info 50, a_storage = [5 \<mapsto> 7]\<rparr>
     (insert_account 2 \<lparr>a_info = sample_info 9, a_storage = Map.empty\<rparr> new_state)"

definition sample_changes :: "nat changes" where
  "sample_changes =
     [(1, \<lparr>r_info = sample_info 40, r_storage = [(5, 0), (6, 1)], r_touched = True, r_selfdestructed = False,
          r_created = False, r_not_existing = False, r_empty = False\<rparr>),
      (2, \<lparr>r_info = sample_info 0, r_storage = [], r_touched = True, r_selfdestructed = True,
          r_created = False, r_not_existing = False, r_empty = True\<rparr>)]"

lemma sample_zero_free: "zero_free sample_state"
  by (simp add: zero_free_def sample_state_def insert_account_def new_state_def)

theorem commit_exact_witness:
  "w_accounts (commit (\<lambda>_. False) sample_changes sample_state) 1 =
     Some \<lparr>a_info = sample_info 40, a_storage = [6 \<mapsto> 1]\<rparr> \<and>
   w_accounts (commit (\<lambda>_. False) sample_changes sample_state) 2 = None"
proof -
  have d: "distinct (map fst sample_changes)" by (simp add: sample_changes_def)
  show ?thesis
    using commit_exact[OF d sample_zero_free, of "\<lambda>_. False" 1] commit_exact[OF d sample_zero_free, of "\<lambda>_. False" 2]
    by (simp add: sample_changes_def sample_state_def insert_account_def new_state_def write_slot_def)
qed

end
