(* ===== verification/Journal.thy ===== *)
theory Journal
  imports World_State
begin

text \<open>
  The contract of the undo record (\<open>crates/chain/src/journal.rs\<close>) and its interpretation on the
  model: whatever a chain block does, as long as every account is noted before it first changes,
  applying the record brings every account back.
\<close>

section \<open>The contract\<close>

text \<open>\<open>restores pre get s0 s r\<close>: the record \<open>r\<close> taken between \<open>s0\<close> and \<open>s\<close> knows \<open>s0\<close> wherever they differ.\<close>

definition restores :: "('r \<Rightarrow> 'k \<Rightarrow> 'v option) \<Rightarrow> ('s \<Rightarrow> 'k \<Rightarrow> 'v) \<Rightarrow> 's \<Rightarrow> 's \<Rightarrow> 'r \<Rightarrow> bool" where
  "restores pre get s0 s r \<longleftrightarrow>
     (\<forall>k. (pre r k = None \<longrightarrow> get s k = get s0 k) \<and> (\<forall>v. pre r k = Some v \<longrightarrow> v = get s0 k))"

locale undo_contract =
  fixes valid :: "'r \<Rightarrow> bool" and pre :: "'r \<Rightarrow> 'k \<Rightarrow> 'v option" and get :: "'s \<Rightarrow> 'k \<Rightarrow> 'v"
    and empty :: 'r and note_key :: "'k \<Rightarrow> 's \<Rightarrow> 'r \<Rightarrow> 'r" and join :: "'r \<Rightarrow> 'r \<Rightarrow> 'r"
    and rewind :: "'r \<Rightarrow> 's \<Rightarrow> 's"
  assumes valid_empty: "valid empty" and pre_empty: "pre empty k = None"
    and valid_note: "valid r \<Longrightarrow> valid (note_key k s r)"
    and pre_note: "pre (note_key k s r) k' = (if k' = k \<and> pre r k = None then Some (get s k) else pre r k')"
    and valid_join: "valid r \<Longrightarrow> valid r' \<Longrightarrow> valid (join r r')"
    and pre_join: "valid r' \<Longrightarrow> pre (join r r') k = (case pre r k of Some v \<Rightarrow> Some v | None \<Rightarrow> pre r' k)"
    and get_rewind: "valid r \<Longrightarrow> get (rewind r s) k = (case pre r k of Some v \<Rightarrow> v | None \<Rightarrow> get s k)"
begin

lemma restores_empty: "restores pre get s s empty"
  by (simp add: restores_def pre_empty)

lemma restores_note: "restores pre get s0 s r \<Longrightarrow> restores pre get s0 s (note_key k s r)"
  by (auto simp: restores_def pre_note)

lemma restores_note_all: "restores pre get s0 s r \<Longrightarrow> restores pre get s0 s (fold (\<lambda>k. note_key k s) ks r)"
  by (induction ks arbitrary: r) (auto intro: restores_note)

lemma valid_note_all: "valid r \<Longrightarrow> valid (fold (\<lambda>k. note_key k s) ks r)"
  by (induction ks arbitrary: r) (auto intro: valid_note)

lemma covered_note: "k = k' \<or> pre r k \<noteq> None \<Longrightarrow> pre (note_key k' s r) k \<noteq> None"
  by (auto simp: pre_note)

lemma covered_note_all: "k \<in> set ks \<or> pre r k \<noteq> None \<Longrightarrow> pre (fold (\<lambda>k. note_key k s) ks r) k \<noteq> None"
proof (induction ks arbitrary: r)
  case (Cons a ks)
  then have "k \<in> set ks \<or> pre (note_key a s r) k \<noteq> None" using covered_note[of k a r s] by auto
  from Cons.IH[OF this] show ?case by simp
qed simp

lemma restores_change:
  "restores pre get s0 s r \<Longrightarrow> (\<And>k. pre r k = None \<Longrightarrow> get s' k = get s k) \<Longrightarrow> restores pre get s0 s' r"
  by (auto simp: restores_def)

lemma restores_join:
  assumes "restores pre get s0 s1 r" "restores pre get s1 s2 r'" "valid r'"
  shows "restores pre get s0 s2 (join r r')"
  using assms(1,2) by (auto simp: restores_def pre_join[OF assms(3)] split: option.splits)

lemma rewind_restores: "restores pre get s0 s r \<Longrightarrow> valid r \<Longrightarrow> get (rewind r s) k = get s0 k"
  by (auto simp: restores_def get_rewind split: option.splits)

lemma rewind_idempotent: "valid r \<Longrightarrow> get (rewind r (rewind r s)) k = get (rewind r s) k"
  by (simp add: get_rewind split: option.splits)

end

section \<open>The model keeps it\<close>

lemma map_of_or_insert: "map_of (or_insert k v m) k' = (if k' = k \<and> map_of m k = None then Some v else map_of m k')"
  by (auto simp: or_insert_def split: option.splits)

lemma hmap_ok_or_insert: "hmap_ok m \<Longrightarrow> hmap_ok (or_insert k v m)"
  by (simp add: or_insert_def split: option.splits)

lemma merge_record_ok: "hmap_ok prior \<Longrightarrow> hmap_ok (merge_record prior other)"
  unfolding merge_record_def by (induction other arbitrary: prior) (auto intro: hmap_ok_or_insert)

lemma map_of_merge_record:
  "hmap_ok other \<Longrightarrow> map_of (merge_record prior other) k = (case map_of prior k of Some p \<Rightarrow> Some p | None \<Rightarrow> map_of other k)"
  unfolding merge_record_def
proof (induction other arbitrary: prior)
  case (Cons x xs)
  obtain a p where x: "x = (a, p)" by fastforce
  with Cons.prems have "hmap_ok xs" and a: "map_of xs a = None" by (auto simp: hmap_ok_def map_of_eq_None_iff)
  from Cons.IH[OF this(1), of "or_insert a p prior"] x a show ?case
    by (auto simp: map_of_or_insert split: option.splits)
qed (simp split: option.splits)

lemma accounts_restore_one: "w_accounts (restore_one (a, p) s) = (w_accounts s)(a := p)"
  by (auto simp: restore_one_def insert_account_def remove_account_def split: option.splits)

lemma accounts_apply_record:
  "hmap_ok r \<Longrightarrow> w_accounts (apply_record r s) a = (case map_of r a of Some p \<Rightarrow> p | None \<Rightarrow> w_accounts s a)"
  unfolding apply_record_def
proof (induction r arbitrary: s)
  case (Cons x xs)
  obtain b p where x: "x = (b, p)" by fastforce
  with Cons.prems have "hmap_ok xs" and b: "map_of xs b = None" by (auto simp: hmap_ok_def map_of_eq_None_iff)
  from Cons.IH[OF this(1), of "restore_one (b, p) s"] x b show ?case
    by (auto simp: accounts_restore_one split: option.splits)
qed simp

interpretation undo: undo_contract hmap_ok map_of account "new_record :: 'code undo_record" note_account merge_record
  apply_record
  by unfold_locales
    (auto simp: new_record_def note_account_def map_of_or_insert hmap_ok_or_insert merge_record_ok
      map_of_merge_record account_def accounts_apply_record split: option.splits)

abbreviation undoes :: "'code world_state \<Rightarrow> 'code world_state \<Rightarrow> 'code undo_record \<Rightarrow> bool" where
  "undoes s0 s r \<equiv> hmap_ok r \<and> restores map_of account s0 s r"

section \<open>Journaled changes\<close>

text \<open>The pattern of both executors: note every account of a change set, then commit it.\<close>

definition journal_commit ::
  "('code \<Rightarrow> bool) \<Rightarrow> 'code changes \<Rightarrow> 'code world_state \<times> 'code undo_record \<Rightarrow> 'code world_state \<times> 'code undo_record" where
  "journal_commit e cs st =
     (case st of (s, r) \<Rightarrow> (commit e cs s, fold (\<lambda>a. note_account a s) (map fst cs) r))"

lemma undoes_commit:
  assumes "undoes s0 s r"
  shows "undoes s0 (commit e cs s) (fold (\<lambda>a. note_account a s) (map fst cs) r)"
proof -
  let ?r = "fold (\<lambda>a. note_account a s) (map fst cs) r"
  have "account (commit e cs s) a = account s a" if "map_of ?r a = None" for a
  proof -
    have "a \<notin> set (map fst cs)" using that undo.covered_note_all[of a "map fst cs" r s] by blast
    then show ?thesis by (simp add: account_def commit_other)
  qed
  with assms show ?thesis
    using undo.restores_change[OF undo.restores_note_all] undo.valid_note_all by blast
qed

lemma undoes_insert:
  assumes "undoes s0 s r" and "map_of r a \<noteq> None"
  shows "undoes s0 (insert_account a acc s) r"
proof
  show "hmap_ok r" using assms(1) ..
  show "restores map_of account s0 (insert_account a acc s) r"
    by (rule undo.restores_change[OF assms(1)[THEN conjunct2]])
      (use assms(2) in \<open>auto simp: account_def insert_account_def\<close>)
qed

lemma undoes_start: "undoes s s new_record"
  using undo.restores_empty undo.valid_empty by blast

lemma undoes_accounts:
  assumes u: "undoes s0 s r" shows "w_accounts (apply_record r s) = w_accounts s0"
proof (rule ext)
  fix a
  from undo.rewind_restores[OF u[THEN conjunct2] u[THEN conjunct1], of a]
  show "w_accounts (apply_record r s) a = w_accounts s0 a" by (simp add: account_def)
qed

text \<open>
  However many change sets a chain block commits, applying the record taken along the way gives
  back every account exactly as it was before the first of them, created and destroyed accounts
  included; applying it again changes nothing more.
\<close>

theorem undo_exact:
  assumes "fold (journal_commit e) css (s0, new_record) = (s, r)"
  shows "w_accounts (apply_record r s) = w_accounts s0 \<and>
    w_accounts (apply_record r (apply_record r s)) = w_accounts (apply_record r s)"
proof -
  have "undoes s0 (fst st') (snd st')" if "undoes s0 (fst st) (snd st)" "fold (journal_commit e) css st = st'" for st st'
    using that
  proof (induction css arbitrary: st)
    case (Cons cs css)
    have "undoes s0 (fst (journal_commit e cs st)) (snd (journal_commit e cs st))"
      using undoes_commit[OF Cons.prems(1), of cs e] by (cases st) (simp add: journal_commit_def)
    from Cons.IH[OF this] Cons.prems(2) show ?case by simp
  qed simp
  note u = this[of "(s0, new_record)" "(s, r)", unfolded fst_conv snd_conv, OF undoes_start assms]
  then have "account (apply_record r (apply_record r s)) a = account (apply_record r s) a" for a
    using undo.rewind_idempotent by blast
  with undoes_accounts[OF u] show ?thesis by (simp add: account_def fun_eq_iff)
qed

theorem undo_exact_witness:
  "w_accounts (apply_record (snd (journal_commit (\<lambda>_. False) sample_changes (sample_state, new_record)))
     (commit (\<lambda>_. False) sample_changes sample_state)) = w_accounts sample_state"
proof -
  have "fold (journal_commit (\<lambda>_. False)) [sample_changes] (sample_state, new_record)
      = (commit (\<lambda>_. False) sample_changes sample_state,
         snd (journal_commit (\<lambda>_. False) sample_changes (sample_state, new_record)))"
    by (simp add: journal_commit_def)
  from undo_exact[OF this] show ?thesis by blast
qed

end
