(* ===== verification/Block_Execution.thy ===== *)
theory Block_Execution
  imports Journal Ordering
begin

text \<open>
  Bodies (\<open>crates/chain/src/bodies.rs\<close>) and the sequential execution of one chain block's
  transactions (\<open>ExecutedBlock\<close> and \<open>execute_sequentially\<close> of \<open>crates/chain/src/executor.rs\<close>).

  Transactions, execution results, the EVM, the fee rule and the tries come from third-party
  crates. They are the fields of the record \<open>chain_lib\<close>, an argument of every definition that
  uses them; \<open>'tx\<close>, \<open>'res\<close>, \<open>'log\<close> and \<open>'code\<close> are their types. A transaction the EVM rejects is
  \<open>None\<close>; one it runs gives its result, the changed accounts and the accounts it loaded.
\<close>

section \<open>The library the chain is built on\<close>

record block_ctx =
  ctx_height :: u64
  ctx_timestamp_secs :: u64
  ctx_base_fee :: u64
  ctx_gas_limit :: u64
  ctx_prevrandao :: u256

record 'log receipt =
  rc_status :: bool
  rc_cumulative_gas :: u64
  rc_logs :: "'log list"

record ('tx, 'res, 'log, 'code) chain_lib =
  tx_hash :: "'tx \<Rightarrow> u256"
  tx_gas_limit :: "'tx \<Rightarrow> u64"
  tx_signer :: "'tx \<Rightarrow> address"
  tx_call_to :: "'tx \<Rightarrow> address option"
  tx_access_list :: "'tx \<Rightarrow> address list option"
  tx_max_fee :: "'tx \<Rightarrow> 128 word"
  tx_max_priority_fee :: "'tx \<Rightarrow> 128 word option"
  res_gas_used :: "'res \<Rightarrow> u64"
  res_success :: "'res \<Rightarrow> bool"
  res_logs :: "'res \<Rightarrow> 'log list"
  code_is_empty :: "'code \<Rightarrow> bool"
  transact :: "block_ctx \<Rightarrow> address \<Rightarrow> 'code world_state \<Rightarrow> 'tx \<Rightarrow> ('res \<times> 'code changes \<times> address list) option"
  calc_base_fee :: "u64 \<Rightarrow> u64 \<Rightarrow> u64 \<Rightarrow> u64"
  empty_root :: u256
  storage_root_unhashed :: "(u256 \<times> u256) list \<Rightarrow> u256"
  state_root_unhashed :: "(address \<times> trie_account) list \<Rightarrow> u256"
  receipts_root_of :: "'log receipt list \<Rightarrow> u256"
  default_info :: "'code account_info"

section \<open>Bodies\<close>

type_synonym 'tx body_store = "(block_hash, 'tx list) hmap"

definition body_insert :: "block_hash \<Rightarrow> 'tx list \<Rightarrow> 'tx body_store \<Rightarrow> 'tx body_store" where
  "body_insert b txs bodies = AList.update b txs bodies"

definition body_get :: "'tx body_store \<Rightarrow> block_hash \<Rightarrow> 'tx list" where
  "body_get bodies b = (case map_of bodies b of None \<Rightarrow> [] | Some txs \<Rightarrow> txs)"

definition body_contains :: "'tx body_store \<Rightarrow> block_hash \<Rightarrow> bool" where
  "body_contains bodies b \<longleftrightarrow> map_of bodies b \<noteq> None"

definition body_len :: "'tx body_store \<Rightarrow> nat" where "body_len bodies = length bodies"

text \<open>\<open>TxAccessSet::of\<close>: collect, \<open>sort_unstable\<close>, \<open>dedup\<close>.\<close>

definition access_set :: "('tx, 'res, 'log, 'code) chain_lib \<Rightarrow> 'tx \<Rightarrow> address list" where
  "access_set L tx =
     remdups_adj (sort ([tx_signer L tx]
       @ (case tx_call_to L tx of None \<Rightarrow> [] | Some to_addr \<Rightarrow> [to_addr])
       @ (case tx_access_list L tx of None \<Rightarrow> [] | Some items \<Rightarrow> items)))"

lemma set_access_set:
  "set (access_set L tx) = {tx_signer L tx} \<union> set_option (tx_call_to L tx) \<union> (case tx_access_list L tx of None \<Rightarrow> {} | Some items \<Rightarrow> set items)"
  by (auto simp: access_set_def set_insort_key split: option.splits)

section \<open>The accumulated block\<close>

record ('log, 'code) executed_block =
  x_undo :: "'code undo_record"
  x_gas_used :: u64
  x_executed :: nat
  x_deferred :: nat
  x_receipts :: "'log receipt list"
  x_hashes :: "u256 list"

definition empty_block :: "('log, 'code) executed_block" where
  "empty_block = \<lparr>x_undo = new_record, x_gas_used = 0, x_executed = 0, x_deferred = 0, x_receipts = [], x_hashes = []\<rparr>"

definition defer_tx :: "('log, 'code) executed_block \<Rightarrow> ('log, 'code) executed_block" where
  "defer_tx b = b\<lparr>x_deferred := x_deferred b + 1\<rparr>"

definition record_tx ::
  "('tx, 'res, 'log, 'code) chain_lib \<Rightarrow> 'tx \<Rightarrow> 'res \<Rightarrow> ('log, 'code) executed_block \<Rightarrow> ('log, 'code) executed_block" where
  "record_tx L tx res b =
     (let gas = saturating_add (x_gas_used b) (res_gas_used L res) in
      b\<lparr>x_gas_used := gas, x_executed := x_executed b + 1, x_hashes := x_hashes b @ [tx_hash L tx],
        x_receipts := x_receipts b @
          [\<lparr>rc_status = res_success L res, rc_cumulative_gas = gas, rc_logs = res_logs L res\<rparr>]\<rparr>)"

definition absorb :: "('log, 'code) executed_block \<Rightarrow> ('log, 'code) executed_block \<Rightarrow> ('log, 'code) executed_block" where
  "absorb b other =
     (let base = x_gas_used b in
      b\<lparr>x_undo := merge_record (x_undo b) (x_undo other),
        x_gas_used := saturating_add base (x_gas_used other),
        x_executed := x_executed b + x_executed other,
        x_deferred := x_deferred b + x_deferred other,
        x_hashes := x_hashes b @ x_hashes other,
        x_receipts := x_receipts b @
          map (\<lambda>r. r\<lparr>rc_cumulative_gas := saturating_add base (rc_cumulative_gas r)\<rparr>) (x_receipts other)\<rparr>)"

definition note_all :: "address list \<Rightarrow> 'code world_state \<Rightarrow> ('log, 'code) executed_block \<Rightarrow> ('log, 'code) executed_block" where
  "note_all as s b = b\<lparr>x_undo := fold (\<lambda>a. note_account a s) as (x_undo b)\<rparr>"

section \<open>Sequential execution\<close>

definition over_budget :: "('tx, 'res, 'log, 'code) chain_lib \<Rightarrow> u64 \<Rightarrow> 'tx \<Rightarrow> ('log, 'code) executed_block \<Rightarrow> bool" where
  "over_budget L gas_limit tx b \<longleftrightarrow> saturating_add (x_gas_used b) (tx_gas_limit L tx) > gas_limit"

definition run_one ::
  "('tx, 'res, 'log, 'code) chain_lib \<Rightarrow> block_ctx \<Rightarrow> u64 \<Rightarrow> address \<times> 'tx \<Rightarrow>
   'code world_state \<times> ('log, 'code) executed_block \<Rightarrow> 'code world_state \<times> ('log, 'code) executed_block" where
  "run_one L ctx gas_limit tagged_tx st =
     (case (tagged_tx, st) of ((miner, tx), (s, b)) \<Rightarrow>
        if over_budget L gas_limit tx b then (s, defer_tx b)
        else case transact L ctx miner s tx of
            None \<Rightarrow> (s, defer_tx b)
          | Some (res, cs, loaded) \<Rightarrow>
              (commit (code_is_empty L) cs s, record_tx L tx res (note_all (map fst cs) s b)))"

definition execute_sequentially ::
  "('tx, 'res, 'log, 'code) chain_lib \<Rightarrow> block_ctx \<Rightarrow> u64 \<Rightarrow> (address \<times> 'tx) list \<Rightarrow> nat list \<Rightarrow>
   'code world_state \<Rightarrow> 'code world_state \<times> ('log, 'code) executed_block" where
  "execute_sequentially L ctx gas_limit tagged order s =
     fold (\<lambda>index. run_one L ctx gas_limit (tagged ! index)) order (s, empty_block)"

section \<open>What sequential execution guarantees\<close>

definition cumulative_ok :: "('log, 'code) executed_block \<Rightarrow> bool" where
  "cumulative_ok b \<longleftrightarrow> length (x_receipts b) = x_executed b \<and> length (x_hashes b) = x_executed b \<and>
     sorted (map rc_cumulative_gas (x_receipts b)) \<and>
     (\<forall>r \<in> set (x_receipts b). rc_cumulative_gas r \<le> x_gas_used b) \<and>
     (x_receipts b = [] \<longrightarrow> x_gas_used b = 0) \<and>
     (x_receipts b \<noteq> [] \<longrightarrow> rc_cumulative_gas (last (x_receipts b)) = x_gas_used b)"

lemma cumulative_ok_empty: "cumulative_ok empty_block"
  by (simp add: cumulative_ok_def empty_block_def)

lemma cumulative_ok_defer: "cumulative_ok b \<Longrightarrow> cumulative_ok (defer_tx b)"
  by (simp add: cumulative_ok_def defer_tx_def)

lemma cumulative_ok_note: "cumulative_ok b \<Longrightarrow> cumulative_ok (note_all as s b)"
  by (simp add: cumulative_ok_def note_all_def)

lemma cumulative_ok_record: "cumulative_ok b \<Longrightarrow> cumulative_ok (record_tx L tx res b)"
  using saturating_add_ge[of "x_gas_used b" "res_gas_used L res"]
  by (auto simp: cumulative_ok_def record_tx_def Let_def sorted_append intro: order_trans)

definition block_inv ::
  "('code world_state) \<Rightarrow> u64 \<Rightarrow> nat \<Rightarrow> 'code world_state \<times> ('log, 'code) executed_block \<Rightarrow> bool" where
  "block_inv s0 gas_limit n st \<longleftrightarrow> (case st of (s, b) \<Rightarrow>
     undoes s0 s (x_undo b) \<and> cumulative_ok b \<and> x_executed b + x_deferred b = n \<and> x_gas_used b \<le> gas_limit)"

text \<open>What the code relies on: a transaction never uses more gas than its own limit.\<close>

definition gas_bounded :: "('tx, 'res, 'log, 'code) chain_lib \<Rightarrow> bool" where
  "gas_bounded L \<longleftrightarrow> (\<forall>ctx miner s tx res cs loaded.
     transact L ctx miner s tx = Some (res, cs, loaded) \<longrightarrow> res_gas_used L res \<le> tx_gas_limit L tx)"

lemma saturating_add_mono_right: "b \<le> b' \<Longrightarrow> saturating_add a b \<le> saturating_add a (b' :: 'a::len word)"
  by (simp add: word_le_nat_alt word_nat)

lemma run_one_inv:
  assumes "gas_bounded L" "block_inv s0 gas_limit n st"
  shows "block_inv s0 gas_limit (n + 1) (run_one L ctx gas_limit t st)"
proof -
  obtain miner tx s b where t: "t = (miner, tx)" and st: "st = (s, b)" by fastforce
  have inv: "undoes s0 s (x_undo b)" "cumulative_ok b" "x_executed b + x_deferred b = n" "x_gas_used b \<le> gas_limit"
    using assms(2) by (auto simp: block_inv_def st)
  have deferred: "block_inv s0 gas_limit (n + 1) (s, defer_tx b)"
    using inv cumulative_ok_defer[OF inv(2)] by (simp add: block_inv_def defer_tx_def)
  show ?thesis
  proof (cases "over_budget L gas_limit tx b \<or> transact L ctx miner s tx = None")
    case True
    with deferred show ?thesis by (auto simp: run_one_def t st)
  next
    case False
    then obtain res cs loaded where tr: "transact L ctx miner s tx = Some (res, cs, loaded)" by auto
    then have "res_gas_used L res \<le> tx_gas_limit L tx" using assms(1) unfolding gas_bounded_def by blast
    then have "saturating_add (x_gas_used b) (res_gas_used L res) \<le> saturating_add (x_gas_used b) (tx_gas_limit L tx)"
      by (rule saturating_add_mono_right)
    also have "\<dots> \<le> gas_limit" using False by (auto simp: over_budget_def not_less)
    finally have "saturating_add (x_gas_used b) (res_gas_used L res) \<le> gas_limit" .
    then show ?thesis
      using False tr inv undoes_commit[OF inv(1), of cs "code_is_empty L"]
        cumulative_ok_record[OF cumulative_ok_note[OF inv(2)]]
      by (simp add: run_one_def t st block_inv_def record_tx_def note_all_def Let_def)
  qed
qed

lemma sequential_inv:
  assumes "gas_bounded L"
  shows "block_inv s0 gas_limit n st \<Longrightarrow>
    block_inv s0 gas_limit (n + length order) (fold (\<lambda>index. run_one L ctx gas_limit (tagged ! index)) order st)"
proof (induction order arbitrary: n st)
  case (Cons i order)
  from Cons.IH[OF run_one_inv[OF assms Cons.prems]] show ?case by simp
qed simp

lemma block_inv_start: "block_inv s gas_limit 0 (s, empty_block)"
  using undoes_start[of s] cumulative_ok_empty by (simp add: block_inv_def empty_block_def)

text \<open>
  Executing a chain block's transactions in order, with the EVM's promise that a transaction never
  uses more gas than its own limit, stays within the block's gas limit; every transaction is either
  executed, with one hash and one receipt, or counted as deferred; receipts carry non-decreasing
  cumulative gas ending at the block's total; and the undo record restores every account.
\<close>

theorem sequential_block_ok:
  assumes "gas_bounded L" and "execute_sequentially L ctx gas_limit tagged order s = (t, b)"
  shows "x_gas_used b \<le> gas_limit \<and> x_executed b + x_deferred b = length order \<and>
    length (x_receipts b) = x_executed b \<and> length (x_hashes b) = x_executed b \<and>
    sorted (map rc_cumulative_gas (x_receipts b)) \<and>
    (x_receipts b \<noteq> [] \<longrightarrow> rc_cumulative_gas (last (x_receipts b)) = x_gas_used b) \<and>
    w_accounts (apply_record (x_undo b) t) = w_accounts s"
proof -
  have "block_inv s gas_limit (length order) (t, b)"
    using sequential_inv[OF assms(1) block_inv_start, of s gas_limit order ctx tagged] assms(2)
    by (simp add: execute_sequentially_def)
  then show ?thesis using undoes_accounts by (auto simp: block_inv_def cumulative_ok_def)
qed

section \<open>A small library to run\<close>

text \<open>
  A toy instance of \<open>chain_lib\<close> for the concrete examples. A transaction sets account \<open>t_to\<close> to the
  balance it reads at \<open>t_from\<close> (or to a constant), and pays the beneficiary its gas at the tip it
  offers. Results are the gas used.
\<close>

record toy_tx =
  t_id :: u256
  t_limit :: u64
  t_used :: u64
  t_signer :: address
  t_reads :: "address option"
  t_to :: address
  t_const :: u256
  t_tip :: "128 word"

definition toy_account :: "u256 \<Rightarrow> bool \<Rightarrow> nat revm_account" where
  "toy_account b absent =
     \<lparr>r_info = sample_info b, r_storage = [], r_touched = True, r_selfdestructed = False, r_created = False,
      r_not_existing = absent, r_empty = False\<rparr>"

definition toy_transact ::
  "block_ctx \<Rightarrow> address \<Rightarrow> nat world_state \<Rightarrow> toy_tx \<Rightarrow> (u64 \<times> nat changes \<times> address list) option" where
  "toy_transact ctx miner s tx =
     (if t_used tx > t_limit tx then None
      else
        let v = (case t_reads tx of None \<Rightarrow> t_const tx | Some a \<Rightarrow> balance s a);
            fee = ucast (t_tip tx) * ucast (t_used tx)
        in Some (t_used tx,
             (t_to tx, toy_account v False) #
             (if t_tip tx = 0 then [] else [(miner, toy_account (balance s miner + fee) False)]),
             t_to tx # miner # (case t_reads tx of None \<Rightarrow> [] | Some a \<Rightarrow> [a])))"

definition toy_lib :: "(toy_tx, u64, unit, nat) chain_lib" where
  "toy_lib =
     \<lparr>tx_hash = t_id, tx_gas_limit = t_limit, tx_signer = t_signer, tx_call_to = (\<lambda>t. Some (t_to t)),
      tx_access_list = (\<lambda>_. None), tx_max_fee = t_tip, tx_max_priority_fee = (\<lambda>t. Some (t_tip t)),
      res_gas_used = id, res_success = (\<lambda>_. True), res_logs = (\<lambda>_. []), code_is_empty = (\<lambda>_. True),
      transact = toy_transact, calc_base_fee = (\<lambda>used limit fee. fee),
      empty_root = 0, storage_root_unhashed = (\<lambda>es. of_nat (length es)),
      state_root_unhashed = (\<lambda>es. of_nat (length es)), receipts_root_of = (\<lambda>rs. of_nat (length rs)),
      default_info = sample_info 0\<rparr>"

definition toy_ctx :: block_ctx where
  "toy_ctx = \<lparr>ctx_height = 1, ctx_timestamp_secs = 0, ctx_base_fee = 0, ctx_gas_limit = 100, ctx_prevrandao = 0\<rparr>"

definition toy :: "u256 \<Rightarrow> u64 \<Rightarrow> address \<Rightarrow> address option \<Rightarrow> address \<Rightarrow> 128 word \<Rightarrow> toy_tx" where
  "toy i gas signer reads dest tip = \<lparr>t_id = i, t_limit = gas, t_used = gas, t_signer = signer, t_reads = reads,
     t_to = dest, t_const = i, t_tip = tip\<rparr>"

lemma toy_gas_bounded: "gas_bounded toy_lib"
  by (auto simp: gas_bounded_def toy_lib_def toy_transact_def Let_def split: if_splits)

theorem sequential_block_ok_witness:
  "let b = snd (execute_sequentially toy_lib toy_ctx 100 [(9, toy 1 60 11 None 2 0), (9, toy 2 60 12 None 3 0)] [0, 1] new_state)
   in x_gas_used b \<le> 100 \<and> x_executed b + x_deferred b = 2"
  using sequential_block_ok[OF toy_gas_bounded surjective_pairing, of toy_ctx 100
      "[(9, toy 1 60 11 None 2 0), (9, toy 2 60 12 None 3 0)]" "[0, 1]" new_state]
  by (simp add: Let_def)

end
