(* ===== verification/Parallel.thy ===== *)
theory Parallel
  imports Block_Execution
begin

text \<open>
  Parallel execution (\<open>crates/chain/src/parallel.rs\<close> and \<open>execute_rounds_parallel\<close> of
  \<open>crates/chain/src/executor.rs\<close>): rounds recovered from the order, speculation against the
  pre-round state, validation, commit with fee credits last, and the sequential fallback. The
  threads of a round share nothing but the read-only state, so a round's speculations are a map.
\<close>

section \<open>Speculation\<close>

record ('res, 'code) speculation =
  sp_index :: nat
  sp_result :: "'res option"
  sp_diff :: "'code changes"
  sp_reads :: "address list"
  sp_writes :: "address list"
  sp_fee_credit :: u256
  sp_touched_beneficiary :: bool

datatype round_conflict = Overlap nat nat address | BeneficiaryTouched nat

definition partition_step ::
  "(nat \<Rightarrow> address list) \<Rightarrow> nat \<Rightarrow> nat list list \<times> nat list \<times> address set \<Rightarrow> nat list list \<times> nat list \<times> address set" where
  "partition_step access index st =
     (case st of (rs, current, touched) \<Rightarrow>
        let ks = access index; conflicts = list_ex (\<lambda>k. k \<in> touched) ks in
        if conflicts \<and> current \<noteq> [] then (rs @ [current], [index], set ks)
        else (rs, current @ [index], touched \<union> set ks))"

definition partition_rounds :: "nat list \<Rightarrow> (nat \<Rightarrow> address list) \<Rightarrow> nat list list" where
  "partition_rounds order access =
     (case fold (partition_step access) order ([], [], {}) of
        (rs, current, touched) \<Rightarrow> if current \<noteq> [] then rs @ [current] else rs)"

text \<open>\<open>effective_tip\<close> in \<open>u128\<close>, the fee in \<open>U256\<close>, all saturating.\<close>

definition expected_fee :: "('tx, 'res, 'log, 'code) chain_lib \<Rightarrow> block_ctx \<Rightarrow> 'tx \<Rightarrow> 'res \<Rightarrow> u256" where
  "expected_fee L ctx tx res =
     (let tip = min (saturating_sub (tx_max_fee L tx) (ucast (ctx_base_fee ctx)))
                    (case tx_max_priority_fee L tx of None \<Rightarrow> 0 | Some p \<Rightarrow> p)
      in saturating_mul (ucast tip) (ucast (res_gas_used L res)))"

definition speculate_one ::
  "('tx, 'res, 'log, 'code) chain_lib \<Rightarrow> block_ctx \<Rightarrow> 'code world_state \<Rightarrow> nat \<Rightarrow> address \<times> 'tx \<Rightarrow>
   ('res, 'code) speculation" where
  "speculate_one L ctx s index tagged_tx =
     (case tagged_tx of (miner, tx) \<Rightarrow>
       (case transact L ctx miner s tx of
          None \<Rightarrow> \<lparr>sp_index = index, sp_result = None, sp_diff = [], sp_reads = [], sp_writes = [],
                    sp_fee_credit = 0, sp_touched_beneficiary = False\<rparr>
        | Some (res, cs, loaded) \<Rightarrow>
            let fee = expected_fee L ctx tx res;
                (diff, credit, touched_it) =
                  (case map_of cs miner of
                     None \<Rightarrow> (cs, 0, False)
                   | Some r \<Rightarrow>
                       let old_balance = balance s miner;
                           only_balance_changed = (r_storage r = [] \<and> i_nonce (r_info r) = nonce s miner \<and>
                             i_code_hash (r_info r) =
                               (case account s miner of None \<Rightarrow> KECCAK256_EMPTY | Some a \<Rightarrow> i_code_hash (a_info a)))
                       in if only_balance_changed \<and> i_balance (r_info r) = saturating_add old_balance fee
                          then (AList.delete miner cs, fee, False) else (cs, 0, True))
            in \<lparr>sp_index = index, sp_result = Some res, sp_diff = diff, sp_reads = loaded,
                sp_writes = map fst diff, sp_fee_credit = credit, sp_touched_beneficiary = touched_it\<rparr>))"

definition speculate ::
  "('tx, 'res, 'log, 'code) chain_lib \<Rightarrow> block_ctx \<Rightarrow> 'code world_state \<Rightarrow> (address \<times> 'tx) list \<Rightarrow>
   ('res, 'code) speculation list" where
  "speculate L ctx s round_txs =
     sort_key sp_index (map (\<lambda>(index, t). speculate_one L ctx s index t) (enumerate 0 round_txs))"

section \<open>Validation\<close>

fun find_overlap_in :: "('res, 'code) speculation \<Rightarrow> ('res, 'code) speculation \<Rightarrow> address list \<Rightarrow> round_conflict option" where
  "find_overlap_in earlier later [] = None"
| "find_overlap_in earlier later (a # as) =
     (if a \<in> set (sp_reads later) \<or> a \<in> set (sp_writes later)
      then Some (Overlap (sp_index earlier) (sp_index later) a) else find_overlap_in earlier later as)"

fun find_overlap :: "('res, 'code) speculation list \<Rightarrow> ('res, 'code) speculation \<Rightarrow> round_conflict option" where
  "find_overlap [] later = None"
| "find_overlap (e # es) later =
     (case find_overlap_in e later (sp_writes e) of Some c \<Rightarrow> Some c | None \<Rightarrow> find_overlap es later)"

fun validate_from :: "('res, 'code) speculation list \<Rightarrow> ('res, 'code) speculation list \<Rightarrow> round_conflict option" where
  "validate_from earlier [] = None"
| "validate_from earlier (later # rest) =
     (if sp_touched_beneficiary later then Some (BeneficiaryTouched (sp_index later))
      else case find_overlap earlier later of
          Some c \<Rightarrow> Some c
        | None \<Rightarrow> validate_from (earlier @ [later]) rest)"

definition validate :: "('res, 'code) speculation list \<Rightarrow> round_conflict option" where
  "validate sps = validate_from [] sps"

section \<open>Committing a round\<close>

type_synonym ('log, 'code) round_state =
  "'code world_state \<times> ('log, 'code) executed_block \<times> (address \<times> u256) list"

definition commit_speculation ::
  "('tx, 'res, 'log, 'code) chain_lib \<Rightarrow> u64 \<Rightarrow> (address \<times> 'tx) list \<Rightarrow> nat \<times> ('res, 'code) speculation \<Rightarrow>
   ('log, 'code) round_state \<Rightarrow> ('log, 'code) round_state" where
  "commit_speculation L gas_limit tagged entry st =
     (case (entry, st) of ((index, sp), (s, b, credited)) \<Rightarrow>
        let (miner, tx) = tagged ! index in
        if over_budget L gas_limit tx b then (s, defer_tx b, credited)
        else case sp_result sp of
            None \<Rightarrow> (s, defer_tx b, credited)
          | Some res \<Rightarrow>
              (commit (code_is_empty L) (sp_diff sp) s,
               record_tx L tx res (note_all (map fst (sp_diff sp) @ [miner]) s b),
               credited @ [(miner, sp_fee_credit sp)]))"

definition credit_fee :: "('tx, 'res, 'log, 'code) chain_lib \<Rightarrow> address \<times> u256 \<Rightarrow> 'code world_state \<Rightarrow> 'code world_state" where
  "credit_fee L entry s =
     (case entry of (miner, credit) \<Rightarrow>
        if credit = 0 then s
        else
          let acc = (case account s miner of Some a \<Rightarrow> a | None \<Rightarrow> \<lparr>a_info = default_info L, a_storage = Map.empty\<rparr>);
              info = a_info acc
          in insert_account miner
               (acc\<lparr>a_info := info\<lparr>i_balance := saturating_add (i_balance info) credit\<rparr>\<rparr>) s)"

text \<open>The counters are the rounds committed from speculation and the rounds that fell back.\<close>

type_synonym ('log, 'code) parallel_state =
  "'code world_state \<times> ('log, 'code) executed_block \<times> nat \<times> nat"

definition run_round ::
  "('tx, 'res, 'log, 'code) chain_lib \<Rightarrow> block_ctx \<Rightarrow> u64 \<Rightarrow> (address \<times> 'tx) list \<Rightarrow> nat list \<Rightarrow>
   ('log, 'code) parallel_state \<Rightarrow> ('log, 'code) parallel_state" where
  "run_round L ctx gas_limit tagged layer st =
     (case st of (s, b, parallel_rounds, fallback_rounds) \<Rightarrow>
        let sps = speculate L ctx s (map (\<lambda>i. tagged ! i) layer) in
        case validate sps of
          Some _ \<Rightarrow>
            (case execute_sequentially L ctx gas_limit tagged layer s of
               (s, other) \<Rightarrow> (s, absorb b other, parallel_rounds, fallback_rounds + 1))
        | None \<Rightarrow>
            (case fold (commit_speculation L gas_limit tagged) (zip layer sps) (s, b, []) of
               (s, b, credited) \<Rightarrow> (fold (credit_fee L) credited s, b, parallel_rounds + 1, fallback_rounds)))"

definition execute_rounds_parallel ::
  "('tx, 'res, 'log, 'code) chain_lib \<Rightarrow> block_ctx \<Rightarrow> u64 \<Rightarrow> (address \<times> 'tx) list \<Rightarrow> nat list \<Rightarrow>
   (nat \<Rightarrow> address list) \<Rightarrow> 'code world_state \<Rightarrow> nat \<Rightarrow> nat \<Rightarrow> ('log, 'code) parallel_state" where
  "execute_rounds_parallel L ctx gas_limit tagged order access s parallel_rounds fallback_rounds =
     fold (run_round L ctx gas_limit tagged) (partition_rounds order access)
       (s, empty_block, parallel_rounds, fallback_rounds)"

section \<open>Rounds\<close>

definition disjoint_round :: "(nat \<Rightarrow> address list) \<Rightarrow> nat list \<Rightarrow> bool" where
  "disjoint_round access r \<longleftrightarrow> sorted_wrt (\<lambda>i j. set (access i) \<inter> set (access j) = {}) r"

definition partition_inv ::
  "(nat \<Rightarrow> address list) \<Rightarrow> nat list \<Rightarrow> nat list list \<times> nat list \<times> address set \<Rightarrow> bool" where
  "partition_inv access done st \<longleftrightarrow> (case st of (rs, current, touched) \<Rightarrow>
     concat rs @ current = done \<and> [] \<notin> set rs \<and> (\<forall>r \<in> set rs. disjoint_round access r) \<and>
     disjoint_round access current \<and> touched = (\<Union>i \<in> set current. set (access i)))"

lemma partition_inv_step:
  assumes "partition_inv access done st"
  shows "partition_inv access (done @ [i]) (partition_step access i st)"
proof -
  obtain rs current touched where st: "st = (rs, current, touched)" by (cases st)
  show ?thesis
    using assms
    by (auto simp: st partition_inv_def partition_step_def Let_def list_ex_iff disjoint_round_def sorted_wrt_append)
qed

lemma partition_inv_fold:
  "partition_inv access done st \<Longrightarrow> partition_inv access (done @ order) (fold (partition_step access) order st)"
proof (induction order arbitrary: "done" st)
  case (Cons i order)
  from Cons.IH[OF partition_inv_step[OF Cons.prems]] show ?case by simp
qed simp

lemma partition_rounds_inv:
  "concat (partition_rounds order access) = order \<and> [] \<notin> set (partition_rounds order access) \<and>
   (\<forall>r \<in> set (partition_rounds order access). disjoint_round access r)"
proof -
  obtain rs current touched where f: "fold (partition_step access) order ([], [], {}) = (rs, current, touched)"
    by (metis prod_cases3)
  have "partition_inv access ([] @ order) (fold (partition_step access) order ([], [], {}))"
    by (rule partition_inv_fold) (simp add: partition_inv_def disjoint_round_def)
  then show ?thesis unfolding f by (auto simp: partition_inv_def partition_rounds_def f)
qed

text \<open>
  The rounds recovered from the canonical order are the order cut into consecutive non-empty
  pieces, and within a piece the static access sets are pairwise disjoint.
\<close>

theorem partition_rounds_exact:
  "concat (partition_rounds order access) = order \<and> [] \<notin> set (partition_rounds order access) \<and>
   list_all (sorted_wrt (\<lambda>i j. set (access i) \<inter> set (access j) = {})) (partition_rounds order access)"
  using partition_rounds_inv[of order access] by (auto simp: disjoint_round_def list_all_iff)

section \<open>What validation establishes\<close>

definition independent :: "('res, 'code) speculation \<Rightarrow> ('res, 'code) speculation \<Rightarrow> bool" where
  "independent earlier later \<longleftrightarrow> set (sp_writes earlier) \<inter> (set (sp_reads later) \<union> set (sp_writes later)) = {}"

lemma find_overlap_in_None: "find_overlap_in e l as = None \<longleftrightarrow> set as \<inter> (set (sp_reads l) \<union> set (sp_writes l)) = {}"
  by (induction as) auto

lemma find_overlap_Cons:
  "find_overlap (e # es) l = None \<longleftrightarrow> find_overlap_in e l (sp_writes e) = None \<and> find_overlap es l = None"
  by (cases "find_overlap_in e l (sp_writes e)") auto

lemma find_overlap_None: "find_overlap es l = None \<longleftrightarrow> (\<forall>e \<in> set es. independent e l)"
proof (induction es)
  case (Cons e es)
  then show ?case by (auto simp only: find_overlap_Cons find_overlap_in_None independent_def list.set)
qed simp

lemma validate_from_Cons:
  "validate_from es (s # sps) = None \<longleftrightarrow>
     \<not> sp_touched_beneficiary s \<and> find_overlap es s = None \<and> validate_from (es @ [s]) sps = None"
  by (cases "find_overlap es s") auto

lemma validate_from_None:
  "validate_from es sps = None \<longleftrightarrow>
     (\<forall>s \<in> set sps. \<not> sp_touched_beneficiary s \<and> (\<forall>e \<in> set es. independent e s)) \<and> sorted_wrt independent sps"
proof (induction sps arbitrary: es)
  case (Cons s sps)
  show ?case unfolding validate_from_Cons Cons.IH find_overlap_None by auto
qed simp

text \<open>
  Validation lets a round through exactly when no speculation touched its beneficiary beyond the
  fee and no transaction wrote (fee credits aside) an account that a later one read or wrote.
\<close>

theorem validate_exact:
  "validate sps = None \<longleftrightarrow>
     list_all (\<lambda>s. \<not> sp_touched_beneficiary s) sps \<and>
     sorted_wrt (\<lambda>e l. set (sp_writes e) \<inter> (set (sp_reads l) \<union> set (sp_writes l)) = {}) sps"
  by (auto simp: validate_def validate_from_None independent_def[abs_def] list_all_iff)

section \<open>The undo record of a parallel block\<close>

lemma undoes_note:
  "undoes s0 s r \<Longrightarrow> undoes s0 s (fold (\<lambda>a. note_account a s) as r)"
  using undo.restores_note_all undo.valid_note_all by blast

lemma undoes_commit_noted:
  assumes "undoes s0 s r" and "set (map fst cs) \<subseteq> set as"
  shows "undoes s0 (commit e cs s) (fold (\<lambda>a. note_account a s) as r)"
proof -
  let ?r = "fold (\<lambda>a. note_account a s) as r"
  have "account (commit e cs s) a = account s a" if "map_of ?r a = None" for a
  proof -
    have "a \<notin> set as" using that undo.covered_note_all[of a as r s] by blast
    then have "a \<notin> fst ` set cs" using assms(2) by auto
    then show ?thesis by (simp add: account_def commit_other)
  qed
  with undoes_note[OF assms(1), of as] show ?thesis using undo.restores_change by blast
qed

definition credits_noted :: "(address \<times> u256) list \<Rightarrow> 'code undo_record \<Rightarrow> bool" where
  "credits_noted credited r \<longleftrightarrow> (\<forall>(m, c) \<in> set credited. map_of r m \<noteq> None)"

lemma credits_noted_mono:
  "credits_noted credited r \<Longrightarrow> credits_noted credited (fold (\<lambda>a. note_account a s) as r)"
  unfolding credits_noted_def using undo.covered_note_all[of _ as r s] by blast

lemma commit_speculation_undoes:
  assumes "undoes s0 s (x_undo b)" "credits_noted credited (x_undo b)"
    and "commit_speculation L gas_limit tagged entry (s, b, credited) = (s', b', credited')"
  shows "undoes s0 s' (x_undo b') \<and> credits_noted credited' (x_undo b')"
proof -
  obtain index sp miner tx where e: "entry = (index, sp)" "tagged ! index = (miner, tx)" by (metis surj_pair)
  show ?thesis
  proof (cases "over_budget L gas_limit tx b \<or> sp_result sp = None")
    case True
    with assms e show ?thesis by (auto simp: commit_speculation_def defer_tx_def split: if_splits)
  next
    case False
    let ?as = "map fst (sp_diff sp) @ [miner]" let ?r = "fold (\<lambda>a. note_account a s) ?as (x_undo b)"
    from False assms(3) e have r: "s' = commit (code_is_empty L) (sp_diff sp) s" "x_undo b' = ?r"
      "credited' = credited @ [(miner, sp_fee_credit sp)]"
      by (auto simp: commit_speculation_def record_tx_def note_all_def Let_def)
    have "map_of ?r miner \<noteq> None" using undo.covered_note_all[of miner ?as "x_undo b" s] by simp
    with undoes_commit_noted[OF assms(1), of "sp_diff sp" ?as] credits_noted_mono[OF assms(2), where as = ?as and s = s] r
    show ?thesis by (auto simp: credits_noted_def simp del: fold_append)
  qed
qed

lemma commit_round_undoes:
  "undoes s0 s (x_undo b) \<Longrightarrow> credits_noted credited (x_undo b) \<Longrightarrow>
   fold (commit_speculation L gas_limit tagged) entries (s, b, credited) = (s', b', credited') \<Longrightarrow>
   undoes s0 s' (x_undo b') \<and> credits_noted credited' (x_undo b')"
proof (induction entries arbitrary: s b credited)
  case (Cons e entries)
  obtain s1 b1 c1 where step: "commit_speculation L gas_limit tagged e (s, b, credited) = (s1, b1, c1)"
    by (metis prod_cases3)
  from commit_speculation_undoes[OF Cons.prems(1,2) step] Cons.IH[where s = s1 and b = b1 and credited = c1] Cons.prems(3) step
  show ?case by simp
qed simp

lemma credit_fees_undoes:
  "undoes s0 s r \<Longrightarrow> credits_noted credited r \<Longrightarrow> undoes s0 (fold (credit_fee L) credited s) r"
proof (induction credited arbitrary: s)
  case (Cons e credited)
  obtain m c where e: "e = (m, c)" by fastforce
  with Cons.prems have m: "map_of r m \<noteq> None" and rest: "credits_noted credited r" by (auto simp: credits_noted_def)
  have "undoes s0 (credit_fee L e s) r"
    using Cons.prems(1) undoes_insert[OF Cons.prems(1) m] by (simp add: credit_fee_def e Let_def)
  from Cons.IH[OF this rest] show ?case by simp
qed simp

lemma run_one_undoes:
  "undoes s0 (fst st) (x_undo (snd st)) \<Longrightarrow>
   undoes s0 (fst (run_one L ctx g t st)) (x_undo (snd (run_one L ctx g t st)))"
proof -
  assume u: "undoes s0 (fst st) (x_undo (snd st))"
  obtain miner tx s b where t: "t = (miner, tx)" and st: "st = (s, b)" by fastforce
  show ?thesis
  proof (cases "over_budget L g tx b \<or> transact L ctx miner s tx = None")
    case True
    with u show ?thesis by (auto simp: run_one_def t st defer_tx_def)
  next
    case False
    then obtain res cs loaded where "transact L ctx miner s tx = Some (res, cs, loaded)" by auto
    with False u undoes_commit[OF u[unfolded st fst_conv snd_conv], of cs "code_is_empty L"] show ?thesis
      by (simp add: run_one_def t st record_tx_def note_all_def Let_def)
  qed
qed

lemma sequential_undoes:
  assumes "execute_sequentially L ctx g tagged order s = (s', b')"
  shows "undoes s s' (x_undo b')"
proof -
  have "undoes s (fst (fold (\<lambda>i. run_one L ctx g (tagged ! i)) order st))
      (x_undo (snd (fold (\<lambda>i. run_one L ctx g (tagged ! i)) order st)))"
    if "undoes s (fst st) (x_undo (snd st))" for st
    using that
  proof (induction order arbitrary: st)
    case (Cons i order)
    from Cons.IH[OF run_one_undoes[OF Cons.prems]] show ?case by simp
  qed simp
  from this[of "(s, empty_block)"] undoes_start[of s] assms show ?thesis
    by (simp add: execute_sequentially_def empty_block_def)
qed

lemma run_round_undoes:
  assumes "undoes s0 s (x_undo b)" and "run_round L ctx g tagged layer (s, b, p, f) = (s', b', p', f')"
  shows "undoes s0 s' (x_undo b')"
proof (cases "validate (speculate L ctx s (map (\<lambda>i. tagged ! i) layer))")
  case (Some c)
  obtain s1 other where seq: "execute_sequentially L ctx g tagged layer s = (s1, other)" by fastforce
  note u = sequential_undoes[OF seq]
  from assms(2) Some seq have "s' = s1" "x_undo b' = merge_record (x_undo b) (x_undo other)"
    by (auto simp: run_round_def absorb_def Let_def)
  with undo.restores_join[OF assms(1)[THEN conjunct2] u[THEN conjunct2] u[THEN conjunct1]]
    undo.valid_join[OF assms(1)[THEN conjunct1] u[THEN conjunct1]]
  show ?thesis by simp
next
  case None
  obtain s1 b1 c1 where f: "fold (commit_speculation L g tagged)
      (zip layer (speculate L ctx s (map (\<lambda>i. tagged ! i) layer))) (s, b, []) = (s1, b1, c1)"
    by (metis prod_cases3)
  have "credits_noted [] (x_undo b)" by (simp add: credits_noted_def)
  from commit_round_undoes[OF assms(1) this f] assms(2) None f
  have "undoes s0 s1 (x_undo b1) \<and> credits_noted c1 (x_undo b1)" "s' = fold (credit_fee L) c1 s1" "b' = b1"
    by (auto simp: run_round_def Let_def)
  then show ?thesis using credit_fees_undoes by blast
qed

lemma parallel_undoes:
  assumes "execute_rounds_parallel L ctx g tagged order access s p f = (s', b', p', f')"
  shows "undoes s s' (x_undo b')"
proof -
  have "undoes s s' (x_undo b')"
    if "undoes s s1 (x_undo b1)" "fold (run_round L ctx g tagged) layers (s1, b1, p1, f1) = (s', b', p', f')" for layers s1 b1 p1 f1
    using that
  proof (induction layers arbitrary: s1 b1 p1 f1)
    case (Cons layer layers)
    obtain s2 b2 p2 f2 where step: "run_round L ctx g tagged layer (s1, b1, p1, f1) = (s2, b2, p2, f2)"
      by (metis prod_cases4)
    from Cons.IH[OF run_round_undoes[OF Cons.prems(1) step]] Cons.prems(2) step show ?case by simp
  qed simp
  from this[where ?s1.0 = s and ?b1.0 = empty_block] undoes_start[of s] assms show ?thesis
    by (simp add: execute_rounds_parallel_def empty_block_def)
qed

text \<open>
  C36: The undo record of a block executed in parallel, whether its rounds were committed from
  speculation with their fee credits or fell back to the sequential path, restores every account.
\<close>

theorem parallel_undo_exact:
  assumes "execute_rounds_parallel L ctx gas_limit tagged order access s p f = (t, b, p', f')"
  shows "w_accounts (apply_record (x_undo b) t) = w_accounts s"
  using undoes_accounts[OF parallel_undoes[OF assms]] .

section \<open>What parallel execution does not preserve\<close>

text \<open>
  The fallback runs a round with gas counted from zero, so the block's limit is not enforced against
  the gas of earlier rounds. Below, the second round falls back (its two transactions touch account
  5, one by declaration and one dynamically) and the block spends 120 of a limit of 100, where the
  sequential reference defers the last transaction.
\<close>

definition gas_example :: "(address \<times> toy_tx) list" where
  "gas_example = [(9, toy 1 60 11 None 5 0), (9, toy 2 30 12 None 5 0), (9, toy 3 30 13 (Some 5) 6 0)]"

definition gas_access :: "nat \<Rightarrow> address list" where
  "gas_access i = access_set toy_lib (snd (gas_example ! i))"

lemma fallback_exceeds_gas_limit:
  "case execute_rounds_parallel toy_lib toy_ctx 100 gas_example [0, 1, 2] gas_access new_state 0 0 of
     (s, b, p, f) \<Rightarrow> f = 1 \<and> x_gas_used b = 120 \<and> x_deferred b = 0"
  "case execute_sequentially toy_lib toy_ctx 100 gas_example [0, 1, 2] new_state of
     (s, b) \<Rightarrow> x_gas_used b = 90 \<and> x_deferred b = 1"
  by code_simp+

text \<open>
  A fee credit is taken out of the diff before the write set is read off it, so a later transaction
  of the round that reads the miner's balance is not seen as conflicting and reads the value from
  before the credit: sequentially account 6 ends with 20, in parallel with 0.
\<close>

definition fee_example :: "(address \<times> toy_tx) list" where
  "fee_example = [(9, toy 1 20 11 None 5 1), (8, toy 2 20 12 (Some 9) 6 0)]"

lemma fee_credit_read_is_missed:
  "case execute_rounds_parallel toy_lib toy_ctx 100 fee_example [0, 1]
        (\<lambda>i. access_set toy_lib (snd (fee_example ! i))) new_state 0 0 of
     (s, b, p, f) \<Rightarrow> p = 1 \<and> f = 0 \<and> balance s 9 = 20 \<and> balance s 6 = 0"
  "case execute_sequentially toy_lib toy_ctx 100 fee_example [0, 1] new_state of
     (s, b) \<Rightarrow> balance s 9 = 20 \<and> balance s 6 = 20"
  by code_simp+

theorem parallel_undo_exact_witness:
  "w_accounts (apply_record
       (x_undo (fst (snd (execute_rounds_parallel toy_lib toy_ctx 100 gas_example [0, 1, 2] gas_access new_state 0 0))))
       (fst (execute_rounds_parallel toy_lib toy_ctx 100 gas_example [0, 1, 2] gas_access new_state 0 0)))
     = Map.empty"
proof -
  obtain s b p f where "execute_rounds_parallel toy_lib toy_ctx 100 gas_example [0, 1, 2] gas_access new_state 0 0
      = (s, b, p, f)" by (metis prod_cases4)
  with parallel_undo_exact[OF this] show ?thesis by (simp add: new_state_def)
qed

end
