(* ===== verification/Params.thy ===== *)
theory Params
  imports Chain_Prelude
begin

text \<open>
  Chain parameters (\<open>crates/primitives/src/params.rs\<close>): the named constants, the two network
  presets, the derived quantities and \<open>ChainParams::validate\<close>. A Rust \<open>u64\<close> division or
  remainder by zero panics; such a method returns an option here, \<open>None\<close> being the panic, and
  the lemmas show that no accepted configuration reaches it.
\<close>

section \<open>Constants and the parameter record\<close>

definition CHAIN_ID :: nat where "CHAIN_ID = 7717"
definition MS_PER_SECOND :: nat where "MS_PER_SECOND = 1000"
definition SECONDS_PER_YEAR :: nat where "SECONDS_PER_YEAR = 365 * 24 * 60 * 60"
definition ASERT_HALFLIFE_SECONDS :: nat where "ASERT_HALFLIFE_SECONDS = 2 * 60 * 60"
definition TARGET_GAS_PER_SECOND :: nat where "TARGET_GAS_PER_SECOND = 30000000"
definition DEFERRED_STATE_ROOT_LAG_SECONDS :: nat where "DEFERRED_STATE_ROOT_LAG_SECONDS = 20"
definition PRUNING_WINDOW_SECONDS :: nat where "PRUNING_WINDOW_SECONDS = 24 * 60 * 60"
definition MAX_TX_GAS_LIMIT :: nat where "MAX_TX_GAS_LIMIT = 16777216"
definition GHOSTDAG_K_AT_1_BPS :: nat where "GHOSTDAG_K_AT_1_BPS = 18"
definition GHOSTDAG_K_AT_10_BPS :: nat where "GHOSTDAG_K_AT_10_BPS = 151"
definition MERGESET_SIZE_LIMIT_K_MULTIPLE :: nat where "MERGESET_SIZE_LIMIT_K_MULTIPLE = 10"

lemmas param_consts = CHAIN_ID_def MS_PER_SECOND_def SECONDS_PER_YEAR_def
  ASERT_HALFLIFE_SECONDS_def TARGET_GAS_PER_SECOND_def DEFERRED_STATE_ROOT_LAG_SECONDS_def
  PRUNING_WINDOW_SECONDS_def MAX_TX_GAS_LIMIT_def GHOSTDAG_K_AT_1_BPS_def
  GHOSTDAG_K_AT_10_BPS_def MERGESET_SIZE_LIMIT_K_MULTIPLE_def

text \<open>
  The fields are unsigned integers read as naturals; \<open>params_in_range\<close> states their widths,
  and \<open>derived_fit_u64\<close> below shows that the derived products stay inside \<open>u64\<close>.
\<close>

record chain_params =
  chain_id :: nat
  target_block_interval_ms :: nat
  ghostdag_k :: nat
  asert_halflife_seconds :: nat
  target_gas_per_second :: nat

definition params_in_range :: "chain_params \<Rightarrow> bool" where
  "params_in_range p \<longleftrightarrow> chain_id p < 2 ^ 64 \<and> target_block_interval_ms p < 2 ^ 64
     \<and> ghostdag_k p < 2 ^ 16 \<and> asert_halflife_seconds p < 2 ^ 64
     \<and> target_gas_per_second p < 2 ^ 64"

datatype params_error =
    ZeroBlockInterval
  | IntervalNotDivisor nat
  | GasTargetNotDivisible nat nat
  | ZeroK

definition testnet_1bps :: chain_params where
  "testnet_1bps = \<lparr>chain_id = CHAIN_ID, target_block_interval_ms = MS_PER_SECOND,
     ghostdag_k = GHOSTDAG_K_AT_1_BPS, asert_halflife_seconds = ASERT_HALFLIFE_SECONDS,
     target_gas_per_second = TARGET_GAS_PER_SECOND\<rparr>"

definition testnet_10bps :: chain_params where
  "testnet_10bps = \<lparr>chain_id = CHAIN_ID, target_block_interval_ms = MS_PER_SECOND div 10,
     ghostdag_k = GHOSTDAG_K_AT_10_BPS, asert_halflife_seconds = ASERT_HALFLIFE_SECONDS,
     target_gas_per_second = TARGET_GAS_PER_SECOND\<rparr>"

section \<open>Derived quantities\<close>

definition checked_div :: "nat \<Rightarrow> nat \<Rightarrow> nat option" where
  "checked_div a b = (if b = 0 then None else Some (a div b))"

definition blocks_per_second :: "chain_params \<Rightarrow> nat option" where
  "blocks_per_second p = checked_div MS_PER_SECOND (target_block_interval_ms p)"

definition block_gas_target :: "chain_params \<Rightarrow> nat option" where
  "block_gas_target p =
     (case blocks_per_second p of None \<Rightarrow> None
      | Some bps \<Rightarrow> checked_div (target_gas_per_second p) bps)"

definition block_gas_limit :: "chain_params \<Rightarrow> nat option" where
  "block_gas_limit p =
     (case block_gas_target p of None \<Rightarrow> None
      | Some amortised \<Rightarrow> Some (if amortised > MAX_TX_GAS_LIMIT then amortised else MAX_TX_GAS_LIMIT))"

definition deferred_state_root_lag :: "chain_params \<Rightarrow> nat option" where
  "deferred_state_root_lag p =
     map_option (\<lambda>bps. DEFERRED_STATE_ROOT_LAG_SECONDS * bps) (blocks_per_second p)"

definition pruning_window_blocks :: "chain_params \<Rightarrow> nat option" where
  "pruning_window_blocks p = map_option (\<lambda>bps. PRUNING_WINDOW_SECONDS * bps) (blocks_per_second p)"

definition emission_halflife_blocks :: "chain_params \<Rightarrow> nat option" where
  "emission_halflife_blocks p = map_option (\<lambda>bps. SECONDS_PER_YEAR * bps) (blocks_per_second p)"

definition mergeset_size_limit :: "chain_params \<Rightarrow> nat" where
  "mergeset_size_limit p = MERGESET_SIZE_LIMIT_K_MULTIPLE * ghostdag_k p"

text \<open>\<open>u64::is_multiple_of\<close>: a multiple of zero is zero only, and nothing panics.\<close>

definition is_multiple_of :: "nat \<Rightarrow> nat \<Rightarrow> bool" where
  "is_multiple_of a b = (if b = 0 then a = 0 else a mod b = 0)"

text \<open>
  \<open>validate\<close>, guards in the order of the source. The outer \<open>None\<close> is the panic of
  \<open>blocks_per_second\<close>, which the first guard keeps from happening.
\<close>

definition validate_params :: "chain_params \<Rightarrow> (params_error + unit) option" where
  "validate_params p =
     (if target_block_interval_ms p = 0 then Some (Inl ZeroBlockInterval)
      else if \<not> is_multiple_of MS_PER_SECOND (target_block_interval_ms p)
        then Some (Inl (IntervalNotDivisor (target_block_interval_ms p)))
      else case blocks_per_second p of None \<Rightarrow> None
        | Some bps \<Rightarrow>
            if \<not> is_multiple_of (target_gas_per_second p) bps
              then Some (Inl (GasTargetNotDivisible (target_gas_per_second p) bps))
            else if ghostdag_k p = 0 then Some (Inl ZeroK)
            else Some (Inr ()))"

lemmas derived_defs = blocks_per_second_def block_gas_target_def block_gas_limit_def
  deferred_state_root_lag_def pruning_window_blocks_def emission_halflife_blocks_def
  mergeset_size_limit_def checked_div_def

section \<open>What an accepted configuration guarantees\<close>

lemma validate_params_total: "validate_params p \<noteq> None"
  by (simp add: validate_params_def derived_defs)

lemma validate_params_okD:
  assumes "validate_params p = Some (Inr ())"
  shows "0 < target_block_interval_ms p"
    and "target_block_interval_ms p dvd 1000"
    and "(1000 div target_block_interval_ms p) dvd target_gas_per_second p"
    and "0 < ghostdag_k p"
  using assms
  by (auto simp: validate_params_def derived_defs is_multiple_of_def param_consts
        dvd_eq_mod_eq_0 split: if_splits)

lemma dvd_1000_div: "(d::nat) dvd 1000 \<Longrightarrow> 0 < 1000 div d \<and> 1000 div d \<le> 1000 \<and> 1000 div d * d = 1000"
  by (metis dvd_div_mult_self div_le_dividend dvd_div_eq_0_iff gr0I zero_neq_numeral)


lemma validate_params_okI:
  assumes "0 < target_block_interval_ms p" and "target_block_interval_ms p dvd 1000"
    and "(1000 div target_block_interval_ms p) dvd target_gas_per_second p" and "0 < ghostdag_k p"
  shows "validate_params p = Some (Inr ())"
  using assms dvd_1000_div[of "target_block_interval_ms p"]
  by (simp add: validate_params_def derived_defs is_multiple_of_def param_consts dvd_eq_mod_eq_0)

lemma derived_values:
  assumes "validate_params p = Some (Inr ())" and "bps = 1000 div target_block_interval_ms p"
  shows "blocks_per_second p = Some bps"
    and "block_gas_target p = Some (target_gas_per_second p div bps)"
    and "block_gas_limit p = Some (max (target_gas_per_second p div bps) MAX_TX_GAS_LIMIT)"
    and "deferred_state_root_lag p = Some (20 * bps)"
    and "pruning_window_blocks p = Some (86400 * bps)"
    and "emission_halflife_blocks p = Some (31536000 * bps)"
  using validate_params_okD[OF assms(1)] dvd_1000_div[of "target_block_interval_ms p"] assms(2)
  by (auto simp: derived_defs param_consts max_def)

lemma presets_validate:
  "validate_params testnet_1bps = Some (Inr ())" "validate_params testnet_10bps = Some (Inr ())"
  by (rule validate_params_okI; simp add: testnet_1bps_def testnet_10bps_def param_consts)+

text \<open>
  A configuration that \<open>ChainParams::validate\<close> accepts has exact derivations: the block rate
  times the interval is one second, the per-block gas target times the rate is the advertised
  throughput, no derived quantity panics on a zero divisor, every derived value fits its \<open>u64\<close>,
  and a transaction of the maximal gas limit fits the block limit, which is never below the target.
\<close>

theorem validated_params_exact:
  assumes "validate_params p = Some (Inr ())" and "params_in_range p"
  shows "\<exists>bps tgt lim lag win half.
           blocks_per_second p = Some bps \<and> block_gas_target p = Some tgt \<and>
           block_gas_limit p = Some lim \<and> deferred_state_root_lag p = Some lag \<and>
           pruning_window_blocks p = Some win \<and> emission_halflife_blocks p = Some half \<and>
           bps * target_block_interval_ms p = MS_PER_SECOND \<and>
           tgt * bps = target_gas_per_second p \<and>
           tgt \<le> lim \<and> MAX_TX_GAS_LIMIT \<le> lim \<and>
           lim < 2 ^ 64 \<and> lag < 2 ^ 64 \<and> win < 2 ^ 64 \<and> half < 2 ^ 64 \<and>
           0 < mergeset_size_limit p \<and> mergeset_size_limit p < 2 ^ 64"
proof -
  define bps where "bps = 1000 div target_block_interval_ms p"
  note ok = validate_params_okD[OF assms(1)]
  note vals = derived_values[OF assms(1) bps_def]
  have bps: "0 < bps" "bps \<le> 1000" "bps * target_block_interval_ms p = 1000"
    using dvd_1000_div[OF ok(2)] by (simp_all add: bps_def)
  have tgt: "target_gas_per_second p div bps * bps = target_gas_per_second p"
    using ok(3) by (simp add: bps_def)
  have "target_gas_per_second p < 2 ^ 64"
    using assms(2) unfolding params_in_range_def by blast
  then have "target_gas_per_second p div bps < 2 ^ 64"
    by (rule le_less_trans[OF div_le_dividend])
  then have "max (target_gas_per_second p div bps) MAX_TX_GAS_LIMIT < 2 ^ 64"
    by (simp add: MAX_TX_GAS_LIMIT_def)
  moreover have "mergeset_size_limit p < 2 ^ 64" "0 < mergeset_size_limit p"
    using assms(2) ok(4) by (simp_all add: params_in_range_def mergeset_size_limit_def param_consts)
  ultimately show ?thesis
    using vals bps tgt by (simp add: MS_PER_SECOND_def)
qed

theorem validated_params_exact_witness:
  "\<exists>bps tgt lim. blocks_per_second testnet_10bps = Some bps \<and> block_gas_target testnet_10bps = Some tgt
     \<and> block_gas_limit testnet_10bps = Some lim \<and> bps * 100 = MS_PER_SECOND \<and> tgt * bps = 30000000"
proof -
  have "params_in_range testnet_10bps"
    by (simp add: params_in_range_def testnet_10bps_def param_consts)
  from validated_params_exact[OF presets_validate(2) this] show ?thesis
    by (auto simp: testnet_10bps_def param_consts)
qed

text \<open>
  \<open>ChainParams::validate\<close> accepts exactly the configurations whose interval is a non-zero
  divisor of one second, whose gas target divides by the block rate and whose k is non-zero, and
  it never panics.
\<close>

theorem validate_params_iff:
  "(validate_params p = Some (Inr ()) \<longleftrightarrow>
      0 < target_block_interval_ms p \<and> target_block_interval_ms p dvd 1000 \<and>
      (1000 div target_block_interval_ms p) dvd target_gas_per_second p \<and> 0 < ghostdag_k p)
   \<and> validate_params p \<noteq> None"
  using validate_params_okD[of p] validate_params_okI[of p] validate_params_total[of p] by blast

end
