(* ===== verification/Executor.thy ===== *)
theory Executor
  imports Parallel Execution_Order Params
begin

text \<open>
  The chain executor (\<open>crates/chain/src/executor.rs\<close>): its state, one chain block's execution,
  undo, pruning and reorganisation. A division by zero in the chain parameters is a panic; the
  operations that can reach one return an option, \<open>None\<close> being the panic. The parallel and fallback
  round counters are diagnostic and kept as naturals; heights are \<open>u64\<close>.
\<close>

section \<open>State\<close>

definition INITIAL_BASE_FEE :: u64 where "INITIAL_BASE_FEE = 1000000000"

record 'log chain_outcome =
  o_height :: u64
  o_hash :: block_hash
  o_state_root :: u256
  o_receipts_root :: u256
  o_gas_used :: u64
  o_base_fee :: u64
  o_executed :: nat
  o_deferred :: nat
  o_hashes :: "u256 list"
  o_receipts :: "'log receipt list"
  o_timestamp_secs :: u64
  o_miner :: address

record ('log, 'code) executor =
  e_params :: chain_params
  e_state :: "'code world_state"
  e_results :: "u64 \<rightharpoonup> 'log chain_outcome"
  e_journal :: "(u64 \<times> block_hash \<times> 'code undo_record) list"
  e_parallel_rounds :: nat
  e_fallback_rounds :: nat
  e_parallel :: bool
  e_height :: u64
  e_tip :: block_hash

datatype execution_error =
    UnknownBlock block_hash
  | NothingToUndo block_hash
  | UndoOutOfOrder block_hash block_hash

definition root_of :: "('tx, 'res, 'log, 'code) chain_lib \<Rightarrow> 'code world_state \<Rightarrow> u256" where
  "root_of L s = state_root (empty_root L) (storage_root_unhashed L) (state_root_unhashed L) s"

definition new_executor ::
  "('tx, 'res, 'log, 'code) chain_lib \<Rightarrow> chain_params \<Rightarrow> 'code world_state \<Rightarrow> block_hash \<Rightarrow> ('log, 'code) executor" where
  "new_executor L params genesis_state genesis_hash =
     \<lparr>e_params = params, e_state = genesis_state,
      e_results = [0 \<mapsto> \<lparr>o_height = 0, o_hash = genesis_hash, o_state_root = root_of L genesis_state,
         o_receipts_root = empty_root L, o_gas_used = 0, o_base_fee = INITIAL_BASE_FEE,
         o_executed = 0, o_deferred = 0, o_hashes = [], o_receipts = [], o_timestamp_secs = 0, o_miner = 0\<rparr>],
      e_journal = [], e_parallel_rounds = 0, e_fallback_rounds = 0, e_parallel = False,
      e_height = 0, e_tip = genesis_hash\<rparr>"

definition set_parallel :: "bool \<Rightarrow> ('log, 'code) executor \<Rightarrow> ('log, 'code) executor" where
  "set_parallel b e = e\<lparr>e_parallel := b\<rparr>"

definition parallel_stats :: "('log, 'code) executor \<Rightarrow> nat \<times> nat" where
  "parallel_stats e = (e_parallel_rounds e, e_fallback_rounds e)"

definition result_at :: "('log, 'code) executor \<Rightarrow> u64 \<Rightarrow> 'log chain_outcome option" where
  "result_at e h = e_results e h"

definition deferred_result_for :: "('log, 'code) executor \<Rightarrow> u64 \<Rightarrow> 'log chain_outcome option option" where
  "deferred_result_for e h =
     map_option (\<lambda>lag. e_results e (saturating_sub h (of_nat lag))) (deferred_state_root_lag (e_params e))"

definition next_base_fee ::
  "('tx, 'res, 'log, 'code) chain_lib \<Rightarrow> ('log, 'code) executor \<Rightarrow> u64 \<Rightarrow> u64 option" where
  "next_base_fee L e parent_height =
     (case e_results e parent_height of
        None \<Rightarrow> Some INITIAL_BASE_FEE
      | Some parent \<Rightarrow>
          map_option (\<lambda>target. calc_base_fee L (o_gas_used parent) (saturating_mul (of_nat target) 2) (o_base_fee parent))
            (block_gas_target (e_params e)))"

definition prune_journal :: "u64 \<Rightarrow> ('log, 'code) executor \<Rightarrow> ('log, 'code) executor" where
  "prune_journal below_height e = e\<lparr>e_journal := filter (\<lambda>(h, _, _). h \<ge> below_height) (e_journal e)\<rparr>"

definition journal_len :: "('log, 'code) executor \<Rightarrow> nat" where "journal_len e = length (e_journal e)"

definition journal_entries :: "('log, 'code) executor \<Rightarrow> nat" where
  "journal_entries e = sum_list (map (\<lambda>(_, _, r). record_len r) (e_journal e))"

section \<open>One chain block\<close>

text \<open>Steps 1 to 3: the tagged base sequence, deduplicated, and its canonical order.\<close>

definition tagged_sequence ::
  "('tx, 'res, 'log, 'code) chain_lib \<Rightarrow> dag_store \<Rightarrow> 'tx body_store \<Rightarrow> block_hash \<Rightarrow> (address \<times> 'tx) list" where
  "tagged_sequence L dag bodies b =
     deduplicate
       (concat (map (\<lambda>source.
          let miner = (case dag_header dag source of None \<Rightarrow> 0 | Some h \<Rightarrow> h_miner h)
          in map (\<lambda>tx. (miner, tx)) (body_get bodies source)) (base_sequence dag b)))
       (\<lambda>(_, tx). tx_hash L tx)"

definition canonical_order :: "('tx, 'res, 'log, 'code) chain_lib \<Rightarrow> (address \<times> 'tx) list \<Rightarrow> nat list" where
  "canonical_order L tagged = layer_and_sort (access_set L) (map snd tagged)"

definition run_block ::
  "('tx, 'res, 'log, 'code) chain_lib \<Rightarrow> bool \<Rightarrow> block_ctx \<Rightarrow> u64 \<Rightarrow> (address \<times> 'tx) list \<Rightarrow> 'code world_state \<Rightarrow>
   nat \<Rightarrow> nat \<Rightarrow> ('log, 'code) parallel_state" where
  "run_block L par ctx gas_limit tagged s p f =
     (if par
      then execute_rounds_parallel L ctx gas_limit tagged (canonical_order L tagged)
             (\<lambda>i. access_set L (snd (tagged ! i))) s p f
      else case execute_sequentially L ctx gas_limit tagged (canonical_order L tagged) s of
          (s, b) \<Rightarrow> (s, b, p, f))"

definition execute_chain_block ::
  "('tx, 'res, 'log, 'code) chain_lib \<Rightarrow> dag_store \<Rightarrow> 'tx body_store \<Rightarrow> block_hash \<Rightarrow> ('log, 'code) executor \<Rightarrow>
   ((execution_error + 'log chain_outcome) \<times> ('log, 'code) executor) option" where
  "execute_chain_block L dag bodies b e =
     (case dag_header dag b of
        None \<Rightarrow> Some (Inl (UnknownBlock b), e)
      | Some header \<Rightarrow>
          (case (next_base_fee L e (e_height e), block_gas_limit (e_params e), pruning_window_blocks (e_params e)) of
             (Some base_fee, Some limit, Some window) \<Rightarrow>
               (let height = e_height e + 1; timestamp_secs = h_timestamp_ms header div 1000;
                    tagged = tagged_sequence L dag bodies b;
                    ctx = \<lparr>ctx_height = height, ctx_timestamp_secs = timestamp_secs,
                       ctx_base_fee = base_fee, ctx_gas_limit = of_nat limit, ctx_prevrandao = b\<rparr>
                in case run_block L (e_parallel e) ctx (of_nat limit) tagged (e_state e)
                       (e_parallel_rounds e) (e_fallback_rounds e) of
                  (s, blk, p, f) \<Rightarrow>
                    (let outcome = \<lparr>o_height = height, o_hash = b, o_state_root = root_of L s,
                           o_receipts_root = receipts_root_of L (x_receipts blk), o_gas_used = x_gas_used blk,
                           o_base_fee = base_fee, o_executed = x_executed blk, o_deferred = x_deferred blk,
                           o_hashes = x_hashes blk, o_receipts = x_receipts blk,
                           o_timestamp_secs = timestamp_secs, o_miner = h_miner header\<rparr>;
                         e = e\<lparr>e_state := s, e_parallel_rounds := p, e_fallback_rounds := f,
                           e_journal := e_journal e @ [(height, b, x_undo blk)],
                           e_results := (e_results e)(height \<mapsto> outcome), e_height := height, e_tip := b\<rparr>;
                         e = (if height > of_nat window then prune_journal (height - of_nat window) e else e)
                     in Some (Inr outcome, e)))
           | _ \<Rightarrow> None))"

section \<open>Undo and reorganisation\<close>

definition undo_one :: "block_hash \<Rightarrow> ('log, 'code) executor \<Rightarrow> (execution_error + unit) \<times> ('log, 'code) executor" where
  "undo_one expected e =
     (if e_journal e = [] then (Inl (NothingToUndo expected), e)
      else case last (e_journal e) of
        (height, b, record) \<Rightarrow>
          if b \<noteq> expected then (Inl (UndoOutOfOrder expected b), e)
          else
            let journal = butlast (e_journal e); results = (e_results e)(height := None) in
            (Inr (),
             e\<lparr>e_journal := journal, e_state := apply_record record (e_state e), e_results := results,
               e_height := saturating_sub height 1,
               e_tip := (if journal = [] then case results 0 of None \<Rightarrow> b | Some g \<Rightarrow> o_hash g
                         else case last journal of (_, h, _) \<Rightarrow> h)\<rparr>))"

fun undo_all :: "block_hash list \<Rightarrow> ('log, 'code) executor \<Rightarrow> (execution_error + unit) \<times> ('log, 'code) executor" where
  "undo_all [] e = (Inr (), e)"
| "undo_all (b # bs) e =
     (case undo_one b e of (Inl err, e) \<Rightarrow> (Inl err, e) | (Inr _, e) \<Rightarrow> undo_all bs e)"

fun execute_all ::
  "('tx, 'res, 'log, 'code) chain_lib \<Rightarrow> dag_store \<Rightarrow> 'tx body_store \<Rightarrow> block_hash list \<Rightarrow> 'log chain_outcome list \<Rightarrow>
   ('log, 'code) executor \<Rightarrow> ((execution_error + 'log chain_outcome list) \<times> ('log, 'code) executor) option" where
  "execute_all L dag bodies [] outcomes e = Some (Inr outcomes, e)"
| "execute_all L dag bodies (b # bs) outcomes e =
     (case execute_chain_block L dag bodies b e of
        None \<Rightarrow> None
      | Some (Inl err, e) \<Rightarrow> Some (Inl err, e)
      | Some (Inr o1, e) \<Rightarrow> execute_all L dag bodies bs (outcomes @ [o1]) e)"

definition apply_reorg ::
  "('tx, 'res, 'log, 'code) chain_lib \<Rightarrow> dag_store \<Rightarrow> 'tx body_store \<Rightarrow> block_hash list \<Rightarrow> block_hash list \<Rightarrow>
   ('log, 'code) executor \<Rightarrow> ((execution_error + 'log chain_outcome list) \<times> ('log, 'code) executor) option" where
  "apply_reorg L dag bodies removed_blocks added_blocks e =
     (case undo_all removed_blocks e of
        (Inl err, e) \<Rightarrow> Some (Inl err, e)
      | (Inr _, e) \<Rightarrow> execute_all L dag bodies added_blocks [] e)"

end
