(* ===== verification/Btree_Map.thy ===== *)
theory Btree_Map
  imports Chain_Prelude
begin

text \<open>
  \<open>std::collections::BTreeMap\<close>: an association list in strictly ascending key order, which is also its
  iteration order. \<open>map_of\<close> looks a key up and \<open>AList.delete\<close> removes one, as for hash maps. The
  locale \<open>dictionary\<close> is what the pool and the synchroniser rely on in either kind of map.
\<close>

section \<open>The interface of a map\<close>

locale dictionary =
  fixes ok :: "'m \<Rightarrow> bool" and lookup :: "'m \<Rightarrow> 'k \<rightharpoonup> 'v"
    and put :: "'k \<Rightarrow> 'v \<Rightarrow> 'm \<Rightarrow> 'm" and remove :: "'k \<Rightarrow> 'm \<Rightarrow> 'm" and size_of :: "'m \<Rightarrow> nat"
  assumes put_ok: "ok m \<Longrightarrow> ok (put k v m)"
    and remove_ok: "ok m \<Longrightarrow> ok (remove k m)"
    and lookup_put: "ok m \<Longrightarrow> lookup (put k v m) = (lookup m)(k \<mapsto> v)"
    and lookup_remove: "ok m \<Longrightarrow> lookup (remove k m) = (lookup m)(k := None)"
    and size_dom: "ok m \<Longrightarrow> size_of m = card (dom (lookup m)) \<and> finite (dom (lookup m))"
begin

lemma size_put: "ok m \<Longrightarrow> size_of (put k v m) = (if lookup m k = None then Suc (size_of m) else size_of m)"
  using size_dom[of m] size_dom[OF put_ok, of m k v] by (auto simp: lookup_put card_insert_if insert_absorb domI)

lemma size_remove: "ok m \<Longrightarrow> size_of (remove k m) = (if lookup m k = None then size_of m else size_of m - 1)"
  using size_dom[of m] size_dom[OF remove_ok, of m k] by (auto simp: lookup_remove card_Diff_singleton_if domIff)

lemma size_bounded:
  assumes "ok m" "dom (lookup m) \<subseteq> A" "finite A"
  shows "size_of m \<le> card A"
  using size_dom[OF assms(1)] assms(2,3) by (simp add: card_mono)

lemma fold_remove_ok: "ok m \<Longrightarrow> ok (fold remove ks m)"
  by (induction ks arbitrary: m) (simp_all add: remove_ok)

lemma lookup_fold_remove: "ok m \<Longrightarrow> lookup (fold remove ks m) k = (if k \<in> set ks then None else lookup m k)"
  by (induction ks arbitrary: m) (simp_all add: remove_ok lookup_remove)

end

section \<open>Ordered maps\<close>

type_synonym ('k, 'v) bmap = "('k \<times> 'v) list"

definition bmap_ok :: "('k::linorder, 'v) bmap \<Rightarrow> bool" where
  "bmap_ok m \<longleftrightarrow> sorted_wrt (<) (map fst m)"

definition bmap_insert :: "'k::linorder \<Rightarrow> 'v \<Rightarrow> ('k, 'v) bmap \<Rightarrow> ('k, 'v) bmap" where
  "bmap_insert k v m = filter (\<lambda>e. fst e < k) m @ (k, v) # filter (\<lambda>e. k < fst e) m"

lemma bmap_ok_distinct: "bmap_ok m \<Longrightarrow> distinct (map fst m)"
  by (simp add: bmap_ok_def strict_sorted_iff)

lemma bmap_ok_Nil [simp, intro]: "bmap_ok []" by (simp add: bmap_ok_def)

lemma sorted_wrt_map_filter: "sorted_wrt P (map f xs) \<Longrightarrow> sorted_wrt P (map f (filter q xs))"
  unfolding sorted_wrt_map by (rule sorted_wrt_filter)

lemma bmap_ok_insert: "bmap_ok m \<Longrightarrow> bmap_ok (bmap_insert k v m)"
  by (auto simp: bmap_ok_def bmap_insert_def sorted_wrt_append sorted_wrt_map_filter intro: less_trans)

lemma bmap_ok_delete: "bmap_ok m \<Longrightarrow> bmap_ok (AList.delete k m)"
  unfolding bmap_ok_def AList.delete_eq by (rule sorted_wrt_map_filter)

lemma map_of_filter_keys:
  "distinct (map fst m) \<Longrightarrow> map_of (filter (\<lambda>e. P (fst e)) m) k = (if P k then map_of m k else None)"
  by (induction m) (auto simp: map_of_eq_None_iff)

lemma map_of_bmap_insert: "bmap_ok m \<Longrightarrow> map_of (bmap_insert k v m) = (map_of m)(k \<mapsto> v)"
proof
  fix x
  assume "bmap_ok m"
  then have d: "distinct (map fst m)" by (rule bmap_ok_distinct)
  show "map_of (bmap_insert k v m) x = ((map_of m)(k \<mapsto> v)) x"
    using map_of_filter_keys[OF d, of "\<lambda>a. a < k" x] map_of_filter_keys[OF d, of "\<lambda>a. k < a" x]
    by (auto simp: bmap_insert_def map_add_def not_less split: option.split)
qed

lemma keys_bmap_insert: "bmap_ok m \<Longrightarrow> fst ` set (bmap_insert k v m) = insert k (fst ` set m)"
  by (metis dom_map_of_conv_image_fst map_of_bmap_insert dom_fun_upd option.distinct(1))

lemma dom_map_of_length: "distinct (map fst m) \<Longrightarrow> length m = card (dom (map_of m)) \<and> finite (dom (map_of m))"
  by (simp add: dom_map_of_conv_image_fst distinct_card[symmetric] image_set del: image_set[symmetric])
     (metis distinct_card image_set length_map)

interpretation hmap: dictionary hmap_ok map_of AList.update AList.delete length
  by unfold_locales (auto simp: hmap_ok_def update_conv' delete_conv' dom_map_of_length fun_eq_iff
      distinct_update distinct_delete)

interpretation bmap: dictionary bmap_ok map_of bmap_insert AList.delete length
  by unfold_locales (auto simp: bmap_ok_insert bmap_ok_delete map_of_bmap_insert delete_conv' fun_eq_iff
      dom_map_of_length bmap_ok_distinct)

lemma map_of_mem: "distinct (map fst m) \<Longrightarrow> (k, v) \<in> set m \<longleftrightarrow> map_of m k = Some v"
  using map_of_SomeD map_of_is_SomeI by metis

end
