(* ===== verification/Pool.thy ===== *)
theory Pool
  imports Btree_Map
begin

text \<open>
  The transaction pool (\<open>crates/pool/src/lib.rs\<close>): admission with its errors, replacement, eviction,
  pruning and the order in which a miner takes transactions. The transaction type is third-party;
  its accessors are the fields of \<open>tx_view\<close>, an argument of every operation that uses them.
  Indexing a map with an absent key is a panic, \<open>None\<close> in the result of \<open>pool_add\<close>.
\<close>

section \<open>Transactions and limits\<close>

record 'tx tx_view =
  tv_hash :: "'tx \<Rightarrow> u256"
  tv_signer :: "'tx \<Rightarrow> address"
  tv_nonce :: "'tx \<Rightarrow> u64"
  tv_chain_id :: "'tx \<Rightarrow> u64 option"
  tv_is_blob :: "'tx \<Rightarrow> bool"
  tv_gas_limit :: "'tx \<Rightarrow> u64"
  tv_max_fee :: "'tx \<Rightarrow> 128 word"
  tv_max_priority_fee :: "'tx \<Rightarrow> 128 word option"
  tv_value :: "'tx \<Rightarrow> u256"

record 'tx pooled_tx =
  p_tx :: 'tx
  p_encoded :: "8 word list"
  p_sequence :: u64

definition p_hash :: "'tx tx_view \<Rightarrow> 'tx pooled_tx \<Rightarrow> u256" where "p_hash V p = tv_hash V (p_tx p)"
definition p_sender :: "'tx tx_view \<Rightarrow> 'tx pooled_tx \<Rightarrow> address" where "p_sender V p = tv_signer V (p_tx p)"
definition p_nonce :: "'tx tx_view \<Rightarrow> 'tx pooled_tx \<Rightarrow> u64" where "p_nonce V p = tv_nonce V (p_tx p)"

definition effective_tip :: "'tx tx_view \<Rightarrow> u64 \<Rightarrow> 'tx pooled_tx \<Rightarrow> 128 word" where
  "effective_tip V base_fee p =
     (let max_fee = tv_max_fee V (p_tx p); base = ucast base_fee in
      if max_fee \<le> base then 0
      else min (case tv_max_priority_fee V (p_tx p) of None \<Rightarrow> 0 | Some f \<Rightarrow> f) (max_fee - base))"

text \<open>\<open>TX_GAS_LIMIT_CAP\<close> is the EIP-7825 constant of the library, 2^24.\<close>

definition TX_GAS_LIMIT_CAP :: u64 where "TX_GAS_LIMIT_CAP = 16777216"

record pool_config =
  pc_max_transactions :: nat
  pc_max_per_sender :: nat
  pc_chain_id :: u64
  pc_max_tx_gas_limit :: u64

definition new_pool_config :: "u64 \<Rightarrow> u64 \<Rightarrow> pool_config" where
  "new_pool_config chain block_gas_limit =
     \<lparr>pc_max_transactions = 5000, pc_max_per_sender = 64, pc_chain_id = chain,
      pc_max_tx_gas_limit = (if block_gas_limit < TX_GAS_LIMIT_CAP then block_gas_limit else TX_GAS_LIMIT_CAP)\<rparr>"

section \<open>The pool\<close>

record 'tx tx_pool =
  q_config :: pool_config
  q_by_hash :: "(u256, 'tx pooled_tx) hmap"
  q_by_sender :: "(address, (u64, u256) bmap) bmap"
  q_sequence :: u64

datatype pool_error =
    AlreadyKnown u256
  | WrongChainId "u64 option" u64
  | BlobTransaction u256
  | GasLimitTooHigh u64 u64
  | NonceTooLow u64 u64
  | InsufficientFunds u256 u256
  | TooManyFromSender address nat
  | ReplacementUnderpriced "128 word" "128 word"

definition new_pool :: "pool_config \<Rightarrow> 'tx tx_pool" where
  "new_pool config = \<lparr>q_config = config, q_by_hash = [], q_by_sender = [], q_sequence = 0\<rparr>"

definition pool_len :: "'tx tx_pool \<Rightarrow> nat" where "pool_len q = length (q_by_hash q)"
definition pool_is_empty :: "'tx tx_pool \<Rightarrow> bool" where "pool_is_empty q \<longleftrightarrow> q_by_hash q = []"
definition pool_contains :: "'tx tx_pool \<Rightarrow> u256 \<Rightarrow> bool" where "pool_contains q h \<longleftrightarrow> map_of (q_by_hash q) h \<noteq> None"
definition pool_get :: "'tx tx_pool \<Rightarrow> u256 \<Rightarrow> 'tx pooled_tx option" where "pool_get q h = map_of (q_by_hash q) h"
definition pool_hashes :: "'tx tx_pool \<Rightarrow> u256 list" where "pool_hashes q = sort (map fst (q_by_hash q))"

definition nonces_of :: "'tx tx_pool \<Rightarrow> address \<Rightarrow> (u64, u256) bmap option" where
  "nonces_of q a = map_of (q_by_sender q) a"

definition pool_remove :: "'tx tx_view \<Rightarrow> u256 \<Rightarrow> 'tx tx_pool \<Rightarrow> 'tx pooled_tx option \<times> 'tx tx_pool" where
  "pool_remove V h q =
     (case map_of (q_by_hash q) h of
        None \<Rightarrow> (None, q)
      | Some p \<Rightarrow>
          let q = q\<lparr>q_by_hash := AList.delete h (q_by_hash q)\<rparr> in
          (Some p,
           case map_of (q_by_sender q) (p_sender V p) of
             None \<Rightarrow> q
           | Some nonces \<Rightarrow>
               let nonces = AList.delete (p_nonce V p) nonces in
               q\<lparr>q_by_sender := (if nonces = [] then AList.delete (p_sender V p) (q_by_sender q)
                                 else bmap_insert (p_sender V p) nonces (q_by_sender q))\<rparr>))"

text \<open>\<open>min_by_key\<close> keeps the first of several minimal elements; the key is the tip and the reversed sequence.\<close>

definition cheaper :: "'tx tx_view \<Rightarrow> u64 \<Rightarrow> 'tx pooled_tx \<Rightarrow> 'tx pooled_tx \<Rightarrow> bool" where
  "cheaper V base_fee p best \<longleftrightarrow>
     effective_tip V base_fee p < effective_tip V base_fee best \<or>
     effective_tip V base_fee p = effective_tip V base_fee best \<and> p_sequence best < p_sequence p"

definition worst_of :: "'tx tx_view \<Rightarrow> u64 \<Rightarrow> 'tx pooled_tx list \<Rightarrow> 'tx pooled_tx option" where
  "worst_of V base_fee ps =
     fold (\<lambda>p best. case best of None \<Rightarrow> Some p | Some b \<Rightarrow> if cheaper V base_fee p b then Some p else Some b) ps None"

definition evict_worst :: "'tx tx_view \<Rightarrow> u64 \<Rightarrow> 'tx tx_pool \<Rightarrow> 'tx tx_pool" where
  "evict_worst V base_fee q =
     (case worst_of V base_fee (map snd (q_by_hash q)) of
        None \<Rightarrow> q | Some p \<Rightarrow> snd (pool_remove V (p_hash V p) q))"

definition max_cost :: "'tx tx_view \<Rightarrow> 'tx \<Rightarrow> u256" where
  "max_cost V tx =
     saturating_add (saturating_mul (ucast (tv_max_fee V tx)) (ucast (tv_gas_limit V tx))) (tv_value V tx)"

text \<open>The checks before the pool is touched, in the order of the code.\<close>

definition admission_error :: "'tx tx_view \<Rightarrow> 'tx tx_pool \<Rightarrow> 'tx \<Rightarrow> u64 \<Rightarrow> u256 \<Rightarrow> pool_error option" where
  "admission_error V q tx account_nonce account_balance =
     (let h = tv_hash V tx; config = q_config q in
      if pool_contains q h then Some (AlreadyKnown h)
      else if tv_chain_id V tx \<noteq> Some (pc_chain_id config) then Some (WrongChainId (tv_chain_id V tx) (pc_chain_id config))
      else if tv_is_blob V tx then Some (BlobTransaction h)
      else if tv_gas_limit V tx > pc_max_tx_gas_limit config
        then Some (GasLimitTooHigh (tv_gas_limit V tx) (pc_max_tx_gas_limit config))
      else if tv_nonce V tx < account_nonce then Some (NonceTooLow (tv_nonce V tx) account_nonce)
      else if account_balance < max_cost V tx then Some (InsufficientFunds (max_cost V tx) account_balance)
      else
        let sender = tv_signer V tx;
            nonces = (case nonces_of q sender of None \<Rightarrow> [] | Some ns \<Rightarrow> ns) in
        if map_of nonces (tv_nonce V tx) = None \<and> length nonces \<ge> pc_max_per_sender config
        then Some (TooManyFromSender sender (pc_max_per_sender config)) else None)"

definition replacing :: "'tx tx_view \<Rightarrow> 'tx tx_pool \<Rightarrow> 'tx \<Rightarrow> u256 option" where
  "replacing V q tx =
     (case nonces_of q (tv_signer V tx) of None \<Rightarrow> None | Some nonces \<Rightarrow> map_of nonces (tv_nonce V tx))"

definition pool_insert :: "'tx tx_view \<Rightarrow> 'tx pooled_tx \<Rightarrow> 'tx tx_pool \<Rightarrow> 'tx tx_pool" where
  "pool_insert V p q =
     (let nonces = (case nonces_of q (p_sender V p) of None \<Rightarrow> [] | Some ns \<Rightarrow> ns) in
      q\<lparr>q_by_sender := bmap_insert (p_sender V p) (bmap_insert (p_nonce V p) (p_hash V p) nonces) (q_by_sender q),
        q_by_hash := AList.update (p_hash V p) p (q_by_hash q)\<rparr>)"

definition pool_add ::
  "'tx tx_view \<Rightarrow> 'tx \<Rightarrow> 8 word list \<Rightarrow> u64 \<Rightarrow> u64 \<Rightarrow> u256 \<Rightarrow> 'tx tx_pool \<Rightarrow> ((pool_error + u256) \<times> 'tx tx_pool) option" where
  "pool_add V tx encoded base_fee account_nonce account_balance q =
     (case admission_error V q tx account_nonce account_balance of
        Some err \<Rightarrow> Some (Inl err, q)
      | None \<Rightarrow>
          let q = q\<lparr>q_sequence := q_sequence q + 1\<rparr>;
              p = \<lparr>p_tx = tx, p_encoded = encoded, p_sequence = q_sequence q\<rparr>;
              finish = (\<lambda>q. let q = pool_insert V p q;
                  q = (if pool_len q > pc_max_transactions (q_config q) then evict_worst V base_fee q else q)
                in Some (Inr (tv_hash V tx), q))
          in case replacing V q tx of
               None \<Rightarrow> finish q
             | Some existing_hash \<Rightarrow>
                 (case map_of (q_by_hash q) existing_hash of
                    None \<Rightarrow> None
                  | Some existing \<Rightarrow>
                      if effective_tip V base_fee p \<le> effective_tip V base_fee existing
                      then Some (Inl (ReplacementUnderpriced (effective_tip V base_fee p) (effective_tip V base_fee existing)), q)
                      else finish (snd (pool_remove V existing_hash q))))"

definition pool_prune :: "'tx tx_view \<Rightarrow> (address \<Rightarrow> u64) \<Rightarrow> 'tx tx_pool \<Rightarrow> 'tx tx_pool" where
  "pool_prune V account_nonces q =
     (let stale = map (p_hash V) (filter (\<lambda>p. p_nonce V p < account_nonces (p_sender V p)) (map snd (q_by_hash q)))
      in fold (\<lambda>h q. snd (pool_remove V h q)) stale q)"

section \<open>What a miner takes\<close>

definition better :: "'tx tx_view \<Rightarrow> u64 \<Rightarrow> 'tx pooled_tx \<Rightarrow> 'tx pooled_tx \<Rightarrow> bool" where
  "better V base_fee candidate current \<longleftrightarrow>
     (let a = effective_tip V base_fee candidate; b = effective_tip V base_fee current in
      a > b \<or> a = b \<and> p_sequence candidate < p_sequence current)"

text \<open>A sender's next candidate after \<open>skip\<close> of its transactions have been taken.\<close>

definition next_of :: "'tx tx_pool \<Rightarrow> (address, nat) hmap \<Rightarrow> address \<times> (u64, u256) bmap \<Rightarrow> 'tx pooled_tx option" where
  "next_of q taken entry =
     (case entry of (sender, nonces) \<Rightarrow>
        let skip = (case map_of taken sender of None \<Rightarrow> 0 | Some n \<Rightarrow> n) in
        if skip < length nonces then map_of (q_by_hash q) (snd (nonces ! skip)) else None)"

definition weigh ::
  "'tx tx_view \<Rightarrow> u64 \<Rightarrow> 'tx tx_pool \<Rightarrow> (address, nat) hmap \<Rightarrow> nat \<times> address \<times> (u64, u256) bmap \<Rightarrow>
   ('tx pooled_tx \<times> nat) option \<Rightarrow> ('tx pooled_tx \<times> nat) option" where
  "weigh V base_fee q taken indexed best =
     (case next_of q taken (snd indexed) of
        None \<Rightarrow> best
      | Some candidate \<Rightarrow>
          (case best of
             None \<Rightarrow> Some (candidate, fst indexed)
           | Some (current, i) \<Rightarrow>
               if better V base_fee candidate current then Some (candidate, fst indexed) else best))"

function best_loop ::
  "'tx tx_view \<Rightarrow> u64 \<Rightarrow> 'tx tx_pool \<Rightarrow> nat \<Rightarrow> (address, nat) hmap \<Rightarrow> 'tx pooled_tx list \<Rightarrow> 'tx pooled_tx list" where
  "best_loop V base_fee q limit taken out =
     (if length out < limit then
        (case fold (weigh V base_fee q taken) (enumerate 0 (q_by_sender q)) None of
           None \<Rightarrow> out
         | Some (chosen, index) \<Rightarrow>
             let sender = fst (q_by_sender q ! index);
                 n = (case map_of taken sender of None \<Rightarrow> 0 | Some n \<Rightarrow> n)
             in best_loop V base_fee q limit (AList.update sender (n + 1) taken) (out @ [chosen]))
      else out)"
  by pat_completeness auto
termination
  by (relation "measure (\<lambda>(V, base_fee, q, limit, taken, out). limit - length out)") auto

declare best_loop.simps [simp del]

definition best_transactions :: "'tx tx_view \<Rightarrow> u64 \<Rightarrow> nat \<Rightarrow> 'tx tx_pool \<Rightarrow> 'tx pooled_tx list" where
  "best_transactions V base_fee limit q = best_loop V base_fee q limit [] []"

end
