(* ===== verification/Node.thy ===== *)
theory Node
  imports Executor Pool
begin

text \<open>
  The node state and the operations on it (\<open>crates/rpc/src/backend.rs\<close>): a transaction submitted to the
  pool, a block added to the DAG and execution brought up to the new selected chain, and what the
  node answers about receipts, balances and nonces. The coarse lock makes every operation one
  step. As in the executor, \<open>None\<close> is a panic. Decoding an envelope and recovering its signer are
  third-party functions, the record \<open>raw_lib\<close>.
\<close>

section \<open>State\<close>

record ('env, 'tx) raw_lib =
  decode_2718 :: "8 word list \<Rightarrow> string + 'env"
  recover_signer :: "'env \<Rightarrow> string + address"
  new_recovered :: "'env \<Rightarrow> address \<Rightarrow> 'tx"

record tx_location =
  l_height :: u64
  l_chain_block :: block_hash
  l_index :: nat

record ('tx, 'log, 'code) node_state =
  n_params :: chain_params
  n_dag :: dag_store
  n_bodies :: "'tx body_store"
  n_executor :: "('log, 'code) executor"
  n_pool :: "'tx tx_pool"
  n_tx_index :: "(u256, tx_location) hmap"
  n_tx_bytes :: "(u256, 8 word list) hmap"

datatype backend_error =
    DecodeError string
  | RecoveryError string
  | PoolRefused pool_error
  | DagRefused dag_error
  | ExecutionFailed execution_error

definition new_backend ::
  "(header \<Rightarrow> block_hash) \<Rightarrow> ('tx, 'res, 'log, 'code) chain_lib \<Rightarrow> chain_params \<Rightarrow> header \<Rightarrow> 'code world_state \<Rightarrow> nat \<Rightarrow>
   ('tx, 'log, 'code) node_state option" where
  "new_backend hash L params genesis genesis_state k =
     (case block_gas_limit params of
        None \<Rightarrow> None
      | Some gas_limit \<Rightarrow>
          Some \<lparr>n_params = params,
                n_dag = new_dag hash genesis k (mergeset_size_limit params),
                n_bodies = [],
                n_executor = new_executor L params genesis_state (hash genesis),
                n_pool = new_pool (new_pool_config (of_nat (chain_id params)) (of_nat gas_limit)),
                n_tx_index = [], n_tx_bytes = []\<rparr>)"

section \<open>Following the selected chain\<close>

text \<open>
  The loop over \<open>reorg.removed\<close> before the index is filtered computes a height and drops it; it has no
  effect and no counterpart here.
\<close>

definition index_outcome :: "'log chain_outcome \<Rightarrow> (u256, tx_location) hmap \<Rightarrow> (u256, tx_location) hmap" where
  "index_outcome out idx =
     fold (\<lambda>(i, h). AList.update h \<lparr>l_height = o_height out, l_chain_block = o_hash out, l_index = i\<rparr>)
       (enumerate 0 (o_hashes out)) idx"

definition drop_removed :: "block_hash list \<Rightarrow> (u256, tx_location) hmap \<Rightarrow> (u256, tx_location) hmap" where
  "drop_removed removed_blocks idx = filter (\<lambda>(_, location). l_chain_block location \<notin> set removed_blocks) idx"

definition sender_nonces :: "'tx tx_view \<Rightarrow> 'code world_state \<Rightarrow> 'tx tx_pool \<Rightarrow> (address, u64) hmap" where
  "sender_nonces V s q =
     fold (\<lambda>a. AList.update a (nonce s a))
       (List.map_filter (\<lambda>h. map_option (p_sender V) (pool_get q h)) (pool_hashes q)) []"

definition refresh_pool :: "'tx tx_view \<Rightarrow> 'code world_state \<Rightarrow> 'log chain_outcome list \<Rightarrow> 'tx tx_pool \<Rightarrow> 'tx tx_pool" where
  "refresh_pool V s outcomes q =
     (let executed = concat (map o_hashes outcomes);
          q = fold (\<lambda>h q. snd (pool_remove V h q)) executed q;
          nonces = sender_nonces V s q
      in pool_prune V (\<lambda>a. case map_of nonces a of None \<Rightarrow> 0 | Some n \<Rightarrow> n) q)"

definition advance ::
  "('tx, 'res, 'log, 'code) chain_lib \<Rightarrow> 'tx tx_view \<Rightarrow> ('tx, 'log, 'code) node_state \<Rightarrow>
   ((backend_error + 'log chain_outcome list) \<times> ('tx, 'log, 'code) node_state) option" where
  "advance L V st =
     (let new_tip = virtual_selected_parent (n_dag st); old_tip = e_tip (n_executor st) in
      if new_tip = old_tip then Some (Inr [], st)
      else
        let reorg = compute_reorg (n_dag st) old_tip new_tip;
            st = st\<lparr>n_tx_index := drop_removed (removed reorg) (n_tx_index st)\<rparr>
        in case apply_reorg L (n_dag st) (n_bodies st) (removed reorg) (added reorg) (n_executor st) of
             None \<Rightarrow> None
           | Some (Inl err, e) \<Rightarrow> Some (Inl (ExecutionFailed err), st\<lparr>n_executor := e\<rparr>)
           | Some (Inr outcomes, e) \<Rightarrow>
               Some (Inr outcomes,
                 st\<lparr>n_executor := e, n_tx_index := fold index_outcome outcomes (n_tx_index st),
                    n_pool := refresh_pool V (e_state e) outcomes (n_pool st)\<rparr>))"

definition backend_add_block ::
  "(header \<Rightarrow> block_hash) \<Rightarrow> ('tx, 'res, 'log, 'code) chain_lib \<Rightarrow> 'tx tx_view \<Rightarrow> header \<Rightarrow> 'tx list \<Rightarrow> 8 word list list \<Rightarrow>
   ('tx, 'log, 'code) node_state \<Rightarrow> ((backend_error + 'log chain_outcome list) \<times> ('tx, 'log, 'code) node_state) option" where
  "backend_add_block hash L V h transactions encoded st =
     (case add_block hash (n_dag st) h of
        (Inl err, dag) \<Rightarrow> Some (Inl (DagRefused err), st\<lparr>n_dag := dag\<rparr>)
      | (Inr _, dag) \<Rightarrow>
          advance L V
            (st\<lparr>n_dag := dag,
                n_tx_bytes := fold (\<lambda>(tx, bytes). AList.update (tv_hash V tx) bytes) (zip transactions encoded) (n_tx_bytes st),
                n_bodies := body_insert (hash h) transactions (n_bodies st)\<rparr>))"

section \<open>Submission and queries\<close>

definition backend_height :: "('tx, 'log, 'code) node_state \<Rightarrow> u64" where
  "backend_height st = e_height (n_executor st)"

definition backend_next_base_fee :: "('tx, 'res, 'log, 'code) chain_lib \<Rightarrow> ('tx, 'log, 'code) node_state \<Rightarrow> u64 option" where
  "backend_next_base_fee L st = next_base_fee L (n_executor st) (e_height (n_executor st))"

definition submit_raw ::
  "('env, 'tx) raw_lib \<Rightarrow> ('tx, 'res, 'log, 'code) chain_lib \<Rightarrow> 'tx tx_view \<Rightarrow> 8 word list \<Rightarrow> ('tx, 'log, 'code) node_state \<Rightarrow>
   ((backend_error + u256) \<times> ('tx, 'log, 'code) node_state) option" where
  "submit_raw R L V encoded st =
     (case decode_2718 R encoded of
        Inl e \<Rightarrow> Some (Inl (DecodeError e), st)
      | Inr envelope \<Rightarrow>
          (case recover_signer R envelope of
             Inl e \<Rightarrow> Some (Inl (RecoveryError e), st)
           | Inr signer \<Rightarrow>
               (case backend_next_base_fee L st of
                  None \<Rightarrow> None
                | Some base_fee \<Rightarrow>
                    (case pool_add V (new_recovered R envelope signer) encoded base_fee
                        (nonce (e_state (n_executor st)) signer) (balance (e_state (n_executor st)) signer) (n_pool st) of
                       None \<Rightarrow> None
                     | Some (Inl err, q) \<Rightarrow> Some (Inl (PoolRefused err), st\<lparr>n_pool := q\<rparr>)
                     | Some (Inr h, q) \<Rightarrow>
                         Some (Inr h, st\<lparr>n_pool := q, n_tx_bytes := AList.update h encoded (n_tx_bytes st)\<rparr>)))))"

definition backend_receipt ::
  "('tx, 'log, 'code) node_state \<Rightarrow> u256 \<Rightarrow> (tx_location \<times> 'log receipt \<times> 'log chain_outcome) option" where
  "backend_receipt st h =
     (case map_of (n_tx_index st) h of
        None \<Rightarrow> None
      | Some location \<Rightarrow>
          (case result_at (n_executor st) (l_height location) of
             None \<Rightarrow> None
           | Some outcome \<Rightarrow>
               if l_index location < length (o_receipts outcome)
               then Some (location, o_receipts outcome ! l_index location, outcome) else None))"

definition backend_balance :: "('tx, 'log, 'code) node_state \<Rightarrow> address \<Rightarrow> u256" where
  "backend_balance st a = balance (e_state (n_executor st)) a"

definition backend_nonce :: "('tx, 'log, 'code) node_state \<Rightarrow> address \<Rightarrow> u64" where
  "backend_nonce st a = nonce (e_state (n_executor st)) a"

definition pending_nonce :: "'tx tx_view \<Rightarrow> ('tx, 'log, 'code) node_state \<Rightarrow> address \<Rightarrow> u64" where
  "pending_nonce V st a =
     (let base = nonce (e_state (n_executor st)) a;
          queued = map (p_nonce V) (filter (\<lambda>p. p_sender V p = a) (List.map_filter (pool_get (n_pool st)) (pool_hashes (n_pool st))))
      in case queued of
           [] \<Rightarrow> base
         | n # ns \<Rightarrow> let highest = foldl max n ns in if highest \<ge> base then highest + 1 else base)"

end
