(* ===== verification/Asert.thy ===== *)
theory Asert
  imports Compact
begin

text \<open>
  ASERT difficulty retargeting (\<open>crates/difficulty/src/asert.rs\<close>). The \<open>i128\<close> arithmetic is on
  integers, with \<open>i128_ok\<close> stating that no intermediate leaves the 128-bit range; the scaling is
  on 512-bit words as in the code. A zero half-life makes the division panic, which is \<open>None\<close>.
\<close>

section \<open>The retarget rule\<close>

type_synonym u512 = "512 word"

definition RADIX_BITS :: nat where "RADIX_BITS = 16"
definition RADIX :: int where "RADIX = 65536"
definition CUBIC_C1 :: int where "CUBIC_C1 = 195766423245049"
definition CUBIC_C2 :: int where "CUBIC_C2 = 971821376"
definition CUBIC_C3 :: int where "CUBIC_C3 = 5127"
definition CUBIC_ROUND :: int where "CUBIC_ROUND = 140737488355328"
definition CUBIC_SHIFT :: nat where "CUBIC_SHIFT = 48"
definition MAX_HALFLIVES :: int where "MAX_HALFLIVES = 16"

lemmas asert_consts = RADIX_BITS_def RADIX_def CUBIC_C1_def CUBIC_C2_def CUBIC_C3_def
  CUBIC_ROUND_def CUBIC_SHIFT_def MAX_HALFLIVES_def

record asert_params =
  ideal_block_time_secs :: int
  halflife_secs :: int
  pow_limit :: u256

text \<open>\<open>i128::clamp\<close>.\<close>

definition clamp :: "int \<Rightarrow> int \<Rightarrow> int \<Rightarrow> int" where
  "clamp x lo hi = (if x < lo then lo else if x > hi then hi else x)"

definition drift :: "asert_params \<Rightarrow> nat \<Rightarrow> int \<Rightarrow> int" where
  "drift p height_from_anchor secs_from_anchor =
     secs_from_anchor - ideal_block_time_secs p * int height_from_anchor"

definition clamped_exponent :: "asert_params \<Rightarrow> nat \<Rightarrow> int \<Rightarrow> int" where
  "clamped_exponent p height_from_anchor secs_from_anchor =
     clamp (trunc_div (drift p height_from_anchor secs_from_anchor * RADIX) (halflife_secs p))
       (- MAX_HALFLIVES * RADIX) (MAX_HALFLIVES * RADIX)"

text \<open>\<open>2^frac\<close> in 16-bit fixed point; \<open>>>\<close> on \<open>i128\<close> is the flooring shift.\<close>

definition factor_of :: "int \<Rightarrow> int" where
  "factor_of frac = RADIX +
     ((CUBIC_C1 * frac + CUBIC_C2 * frac * frac + CUBIC_C3 * frac * frac * frac + CUBIC_ROUND)
        div 2 ^ CUBIC_SHIFT)"

definition scale512 :: "u256 \<Rightarrow> int \<Rightarrow> int \<Rightarrow> u512" where
  "scale512 anchor_target factor shifts =
     (let anchor = (ucast anchor_target :: u512);
          next = anchor * of_int factor;
          next = (if shifts \<ge> 0 then push_bit (nat shifts) next else drop_bit (nat (- shifts)) next)
      in drop_bit RADIX_BITS next)"

definition next_target :: "asert_params \<Rightarrow> u256 \<Rightarrow> nat \<Rightarrow> int \<Rightarrow> compact_target option" where
  "next_target p anchor_target height_from_anchor secs_from_anchor =
     (if halflife_secs p = 0 then None
      else
        (let clamped = clamped_exponent p height_from_anchor secs_from_anchor;
             shifts = clamped div 2 ^ RADIX_BITS;
             frac = clamped - shifts * 2 ^ RADIX_BITS;
             next = scale512 anchor_target (factor_of frac) shifts;
             limit = (ucast (pow_limit p) :: u512);
             next = (if next > limit then pow_limit p else ucast next);
             next = (if next = 0 then 1 else next)
         in Some (from_target next)))"

section \<open>The fixed-point factor\<close>

lemma factor_mono: "0 \<le> a \<Longrightarrow> a \<le> b \<Longrightarrow> factor_of a \<le> factor_of b"
  unfolding factor_of_def asert_consts
  by (intro add_left_mono zdiv_mono1 add_mono mult_mono) auto

lemma factor_range: "0 \<le> f \<Longrightarrow> f < RADIX \<Longrightarrow> RADIX \<le> factor_of f \<and> factor_of f \<le> 2 * RADIX"
proof -
  assume f: "0 \<le> f" "f < RADIX"
  have "factor_of 0 \<le> factor_of f" using f by (intro factor_mono) auto
  moreover have "factor_of f \<le> factor_of 65535" using f by (intro factor_mono) (auto simp: RADIX_def)
  moreover have "factor_of 0 = RADIX" by (simp add: factor_of_def asert_consts)
  moreover have "factor_of 65535 \<le> 2 * RADIX" by (simp add: factor_of_def asert_consts)
  ultimately show ?thesis by linarith
qed

lemma factor_0 [simp]: "factor_of 0 = RADIX"
  by (simp add: factor_of_def asert_consts)

section \<open>The scaling on naturals\<close>

text \<open>The multiplier \<open>2^(exponent) * 2^32\<close> that the clamped exponent stands for.\<close>

definition multiplier :: "int \<Rightarrow> nat" where
  "multiplier c = nat (factor_of (c mod 65536)) * 2 ^ nat (c div 65536 + 16)"

lemma unat_scale512:
  assumes f: "0 \<le> f" "f \<le> 2 * RADIX" and sh: "-16 \<le> sh" "sh \<le> 16"
  shows "unat (scale512 a f sh) = (unat a * (nat f * 2 ^ nat (sh + 16))) div 2 ^ 32"
proof -
  define A F where "A = unat a" and "F = nat f"
  have A: "A < 2 ^ 256" unfolding A_def using unsigned_less[of a] by simp
  have F: "F \<le> 2 ^ 17" using f by (simp add: F_def RADIX_def)
  have AF: "A * F < 2 ^ 280"
  proof -
    have "A * F \<le> 2 ^ 256 * 2 ^ 17" using A F by (intro mult_le_mono) auto
    then show ?thesis by simp
  qed
  have ua: "unat (ucast a :: u512) = A"
    using A by (simp add: unsigned_ucast_eq take_bit_eq_mod A_def)
  have "(of_int f :: u512) = of_nat F" using f by (simp add: F_def)
  moreover have "unat (of_nat F :: u512) = F" using F by (simp add: unat_of_nat)
  ultimately have uf: "unat (of_int f :: u512) = F" by simp
  have prod: "unat (ucast a * of_int f :: u512) = A * F"
    using AF by (subst unat_word_ariths) (simp add: ua uf)
  show ?thesis
  proof (cases "0 \<le> sh")
    case True
    define s where "s = nat sh"
    have s: "s \<le> 16" using sh by (simp add: s_def)
    have "A * F * 2 ^ s \<le> 2 ^ 280 * 2 ^ 16"
      using AF s by (intro mult_le_mono power_increasing) auto
    then have "A * F * 2 ^ s < 2 ^ LENGTH(512)" by simp
    then have "unat (push_bit s (ucast a * of_int f :: u512)) = A * F * 2 ^ s"
      by (subst unat_push_bit) (simp_all add: prod)
    then have "unat (scale512 a f sh) = A * F * 2 ^ s div 2 ^ 16"
      using True by (simp add: scale512_def Let_def s_def RADIX_BITS_def Chain_Prelude.unat_drop_bit)
    also have "\<dots> = (A * F * 2 ^ s * 2 ^ 16) div (2 ^ 16 * 2 ^ 16)" by simp
    also have "\<dots> = (A * (F * 2 ^ (s + 16))) div 2 ^ 32" by (simp add: power_add mult_ac)
    also have "s + 16 = nat (sh + 16)" using True by (simp add: s_def nat_add_distrib)
    finally show ?thesis by (simp add: A_def F_def)
  next
    case False
    define s where "s = nat (- sh)"
    have s: "s \<le> 16" "nat (sh + 16) = 16 - s" using sh False by (simp_all add: s_def)
    have "scale512 a f sh = drop_bit 16 (drop_bit s (ucast a * of_int f))"
      using False by (simp add: scale512_def Let_def s_def RADIX_BITS_def)
    then have "unat (scale512 a f sh) = A * F div 2 ^ s div 2 ^ 16"
      by (simp only: Chain_Prelude.unat_drop_bit prod)
    also have "\<dots> = A * F div (2 ^ s * 2 ^ 16)" by (simp only: div_mult2_eq)
    also have "\<dots> = (A * F * 2 ^ (16 - s)) div (2 ^ s * 2 ^ 16 * 2 ^ (16 - s))" by simp
    also have "2 ^ s * 2 ^ 16 * 2 ^ (16 - s) = (2::nat) ^ 32"
    proof -
      have "s + 16 + (16 - s) = 32" using s by simp
      then show ?thesis by (metis power_add)
    qed
    finally show ?thesis by (simp add: A_def F_def s(2) mult_ac)
  qed
qed

lemma clamp_range: "lo \<le> hi \<Longrightarrow> lo \<le> clamp x lo hi \<and> clamp x lo hi \<le> hi"
  by (simp add: clamp_def)

lemma clamped_range: "- 1048576 \<le> clamped_exponent p h s \<and> clamped_exponent p h s \<le> 1048576"
  using clamp_range[of "- 1048576" 1048576] by (simp add: clamped_exponent_def asert_consts)

lemma next_target_nat:
  fixes a :: u256 and h :: nat and s :: int
  assumes "halflife_secs p \<noteq> 0"
  defines "N \<equiv> unat a * multiplier (clamped_exponent p h s) div 2 ^ 32"
  shows "\<exists>t. next_target p a h s = Some (from_target t) \<and> unat t = max 1 (min N (unat (pow_limit p)))"
proof -
  define c where "c = clamped_exponent p h s"
  define sh fr where "sh = c div 2 ^ RADIX_BITS" and "fr = c - sh * 2 ^ RADIX_BITS"
  have cr: "- 1048576 \<le> c" "c \<le> 1048576" using clamped_range by (simp_all add: c_def)
  have sh: "sh = c div 65536" "-16 \<le> sh" "sh \<le> 16"
    using cr zdiv_mono1[of "- 1048576" c 65536] zdiv_mono1[of c 1048576 65536]
    by (simp_all add: sh_def RADIX_BITS_def)
  have fr: "fr = c mod 65536" by (simp add: fr_def sh_def RADIX_BITS_def minus_div_mult_eq_mod)
  have "0 \<le> fr" "fr < RADIX" by (simp_all add: fr RADIX_def)
  then have fac: "RADIX \<le> factor_of fr" "factor_of fr \<le> 2 * RADIX" using factor_range by auto
  then have "0 \<le> factor_of fr" by (simp add: RADIX_def)
  define w where "w = scale512 a (factor_of fr) sh"
  have w: "unat w = N"
    unfolding w_def unat_scale512[OF \<open>0 \<le> factor_of fr\<close> fac(2) sh(2,3)]
    by (simp add: N_def multiplier_def fr sh(1) c_def)
  define lim where "lim = pow_limit p"
  have "unat lim < 2 ^ 256" using unsigned_less[of lim] by simp
  then have ul: "unat (ucast lim :: u512) = unat lim"
    by (simp add: unsigned_ucast_eq take_bit_eq_mod)
  define t where "t = (if w > ucast lim then lim else ucast w)"
  have t: "unat t = min N (unat lim)"
  proof (cases "w > ucast lim")
    case True
    then show ?thesis using ul w by (simp add: t_def word_less_nat_alt)
  next
    case False
    then have le: "N \<le> unat lim" using ul w by (simp add: word_less_nat_alt)
    also have "\<dots> < 2 ^ 256" using unsigned_less[of lim] by simp
    finally have "unat (ucast w :: u256) = N"
      using w by (simp add: unsigned_ucast_eq take_bit_eq_mod)
    then show ?thesis using False le by (simp add: t_def)
  qed
  have eq: "next_target p a h s = Some (from_target (if t = 0 then 1 else t))"
    using assms(1)
    by (simp only: next_target_def Let_def t_def w_def lim_def fr_def sh_def c_def if_False simp_thms)
  have "unat (if t = 0 then 1 else t) = max 1 (min N (unat lim))"
    using t unat_gt_0[of t] by (cases "t = 0") (auto simp: max_def)
  then show ?thesis using eq by (auto simp: lim_def)
qed

section \<open>The clamped exponent as a multiplier\<close>

lemma multiplier_mono:
  assumes "- 1048576 \<le> c" and "c \<le> d"
  shows "multiplier c \<le> multiplier d"
proof -
  define i j where "i = nat (c div 65536 + 16)" and "j = nat (d div 65536 + 16)"
  define F G where "F = nat (factor_of (c mod 65536))" and "G = nat (factor_of (d mod 65536))"
  have r: "RADIX \<le> factor_of (x mod 65536)" "factor_of (x mod 65536) \<le> 2 * RADIX" for x
    using factor_range[of "x mod 65536"] by (simp_all add: RADIX_def)
  have cd: "c div 65536 \<le> d div 65536" using assms(2) by (rule zdiv_mono1) simp
  have lo: "-16 \<le> c div 65536" using zdiv_mono1[OF assms(1), of 65536] by simp
  show ?thesis
  proof (cases "c div 65536 = d div 65536")
    case True
    then have "c mod 65536 \<le> d mod 65536"
      using assms(2) by (metis add_le_cancel_left mult_div_mod_eq)
    then have "F \<le> G" by (simp add: F_def G_def factor_mono nat_mono)
    then show ?thesis using True by (simp add: multiplier_def F_def G_def)
  next
    case False
    then have "Suc i \<le> j" using cd lo by (simp add: i_def j_def)
    have "F \<le> 2 * 65536" "65536 \<le> G" using r(2)[of c] r(1)[of d] by (simp_all add: F_def G_def RADIX_def nat_le_iff le_nat_iff)
    then have "F * 2 ^ i \<le> G * 2 ^ Suc i" by (simp add: mult_le_mono)
    also have "\<dots> \<le> G * 2 ^ j" using \<open>Suc i \<le> j\<close> by (intro mult_le_mono2 power_increasing) auto
    finally show ?thesis by (simp add: multiplier_def F_def G_def i_def j_def)
  qed
qed

lemma clamped_mono:
  assumes "0 < halflife_secs p" and "s \<le> s'"
  shows "clamped_exponent p h s \<le> clamped_exponent p h s'"
proof -
  have "trunc_div (drift p h s * RADIX) (halflife_secs p) \<le> trunc_div (drift p h s' * RADIX) (halflife_secs p)"
    using assms by (intro trunc_div_mono) (simp_all add: drift_def RADIX_def)
  then show ?thesis by (simp add: clamped_exponent_def clamp_def asert_consts)
qed

lemma clamped_whole:
  assumes "0 < halflife_secs p" and "\<bar>m\<bar> \<le> 16"
    and "s = ideal_block_time_secs p * int h + m * halflife_secs p"
  shows "clamped_exponent p h s = m * 65536"
proof -
  have d: "drift p h s * RADIX = (m * 65536) * halflife_secs p"
    using assms(3) by (simp add: drift_def RADIX_def)
  have tr: "trunc_div ((m * 65536) * halflife_secs p) (halflife_secs p) = m * 65536"
  proof (cases "0 \<le> m")
    case True
    then show ?thesis using assms(1) by (simp add: trunc_div_nonneg)
  next
    case False
    have "trunc_div ((m * 65536) * halflife_secs p) (halflife_secs p)
      = - (((- m * 65536) * halflife_secs p) div halflife_secs p)"
      using assms(1) False by (subst trunc_div_neg) (simp_all add: mult_neg_pos)
    also have "(- m * 65536) * halflife_secs p div halflife_secs p = - m * 65536"
      using assms(1) by (intro nonzero_mult_div_cancel_right) simp
    finally show ?thesis by simp
  qed
  show ?thesis
    unfolding clamped_exponent_def d tr using assms(2) by (auto simp: clamp_def asert_consts)
qed

lemma multiplier_whole: "\<bar>m\<bar> \<le> 16 \<Longrightarrow> multiplier (m * 65536) = 2 ^ nat (m + 32)"
proof -
  assume m: "\<bar>m\<bar> \<le> 16"
  have "nat (m + 32) = 16 + nat (m + 16)" using m by (simp add: nat_add_distrib[symmetric])
  then show ?thesis by (simp add: multiplier_def RADIX_def power_add)
qed

lemma next_target_in_range:
  assumes "halflife_secs p \<noteq> 0" and "pow_limit p \<noteq> 0"
  shows "\<exists>bits d. next_target p a h s = Some bits \<and> to_target bits = Inr d \<and> d \<noteq> 0 \<and> d \<le> pow_limit p"
proof -
  obtain t where t: "next_target p a h s = Some (from_target t)"
    "unat t = max 1 (min (unat a * multiplier (clamped_exponent p h s) div 2 ^ 32) (unat (pow_limit p)))"
    using next_target_nat[OF assms(1)] by blast
  have "1 \<le> unat (pow_limit p)" using assms(2) by (simp add: unat_gt_0 Suc_leI)
  then have "t \<le> pow_limit p" using t(2) by (simp add: word_le_nat_alt)
  moreover have "t \<noteq> 0" using t(2) by auto
  then obtain d where "to_target (from_target t) = Inr d" "d \<noteq> 0" "d \<le> t"
    using to_target_from_target[of t] rounded_le[of "unat t"] rounded_pos[of "unat t"]
    by (metis less_irrefl unat_0 unat_gt_0 word_le_nat_alt)
  ultimately show ?thesis using t(1) by (meson order_trans)
qed



text \<open>
  The rule responds in the right direction: for the same anchor and height, a later timestamp
  never gives a harder target, through the cubic, the shift, the clamps and the compact encoding.
\<close>

theorem next_target_mono:
  assumes "0 < halflife_secs p" and "s \<le> s'"
  shows "\<exists>b b' d d'. next_target p a h s = Some b \<and> next_target p a h s' = Some b' \<and>
           to_target b = Inr d \<and> to_target b' = Inr d' \<and> d \<le> d'"
proof -
  have hl: "halflife_secs p \<noteq> 0" using assms(1) by simp
  obtain t where t: "next_target p a h s = Some (from_target t)"
    "unat t = max 1 (min (unat a * multiplier (clamped_exponent p h s) div 2 ^ 32) (unat (pow_limit p)))"
    using next_target_nat[OF hl] by blast
  obtain t' where t': "next_target p a h s' = Some (from_target t')"
    "unat t' = max 1 (min (unat a * multiplier (clamped_exponent p h s') div 2 ^ 32) (unat (pow_limit p)))"
    using next_target_nat[OF hl] by blast
  have "multiplier (clamped_exponent p h s) \<le> multiplier (clamped_exponent p h s')"
    using clamped_range[of p h s] clamped_mono[OF assms] by (intro multiplier_mono) auto
  then have "unat a * multiplier (clamped_exponent p h s) div 2 ^ 32
    \<le> unat a * multiplier (clamped_exponent p h s') div 2 ^ 32" by (intro div_le_mono mult_le_mono2)
  then have le: "unat t \<le> unat t'" unfolding t(2) t'(2) by (intro max.mono min.mono) auto
  have nz: "t \<noteq> 0" "t' \<noteq> 0" using t(2) t'(2) by auto
  have "rounded (unat t) \<le> rounded (unat t')"
    using le nz by (intro rounded_mono) (simp_all add: unat_gt_0)
  then show ?thesis
    using t(1) t'(1) to_target_from_target[OF nz(1)] to_target_from_target[OF nz(2)]
    by (simp add: word_le_nat_alt)
qed

theorem next_target_mono_witness:
  "\<exists>b b' d d'. next_target \<lparr>ideal_block_time_secs = 1, halflife_secs = 7200, pow_limit = - 1\<rparr> 9999 5 0 = Some b \<and>
     next_target \<lparr>ideal_block_time_secs = 1, halflife_secs = 7200, pow_limit = - 1\<rparr> 9999 5 6000 = Some b' \<and>
     to_target b = Inr d \<and> to_target b' = Inr d' \<and> d \<le> d'"
  by (rule next_target_mono) simp_all

text \<open>
  A chain that is exactly \<open>m\<close> half-lives behind schedule (ahead, for negative \<open>m\<close>), with
  \<open>|m| \<le> 16\<close>, gets exactly the anchor target times \<open>2^m\<close>, floored and clamped to the pow limit;
  on schedule the target is the anchor's.
\<close>

theorem next_target_whole_halflives:
  assumes "0 < halflife_secs p" and "\<bar>m\<bar> \<le> 16"
    and "s = ideal_block_time_secs p * int h + m * halflife_secs p"
  shows "\<exists>t. next_target p a h s = Some (from_target t) \<and>
    unat t = max 1 (min (if 0 \<le> m then unat a * 2 ^ nat m else unat a div 2 ^ nat (- m))
                        (unat (pow_limit p)))"
proof -
  have c: "clamped_exponent p h s = m * 65536" by (rule clamped_whole[OF assms])
  have "unat a * 2 ^ nat (m + 32) div 2 ^ 32 =
    (if 0 \<le> m then unat a * 2 ^ nat m else unat a div 2 ^ nat (- m))"
  proof (cases "0 \<le> m")
    case True
    then have "nat (m + 32) = nat m + 32" by (simp add: nat_add_distrib)
    then have "unat a * 2 ^ nat (m + 32) = unat a * 2 ^ nat m * 2 ^ 32" by (simp only: power_add mult.assoc)
    then have "unat a * 2 ^ nat (m + 32) div 2 ^ 32 = unat a * 2 ^ nat m"
      by (simp only:) (rule nonzero_mult_div_cancel_right, simp)
    then show ?thesis using True by (simp only: if_True)
  next
    case False
    have "nat (m + 32) + nat (- m) = 32" using False assms(2) by simp
    then have "2 ^ nat (m + 32) * 2 ^ nat (- m) = (2::nat) ^ 32" by (metis power_add)
    then have "unat a * 2 ^ nat (m + 32) div 2 ^ 32
      = (unat a * 2 ^ nat (m + 32)) div (2 ^ nat (- m) * 2 ^ nat (m + 32))" by (simp add: mult.commute)
    then show ?thesis using False by simp
  qed
  moreover have "halflife_secs p \<noteq> 0" using assms(1) by simp
  ultimately show ?thesis using next_target_nat[of p a h s] by (simp add: c multiplier_whole[OF assms(2)])
qed

theorem next_target_whole_halflives_witness:
  "\<exists>t. next_target \<lparr>ideal_block_time_secs = 1, halflife_secs = 7200, pow_limit = - 1\<rparr> 5 1000 8200
     = Some (from_target t) \<and> unat t = 10"
  using next_target_whole_halflives[of "\<lparr>ideal_block_time_secs = 1, halflife_secs = 7200, pow_limit = - 1\<rparr>" 1 8200 1000 5]
  by (simp add: unat_max_word)

section \<open>No intermediate leaves its width\<close>

definition i128_ok :: "int \<Rightarrow> bool" where
  "i128_ok x \<longleftrightarrow> - (2 ^ 127) \<le> x \<and> x < 2 ^ 127"

text \<open>
  With parameters and inputs in the ranges the node feeds the rule (64-bit block time, height
  and half-life, elapsed seconds within 64 bits), no \<open>i128\<close> intermediate overflows: the schedule
  product, the drift, its fixed-point scaling, and every term of the cubic; the \<open>debug_assert\<close>
  bounds on the factor hold.
\<close>

theorem asert_no_overflow:
  assumes "0 \<le> ideal_block_time_secs p" and "ideal_block_time_secs p \<le> 2 ^ 40"
    and "h < 2 ^ 64" and "\<bar>s\<bar> \<le> 2 ^ 64" and "0 \<le> frac" and "frac < RADIX"
  shows "i128_ok (ideal_block_time_secs p * int h) \<and> i128_ok (drift p h s) \<and>
    i128_ok (drift p h s * RADIX) \<and> i128_ok (CUBIC_C1 * frac) \<and>
    i128_ok (CUBIC_C3 * frac * frac * frac) \<and>
    i128_ok (CUBIC_C1 * frac + CUBIC_C2 * frac * frac + CUBIC_C3 * frac * frac * frac + CUBIC_ROUND) \<and>
    RADIX \<le> factor_of frac \<and> factor_of frac \<le> 2 * RADIX"
proof -
  have h: "int h \<le> 2 ^ 64" using assms(3) by simp
  have prod: "0 \<le> ideal_block_time_secs p * int h" "ideal_block_time_secs p * int h \<le> 2 ^ 40 * 2 ^ 64"
    using assms(1,2) h by (simp, intro mult_mono) auto
  then have d: "\<bar>drift p h s\<bar> \<le> 2 ^ 105" using assms(4) by (simp add: drift_def)
  have f: "frac \<le> 65536" using assms(6) by (simp add: RADIX_def)
  define Y X where "Y = frac * frac" and "X = frac * frac * frac"
  have Y: "0 \<le> Y" "Y \<le> 65536 * 65536" using assms(5) f mult_mono[of frac 65536 frac 65536] unfolding Y_def by auto
  have X: "0 \<le> X" "X \<le> 65536 * 65536 * 65536"
    using assms(5) f Y mult_mono[of "frac * frac" "65536 * 65536" frac 65536] unfolding X_def Y_def by auto
  have terms: "CUBIC_C2 * frac * frac = CUBIC_C2 * Y" "CUBIC_C3 * frac * frac * frac = CUBIC_C3 * X"
    by (simp_all add: X_def Y_def)
  show ?thesis
    unfolding terms
    using prod d f X Y assms(5) factor_range[OF assms(5,6)]
    by (auto simp: i128_ok_def asert_consts)
qed

theorem asert_no_overflow_witness:
  "i128_ok (drift \<lparr>ideal_block_time_secs = 1, halflife_secs = 7200, pow_limit = - 1\<rparr> 7 (- 5) * RADIX)"
  using asert_no_overflow[of "\<lparr>ideal_block_time_secs = 1, halflife_secs = 7200, pow_limit = - 1\<rparr>" 7 "- 5" 0]
  by (simp add: RADIX_def)

end
