(* ===== verification/Consensus.thy ===== *)
theory Consensus
  imports Header Asert
begin

text \<open>
  Consensus rules that do not depend on the DAG (\<open>crates/consensus\<close>): the genesis header, header
  validation with its errors in the order of the code, the proof-of-work check, and the mining
  loop. The proof-of-work function (\<open>crates/pow\<close>) is double Keccak over the RLP encoding, both
  third-party, so \<open>keccak\<close> and the encoding are parameters; \<open>pow\<close> below stands for
  \<open>PowHash::hash_header\<close> read as a big-endian 256-bit number.
\<close>

section \<open>Proof of work\<close>

type_synonym byte = "8 word"

definition be_value :: "byte list \<Rightarrow> u256" where
  "be_value bs = foldl (\<lambda>a b. push_bit 8 a OR ucast b) 0 bs"

definition double_keccak :: "(byte list \<Rightarrow> byte list) \<Rightarrow> byte list \<Rightarrow> byte list" where
  "double_keccak keccak preimage = keccak (keccak preimage)"

definition hash_header :: "(byte list \<Rightarrow> byte list) \<Rightarrow> (header \<Rightarrow> byte list) \<Rightarrow> header \<Rightarrow> u256" where
  "hash_header keccak encoded h = be_value (double_keccak keccak (encoded h))"

section \<open>Genesis\<close>

record genesis_config =
  g_timestamp_ms :: u64
  g_bits :: compact_target
  g_state_root :: u256

text \<open>\<open>empty_root\<close> is \<open>alloy_trie::EMPTY_ROOT_HASH\<close>.\<close>

definition genesis_header :: "u256 \<Rightarrow> genesis_config \<Rightarrow> header" where
  "genesis_header empty_root g = \<lparr>h_version = HEADER_VERSION, h_parents = [],
     h_timestamp_ms = g_timestamp_ms g, h_bits = g_bits g, h_nonce = 0, h_miner = 0,
     h_txs_root = empty_root, h_deferred_height = 0, h_deferred_state_root = g_state_root g,
     h_deferred_receipts_root = empty_root, h_deferred_gas_used = 0\<rparr>"

section \<open>Validation\<close>

definition MAX_FUTURE_DRIFT_MS :: u64 where "MAX_FUTURE_DRIFT_MS = 120000"

record validation_context =
  c_height :: nat
  c_anchor_timestamp_ms :: u64
  c_anchor_target :: u256
  c_parent_timestamp_ms :: u64
  c_now_ms :: u64
  c_asert :: asert_params

datatype validation_error =
    Structure header_error
  | Target compact_error
  | InsufficientWork u256 u32
  | WrongDifficulty u32 u32
  | TimestampTooFarInFuture u64 u64
  | TimestampWentBackwards u64 u64

definition expected_bits :: "validation_context \<Rightarrow> u64 \<Rightarrow> compact_target option" where
  "expected_bits ctx timestamp_ms =
     (let elapsed_secs =
        trunc_div (int (unat timestamp_ms) - int (unat (c_anchor_timestamp_ms ctx))) 1000
      in next_target (c_asert ctx) (c_anchor_target ctx) (c_height ctx) elapsed_secs)"

definition check_pow :: "(header \<Rightarrow> u256) \<Rightarrow> header \<Rightarrow> validation_error + unit" where
  "check_pow pow h =
     (case to_target (h_bits h) of
        Inl e \<Rightarrow> Inl (Target e)
      | Inr target \<Rightarrow>
          if pow h > target then Inl (InsufficientWork (pow h) (h_bits h)) else Inr ())"

text \<open>\<open>None\<close> is the panic of \<open>next_target\<close> on a zero half-life.\<close>

definition validate_header ::
  "(header \<Rightarrow> u256) \<Rightarrow> header \<Rightarrow> validation_context \<Rightarrow> (validation_error + unit) option" where
  "validate_header pow h ctx =
     (case validate_structure h of Inl e \<Rightarrow> Some (Inl (Structure e))
      | Inr _ \<Rightarrow>
        (let limit = saturating_add (c_now_ms ctx) MAX_FUTURE_DRIFT_MS in
         if h_timestamp_ms h > limit
           then Some (Inl (TimestampTooFarInFuture (h_timestamp_ms h) limit))
         else if h_timestamp_ms h < c_parent_timestamp_ms ctx
           then Some (Inl (TimestampWentBackwards (h_timestamp_ms h) (c_parent_timestamp_ms ctx)))
         else case expected_bits ctx (h_timestamp_ms h) of None \<Rightarrow> None
           | Some expected \<Rightarrow>
               if h_bits h \<noteq> expected then Some (Inl (WrongDifficulty (h_bits h) expected))
               else Some (check_pow pow h)))"

lemma check_pow_ok_iff:
  "check_pow pow h = Inr () \<longleftrightarrow> (\<exists>t. to_target (h_bits h) = Inr t \<and> pow h \<le> t)"
  by (auto simp: check_pow_def not_less split: sum.splits)

lemma validate_header_ok_iff:
  "validate_header pow h ctx = Some (Inr ()) \<longleftrightarrow>
     validate_structure h = Inr () \<and>
     h_timestamp_ms h \<le> saturating_add (c_now_ms ctx) MAX_FUTURE_DRIFT_MS \<and>
     c_parent_timestamp_ms ctx \<le> h_timestamp_ms h \<and>
     expected_bits ctx (h_timestamp_ms h) = Some (h_bits h) \<and>
     check_pow pow h = Inr ()"
  by (auto simp: validate_header_def Let_def not_less split: sum.splits option.splits)

text \<open>
  C37: Header validation accepts exactly the headers that are structurally valid, whose timestamp
  is within two minutes of the clock and not before the selected parent's, that declare the
  difficulty the retarget rule computes for that timestamp, and whose proof-of-work hash meets it;
  an accepted header's work target never exceeds the pow limit.
\<close>

theorem validate_header_accepts_iff:
  assumes "halflife_secs (c_asert ctx) \<noteq> 0" and "pow_limit (c_asert ctx) \<noteq> 0"
  shows "validate_header pow h ctx = Some (Inr ()) \<longleftrightarrow>
     validate_structure h = Inr () \<and>
     unat (h_timestamp_ms h) \<le> min (unat (c_now_ms ctx) + 120000) (2 ^ 64 - 1) \<and>
     c_parent_timestamp_ms ctx \<le> h_timestamp_ms h \<and>
     expected_bits ctx (h_timestamp_ms h) = Some (h_bits h) \<and>
     (\<exists>t. to_target (h_bits h) = Inr t \<and> pow h \<le> t \<and> t \<le> pow_limit (c_asert ctx))"
proof -
  have lim: "h_timestamp_ms h \<le> saturating_add (c_now_ms ctx) MAX_FUTURE_DRIFT_MS \<longleftrightarrow>
    unat (h_timestamp_ms h) \<le> min (unat (c_now_ms ctx) + 120000) (2 ^ 64 - 1)"
    by (simp add: word_le_nat_alt unat_saturating_add MAX_FUTURE_DRIFT_MS_def)
  have "t \<le> pow_limit (c_asert ctx)"
    if "expected_bits ctx (h_timestamp_ms h) = Some (h_bits h)" "to_target (h_bits h) = Inr t" for t
    using that next_target_in_range[OF assms] unfolding expected_bits_def Let_def
    by (metis option.inject sum.inject(2))
  then show ?thesis unfolding validate_header_ok_iff check_pow_ok_iff lim by blast
qed

text \<open>
  Validation reports the first failing check in the order of the code: a structural error
  before any timestamp error, a future timestamp before a backwards one, both before a wrong
  difficulty, and the proof of work last; it never panics on a non-zero half-life.
\<close>

theorem validate_header_error_order:
  assumes "halflife_secs (c_asert ctx) \<noteq> 0"
  shows "(validate_header pow h ctx = Some (Inl (Structure e)) \<longleftrightarrow> validate_structure h = Inl e) \<and>
    (validate_header pow h ctx = Some (Inl (TimestampTooFarInFuture a b)) \<longleftrightarrow>
       validate_structure h = Inr () \<and> a = h_timestamp_ms h \<and>
       b = saturating_add (c_now_ms ctx) MAX_FUTURE_DRIFT_MS \<and> b < a) \<and>
    (validate_header pow h ctx = Some (Inl (InsufficientWork w c)) \<longrightarrow>
       expected_bits ctx (h_timestamp_ms h) = Some (h_bits h) \<and> w = pow h \<and> c = h_bits h \<and>
       (\<exists>t. to_target (h_bits h) = Inr t \<and> t < pow h)) \<and>
    validate_header pow h ctx \<noteq> None"
proof -
  obtain bits where "expected_bits ctx (h_timestamp_ms h) = Some bits"
    using assms by (auto simp: expected_bits_def next_target_def Let_def)
  then show ?thesis
    by (auto simp: validate_header_def check_pow_def Let_def split: sum.splits if_splits)
qed

definition example_context :: validation_context where
  "example_context = \<lparr>c_height = 1, c_anchor_timestamp_ms = 0, c_anchor_target = 0x7fffff,
     c_parent_timestamp_ms = 0, c_now_ms = 1000,
     c_asert = \<lparr>ideal_block_time_secs = 1, halflife_secs = 7200, pow_limit = 0x7fffff\<rparr>\<rparr>"

lemma example_on_schedule:
  "expected_bits example_context 1000 = Some 0x037fffff"
  by (simp add: expected_bits_def example_context_def next_target_def Let_def clamped_exponent_def
      drift_def trunc_div_def clamp_def asert_consts factor_of_def scale512_def from_target_def
      from_target_checked_def leading_zeros_def bit_len_unique[of 22] MANTISSA_BYTES_def narrow32_def
      MANTISSA_SIGN_BIT_def MANTISSA_MASK_def)

theorem validate_header_accepts_iff_witness:
  "validate_header (\<lambda>_. 5)
     (blank_header\<lparr>h_parents := [1, 2], h_timestamp_ms := 1000, h_bits := 0x037fffff\<rparr>) example_context
   = Some (Inr ())"
proof -
  let ?h = "blank_header\<lparr>h_parents := [1, 2], h_timestamp_ms := 1000, h_bits := 0x037fffff\<rparr>"
  have "to_target 0x037fffff = Inr 0x7fffff" by (simp add: to_target_nat decodes_def)
  moreover have "validate_structure ?h = Inr ()"
    by (simp add: validate_structure_ok_iff blank_header_def HEADER_VERSION_def)
  moreover have "halflife_secs (c_asert example_context) \<noteq> 0" "pow_limit (c_asert example_context) \<noteq> 0"
    by (simp_all add: example_context_def)
  ultimately show ?thesis
    using validate_header_accepts_iff[of example_context "\<lambda>_. 5" ?h] example_on_schedule
    by (simp add: blank_header_def) (simp add: example_context_def word_le_nat_alt)
qed

theorem validate_header_error_order_witness:
  "validate_header (\<lambda>_. 5) blank_header example_context = Some (Inl (Structure NoParents))"
proof -
  have hl: "halflife_secs (c_asert example_context) \<noteq> 0" by (simp add: example_context_def)
  have "validate_structure blank_header = Inl NoParents"
    by (simp add: validate_structure_def blank_header_def HEADER_VERSION_def)
  with validate_header_error_order[OF hl, of "\<lambda>_. 5" blank_header] show ?thesis by blast
qed

section \<open>Mining\<close>

datatype mine_outcome = Found header nat | Exhausted nat

text \<open>The loop \<open>for attempt in 0..max_attempts\<close>, from \<open>attempt\<close> with \<open>remaining\<close> turns left.\<close>

fun mine_loop :: "(header \<Rightarrow> u256) \<Rightarrow> u256 \<Rightarrow> u64 \<Rightarrow> header \<Rightarrow> nat \<Rightarrow> nat \<Rightarrow> mine_outcome" where
  "mine_loop pow target start_nonce hdr attempt 0 = Exhausted attempt"
| "mine_loop pow target start_nonce hdr attempt (Suc remaining) =
     (let hdr' = hdr\<lparr>h_nonce := start_nonce + of_nat attempt\<rparr> in
      if pow hdr' \<le> target then Found hdr' (attempt + 1)
      else mine_loop pow target start_nonce hdr' (attempt + 1) remaining)"

definition mine :: "(header \<Rightarrow> u256) \<Rightarrow> header \<Rightarrow> u64 \<Rightarrow> nat \<Rightarrow> compact_error + mine_outcome" where
  "mine pow template start_nonce max_attempts =
     (case to_target (h_bits template) of Inl e \<Rightarrow> Inl e
      | Inr target \<Rightarrow> Inr (mine_loop pow target start_nonce template 0 max_attempts))"

lemma mine_loop_nonce_irrelevant:
  "mine_loop pow target start (hdr\<lparr>h_nonce := n\<rparr>) a (Suc r) = mine_loop pow target start hdr a (Suc r)"
  by (simp add: Let_def)

lemma mine_loop_Found:
  "mine_loop pow target start hdr a r = Found h n \<Longrightarrow>
   \<exists>i. a \<le> i \<and> i < a + r \<and> n = i + 1 \<and> h = hdr\<lparr>h_nonce := start + of_nat i\<rparr> \<and> pow h \<le> target \<and>
     (\<forall>j. a \<le> j \<and> j < i \<longrightarrow> target < pow (hdr\<lparr>h_nonce := start + of_nat j\<rparr>))"
proof (induction r arbitrary: a hdr)
  case 0
  then show ?case by simp
next
  case (Suc r)
  define hdr' where "hdr' = hdr\<lparr>h_nonce := start + of_nat a\<rparr>"
  show ?case
  proof (cases "pow hdr' \<le> target")
    case True
    with Suc.prems show ?thesis by (intro exI[of _ a]) (auto simp: hdr'_def Let_def)
  next
    case False
    with Suc.prems have "mine_loop pow target start hdr' (a + 1) r = Found h n"
      by (simp add: hdr'_def Let_def)
    from Suc.IH[OF this] obtain i where i: "a + 1 \<le> i" "i < a + 1 + r" "n = i + 1"
      "h = hdr'\<lparr>h_nonce := start + of_nat i\<rparr>" "pow h \<le> target"
      "\<forall>j. a + 1 \<le> j \<and> j < i \<longrightarrow> target < pow (hdr'\<lparr>h_nonce := start + of_nat j\<rparr>)" by blast
    have "target < pow (hdr\<lparr>h_nonce := start + of_nat j\<rparr>)" if "a \<le> j" "j < i" for j
      using that i(6) False by (cases "j = a") (auto simp: hdr'_def not_le)
    with i show ?thesis by (intro exI[of _ i]) (auto simp: hdr'_def)
  qed
qed

lemma mine_loop_Exhausted:
  "mine_loop pow target start hdr a r = Exhausted n \<Longrightarrow>
   n = a + r \<and> (\<forall>j. a \<le> j \<and> j < a + r \<longrightarrow> target < pow (hdr\<lparr>h_nonce := start + of_nat j\<rparr>))"
proof (induction r arbitrary: a hdr)
  case 0
  then show ?case by auto
next
  case (Suc r)
  define hdr' where "hdr' = hdr\<lparr>h_nonce := start + of_nat a\<rparr>"
  from Suc.prems have f: "\<not> pow hdr' \<le> target" by (auto simp: hdr'_def Let_def split: if_splits)
  with Suc.prems have "mine_loop pow target start hdr' (a + 1) r = Exhausted n"
    by (simp add: hdr'_def Let_def)
  from Suc.IH[OF this] have i: "n = a + 1 + r"
    "\<forall>j. a + 1 \<le> j \<and> j < a + 1 + r \<longrightarrow> target < pow (hdr'\<lparr>h_nonce := start + of_nat j\<rparr>)" by blast+
  have "target < pow (hdr\<lparr>h_nonce := start + of_nat j\<rparr>)" if "a \<le> j" "j < a + Suc r" for j
    using that i(2) f by (cases "j = a") (auto simp: hdr'_def not_le)
  with i(1) show ?case by auto
qed

text \<open>
  The miner is sound and complete over its budget: a found header is the template with one of
  the searched nonces (the first that works), passes the proof-of-work check, and the attempt
  count is exact; an exhausted search has tried exactly the budget and none of those nonces meets
  the target.
\<close>

theorem mine_correct:
  "case mine pow template start max_attempts of
     Inl e \<Rightarrow> to_target (h_bits template) = Inl e
   | Inr (Found h n) \<Rightarrow>
       check_pow pow h = Inr () \<and> n \<le> max_attempts \<and> 0 < n \<and>
       h = template\<lparr>h_nonce := start + of_nat (n - 1)\<rparr> \<and>
       (\<forall>j < n - 1. check_pow pow (template\<lparr>h_nonce := start + of_nat j\<rparr>) \<noteq> Inr ())
   | Inr (Exhausted n) \<Rightarrow> n = max_attempts \<and>
       (\<forall>j < max_attempts. check_pow pow (template\<lparr>h_nonce := start + of_nat j\<rparr>) \<noteq> Inr ())"
proof (cases "to_target (h_bits template)")
  case (Inl e)
  then show ?thesis by (simp add: mine_def)
next
  case (Inr t)
  have fail: "check_pow pow (template\<lparr>h_nonce := m\<rparr>) \<noteq> Inr () \<longleftrightarrow> t < pow (template\<lparr>h_nonce := m\<rparr>)" for m
    using Inr by (simp add: check_pow_ok_iff not_le)
  show ?thesis
  proof (cases "mine_loop pow t start template 0 max_attempts")
    case (Found h n)
    from mine_loop_Found[OF this] obtain i where i: "i < max_attempts" "n = i + 1"
      "h = template\<lparr>h_nonce := start + of_nat i\<rparr>" "pow h \<le> t"
      "\<forall>j. j < i \<longrightarrow> t < pow (template\<lparr>h_nonce := start + of_nat j\<rparr>)" by auto
    then have "check_pow pow h = Inr ()" using Inr by (simp add: check_pow_ok_iff)
    with i Found Inr show ?thesis by (simp add: mine_def fail)
  next
    case (Exhausted n)
    from mine_loop_Exhausted[OF this] Exhausted Inr show ?thesis by (simp add: mine_def fail)
  qed
qed

definition example_pow :: "header \<Rightarrow> u256" where
  "example_pow h = (if h_nonce h = 1 then 0 else 0xffffff)"

theorem mine_correct_witness:
  "mine example_pow (blank_header\<lparr>h_bits := 0x037fffff\<rparr>) 0 3
     = Inr (Found (blank_header\<lparr>h_bits := 0x037fffff, h_nonce := 1\<rparr>) 2) \<and>
   check_pow example_pow (blank_header\<lparr>h_bits := 0x037fffff, h_nonce := 1\<rparr>) = Inr () \<and>
   check_pow example_pow (blank_header\<lparr>h_bits := 0x037fffff, h_nonce := 0\<rparr>) \<noteq> Inr ()"
proof -
  have "to_target 0x037fffff = Inr 0x7fffff" by (simp add: to_target_nat decodes_def)
  then have "mine example_pow (blank_header\<lparr>h_bits := 0x037fffff\<rparr>) 0 3
     = Inr (Found (blank_header\<lparr>h_bits := 0x037fffff, h_nonce := 1\<rparr>) 2)"
    by (simp add: mine_def example_pow_def numeral_3_eq_3)
  then show ?thesis
    using mine_correct[where pow = example_pow and template = "blank_header\<lparr>h_bits := 0x037fffff\<rparr>"
      and start = 0 and max_attempts = 3] by simp
qed

end
