(* ===== verification/Dev_Node.thy ===== *)
theory Dev_Node
  imports Node Consensus
begin

text \<open>
  What sits directly on the node state: the genesis allocation (\<open>crates/execution/src/genesis.rs\<close>), the
  development chain's miner (\<open>crates/node/src/dev.rs\<close>), the network presets and configuration check
  (\<open>crates/node/src/config.rs\<close>), and the DAG queries (\<open>crates/rpc/src/dag_api.rs\<close>). Key handling,
  Keccak, bytecode analysis and the trie builders are third-party parameters.
\<close>

section \<open>The genesis allocation\<close>

record genesis_account =
  ga_balance :: u256
  ga_nonce :: "u64 option"
  ga_code :: "8 word list option"
  ga_storage :: "(u256 \<times> u256) list option"

text \<open>The storage map of one account, without its zero slots.\<close>

definition genesis_storage :: "(u256 \<times> u256) list option \<Rightarrow> (u256 \<rightharpoonup> u256)" where
  "genesis_storage slots =
     (case slots of None \<Rightarrow> Map.empty
      | Some entries \<Rightarrow> fold (\<lambda>(slot, v) m. if v = 0 then m else m(slot \<mapsto> v)) entries Map.empty)"

definition load_account ::
  "(8 word list \<Rightarrow> 'code) \<Rightarrow> ('code \<Rightarrow> u256) \<Rightarrow> address \<times> genesis_account \<Rightarrow> 'code world_state \<Rightarrow> 'code world_state" where
  "load_account new_raw hash_slow entry s =
     (case entry of (a, acc) \<Rightarrow>
        let code = (case ga_code acc of Some bytes \<Rightarrow> if bytes \<noteq> [] then Some (new_raw bytes) else None | None \<Rightarrow> None);
            code_hash = (case code of Some c \<Rightarrow> hash_slow c | None \<Rightarrow> KECCAK256_EMPTY);
            s = (case code of Some c \<Rightarrow> snd (insert_code hash_slow c s) | None \<Rightarrow> s)
        in insert_account a
             \<lparr>a_info = \<lparr>i_balance = ga_balance acc,
                        i_nonce = (case ga_nonce acc of None \<Rightarrow> 0 | Some n \<Rightarrow> n),
                        i_code_hash = code_hash, i_code = None\<rparr>,
              a_storage = genesis_storage (ga_storage acc)\<rparr> s)"

text \<open>\<open>load_genesis\<close> has an error type but no path that returns one.\<close>

definition load_genesis ::
  "(8 word list \<Rightarrow> 'code) \<Rightarrow> ('code \<Rightarrow> u256) \<Rightarrow> (address \<times> genesis_account) list \<Rightarrow> string + 'code world_state" where
  "load_genesis new_raw hash_slow alloc = Inr (fold (load_account new_raw hash_slow) alloc new_state)"

section \<open>Networks\<close>

datatype network = Testnet1Bps | Testnet10Bps

fun network_params :: "network \<Rightarrow> chain_params" where
  "network_params Testnet1Bps = testnet_1bps"
| "network_params Testnet10Bps = testnet_10bps"

record node_config =
  nc_data_dir :: string
  nc_network :: network
  nc_log_filter :: string

definition default_config :: node_config where
  "default_config = \<lparr>nc_data_dir = ''./chainname-data'', nc_network = Testnet1Bps, nc_log_filter = ''info''\<rparr>"

definition config_params :: "node_config \<Rightarrow> chain_params" where
  "config_params c = network_params (nc_network c)"

datatype config_error =
    ConfigRead string string
  | ConfigParse string string
  | ConfigParams params_error

definition config_from_file ::
  "(string \<Rightarrow> string + string) \<Rightarrow> (string \<Rightarrow> string + node_config) \<Rightarrow> string \<Rightarrow> config_error + node_config" where
  "config_from_file read_to_string from_str path =
     (case read_to_string path of Inl source \<Rightarrow> Inl (ConfigRead path source)
      | Inr text \<Rightarrow>
          (case from_str text of Inl source \<Rightarrow> Inl (ConfigParse path source) | Inr config \<Rightarrow> Inr config))"

definition config_validate :: "node_config \<Rightarrow> (config_error + unit) option" where
  "config_validate c =
     map_option (\<lambda>r. case r of Inl e \<Rightarrow> Inl (ConfigParams e) | Inr u \<Rightarrow> Inr u) (validate_params (config_params c))"

section \<open>The development chain\<close>

definition DEV_GENESIS_MS :: u64 where "DEV_GENESIS_MS = 1700000000000"
definition DEV_BALANCE_WEI :: u256 where "DEV_BALANCE_WEI = 10000000000000000000000"
definition DEV_ACCOUNTS :: nat where "DEV_ACCOUNTS = 10"
definition WELL_KNOWN_DEV_KEY :: u256 where
  "WELL_KNOWN_DEV_KEY = 0xac0974bec39a17e36ba4a6b4d238ff944bacb478cbed5efcae784d7bf4f2ff80"

definition dev_target :: u256 where "dev_target = drop_bit 4 (- 1)"

text \<open>A key is its 256-bit value; an invalid one has no signer. Only the address is kept of an account.\<close>

definition dev_accounts :: "(u256 \<Rightarrow> address option) \<Rightarrow> (u64 \<Rightarrow> u256) \<Rightarrow> (address \<times> u256) list" where
  "dev_accounts signer_address key_of_index =
     List.map_filter (\<lambda>key. map_option (\<lambda>a. (a, key)) (signer_address key))
       (WELL_KNOWN_DEV_KEY # map (\<lambda>i. key_of_index (of_nat i)) [0 ..< DEV_ACCOUNTS])"

definition dev_genesis_header :: "u256 \<Rightarrow> header" where
  "dev_genesis_header empty_trie =
     \<lparr>h_version = HEADER_VERSION, h_parents = [], h_timestamp_ms = DEV_GENESIS_MS,
      h_bits = from_target dev_target, h_nonce = 0, h_miner = 0, h_txs_root = empty_trie,
      h_deferred_height = 0, h_deferred_state_root = 0, h_deferred_receipts_root = empty_trie, h_deferred_gas_used = 0\<rparr>"

record ('tx, 'log, 'code) dev_node =
  v_backend :: "('tx, 'log, 'code) node_state"
  v_params :: chain_params
  v_miner :: address

definition new_dev_node ::
  "(header \<Rightarrow> block_hash) \<Rightarrow> ('tx, 'res, 'log, 'code) chain_lib \<Rightarrow> (8 word list \<Rightarrow> 'code) \<Rightarrow> ('code \<Rightarrow> u256) \<Rightarrow>
   (address \<times> u256) list \<Rightarrow> chain_params \<Rightarrow> address \<Rightarrow> ('tx, 'log, 'code) dev_node option" where
  "new_dev_node hash L new_raw hash_slow accounts params miner =
     (let alloc = fold (\<lambda>(a, _). bmap_insert a \<lparr>ga_balance = DEV_BALANCE_WEI, ga_nonce = None, ga_code = None, ga_storage = None\<rparr>)
                    accounts []
      in case load_genesis new_raw hash_slow alloc of
           Inl _ \<Rightarrow> None
         | Inr state \<Rightarrow>
             map_option (\<lambda>b. \<lparr>v_backend = b, v_params = params, v_miner = miner\<rparr>)
               (new_backend hash L params (dev_genesis_header (empty_root L)) state (ghostdag_k params)))"

definition MAX_TXS :: nat where "MAX_TXS = 512"
definition MAX_ATTEMPTS :: nat where "MAX_ATTEMPTS = 1000000"
definition MAX_PARENTS :: nat where "MAX_PARENTS = 16"

text \<open>The parents of the next block: the best tips, sorted and without repetition.\<close>

definition dev_parents :: "dag_store \<Rightarrow> block_hash list" where
  "dev_parents dag = remdups_adj (sort (take MAX_PARENTS (dag_tips dag)))"

text \<open>The candidate before a nonce is found; \<open>ordered_trie_root\<close> is the library's.\<close>

definition dev_template ::
  "('tx, 'res, 'log, 'code) chain_lib \<Rightarrow> (8 word list list \<Rightarrow> u256) \<Rightarrow> 'tx tx_view \<Rightarrow> address \<Rightarrow> u64 \<Rightarrow> ('tx, 'log, 'code) node_state \<Rightarrow>
   (header \<times> 'tx list \<times> 8 word list list) option" where
  "dev_template L ordered_trie_root V miner timestamp_ms st =
     (let e = n_executor st in
      case (next_base_fee L e (e_height e), deferred_result_for e (e_height e + 1)) of
        (Some base_fee, Some deferred) \<Rightarrow>
          let chosen = best_transactions V base_fee MAX_TXS (n_pool st);
              encoded = map p_encoded chosen
          in Some
            (\<lparr>h_version = HEADER_VERSION, h_parents = dev_parents (n_dag st), h_timestamp_ms = timestamp_ms,
              h_bits = from_target dev_target, h_nonce = 0, h_miner = miner,
              h_txs_root = (if encoded = [] then empty_root L else ordered_trie_root encoded),
              h_deferred_height = (case deferred of None \<Rightarrow> 0 | Some d \<Rightarrow> o_height d),
              h_deferred_state_root = (case deferred of None \<Rightarrow> 0 | Some d \<Rightarrow> o_state_root d),
              h_deferred_receipts_root = (case deferred of None \<Rightarrow> empty_root L | Some d \<Rightarrow> o_receipts_root d),
              h_deferred_gas_used = (case deferred of None \<Rightarrow> 0 | Some d \<Rightarrow> o_gas_used d)\<rparr>,
             map p_tx chosen, encoded)
      | _ \<Rightarrow> None)"

definition mine_once ::
  "(header \<Rightarrow> block_hash) \<Rightarrow> (header \<Rightarrow> u256) \<Rightarrow> ('tx, 'res, 'log, 'code) chain_lib \<Rightarrow> (8 word list list \<Rightarrow> u256) \<Rightarrow> 'tx tx_view \<Rightarrow> u64 \<Rightarrow>
   ('tx, 'log, 'code) dev_node \<Rightarrow> (block_hash option \<times> ('tx, 'log, 'code) dev_node) option" where
  "mine_once hash pow L ordered_trie_root V timestamp_ms d =
     (case dev_template L ordered_trie_root V (v_miner d) timestamp_ms (v_backend d) of
        None \<Rightarrow> None
      | Some (template, transactions, encoded) \<Rightarrow>
          if h_parents template = [] then Some (None, d)
          else case mine_loop pow dev_target 0 template 0 MAX_ATTEMPTS of
              Exhausted _ \<Rightarrow> Some (None, d)
            | Found header _ \<Rightarrow>
                (case backend_add_block hash L V header transactions encoded (v_backend d) of
                   None \<Rightarrow> None
                 | Some (Inl _, st) \<Rightarrow> Some (None, d\<lparr>v_backend := st\<rparr>)
                 | Some (Inr _, st) \<Rightarrow> Some (Some (hash header), d\<lparr>v_backend := st\<rparr>)))"

section \<open>DAG queries\<close>

record dag_tip_info =
  ti_tips :: "block_hash list"
  ti_virtual_selected_parent :: block_hash
  ti_blue_score :: nat
  ti_block_count :: nat
  ti_executed_height :: u64

record dag_block_info =
  bi_hash :: block_hash
  bi_selected_parent :: block_hash
  bi_parents :: "block_hash list"
  bi_blue_score :: nat
  bi_blue_work :: string
  bi_mergeset_blues :: "block_hash list"
  bi_mergeset_reds :: "block_hash list"
  bi_is_chain_block :: bool

record confidence =
  cf_executed :: bool
  cf_height :: "u64 option"
  cf_blue_score :: "nat option"
  cf_blue_score_depth :: "nat option"

text \<open>Decimal rendering of a natural, the \<open>to_string\<close> of blue work.\<close>

fun decimal :: "nat \<Rightarrow> string" where
  "decimal n = (if n < 10 then [char_of (48 + n)] else decimal (n div 10) @ [char_of (48 + n mod 10)])"

declare decimal.simps [simp del]

definition score_of :: "dag_store \<Rightarrow> block_hash \<Rightarrow> nat" where
  "score_of dag b = (case dag_data dag b of None \<Rightarrow> 0 | Some d \<Rightarrow> d_blue_score d)"

definition get_dag_tips :: "('tx, 'log, 'code) node_state \<Rightarrow> dag_tip_info" where
  "get_dag_tips st =
     (let selected = virtual_selected_parent (n_dag st) in
      \<lparr>ti_tips = dag_tips (n_dag st), ti_virtual_selected_parent = selected,
       ti_blue_score = score_of (n_dag st) selected, ti_block_count = dag_len (n_dag st),
       ti_executed_height = e_height (n_executor st)\<rparr>)"

definition get_block_dag_info :: "('tx, 'log, 'code) node_state \<Rightarrow> block_hash \<Rightarrow> dag_block_info option" where
  "get_block_dag_info st b =
     (case dag_data (n_dag st) b of None \<Rightarrow> None
      | Some d \<Rightarrow>
          (case dag_header (n_dag st) b of None \<Rightarrow> None
           | Some h \<Rightarrow>
               let chain = selected_parent_chain (n_dag st) (virtual_selected_parent (n_dag st)) in
               Some \<lparr>bi_hash = b, bi_selected_parent = d_selected_parent d, bi_parents = h_parents h,
                     bi_blue_score = d_blue_score d, bi_blue_work = decimal (unat (d_blue_work d)),
                     bi_mergeset_blues = d_mergeset_blues d, bi_mergeset_reds = d_mergeset_reds d,
                     bi_is_chain_block = (b \<in> set chain)\<rparr>))"

definition get_merge_set :: "('tx, 'log, 'code) node_state \<Rightarrow> block_hash \<Rightarrow> block_hash list option" where
  "get_merge_set st b = map_option d_mergeset_ordered (dag_data (n_dag st) b)"

definition get_confidence :: "('tx, 'log, 'code) node_state \<Rightarrow> u256 \<Rightarrow> confidence" where
  "get_confidence st h =
     (case map_of (n_tx_index st) h of
        None \<Rightarrow> \<lparr>cf_executed = False, cf_height = None, cf_blue_score = None, cf_blue_score_depth = None\<rparr>
      | Some location \<Rightarrow>
          let block_score = score_of (n_dag st) (l_chain_block location);
              tip_score = score_of (n_dag st) (virtual_selected_parent (n_dag st))
          in \<lparr>cf_executed = True, cf_height = Some (l_height location), cf_blue_score = Some block_score,
              cf_blue_score_depth = Some (tip_score - block_score)\<rparr>)"

definition get_deferred_state_root :: "('tx, 'log, 'code) node_state \<Rightarrow> u64 \<Rightarrow> (u64 \<times> u256) option option" where
  "get_deferred_state_root st h =
     map_option (map_option (\<lambda>r. (o_height r, o_state_root r))) (deferred_result_for (n_executor st) h)"

end
