(* ===== verification/Executor_View.thy ===== *)
theory Executor_View
  imports Executor
begin

text \<open>
  Execution sees accounts, not history: two states with the same accounts and block hashes run a
  block alike, even when one of them still holds bytecode that an undone block left behind. This
  rests on bytecode being addressed by its hash, stated as \<open>evm_law\<close> about the third-party EVM.
\<close>

section \<open>Content-addressed bytecode\<close>

text \<open>
  \<open>D\<close> gives the bytecode with a given hash, for the bytecode that occurs (no two of which collide). A
  state is \<open>coded\<close> when its code map agrees with \<open>D\<close> and holds the code of every account.
\<close>

definition coded :: "(u256 \<Rightarrow> 'code) \<Rightarrow> 'code world_state \<Rightarrow> bool" where
  "coded D s \<longleftrightarrow> (\<forall>h c. w_code s h = Some c \<longrightarrow> c = D h) \<and>
     (\<forall>a acc. w_accounts s a = Some acc \<longrightarrow>
        i_code_hash (a_info acc) = KECCAK256_EMPTY \<or> i_code_hash (a_info acc) \<in> dom (w_code s))"

text \<open>A changed account has no code, brings its code along, or has code already in \<open>K\<close>.\<close>

definition coded_change :: "(u256 \<Rightarrow> 'code) \<Rightarrow> ('code \<Rightarrow> bool) \<Rightarrow> u256 set \<Rightarrow> 'code revm_account \<Rightarrow> bool" where
  "coded_change D e K r \<longleftrightarrow>
     (\<forall>c. i_code (r_info r) = Some c \<longrightarrow> \<not> e c \<longrightarrow> c = D (i_code_hash (r_info r))) \<and>
     (i_code_hash (r_info r) = KECCAK256_EMPTY \<or> i_code_hash (r_info r) \<in> K \<or>
      (\<exists>c. i_code (r_info r) = Some c \<and> \<not> e c))"

definition coded_changes :: "(u256 \<Rightarrow> 'code) \<Rightarrow> ('code \<Rightarrow> bool) \<Rightarrow> u256 set \<Rightarrow> 'code changes \<Rightarrow> bool" where
  "coded_changes D e K cs \<longleftrightarrow> (\<forall>(a, r) \<in> set cs. coded_change D e K r)"

text \<open>
  What the node relies on: the EVM reads the state only through the \<open>Database\<close> interface (accounts,
  block hashes and the code of accounts), and what it changes is content-addressed.
\<close>

definition same_view :: "'code world_state \<Rightarrow> 'code world_state \<Rightarrow> bool" where
  "same_view s t \<longleftrightarrow> w_accounts s = w_accounts t \<and> w_block_hashes s = w_block_hashes t \<and> code_at s = code_at t"

definition evm_law :: "(u256 \<Rightarrow> 'code) \<Rightarrow> ('tx, 'res, 'log, 'code) chain_lib \<Rightarrow> bool" where
  "evm_law D L \<longleftrightarrow> i_code_hash (default_info L) = KECCAK256_EMPTY \<and>
     (\<forall>s t ctx m tx. same_view s t \<longrightarrow> transact L ctx m s tx = transact L ctx m t tx) \<and>
     (\<forall>s ctx m tx res cs loaded. coded D s \<longrightarrow> transact L ctx m s tx = Some (res, cs, loaded) \<longrightarrow>
        coded_changes D (code_is_empty L) (dom (w_code s)) cs)"

definition same_acc :: "(u256 \<Rightarrow> 'code) \<Rightarrow> 'code world_state \<Rightarrow> 'code world_state \<Rightarrow> bool" where
  "same_acc D s t \<longleftrightarrow> w_accounts s = w_accounts t \<and> w_block_hashes s = w_block_hashes t \<and> coded D s \<and> coded D t"

definition shared_code :: "'code world_state \<Rightarrow> 'code world_state \<Rightarrow> u256 set" where
  "shared_code s t = dom (w_code s) \<inter> dom (w_code t)"

lemma same_acc_sym: "same_acc D s t \<Longrightarrow> same_acc D t s" by (simp add: same_acc_def)

lemma same_acc_trans: "same_acc D s t \<Longrightarrow> same_acc D t u \<Longrightarrow> same_acc D s u" by (simp add: same_acc_def)

lemma same_acc_refl: "same_acc D s s \<longleftrightarrow> coded D s" by (simp add: same_acc_def)

lemma same_acc_reads:
  assumes "same_acc D s t"
  shows "account s = account t" "balance s = balance t" "nonce s = nonce t"
  using assms by (simp_all add: same_acc_def fun_eq_iff account_def balance_def nonce_def)

lemma coded_code_at:
  assumes "coded D s"
  shows "code_at s a = (case w_accounts s a of None \<Rightarrow> None
      | Some acc \<Rightarrow> if i_code_hash (a_info acc) = KECCAK256_EMPTY then None else Some (D (i_code_hash (a_info acc))))"
  using assms unfolding coded_def by (fastforce simp: code_at_def Let_def split: option.split)

lemma same_acc_view: "same_acc D s t \<Longrightarrow> same_view s t"
  using coded_code_at[of D s] coded_code_at[of D t] unfolding same_acc_def same_view_def by auto

lemma evm_lawD:
  assumes "evm_law D L" "same_acc D s t"
  shows "transact L ctx m s tx = transact L ctx m t tx"
    and "transact L ctx m s tx = Some (res, cs, loaded) \<Longrightarrow> coded_changes D (code_is_empty L) (shared_code s t) cs"
proof -
  show same: "transact L ctx m s tx = transact L ctx m t tx"
    using assms same_acc_view unfolding evm_law_def by blast
  assume tr: "transact L ctx m s tx = Some (res, cs, loaded)"
  have cd: "coded D s" "coded D t" using assms(2) by (simp_all add: same_acc_def)
  have law: "coded_changes D (code_is_empty L) (dom (w_code u)) cs"
    if "coded D u" "transact L ctx m u tx = Some (res, cs, loaded)" for u
    using assms(1) that unfolding evm_law_def by blast
  have "coded_changes D (code_is_empty L) (dom (w_code s)) cs" "coded_changes D (code_is_empty L) (dom (w_code t)) cs"
    using law[OF cd(1) tr] law[OF cd(2)] tr same by simp_all
  then show "coded_changes D (code_is_empty L) (shared_code s t) cs"
    unfolding coded_changes_def coded_change_def shared_code_def by fast
qed

section \<open>Commits\<close>

lemma block_hashes_commit_one: "w_block_hashes (commit_one e c s) = w_block_hashes s"
  by (auto simp: commit_one_def remove_account_def insert_account_def Let_def split: prod.splits option.splits)

lemma block_hashes_commit: "w_block_hashes (commit e cs s) = w_block_hashes s"
  unfolding commit_def by (induction cs arbitrary: s) (simp_all add: block_hashes_commit_one)

lemma accounts_commit_same: "w_accounts s = w_accounts t \<Longrightarrow> w_accounts (commit e cs s) = w_accounts (commit e cs t)"
  unfolding commit_def
proof (induction cs arbitrary: s t)
  case (Cons c cs)
  obtain a r where "c = (a, r)" by fastforce
  with Cons.prems have "w_accounts (commit_one e c s) = w_accounts (commit_one e c t)" by (simp add: commit_one_accounts)
  from Cons.IH[OF this] show ?case by simp
qed simp

lemma code_commit_one_grows: "dom (w_code s) \<subseteq> dom (w_code (commit_one e c s))"
  by (auto simp: commit_one_def remove_account_def insert_account_def Let_def split: prod.splits option.splits)

lemma code_commit_grows: "dom (w_code s) \<subseteq> dom (w_code (commit e cs s))"
  unfolding commit_def
proof (induction cs arbitrary: s)
  case (Cons c cs)
  from subset_trans[OF code_commit_one_grows Cons.IH] show ?case by (simp only: fold_simps o_apply)
qed simp

lemma coded_commit_one:
  assumes "coded D s" "coded_change D e (dom (w_code s)) r"
  shows "coded D (commit_one e (a, r) s)"
  using assms unfolding coded_def coded_change_def
  by (auto simp: commit_one_def remove_account_def insert_account_def Let_def split: option.splits)

lemma coded_change_mono: "coded_change D e K r \<Longrightarrow> K \<subseteq> K' \<Longrightarrow> coded_change D e K' r"
  by (auto simp: coded_change_def)

lemma coded_changes_mono: "coded_changes D e K cs \<Longrightarrow> K \<subseteq> K' \<Longrightarrow> coded_changes D e K' cs"
  by (auto simp: coded_changes_def intro: coded_change_mono)

lemma coded_commit:
  assumes "coded D s" "coded_changes D e K cs" "K \<subseteq> dom (w_code s)"
  shows "coded D (commit e cs s) \<and> dom (w_code s) \<subseteq> dom (w_code (commit e cs s))"
  using assms unfolding commit_def
proof (induction cs arbitrary: s)
  case (Cons c cs)
  obtain a r where c: "c = (a, r)" by fastforce
  note grow = code_commit_one_grows[of s e c]
  from Cons.prems have "coded_change D e (dom (w_code s)) r"
    by (auto simp: coded_changes_def c intro: coded_change_mono)
  with coded_commit_one Cons.prems(1) have "coded D (commit_one e c s)" by (simp add: c)
  moreover have "coded_changes D e K cs" using Cons.prems(2) by (simp add: coded_changes_def)
  ultimately have "coded D (fold (commit_one e) cs (commit_one e c s)) \<and>
      dom (w_code (commit_one e c s)) \<subseteq> dom (w_code (fold (commit_one e) cs (commit_one e c s)))"
    using Cons.IH Cons.prems(3) grow by blast
  with grow show ?case by (simp only: fold_simps o_apply) blast
qed simp

lemma same_acc_commit:
  assumes "same_acc D s t" "coded_changes D e K cs" "K \<subseteq> shared_code s t"
  shows "same_acc D (commit e cs s) (commit e cs t)" "shared_code s t \<subseteq> shared_code (commit e cs s) (commit e cs t)"
proof -
  have "coded D s" "coded D t" "K \<subseteq> dom (w_code s)" "K \<subseteq> dom (w_code t)" "w_accounts s = w_accounts t"
    using assms by (auto simp: same_acc_def shared_code_def)
  with coded_commit assms(2) accounts_commit_same[of s t e cs] have
    "coded D (commit e cs s) \<and> dom (w_code s) \<subseteq> dom (w_code (commit e cs s))"
    "coded D (commit e cs t) \<and> dom (w_code t) \<subseteq> dom (w_code (commit e cs t))"
    "w_accounts (commit e cs s) = w_accounts (commit e cs t)" by blast+
  then show "same_acc D (commit e cs s) (commit e cs t)" "shared_code s t \<subseteq> shared_code (commit e cs s) (commit e cs t)"
    using assms(1) by (auto simp: same_acc_def block_hashes_commit shared_code_def)
qed

lemma note_account_same: "same_acc D s t \<Longrightarrow> note_account a s = note_account a t"
  by (simp add: note_account_def fun_eq_iff same_acc_reads)

lemma note_all_same: "same_acc D s t \<Longrightarrow> note_all as s b = note_all as t b"
  by (simp add: note_all_def note_account_same)

section \<open>The sequential path\<close>

abbreviation same_run :: "(u256 \<Rightarrow> 'code) \<Rightarrow> 'code world_state \<times> 'b \<Rightarrow> 'code world_state \<times> 'b \<Rightarrow> bool" where
  "same_run D x y \<equiv> same_acc D (fst x) (fst y) \<and> snd x = snd y"

lemma run_one_same:
  assumes "evm_law D L" "same_run D x y"
  shows "same_run D (run_one L ctx g t x) (run_one L ctx g t y)"
proof -
  obtain miner tx s b s' where t: "t = (miner, tx)" and x: "x = (s, b)" and y: "y = (s', b)" and ss: "same_acc D s s'"
    using assms(2) by (metis prod.collapse)
  show ?thesis
  proof (cases "over_budget L g tx b \<or> transact L ctx miner s tx = None")
    case True
    with evm_lawD(1)[OF assms(1) ss, of ctx miner tx] ss show ?thesis by (auto simp: run_one_def t x y)
  next
    case False
    then obtain res cs loaded where tr: "transact L ctx miner s tx = Some (res, cs, loaded)" by auto
    have "transact L ctx miner s' tx = Some (res, cs, loaded)"
      using evm_lawD(1)[OF assms(1) ss, of ctx miner tx] tr by simp
    with same_acc_commit(1)[OF ss evm_lawD(2)[OF assms(1) ss tr] subset_refl] False tr
    show ?thesis by (simp add: run_one_def t x y note_all_same[OF ss])
  qed
qed

lemma sequential_same:
  assumes "evm_law D L" "same_acc D s s'"
  shows "same_run D (execute_sequentially L ctx g tagged order s) (execute_sequentially L ctx g tagged order s')"
proof -
  have "same_run D (fold (\<lambda>i. run_one L ctx g (tagged ! i)) order x) (fold (\<lambda>i. run_one L ctx g (tagged ! i)) order y)"
    if "same_run D x y" for x y
    using that
  proof (induction order arbitrary: x y)
    case (Cons i order)
    from Cons.IH[OF run_one_same[OF assms(1) Cons.prems]] show ?case by simp
  qed simp
  then show ?thesis using assms(2) by (simp add: execute_sequentially_def)
qed

section \<open>The parallel path\<close>

lemma speculate_same:
  assumes "evm_law D L" "same_acc D s t"
  shows "speculate L ctx s = speculate L ctx t"
proof -
  have "speculate_one L ctx s i tt = speculate_one L ctx t i tt" for i tt
    unfolding speculate_one_def same_acc_reads[OF assms(2)] evm_lawD(1)[OF assms] ..
  then show ?thesis by (simp add: speculate_def fun_eq_iff)
qed

lemma coded_changes_delete: "coded_changes D e K cs \<Longrightarrow> coded_changes D e K (AList.delete a cs)"
  unfolding coded_changes_def by (auto simp: AList.delete_eq)

lemma coded_changes_Nil [simp]: "coded_changes D e K []" by (simp add: coded_changes_def)

lemma speculate_coded:
  assumes "evm_law D L" "same_acc D s t" "sp \<in> set (speculate L ctx s round_txs)"
  shows "coded_changes D (code_is_empty L) (shared_code s t) (sp_diff sp)"
proof -
  obtain i m tx where sp: "sp = speculate_one L ctx s i (m, tx)" using assms(3) by (auto simp: speculate_def)
  show ?thesis
  proof (cases "transact L ctx m s tx")
    case None
    then show ?thesis by (simp add: sp speculate_one_def)
  next
    case (Some r)
    then obtain res cs loaded where tr: "transact L ctx m s tx = Some (res, cs, loaded)" by (cases r) auto
    have "sp_diff sp = cs \<or> sp_diff sp = AList.delete m cs"
      using tr by (auto simp: sp speculate_one_def Let_def split: option.splits)
    with evm_lawD(2)[OF assms(1,2) tr] coded_changes_delete show ?thesis by metis
  qed
qed

lemma same_acc_credit:
  assumes "evm_law D L" "same_acc D s t"
  shows "same_acc D (credit_fee L c s) (credit_fee L c t) \<and> shared_code s t \<subseteq> shared_code (credit_fee L c s) (credit_fee L c t)"
proof -
  obtain m f where c: "c = (m, f)" by fastforce
  have "i_code_hash (default_info L) = KECCAK256_EMPTY" using assms(1) by (simp add: evm_law_def)
  with assms(2) show ?thesis
    unfolding c same_acc_def coded_def
    by (auto simp: credit_fee_def Let_def insert_account_def account_def shared_code_def split: option.splits)
qed

lemma same_acc_credits:
  assumes "evm_law D L" "same_acc D s t"
  shows "same_acc D (fold (credit_fee L) cs s) (fold (credit_fee L) cs t)"
  using assms(2)
proof (induction cs arbitrary: s t)
  case (Cons c cs)
  from Cons.IH[OF same_acc_credit[OF assms(1) Cons.prems, THEN conjunct1]] show ?case by simp
qed simp

lemma commit_speculation_same:
  assumes "same_run D x y" "coded_changes D (code_is_empty L) K (sp_diff (snd e))" "K \<subseteq> shared_code (fst x) (fst y)"
  shows "same_run D (commit_speculation L g tagged e x) (commit_speculation L g tagged e y) \<and>
    K \<subseteq> shared_code (fst (commit_speculation L g tagged e x)) (fst (commit_speculation L g tagged e y))"
proof -
  obtain s b c s' where x: "x = (s, b, c)" and y: "y = (s', b, c)" and ss: "same_acc D s s'"
    using assms(1) by (metis prod.collapse)
  obtain i sp m tx where e: "e = (i, sp)" "tagged ! i = (m, tx)" by (metis surj_pair)
  have "same_acc D (commit (code_is_empty L) (sp_diff sp) s) (commit (code_is_empty L) (sp_diff sp) s')"
    "K \<subseteq> shared_code (commit (code_is_empty L) (sp_diff sp) s) (commit (code_is_empty L) (sp_diff sp) s')"
    using same_acc_commit[OF ss, of "code_is_empty L" K "sp_diff sp"] assms(2,3) by (auto simp: e x y)
  with ss assms(3) show ?thesis
    by (simp add: commit_speculation_def x y e note_all_same[OF ss] split: option.split)
qed

lemma commit_round_same:
  assumes "same_run D x y" "\<forall>e \<in> set es. coded_changes D (code_is_empty L) K (sp_diff (snd e))"
    "K \<subseteq> shared_code (fst x) (fst y)"
  shows "same_run D (fold (commit_speculation L g tagged) es x) (fold (commit_speculation L g tagged) es y)"
  using assms
proof (induction es arbitrary: x y)
  case (Cons e es)
  then have "coded_changes D (code_is_empty L) K (sp_diff (snd e))" by simp
  from commit_speculation_same[OF Cons.prems(1) this Cons.prems(3)] Cons.IH Cons.prems(2) show ?case
    by (simp del: fold_simps add: fold_simps)
qed simp

abbreviation same_par :: "(u256 \<Rightarrow> 'code) \<Rightarrow> ('log, 'code) parallel_state \<Rightarrow> ('log, 'code) parallel_state \<Rightarrow> bool" where
  "same_par D x y \<equiv> same_acc D (fst x) (fst y) \<and> fst (snd x) = fst (snd y)"

lemma run_round_same:
  assumes "evm_law D L" "same_par D x y"
  shows "same_par D (run_round L ctx g tagged layer x) (run_round L ctx g tagged layer y)"
proof -
  obtain s b p f s' p' f' where x: "x = (s, b, p, f)" and y: "y = (s', b, p', f')" and ss: "same_acc D s s'"
    using assms(2) by (metis prod.collapse)
  let ?sps = "speculate L ctx s (map (\<lambda>i. tagged ! i) layer)"
  note spec = speculate_same[OF assms(1) ss]
  show ?thesis
  proof (cases "validate ?sps")
    case (Some c)
    obtain t o1 t' o2 where "execute_sequentially L ctx g tagged layer s = (t, o1)"
      "execute_sequentially L ctx g tagged layer s' = (t', o2)" by fastforce
    with sequential_same[OF assms(1) ss, of ctx g tagged layer] Some spec show ?thesis
      by (simp add: run_round_def x y Let_def)
  next
    case None
    have "\<forall>e \<in> set (zip layer ?sps). coded_changes D (code_is_empty L) (shared_code s s') (sp_diff (snd e))"
      using speculate_coded[OF assms(1) ss] by (auto dest: set_zip_rightD)
    from commit_round_same[of D "(s, b, [])" "(s', b, [])", OF _ this, of g tagged] ss
    have "same_run D (fold (commit_speculation L g tagged) (zip layer ?sps) (s, b, []))
        (fold (commit_speculation L g tagged) (zip layer ?sps) (s', b, []))" by simp
    moreover obtain t b1 c1 t' b2 c2 where
      "fold (commit_speculation L g tagged) (zip layer ?sps) (s, b, []) = (t, b1, c1)"
      "fold (commit_speculation L g tagged) (zip layer ?sps) (s', b, []) = (t', b2, c2)" by (metis prod_cases3)
    ultimately show ?thesis using None spec
      by (simp add: run_round_def x y Let_def same_acc_credits[OF assms(1)])
  qed
qed

lemma run_block_same:
  assumes "evm_law D L" "same_acc D s s'"
  shows "same_par D (run_block L par ctx g tagged s p f) (run_block L par ctx g tagged s' p' f')"
proof -
  have "same_par D (fold (run_round L ctx g tagged) layers x) (fold (run_round L ctx g tagged) layers y)"
    if "same_par D x y" for layers x y
    using that
  proof (induction layers arbitrary: x y)
    case (Cons layer layers)
    from Cons.IH[OF run_round_same[OF assms(1) Cons.prems]] show ?case by simp
  qed simp
  then have "same_par D (execute_rounds_parallel L ctx g tagged order access s p f)
      (execute_rounds_parallel L ctx g tagged order access s' p' f')" for order access
    using assms(2) by (simp add: execute_rounds_parallel_def)
  with sequential_same[OF assms, of ctx g tagged "canonical_order L tagged"] show ?thesis
    by (cases par) (auto simp: run_block_def case_prod_beta)
qed

lemma root_of_same: "same_acc D s t \<Longrightarrow> root_of L s = root_of L t"
  by (simp add: root_of_def state_root_def same_acc_def)

lemma run_block_undoes:
  "run_block L par ctx g tagged s p f = (s', b, p', f') \<Longrightarrow> undoes s s' (x_undo b)"
  by (auto simp: run_block_def dest: sequential_undoes parallel_undoes split: if_splits prod.splits)

section \<open>What every execution path keeps\<close>

text \<open>
  A relation between states that a commit and a plain account insertion respect is respected by a
  whole block, on either path.
\<close>

locale state_relation =
  fixes R :: "'code world_state \<Rightarrow> 'code world_state \<Rightarrow> bool"
  assumes refl: "R s s" and trans: "R s t \<Longrightarrow> R t u \<Longrightarrow> R s u"
    and commit_rel: "R s (commit e cs s)" and insert_rel: "R s (insert_account a acc s)"
begin

lemma fold_rel:
  assumes "\<And>x st. R (fst st) (fst (f x st))"
  shows "R (fst st) (fst (fold f xs st))"
proof (induction xs arbitrary: st)
  case (Cons x xs)
  from trans[OF assms Cons.IH] show ?case by simp
qed (simp add: refl)

lemma run_one_rel: "R (fst st) (fst (run_one L ctx g t st))"
  by (auto simp: run_one_def intro: commit_rel refl split: prod.splits option.splits)

lemma sequential_rel: "R s (fst (execute_sequentially L ctx g tagged order s))"
  using fold_rel[of "\<lambda>i. run_one L ctx g (tagged ! i)" "(s, empty_block)" order]
  by (simp add: execute_sequentially_def run_one_rel)

lemma credit_rel: "R s (credit_fee L e s)"
  by (auto simp: credit_fee_def Let_def intro: insert_rel refl split: prod.splits)

lemma credits_rel: "R s (fold (credit_fee L) es s)"
proof (induction es arbitrary: s)
  case (Cons e es)
  from trans[OF credit_rel Cons.IH] show ?case by simp
qed (simp add: refl)

lemma commit_speculation_rel: "R (fst st) (fst (commit_speculation L g tagged e st))"
  by (auto simp: commit_speculation_def Let_def intro: commit_rel refl split: prod.splits option.splits)

lemma run_round_rel: "R (fst st) (fst (run_round L ctx g tagged layer st))"
proof -
  obtain s b p f where st: "st = (s, b, p, f)" by (metis prod_cases4)
  let ?sps = "speculate L ctx s (map (\<lambda>i. tagged ! i) layer)"
  show ?thesis
  proof (cases "validate ?sps")
    case (Some c)
    with sequential_rel[of s L ctx g tagged layer] show ?thesis
      by (simp add: run_round_def st Let_def case_prod_beta)
  next
    case None
    have "R s (fst (fold (commit_speculation L g tagged) (zip layer ?sps) (s, b, [])))"
      using fold_rel[of "commit_speculation L g tagged" "(s, b, [])"] by (simp add: commit_speculation_rel)
    from trans[OF this credits_rel] None show ?thesis by (simp add: run_round_def st Let_def case_prod_beta)
  qed
qed

lemma run_block_rel: "R s (fst (run_block L par ctx g tagged s p f))"
  using sequential_rel[of s L ctx g tagged "canonical_order L tagged"]
    fold_rel[of "run_round L ctx g tagged" "(s, empty_block, p, f)"]
  by (simp add: run_block_def execute_rounds_parallel_def run_round_rel case_prod_beta)

end

definition same_block_hashes :: "'code world_state \<Rightarrow> 'code world_state \<Rightarrow> bool" where
  "same_block_hashes s t \<longleftrightarrow> w_block_hashes t = w_block_hashes s"

definition code_grows :: "'code world_state \<Rightarrow> 'code world_state \<Rightarrow> bool" where
  "code_grows s t \<longleftrightarrow> dom (w_code s) \<subseteq> dom (w_code t)"

interpretation block_hashes: state_relation same_block_hashes
  by unfold_locales (simp_all add: same_block_hashes_def block_hashes_commit insert_account_def)

interpretation code_growth: state_relation code_grows
  by unfold_locales (simp_all add: code_grows_def code_commit_grows insert_account_def)

end
