(* ===== verification/Executor_Replay.thy ===== *)
theory Executor_Replay
  imports Executor_View
begin

text \<open>
  What the executor promises across blocks: one block's bookkeeping, undo as the inverse of
  execution, refusal of undo out of order, a bounded journal, and reorganisation as replay.
\<close>

section \<open>One block's bookkeeping\<close>

text \<open>An executor's chain as far as later blocks can see it; the journal and the counters are left out.\<close>

definition same_chain :: "(u256 \<Rightarrow> 'code) \<Rightarrow> ('log, 'code) executor \<Rightarrow> ('log, 'code) executor \<Rightarrow> bool" where
  "same_chain D e e' \<longleftrightarrow> same_acc D (e_state e) (e_state e') \<and> e_params e = e_params e' \<and> e_results e = e_results e' \<and>
     e_parallel e = e_parallel e' \<and> e_height e = e_height e' \<and> e_tip e = e_tip e'"

definition pruned :: "nat \<Rightarrow> u64 \<Rightarrow> (u64 \<times> block_hash \<times> 'code undo_record) list \<Rightarrow> (u64 \<times> block_hash \<times> 'code undo_record) list" where
  "pruned window height j = (if height > of_nat window then filter (\<lambda>(h, _, _). h \<ge> height - of_nat window) j else j)"

text \<open>Everything a successful execution does, in one statement.\<close>

lemma execute_chain_block_ok:
  assumes "execute_chain_block L dag bodies b e = Some (Inr out, e1)"
  obtains header base_fee limit window blk where
    "dag_header dag b = Some header" "next_base_fee L e (e_height e) = Some base_fee"
    "block_gas_limit (e_params e) = Some limit" "pruning_window_blocks (e_params e) = Some window"
    "run_block L (e_parallel e) \<lparr>ctx_height = e_height e + 1, ctx_timestamp_secs = h_timestamp_ms header div 1000,
        ctx_base_fee = base_fee, ctx_gas_limit = of_nat limit, ctx_prevrandao = b\<rparr> (of_nat limit)
        (tagged_sequence L dag bodies b) (e_state e) (e_parallel_rounds e) (e_fallback_rounds e)
      = (e_state e1, blk, e_parallel_rounds e1, e_fallback_rounds e1)"
    "out = \<lparr>o_height = e_height e + 1, o_hash = b, o_state_root = root_of L (e_state e1),
        o_receipts_root = receipts_root_of L (x_receipts blk), o_gas_used = x_gas_used blk, o_base_fee = base_fee,
        o_executed = x_executed blk, o_deferred = x_deferred blk, o_hashes = x_hashes blk, o_receipts = x_receipts blk,
        o_timestamp_secs = h_timestamp_ms header div 1000, o_miner = h_miner header\<rparr>"
    "e_results e1 = (e_results e)(e_height e + 1 \<mapsto> out)" "e_height e1 = e_height e + 1" "e_tip e1 = b"
    "e_params e1 = e_params e" "e_parallel e1 = e_parallel e"
    "e_journal e1 = pruned window (e_height e + 1) (e_journal e @ [(e_height e + 1, b, x_undo blk)])"
proof -
  from assms obtain header where header: "dag_header dag b = Some header"
    by (auto simp: execute_chain_block_def split: option.splits)
  with assms obtain base_fee limit window where
    opts: "next_base_fee L e (e_height e) = Some base_fee" "block_gas_limit (e_params e) = Some limit"
      "pruning_window_blocks (e_params e) = Some window"
    by (auto simp: execute_chain_block_def split: option.splits)
  let ?ctx = "\<lparr>ctx_height = e_height e + 1, ctx_timestamp_secs = h_timestamp_ms header div 1000,
        ctx_base_fee = base_fee, ctx_gas_limit = of_nat limit, ctx_prevrandao = b\<rparr>"
  obtain s blk p f where run: "run_block L (e_parallel e) ?ctx (of_nat limit) (tagged_sequence L dag bodies b)
      (e_state e) (e_parallel_rounds e) (e_fallback_rounds e) = (s, blk, p, f)" by (metis prod_cases4)
  let ?out = "\<lparr>o_height = e_height e + 1, o_hash = b, o_state_root = root_of L s,
        o_receipts_root = receipts_root_of L (x_receipts blk), o_gas_used = x_gas_used blk, o_base_fee = base_fee,
        o_executed = x_executed blk, o_deferred = x_deferred blk, o_hashes = x_hashes blk, o_receipts = x_receipts blk,
        o_timestamp_secs = h_timestamp_ms header div 1000, o_miner = h_miner header\<rparr>"
  let ?e = "e\<lparr>e_state := s, e_parallel_rounds := p, e_fallback_rounds := f,
        e_journal := e_journal e @ [(e_height e + 1, b, x_undo blk)],
        e_results := (e_results e)(e_height e + 1 \<mapsto> ?out), e_height := e_height e + 1, e_tip := b\<rparr>"
  have res: "out = ?out"
      "e1 = (if e_height e + 1 > of_nat window then prune_journal (e_height e + 1 - of_nat window) ?e else ?e)"
    using assms header opts run by (simp_all add: execute_chain_block_def Let_def)
  show ?thesis
    by (rule that[OF header opts, where blk = blk]) (simp_all add: res run prune_journal_def pruned_def)
qed

lemma execute_chain_block_same:
  assumes "evm_law D L" "same_chain D e e'"
  shows "case (execute_chain_block L dag bodies b e, execute_chain_block L dag bodies b e') of
      (None, None) \<Rightarrow> True
    | (Some (r, e1), Some (r', e1')) \<Rightarrow> r = r' \<and> same_chain D e1 e1'
    | _ \<Rightarrow> False"
proof (cases "dag_header dag b")
  case None
  with assms(2) show ?thesis by (simp add: execute_chain_block_def)
next
  case (Some header)
  have eqs: "e_params e' = e_params e" "e_parallel e' = e_parallel e" "e_height e' = e_height e" "e_results e' = e_results e"
    and st: "same_acc D (e_state e) (e_state e')" using assms(2) by (simp_all add: same_chain_def)
  have fee: "next_base_fee L e' (e_height e) = next_base_fee L e (e_height e)" by (simp add: next_base_fee_def eqs split: option.split)
  show ?thesis
  proof (cases "next_base_fee L e (e_height e) = None \<or> block_gas_limit (e_params e) = None \<or> pruning_window_blocks (e_params e) = None")
    case True
    then show ?thesis using Some fee by (auto simp: execute_chain_block_def eqs split: option.splits)
  next
    case False
    then obtain base_fee limit window where
      opts: "next_base_fee L e (e_height e) = Some base_fee" "block_gas_limit (e_params e) = Some limit"
        "pruning_window_blocks (e_params e) = Some window" by auto
    let ?ctx = "\<lparr>ctx_height = e_height e + 1, ctx_timestamp_secs = h_timestamp_ms header div 1000,
          ctx_base_fee = base_fee, ctx_gas_limit = of_nat limit, ctx_prevrandao = b\<rparr>"
    let ?run = "\<lambda>e. run_block L (e_parallel e) ?ctx (of_nat limit) (tagged_sequence L dag bodies b)
        (e_state e) (e_parallel_rounds e) (e_fallback_rounds e)"
    obtain s blk p f s' p' f' where run: "?run e = (s, blk, p, f)" "?run e' = (s', blk, p', f')" and ss: "same_acc D s s'"
      using run_block_same[OF assms(1) st, of "e_parallel e" ?ctx "of_nat limit" "tagged_sequence L dag bodies b"
          "e_parallel_rounds e" "e_fallback_rounds e" "e_parallel_rounds e'" "e_fallback_rounds e'"]
      by (auto simp: eqs) (metis prod.collapse)
    show ?thesis
      using Some opts fee run[simplified eqs] ss root_of_same[OF ss, of L]
      by (simp add: execute_chain_block_def Let_def eqs prune_journal_def same_chain_def)
  qed
qed


section \<open>The journal\<close>

text \<open>
  The journal holds consecutive heights up to the current one, at most a pruning window and one of
  them; its last entry is the tip, and no result is recorded above the current height.
\<close>

definition executor_ok :: "nat \<Rightarrow> ('log, 'code) executor \<Rightarrow> bool" where
  "executor_ok window e \<longleftrightarrow>
     (\<exists>g. e_results e 0 = Some g \<and> (e_journal e = [] \<longrightarrow> e_tip e = o_hash g)) \<and>
     (\<forall>h > e_height e. e_results e h = None) \<and>
     length (e_journal e) \<le> unat (e_height e) \<and> length (e_journal e) \<le> window + 1 \<and>
     map (unat \<circ> fst) (e_journal e) = [unat (e_height e) + 1 - length (e_journal e) ..< unat (e_height e) + 1] \<and>
     (e_journal e \<noteq> [] \<longrightarrow> fst (snd (last (e_journal e))) = e_tip e)"

lemma filter_ge_upt: "filter (\<lambda>i. k \<le> i) [a ..< b] = [max k a ..< b]"
proof (induction b)
  case (Suc b)
  then show ?case by (cases "a \<le> b"; cases "k \<le> b") (auto simp: max_def not_le)
qed simp

lemma pruned_heights:
  assumes "map (unat \<circ> fst) j = [a ..< unat h + 1]" "window < 2 ^ 64"
  shows "map (unat \<circ> fst) (pruned window h j) = [max (unat h - window) a ..< unat h + 1]"
proof -
  have w: "unat (of_nat window :: u64) = window" using assms(2) by (simp add: unat_of_nat take_bit_eq_mod)
  show ?thesis
  proof (cases "h > of_nat window")
    case True
    then have sub: "unat (h - of_nat window) = unat h - window" using w unat_sub[of "of_nat window" h] by simp
    then have "filter (\<lambda>(k, _, _). k \<ge> h - of_nat window) j = filter ((\<lambda>i. unat h - window \<le> i) \<circ> (unat \<circ> fst)) j"
      by (intro filter_cong) (auto simp: word_le_nat_alt sub)
    then have "map (unat \<circ> fst) (filter (\<lambda>(k, _, _). k \<ge> h - of_nat window) j)
        = filter (\<lambda>i. unat h - window \<le> i) (map (unat \<circ> fst) j)" by (simp add: filter_map)
    with True assms(1) show ?thesis by (simp add: pruned_def filter_ge_upt)
  next
    case False
    then have "unat h \<le> window" using w by (simp add: word_le_nat_alt not_less)
    with False assms(1) show ?thesis by (simp add: pruned_def)
  qed
qed

lemma pruned_snoc:
  "pruned window h (j @ [(h, x)]) = pruned window h j @ [(h, x)]"
proof -
  have "h > of_nat window \<Longrightarrow> h - of_nat window \<le> h"
    by (meson less_imp_le word_sub_le_iff)
  then show ?thesis by (auto simp: pruned_def)
qed

lemma unat_succ: "h \<noteq> - 1 \<Longrightarrow> unat (h + 1) = unat (h :: u64) + 1"
proof -
  assume "h \<noteq> - 1"
  then have "unat h \<noteq> 2 ^ 64 - 1" using unat_max_word[where 'a = 64] by (auto simp: word_unat_eq_iff)
  moreover have "unat h < 2 ^ LENGTH(64)" by (rule unsigned_less)
  ultimately have "unat h + 1 < 2 ^ 64" by simp
  then show ?thesis by (simp add: unat_word_ariths)
qed


lemma execute_chain_block_step:
  assumes run: "execute_chain_block L dag bodies b e = Some (Inr out, e1)"
    and w: "pruning_window_blocks (e_params e) = Some window"
  obtains blk ctx g where
    "run_block L (e_parallel e) ctx g (tagged_sequence L dag bodies b) (e_state e) (e_parallel_rounds e) (e_fallback_rounds e)
      = (e_state e1, blk, e_parallel_rounds e1, e_fallback_rounds e1)"
    "e_journal e1 = pruned window (e_height e + 1) (e_journal e) @ [(e_height e + 1, b, x_undo blk)]"
    "e_results e1 = (e_results e)(e_height e + 1 \<mapsto> out)" "e_height e1 = e_height e + 1" "e_tip e1 = b"
    "e_params e1 = e_params e" "e_parallel e1 = e_parallel e"
proof (rule execute_chain_block_ok[OF run], goal_cases)
  case (1 header base_fee limit window' blk)
  from 1(5) w have "window' = window" by simp
  with 1(13) have "e_journal e1 = pruned window (e_height e + 1) (e_journal e) @ [(e_height e + 1, b, x_undo blk)]"
    by (simp only: pruned_snoc)
  from that[OF 1(6) this 1(8-12)] show ?case .
qed

lemma new_executor_ok: "executor_ok window (new_executor L params s g)"
  by (auto simp: executor_ok_def new_executor_def)

lemma set_parallel_ok: "executor_ok window e \<Longrightarrow> executor_ok window (set_parallel b e)"
  by (simp add: executor_ok_def set_parallel_def)

lemma execute_chain_block_inv:
  assumes ok: "executor_ok window e" and run: "execute_chain_block L dag bodies b e = Some (Inr out, e1)"
    and w: "pruning_window_blocks (e_params e) = Some window" "window < 2 ^ 64" and h: "e_height e \<noteq> - 1"
  shows "executor_ok window e1"
    and "\<exists>record. e_journal e1 = pruned window (e_height e1) (e_journal e) @ [(e_height e1, b, record)]"
    and "length (e_journal e1) = min (length (e_journal e)) window + 1"
proof -
  obtain blk ctx g where
    "run_block L (e_parallel e) ctx g (tagged_sequence L dag bodies b) (e_state e) (e_parallel_rounds e) (e_fallback_rounds e)
      = (e_state e1, blk, e_parallel_rounds e1, e_fallback_rounds e1)"
    and j1: "e_journal e1 = pruned window (e_height e + 1) (e_journal e) @ [(e_height e + 1, b, x_undo blk)]"
    and r: "e_results e1 = (e_results e)(e_height e + 1 \<mapsto> out)" "e_height e1 = e_height e + 1" "e_tip e1 = b"
      "e_params e1 = e_params e" "e_parallel e1 = e_parallel e"
    by (rule execute_chain_block_step[OF run w(1)], rule that)
  note j = j1[folded pruned_snoc]
  let ?j = "e_journal e @ [(e_height e + 1, b, x_undo blk)]" let ?n = "length (e_journal e)"
  note H = unat_succ[OF h]
  show "\<exists>record. e_journal e1 = pruned window (e_height e1) (e_journal e) @ [(e_height e1, b, record)]"
    unfolding r(2) using j1 by blast
  have "map (unat \<circ> fst) ?j = [unat (e_height e) + 1 - ?n ..< unat (e_height e + 1) + 1]"
    using ok by (simp add: executor_ok_def H)
  from pruned_heights[OF this w(2)] have
    m: "map (unat \<circ> fst) (e_journal e1) = [max (unat (e_height e1) - window) (unat (e_height e) + 1 - ?n) ..< unat (e_height e1) + 1]"
    by (simp add: j r(2))
  then have len: "length (e_journal e1) = unat (e_height e1) + 1 - max (unat (e_height e1) - window) (unat (e_height e) + 1 - ?n)"
    by (metis length_map length_upt)
  have n: "?n \<le> unat (e_height e)" using ok by (simp add: executor_ok_def)
  show "length (e_journal e1) = min ?n window + 1" using len n H by (auto simp: r(2) max_def min_def split: if_splits)
  from n len H r(2) have len2: "length (e_journal e1) \<le> unat (e_height e1)" "length (e_journal e1) \<le> window + 1"
    "max (unat (e_height e1) - window) (unat (e_height e) + 1 - ?n) = unat (e_height e1) + 1 - length (e_journal e1)"
    by (auto simp: max_def)
  obtain g where g: "e_results e 0 = Some g" using ok by (auto simp: executor_ok_def)
  have "e_height e + 1 \<noteq> 0" using H by (metis Suc_eq_plus1 nat.distinct(1) unat_0)
  moreover have "e_results e k = None" if "e_height e + 1 < k" for k
  proof -
    have "e_height e < k" using that H by (simp add: word_less_nat_alt)
    with ok show ?thesis by (simp add: executor_ok_def)
  qed
  ultimately have "\<exists>g. e_results e1 0 = Some g" "\<forall>k > e_height e1. e_results e1 k = None"
    using g by (auto simp: r)
  moreover have "e_journal e1 \<noteq> []" "fst (snd (last (e_journal e1))) = e_tip e1" by (simp_all add: j pruned_snoc r)
  ultimately show "executor_ok window e1" unfolding executor_ok_def using m len2 by metis
qed

lemma undo_one_inv:
  assumes ok: "executor_ok window e" and u: "undo_one b e = (Inr (), e1)"
  shows "executor_ok window e1"
    and "\<exists>record. e_journal e = e_journal e1 @ [(e_height e, b, record)] \<and> e_state e1 = apply_record record (e_state e)"
    and "e_results e1 = (e_results e)(e_height e := None)" "unat (e_height e1) = unat (e_height e) - 1" "e_height e \<noteq> 0"
      "e_params e1 = e_params e" "e_parallel e1 = e_parallel e" "e_tip e = b"
proof -
  from u obtain j h rec where j: "e_journal e = j @ [(h, b, rec)]" and e1: "e1 = e\<lparr>e_journal := j, e_state := apply_record rec (e_state e),
      e_results := (e_results e)(h := None), e_height := saturating_sub h 1,
      e_tip := (if j = [] then case ((e_results e)(h := None)) 0 of None \<Rightarrow> b | Some g \<Rightarrow> o_hash g
                else case last j of (_, h, _) \<Rightarrow> h)\<rparr>"
    by (cases "e_journal e" rule: rev_cases) (auto simp: undo_one_def Let_def split: if_splits prod.splits)
  let ?H = "unat (e_height e)" let ?n = "length j"
  have m: "map (unat \<circ> fst) (j @ [(h, b, rec)]) = [?H + 1 - (?n + 1) ..< ?H + 1]" and n: "?n + 1 \<le> ?H" "?n + 1 \<le> window + 1"
    using ok by (auto simp: executor_ok_def j)
  from m n have "map (unat \<circ> fst) j @ [unat h] = [?H - ?n ..< ?H] @ [?H]" by simp
  then have mj: "map (unat \<circ> fst) j = [?H - ?n ..< ?H]" and "unat h = ?H" by simp_all
  then have h: "h = e_height e" by (simp add: word_unat_eq_iff)
  have pos: "e_height e \<noteq> 0" using n by auto
  have H1: "unat (saturating_sub h 1) = ?H - 1" by (simp add: unat_saturating_sub h)
  show "\<exists>record. e_journal e = e_journal e1 @ [(e_height e, b, record)] \<and> e_state e1 = apply_record record (e_state e)"
    using j h by (simp add: e1)
  show "e_results e1 = (e_results e)(e_height e := None)" "unat (e_height e1) = unat (e_height e) - 1" "e_height e \<noteq> 0"
    "e_params e1 = e_params e" "e_parallel e1 = e_parallel e" using h H1 pos by (simp_all add: e1)
  show "e_tip e = b" using ok by (simp add: executor_ok_def j)
  obtain g where g: "e_results e 0 = Some g" using ok by (auto simp: executor_ok_def)
  have above: "((e_results e)(h := None)) k = None" if "saturating_sub h 1 < k" for k
  proof (cases "k = h")
    case False
    then have "e_height e < k" using that H1 n(1) by (simp add: word_less_nat_alt h word_unat_eq_iff)
    with ok False show ?thesis by (simp add: executor_ok_def)
  qed simp
  show "executor_ok window e1"
    unfolding executor_ok_def
  proof (intro conjI)
    show "\<exists>g. e_results e1 0 = Some g \<and> (e_journal e1 = [] \<longrightarrow> e_tip e1 = o_hash g)" using g pos h by (simp add: e1)
    show "\<forall>k > e_height e1. e_results e1 k = None" using above by (simp add: e1)
    show "length (e_journal e1) \<le> unat (e_height e1)" "length (e_journal e1) \<le> window + 1" using n H1 by (simp_all add: e1)
    show "map (unat \<circ> fst) (e_journal e1) = [unat (e_height e1) + 1 - length (e_journal e1) ..< unat (e_height e1) + 1]"
      using mj H1 n by (simp add: e1)
    show "e_journal e1 \<noteq> [] \<longrightarrow> fst (snd (last (e_journal e1))) = e_tip e1" by (simp add: e1 split: prod.split)
  qed
qed

section \<open>Undo is the inverse of execution\<close>

lemma execute_then_undo:
  assumes ok: "executor_ok window e" and run: "execute_chain_block L dag bodies b e = Some (Inr out, e1)"
    and w: "pruning_window_blocks (e_params e) = Some window" "0 < window" "window < 2 ^ 64" and h: "e_height e \<noteq> - 1"
  obtains e2 where "undo_one b e1 = (Inr (), e2)" "w_accounts (e_state e2) = w_accounts (e_state e)"
    "w_block_hashes (e_state e2) = w_block_hashes (e_state e)" "w_code (e_state e2) = w_code (e_state e1)"
    "e_results e2 = e_results e" "e_height e2 = e_height e" "e_tip e2 = e_tip e" "e_params e2 = e_params e"
    "e_parallel e2 = e_parallel e" "executor_ok window e2"
    "e_journal e2 = pruned window (e_height e + 1) (e_journal e)"
proof -
  obtain blk ctx g where
    rb: "run_block L (e_parallel e) ctx g (tagged_sequence L dag bodies b) (e_state e) (e_parallel_rounds e) (e_fallback_rounds e)
      = (e_state e1, blk, e_parallel_rounds e1, e_fallback_rounds e1)"
    and j: "e_journal e1 = pruned window (e_height e + 1) (e_journal e) @ [(e_height e + 1, b, x_undo blk)]"
    and r: "e_results e1 = (e_results e)(e_height e + 1 \<mapsto> out)" "e_height e1 = e_height e + 1" "e_tip e1 = b"
      "e_params e1 = e_params e" "e_parallel e1 = e_parallel e"
    by (rule execute_chain_block_step[OF run w(1)], rule that)
  note H = unat_succ[OF h]
  let ?j = "pruned window (e_height e + 1) (e_journal e)"
  obtain e2 where u: "undo_one b e1 = (Inr (), e2)" and e2: "e2 = e1\<lparr>e_journal := ?j,
      e_state := apply_record (x_undo blk) (e_state e1), e_results := (e_results e1)(e_height e + 1 := None),
      e_height := saturating_sub (e_height e + 1) 1,
      e_tip := (if ?j = [] then case ((e_results e1)(e_height e + 1 := None)) 0 of None \<Rightarrow> b | Some g \<Rightarrow> o_hash g
                else case last ?j of (_, h, _) \<Rightarrow> h)\<rparr>"
    by (simp add: undo_one_def Let_def j)
  note inv1 = execute_chain_block_inv(1)[OF ok run w(1,3) h]
  from undo_one_inv(1)[OF inv1 u] have ok2: "executor_ok window e2" .
  have und: "undoes (e_state e) (e_state e1) (x_undo blk)" using run_block_undoes[OF rb] .
  have none: "e_results e (e_height e + 1) = None"
    using ok H by (simp add: executor_ok_def word_less_nat_alt)
  then have res: "e_results e2 = e_results e" by (simp add: e2 r fun_upd_idem)
  have ht: "e_height e2 = e_height e" by (simp add: e2 word_unat_eq_iff unat_saturating_sub H)
  have mj: "map (unat \<circ> fst) (e_journal e) = [unat (e_height e) + 1 - length (e_journal e) ..< unat (e_height e) + 1]"
    "length (e_journal e) \<le> unat (e_height e)" using ok by (simp_all add: executor_ok_def)
  have tip: "e_tip e2 = e_tip e"
  proof (cases "e_journal e" rule: rev_cases)
    case Nil
    then have "?j = []" by (simp add: pruned_def)
    with Nil ok res show ?thesis by (auto simp: executor_ok_def e2)
  next
    case (snoc j x)
    obtain k t rec where x: "x = (k, t, rec)" by (metis prod_cases3)
    have "last (map (unat \<circ> fst) (e_journal e)) = unat k" by (simp add: snoc x)
    with mj snoc have "unat k = unat (e_height e)" by (simp add: last_upt)
    then have "k = e_height e" by (simp add: word_unat_eq_iff)
    moreover have "e_height e + 1 > of_nat window \<Longrightarrow> e_height e \<ge> e_height e + 1 - of_nat window"
      using w(2,3) H unat_sub[of "of_nat window" "e_height e + 1"]
      by (simp add: word_le_nat_alt word_less_nat_alt unat_of_nat take_bit_eq_mod)
    ultimately have "last ?j = x \<and> ?j \<noteq> []" by (auto simp: pruned_def snoc x)
    with ok snoc show ?thesis by (auto simp: e2 x executor_ok_def)
  qed
  have hashes: "w_block_hashes (apply_record rec s) = w_block_hashes s" "w_code (apply_record rec s) = w_code s" for rec s
    unfolding apply_record_def
    by (induction rec arbitrary: s) (auto simp: restore_one_def insert_account_def remove_account_def split: prod.splits option.splits)
  show ?thesis
  proof (rule that[OF u])
    show "w_accounts (e_state e2) = w_accounts (e_state e)" using undoes_accounts[OF und] by (simp add: e2)
    have "w_block_hashes (e_state e1) = w_block_hashes (e_state e)" using block_hashes.run_block_rel[of "e_state e" L "e_parallel e" ctx g
        "tagged_sequence L dag bodies b" "e_parallel_rounds e" "e_fallback_rounds e"] by (simp add: rb same_block_hashes_def)
    then show "w_block_hashes (e_state e2) = w_block_hashes (e_state e)" "w_code (e_state e2) = w_code (e_state e1)"
      by (simp_all add: e2 hashes)
  qed (use res ht tip ok2 r in \<open>simp_all add: e2\<close>)
qed

end
