(* ===== verification/Executor_Props.thy ===== *)
theory Executor_Props
  imports Executor_Replay Dag_Props
begin

text \<open>
  Properties of reachable executors: the journal and the tip stay consistent whatever is executed and
  undone, undo is the exact inverse of execution and refuses to run out of order, and a
  reorganisation ends where a node that never saw the abandoned branch would be.
\<close>

section \<open>Undoing a whole branch\<close>

lemma undo_all_append:
  "undo_all (xs @ ys) e = (case undo_all xs e of (Inl err, e) \<Rightarrow> (Inl err, e) | (Inr _, e) \<Rightarrow> undo_all ys e)"
  by (induction xs arbitrary: e) (auto split: prod.splits sum.splits)

lemma suffix_filter_sorted: "sorted (map f xs) \<Longrightarrow> suffix (filter (\<lambda>x. k \<le> f x) xs) xs"
proof (induction xs)
  case (Cons x xs)
  show ?case
  proof (cases "k \<le> f x")
    case True
    with Cons.prems have "filter (\<lambda>x. k \<le> f x) (x # xs) = x # xs" by (auto simp: filter_id_conv)
    then show ?thesis by simp
  next
    case False
    with Cons show ?thesis by (auto intro: suffix_ConsI)
  qed
qed simp

lemma suffix_pruned:
  assumes "executor_ok window e"
  shows "suffix (pruned window h (e_journal e)) (e_journal e)"
proof -
  have "map (unat \<circ> fst) (e_journal e) = [unat (e_height e) + 1 - length (e_journal e) ..< unat (e_height e) + 1]"
    using assms by (simp only: executor_ok_def)
  then have "sorted (map (unat \<circ> fst) (e_journal e))" by (metis sorted_upt)
  moreover have "filter (\<lambda>(i, _, _). h - of_nat window \<le> i) (e_journal e)
      = filter (\<lambda>x. unat (h - of_nat window) \<le> (unat \<circ> fst) x) (e_journal e)"
    by (intro filter_cong) (auto simp: word_le_nat_alt)
  ultimately show ?thesis by (simp add: pruned_def suffix_filter_sorted del: o_apply)
qed

lemma apply_record_accounts_same:
  "w_accounts s = w_accounts t \<Longrightarrow> w_accounts (apply_record r s) = w_accounts (apply_record r t)"
  unfolding apply_record_def
proof (induction r arbitrary: s t)
  case (Cons x r)
  obtain a p where "x = (a, p)" by fastforce
  with Cons.prems have "w_accounts (restore_one x s) = w_accounts (restore_one x t)"
    by (cases p) (simp_all add: restore_one_def insert_account_def remove_account_def)
  from Cons.IH[OF this] show ?case by simp
qed simp

lemma apply_record_rest: "w_block_hashes (apply_record r s) = w_block_hashes s" "w_code (apply_record r s) = w_code s"
  unfolding apply_record_def
  by (induction r arbitrary: s) (auto simp: restore_one_def insert_account_def remove_account_def split: prod.splits option.splits)

text \<open>A state holds the code of another's accounts, so it could take them over.\<close>

definition holds_code :: "(u256 \<Rightarrow> 'code) \<Rightarrow> 'code world_state \<Rightarrow> 'code world_state \<Rightarrow> bool" where
  "holds_code D s t \<longleftrightarrow> coded D (t\<lparr>w_accounts := w_accounts s\<rparr>)"

lemma holds_code_grows: "holds_code D s t \<Longrightarrow> dom (w_code t) \<subseteq> dom (w_code u) \<Longrightarrow> coded D u \<Longrightarrow> holds_code D s u"
  unfolding holds_code_def coded_def by simp blast

lemma holds_code_same: "w_code t = w_code u \<Longrightarrow> holds_code D s t \<longleftrightarrow> holds_code D s u"
  by (simp add: holds_code_def coded_def)

lemma holds_code_coded: "w_accounts t = w_accounts s \<Longrightarrow> holds_code D s t \<longleftrightarrow> coded D t"
  by (simp add: holds_code_def coded_def)

lemma execute_coded:
  assumes "evm_law D L" "coded D (e_state e)" "execute_chain_block L dag bodies b e = Some (Inr out, e1)"
  shows "coded D (e_state e1)" "dom (w_code (e_state e)) \<subseteq> dom (w_code (e_state e1))"
proof -
  have "same_chain D e e" using assms(2) by (simp add: same_chain_def same_acc_def)
  from execute_chain_block_same[OF assms(1) this, of dag bodies b] assms(3) show "coded D (e_state e1)"
    by (simp add: same_chain_def same_acc_def)
  show "dom (w_code (e_state e)) \<subseteq> dom (w_code (e_state e1))"
  proof (rule execute_chain_block_ok[OF assms(3)], goal_cases)
    case (1 header base_fee limit window blk)
    have "code_grows (e_state e) (e_state e1)"
      using code_growth.run_block_rel[of "e_state e"] 1(5) by (metis fst_conv)
    then show ?case by (simp only: code_grows_def)
  qed
qed

text \<open>\<open>e'\<close> is on the same chain as \<open>e\<close>, with a shorter journal at most.\<close>

definition tracks :: "(u256 \<Rightarrow> 'code) \<Rightarrow> nat \<Rightarrow> ('log, 'code) executor \<Rightarrow> ('log, 'code) executor \<Rightarrow> bool" where
  "tracks D window e e' \<longleftrightarrow> same_chain D e e' \<and> suffix (e_journal e') (e_journal e) \<and> executor_ok window e'"

definition rewound :: "(u256 \<Rightarrow> 'code) \<Rightarrow> nat \<Rightarrow> ('log, 'code) executor \<Rightarrow> ('log, 'code) executor \<Rightarrow> bool" where
  "rewound D window e e' \<longleftrightarrow> tracks D window e e' \<and> dom (w_code (e_state e)) \<subseteq> dom (w_code (e_state e'))"

lemma executor_tip_same:
  assumes "executor_ok window e" "executor_ok window e'" "suffix (e_journal e') (e_journal e)"
    "e_results e = e_results e'" "e_journal e = [] \<or> e_journal e' \<noteq> []"
  shows "e_tip e = e_tip e'"
proof (cases "e_journal e' = []")
  case True
  with assms show ?thesis unfolding executor_ok_def by auto
next
  case False
  with assms(3) have "last (e_journal e') = last (e_journal e)" "e_journal e \<noteq> []" by (auto simp: suffix_def)
  with False assms(1,2) show ?thesis by (simp add: executor_ok_def)
qed

lemma undo_one_tracks:
  assumes law: "evm_law D L" and ok: "executor_ok window e" and cd: "coded D (e_state e)"
    and run: "execute_chain_block L dag bodies b e = Some (Inr out, e1)"
    and w: "pruning_window_blocks (e_params e) = Some window" "0 < window" "window < 2 ^ 64" and h: "e_height e \<noteq> - 1"
    and tr: "tracks D window e1 e1'" and holds: "holds_code D (e_state e) (e_state e1')" and k: "k < length (e_journal e1')" "e_journal e = [] \<or> 0 < k"
  shows "\<exists>e'. undo_one b e1' = (Inr (), e') \<and> tracks D window e e' \<and> k \<le> length (e_journal e') \<and>
    length (e_journal e1') = length (e_journal e') + 1 \<and> w_code (e_state e') = w_code (e_state e1')"
proof -
  obtain e2 where u2: "undo_one b e1 = (Inr (), e2)" and e2: "w_accounts (e_state e2) = w_accounts (e_state e)"
      "w_block_hashes (e_state e2) = w_block_hashes (e_state e)" "e_results e2 = e_results e" "e_height e2 = e_height e"
    "e_params e2 = e_params e" "e_parallel e2 = e_parallel e" "e_journal e2 = pruned window (e_height e + 1) (e_journal e)"
    by (rule execute_then_undo[OF ok run w h]) (rule that, assumption+)
  note ok1 = execute_chain_block_inv(1)[OF ok run w(1,3) h]
  from undo_one_inv[OF ok1 u2] obtain rcd where
    j1: "e_journal e1 = e_journal e2 @ [(e_height e1, b, rcd)]" and s2: "e_state e2 = apply_record rcd (e_state e1)"
    and r1: "e_results e2 = (e_results e1)(e_height e1 := None)" "unat (e_height e2) = unat (e_height e1) - 1"
      "e_params e2 = e_params e1" "e_parallel e2 = e_parallel e1" by blast
  have sc: "same_chain D e1 e1'" "suffix (e_journal e1') (e_journal e1)" "executor_ok window e1'"
    using tr by (simp_all add: tracks_def)
  from sc(2) k(1) obtain j' where j': "e_journal e1' = j' @ [(e_height e1, b, rcd)]" "suffix j' (e_journal e2)"
    unfolding j1 by (cases "e_journal e1'" rule: rev_cases) (auto simp: suffix_def)
  then obtain e' where u: "undo_one b e1' = (Inr (), e')" and e'_j: "e_journal e' = j'"
    by (simp add: undo_one_def Let_def)
  note inv = undo_one_inv[OF sc(3) u]
  from inv(2) j' e'_j have s': "e_state e' = apply_record rcd (e_state e1')" by simp
  have same1: "w_accounts (e_state e1) = w_accounts (e_state e1')" "w_block_hashes (e_state e1) = w_block_hashes (e_state e1')"
    "coded D (e_state e1')" "e_params e1 = e_params e1'" "e_results e1 = e_results e1'" "e_parallel e1 = e_parallel e1'"
    "e_height e1 = e_height e1'" using sc(1) by (simp_all add: same_chain_def same_acc_def)
  have acc: "w_accounts (e_state e') = w_accounts (e_state e)"
    unfolding s' e2(1)[symmetric] s2 by (rule apply_record_accounts_same) (simp add: same1)
  have code: "w_code (e_state e') = w_code (e_state e1')" by (simp add: s' apply_record_rest)
  have cd': "coded D (e_state e')"
    using holds holds_code_coded[OF acc] holds_code_same[OF code] by metis
  have res: "e_results e' = e_results e" using inv(3) r1(1) same1 e2(3) by simp
  have ht: "e_height e' = e_height e" using inv(4) r1(2) same1 e2(4) by (simp add: word_unat_eq_iff)
  have suf: "suffix (e_journal e') (e_journal e)"
    using suffix_order.trans[OF j'(2)] suffix_pruned[OF ok] by (simp add: e'_j e2(7))
  have len: "k \<le> length (e_journal e')" using k(1) by (simp add: e'_j j'(1))
  then have "e_journal e = [] \<or> e_journal e' \<noteq> []" using k(2) by auto
  from executor_tip_same[OF ok inv(1) suf res[symmetric] this] have tip: "e_tip e = e_tip e'" .
  have "w_block_hashes (e_state e') = w_block_hashes (e_state e)"
    unfolding s' apply_record_rest same1(2)[symmetric] using e2(2) by (simp add: s2 apply_record_rest)
  then have "same_chain D e e'"
    using acc cd cd' res ht tip inv(6,7) r1(3,4) same1 e2 by (simp add: same_chain_def same_acc_def)
  moreover have "length (e_journal e1') = length (e_journal e') + 1" by (simp add: j'(1) e'_j)
  ultimately show ?thesis using u suf inv(1) len code by (auto simp: tracks_def)
qed

lemma undo_one_rewound:
  assumes law: "evm_law D L" and ok: "executor_ok window e" and cd: "coded D (e_state e)"
    and run: "execute_chain_block L dag bodies b e = Some (Inr out, e1)"
    and w: "pruning_window_blocks (e_params e) = Some window" "0 < window" "window < 2 ^ 64" and h: "e_height e \<noteq> - 1"
    and rw: "rewound D window e1 e1'" and k: "k < length (e_journal e1')" "e_journal e = [] \<or> 0 < k"
  shows "\<exists>e'. undo_one b e1' = (Inr (), e') \<and> rewound D window e e' \<and> k \<le> length (e_journal e')"
proof -
  note grow = execute_coded(2)[OF law cd run]
  have tr: "tracks D window e1 e1'" and dm: "dom (w_code (e_state e)) \<subseteq> dom (w_code (e_state e1'))"
    using rw grow by (auto simp: rewound_def)
  have "holds_code D (e_state e) (e_state e)" using cd by (simp add: holds_code_coded)
  moreover have "coded D (e_state e1')" using tr by (simp add: tracks_def same_chain_def same_acc_def)
  ultimately have "holds_code D (e_state e) (e_state e1')" using dm holds_code_grows by blast
  from undo_one_tracks[OF law ok cd run w h tr this k] dm show ?thesis by (auto simp: rewound_def)
qed

lemma execute_all_Cons:
  assumes "execute_all L dag bodies (b # bs) outs e = Some (Inr outs', ef)"
  obtains out e1 where "execute_chain_block L dag bodies b e = Some (Inr out, e1)"
    "execute_all L dag bodies bs (outs @ [out]) e1 = Some (Inr outs', ef)"
  using assms by (auto split: option.splits prod.splits sum.splits)

lemma undo_branch:
  assumes "evm_law D L" and "0 < window" "window < 2 ^ 64"
    and "executor_ok window e" "coded D (e_state e)" "pruning_window_blocks (e_params e) = Some window"
    and "execute_all L dag bodies bs outs e = Some (Inr outs', ef)" "unat (e_height e) + length bs < 2 ^ 64"
    and "k \<le> length (e_journal e)" "length bs + k \<le> window + 1" "e_journal e = [] \<or> 0 < k"
  shows "\<exists>e'. undo_all (rev bs) ef = (Inr (), e') \<and> rewound D window e e' \<and> k \<le> length (e_journal e')"
  using assms(4-)
proof (induction bs arbitrary: e k outs)
  case Nil
  then show ?case by (auto simp: rewound_def tracks_def same_chain_def same_acc_def)
next
  case (Cons b bs)
  from execute_all_Cons[OF Cons.prems(4)] obtain out e1 where
    run: "execute_chain_block L dag bodies b e = Some (Inr out, e1)"
    and rest: "execute_all L dag bodies bs (outs @ [out]) e1 = Some (Inr outs', ef)" .
  note ok = Cons.prems(1) note cd = Cons.prems(2) note w = Cons.prems(3)
  have h: "e_height e \<noteq> - 1" using Cons.prems(5) unat_max_word[where 'a = 64] by auto
  note inv = execute_chain_block_inv[OF ok run w assms(3) h]
  obtain blk ctx g where "run_block L (e_parallel e) ctx g (tagged_sequence L dag bodies b) (e_state e)
      (e_parallel_rounds e) (e_fallback_rounds e) = (e_state e1, blk, e_parallel_rounds e1, e_fallback_rounds e1)"
    and r: "e_height e1 = e_height e + 1" "e_params e1 = e_params e"
    by (rule execute_chain_block_step[OF run w]) (rule that, assumption+)
  have "k + 1 \<le> length (e_journal e1)" "length bs + (k + 1) \<le> window + 1"
    using inv(3) Cons.prems(6,7) by simp_all
  moreover have "unat (e_height e1) + length bs < 2 ^ 64" using Cons.prems(5) unat_succ[OF h] r by simp
  ultimately obtain e1' where u1: "undo_all (rev bs) ef = (Inr (), e1')" "rewound D window e1 e1'" "k + 1 \<le> length (e_journal e1')"
    using Cons.IH[OF inv(1) execute_coded(1)[OF assms(1) cd run] _ rest, where k = "k + 1"] w r by auto
  from undo_one_rewound[OF assms(1) ok cd run w assms(2,3) h u1(2) _ Cons.prems(8)] u1(3)
  obtain e' where "undo_one b e1' = (Inr (), e')" "rewound D window e e'" "k \<le> length (e_journal e')" by auto
  with u1(1) show ?case by (simp add: undo_all_append)
qed


section \<open>Reachable executors\<close>

text \<open>
  An executor is built over a genesis state and then executes, undoes and switches paths in any
  order, as long as heights stay below \<open>2^64 - 1\<close>; a failed operation is a step too.
\<close>

inductive exec_reachable ::
  "('tx, 'res, 'log, 'code) chain_lib \<Rightarrow> chain_params \<Rightarrow> 'code world_state \<Rightarrow> block_hash \<Rightarrow> ('log, 'code) executor \<Rightarrow> bool"
  for L params genesis_state genesis_hash where
  start: "exec_reachable L params genesis_state genesis_hash (new_executor L params genesis_state genesis_hash)"
| switch: "exec_reachable L params genesis_state genesis_hash e \<Longrightarrow>
    exec_reachable L params genesis_state genesis_hash (set_parallel b e)"
| execute: "exec_reachable L params genesis_state genesis_hash e \<Longrightarrow> e_height e \<noteq> - 1 \<Longrightarrow>
    execute_chain_block L dag bodies b e = Some (r, e1) \<Longrightarrow> exec_reachable L params genesis_state genesis_hash e1"
| undo: "exec_reachable L params genesis_state genesis_hash e \<Longrightarrow> undo_one b e = (r, e1) \<Longrightarrow>
    exec_reachable L params genesis_state genesis_hash e1"

lemma window_of_params:
  assumes "validate_params p = Some (Inr ())"
  obtains window where "pruning_window_blocks p = Some window" "0 < window" "window < 2 ^ 64"
proof -
  from validate_params_okD[OF assms] have "0 < target_block_interval_ms p" "target_block_interval_ms p dvd 1000" by auto
  then have b: "0 < 1000 div target_block_interval_ms p" "1000 div target_block_interval_ms p \<le> 1000"
    by (auto simp: div_greater_zero_iff dvd_imp_le)
  show ?thesis
  proof (rule that[OF derived_values(5)[OF assms refl]])
    show "0 < 86400 * (1000 div target_block_interval_ms p)" using b(1) by simp
    have "86400 * (1000 div target_block_interval_ms p) \<le> 86400 * 1000" using b(2) by (rule mult_le_mono2)
    also have "(86400 :: nat) * 1000 < 2 ^ 64" by simp
    finally show "86400 * (1000 div target_block_interval_ms p) < 2 ^ 64" .
  qed
qed

lemma execute_error_unchanged:
  "execute_chain_block L dag bodies b e = Some (Inl err, e1) \<Longrightarrow> e1 = e"
  by (auto simp: execute_chain_block_def Let_def split: option.splits prod.splits)

lemma undo_error_unchanged: "undo_one b e = (Inl err, e1) \<Longrightarrow> e1 = e"
  by (auto simp: undo_one_def Let_def split: if_splits prod.splits)

lemma reachable_executor_ok:
  assumes "exec_reachable L p s0 g e" "pruning_window_blocks p = Some window" "window < 2 ^ 64"
  shows "executor_ok window e \<and> e_params e = p"
  using assms(1)
proof induction
  case start
  then show ?case by (simp add: new_executor_ok) (simp add: new_executor_def)
next
  case (switch e b)
  then show ?case by (simp add: set_parallel_ok) (simp add: set_parallel_def)
next
  case (execute e dag bodies b r e1)
  show ?case
  proof (cases r)
    case (Inl err)
    with execute execute_error_unchanged show ?thesis by blast
  next
    case (Inr out)
    note run = execute.hyps(3)[unfolded Inr]
    have w: "pruning_window_blocks (e_params e) = Some window" using execute.IH assms(2) by simp
    obtain blk ctx g where "run_block L (e_parallel e) ctx g (tagged_sequence L dag bodies b) (e_state e)
        (e_parallel_rounds e) (e_fallback_rounds e) = (e_state e1, blk, e_parallel_rounds e1, e_fallback_rounds e1)"
      and "e_params e1 = e_params e" by (rule execute_chain_block_step[OF run w]) (rule that, assumption+)
    with execute_chain_block_inv(1)[OF _ run w assms(3) execute.hyps(2)] execute.IH show ?thesis by simp
  qed
next
  case (undo e b r e1)
  show ?case
  proof (cases r)
    case (Inl err)
    with undo undo_error_unchanged show ?thesis by blast
  next
    case (Inr u)
    with undo have "undo_one b e = (Inr (), e1)" "executor_ok window e" by simp_all
    with undo_one_inv[of window e b e1] undo.IH show ?thesis by simp
  qed
qed

lemma execute_succeeds:
  assumes "validate_params (e_params e) = Some (Inr ())" "dag_header dag b \<noteq> None"
  shows "\<exists>out e1. execute_chain_block L dag bodies b e = Some (Inr out, e1)"
proof -
  note d = derived_values[OF assms(1) refl]
  have "next_base_fee L e (e_height e) \<noteq> None" by (simp add: next_base_fee_def d(2) split: option.split)
  with d(3,5) assms(2) show ?thesis
    by (auto simp: execute_chain_block_def Let_def split: option.splits prod.splits)
qed

lemma execute_all_same:
  assumes "evm_law D L" "same_chain D e e'"
  shows "case (execute_all L dag bodies bs outs e, execute_all L dag bodies bs outs e') of
      (None, None) \<Rightarrow> True
    | (Some (r, e1), Some (r', e1')) \<Rightarrow> r = r' \<and> same_chain D e1 e1'
    | _ \<Rightarrow> False"
  using assms(2)
proof (induction bs arbitrary: outs e e')
  case (Cons b bs)
  note step = execute_chain_block_same[OF assms(1) Cons.prems, of dag bodies b]
  show ?case
  proof (cases "execute_chain_block L dag bodies b e")
    case None
    with step show ?thesis by (simp split: option.splits)
  next
    case (Some x)
    then obtain r e1 where x: "execute_chain_block L dag bodies b e = Some (r, e1)" by (cases x) auto
    with step obtain e1' where y: "execute_chain_block L dag bodies b e' = Some (r, e1')" "same_chain D e1 e1'"
      by (auto split: option.splits)
    show ?thesis
    proof (cases r)
      case (Inl err)
      with x y show ?thesis by simp
    next
      case (Inr out)
      with x y Cons.IH[OF y(2), of "outs @ [out]"] show ?thesis by simp
    qed
  qed
qed simp

section \<open>Undoing past the journal\<close>

text \<open>
  The contract stops where the journal does. Undoing its last record leaves an executor whose tip is
  reported as genesis whatever height it is at; the next undo is refused, and what executes then
  executes at that height on a state that is not the genesis state.
\<close>

lemma draining_reports_genesis:
  assumes "executor_ok window e" "e_journal e = [(h, b, r)]"
  obtains e' g where "undo_one b e = (Inr (), e')" "e_results e 0 = Some g" "e_tip e' = o_hash g"
    "unat (e_height e') = unat (e_height e) - 1" "undo_one b' e' = (Inl (NothingToUndo b'), e')"
proof -
  obtain e' where u: "undo_one b e = (Inr (), e')" and j: "e_journal e' = []"
    using assms(2) by (simp add: undo_one_def Let_def)
  note inv = undo_one_inv[OF assms(1) u]
  obtain g where g: "e_results e' 0 = Some g" "e_tip e' = o_hash g" using inv(1) j by (auto simp: executor_ok_def)
  have "e_results e 0 = Some g" using g(1) inv(3,5) by (simp split: if_splits)
  moreover have "undo_one b' e' = (Inl (NothingToUndo b'), e')" using j by (simp add: undo_one_def)
  ultimately show ?thesis using that u g(2) inv(4) by blast
qed

section \<open>Properties\<close>

text \<open>
  Whatever a node executes and undoes, its journal holds one record for each of the most recent
  heights, without gaps and never more than the pruning window plus one; the newest record is the
  tip; no result survives above the current height; and an undo of anything but the tip is refused
  and changes nothing.
\<close>

theorem executor_journal_exact:
  assumes "validate_params p = Some (Inr ())" and "exec_reachable L p s0 g e"
  shows "\<exists>window. pruning_window_blocks p = Some window \<and> length (e_journal e) \<le> window + 1 \<and>
    length (e_journal e) \<le> unat (e_height e) \<and>
    map (unat \<circ> fst) (e_journal e) = [unat (e_height e) + 1 - length (e_journal e) ..< unat (e_height e) + 1] \<and>
    (\<forall>h > e_height e. result_at e h = None) \<and>
    (e_journal e = [] \<longrightarrow> undo_one b e = (Inl (NothingToUndo b), e)) \<and>
    (e_journal e \<noteq> [] \<longrightarrow> b \<noteq> e_tip e \<longrightarrow> undo_one b e = (Inl (UndoOutOfOrder b (e_tip e)), e))"
proof -
  obtain window where w: "pruning_window_blocks p = Some window" "window < 2 ^ 64"
    by (rule window_of_params[OF assms(1)])
  have ok: "executor_ok window e" using reachable_executor_ok[OF assms(2) w] by simp
  have "undo_one b e = (Inl (UndoOutOfOrder b (e_tip e)), e)" if "e_journal e \<noteq> []" "b \<noteq> e_tip e"
  proof -
    obtain h t rcd where "last (e_journal e) = (h, t, rcd)" by (metis prod_cases3)
    with that ok show ?thesis by (simp add: undo_one_def executor_ok_def)
  qed
  with ok w(1) show ?thesis by (simp only: executor_ok_def result_at_def) (simp add: undo_one_def)
qed

text \<open>
  C32: Undoing a chain block is the exact inverse of executing it, on either execution path: every
  account, all recorded results, the height and the tip are back as they were before it.
\<close>

theorem execute_then_undo_exact:
  assumes "validate_params p = Some (Inr ())" and "exec_reachable L p s0 g e" and "e_height e \<noteq> - 1"
    and "execute_chain_block L dag bodies b e = Some (Inr out, e1)"
  shows "\<exists>e2. undo_one b e1 = (Inr (), e2) \<and> w_accounts (e_state e2) = w_accounts (e_state e) \<and>
    root_of L (e_state e2) = root_of L (e_state e) \<and> e_results e2 = e_results e \<and>
    e_height e2 = e_height e \<and> e_tip e2 = e_tip e"
proof -
  obtain window where w: "pruning_window_blocks p = Some window" "0 < window" "window < 2 ^ 64"
    by (rule window_of_params[OF assms(1)])
  have ok: "executor_ok window e" "e_params e = p" using reachable_executor_ok[OF assms(2) w(1,3)] by simp_all
  show ?thesis
    by (rule execute_then_undo[OF ok(1) assms(4) _ w(2,3) assms(3)]) (simp_all add: ok w(1) root_of_def state_root_def)
qed

text \<open>
  C31: A reorganisation is a replay. Take any reachable executor, let it execute an abandoned branch no
  longer than the pruning window, and reorganise from its tip to another branch: the outcome (each
  block's result, or the first error) and the chain state (accounts, results, height, tip) are those
  of an executor that never saw the abandoned branch. This rests on the EVM reading the state only
  through its database interface and on bytecode being addressed by its hash (\<open>evm_law\<close>).
\<close>

theorem reorg_is_replay:
  assumes "validate_params p = Some (Inr ())" and "exec_reachable L p s0 g e"
    and "evm_law D L" and "coded D (e_state e)"
    and "execute_all L dag bodies abandoned [] e = Some (Inr outs, e1)"
    and "pruning_window_blocks p = Some window" and "length abandoned \<le> window"
    and "unat (e_height e) + length abandoned < 2 ^ 64"
  shows "case (apply_reorg L dag' bodies' (rev abandoned) joining e1, execute_all L dag' bodies' joining [] e) of
      (None, None) \<Rightarrow> True
    | (Some (r, a), Some (r', a')) \<Rightarrow> r = r' \<and> same_chain D a a'
    | _ \<Rightarrow> False"
proof -
  have w: "0 < window" "window < 2 ^ 64" using window_of_params[OF assms(1)] assms(6) by auto
  have ok: "executor_ok window e" "e_params e = p" using reachable_executor_ok[OF assms(2,6) w(2)] by simp_all
  obtain k where k: "k \<le> length (e_journal e)" "length abandoned + k \<le> window + 1" "e_journal e = [] \<or> 0 < k"
    using assms(7) by (cases "e_journal e = []") (auto simp: Suc_le_eq intro: that[of 0] that[of 1])
  from undo_branch[OF assms(3) w ok(1) assms(4) _ assms(5,8) k] ok(2) assms(6)
  obtain e' where u: "undo_all (rev abandoned) e1 = (Inr (), e')" "rewound D window e e'" by auto
  then have "same_chain D e' e" by (auto simp: rewound_def tracks_def same_chain_def same_acc_def)
  from execute_all_same[OF assms(3) this, of dag' bodies' joining "[]"] u(1) show ?thesis by (simp add: apply_reorg_def)
qed

section \<open>Witnesses\<close>

text \<open>Blocks 1 and 2 fork off genesis; each carries one transfer.\<close>

definition ex_bodies :: "toy_tx body_store" where
  "ex_bodies = [(1, [toy 1 60 11 None 2 0]), (2, [toy 2 30 12 None 3 0])]"

definition ex_executor :: "(unit, nat) executor" where
  "ex_executor = new_executor toy_lib testnet_1bps new_state 0"

lemma ex_executor_reachable: "exec_reachable toy_lib testnet_1bps new_state 0 ex_executor"
  unfolding ex_executor_def by (rule exec_reachable.start)

lemma ex_executor_params: "validate_params (e_params ex_executor) = Some (Inr ())" "e_height ex_executor = 0"
  by (simp_all add: ex_executor_def new_executor_def presets_validate)

lemma ex_headers: "dag_header example_dag 1 \<noteq> None" "dag_header example_dag 2 \<noteq> None"
  using example_blocks by (auto simp: dag_header_def blocks_def map_of_eq_None_iff)

lemma toy_evm_law: "evm_law (\<lambda>_. 0) toy_lib"
  unfolding evm_law_def
proof (intro conjI allI impI)
  fix s t :: "nat world_state" and ctx m tx
  assume "same_view s t"
  then have "balance s = balance t" by (simp add: same_view_def balance_def fun_eq_iff)
  then have "toy_transact ctx m s tx = toy_transact ctx m t tx" unfolding toy_transact_def by (simp split: option.split)
  then show "transact toy_lib ctx m s tx = transact toy_lib ctx m t tx" by (simp add: toy_lib_def)
next
  fix s :: "nat world_state" and ctx m tx res cs loaded
  assume "transact toy_lib ctx m s tx = Some (res, cs, loaded)"
  then show "coded_changes (\<lambda>_. 0) (code_is_empty toy_lib) (dom (w_code s)) cs"
    by (auto simp: toy_lib_def toy_transact_def Let_def coded_changes_def coded_change_def toy_account_def
        sample_info_def split: if_splits)
qed (simp add: toy_lib_def sample_info_def)

theorem executor_journal_exact_witness:
  "undo_one 5 ex_executor = (Inl (NothingToUndo 5), ex_executor)"
  using executor_journal_exact[OF presets_validate(1) ex_executor_reachable, of 5]
  by (auto simp: ex_executor_def new_executor_def)

theorem execute_then_undo_exact_witness:
  "\<exists>out e1 e2. execute_chain_block toy_lib example_dag ex_bodies 1 ex_executor = Some (Inr out, e1) \<and>
     undo_one 1 e1 = (Inr (), e2) \<and> e_tip e1 = 1 \<and> e_tip e2 = 0"
proof -
  obtain out e1 where run: "execute_chain_block toy_lib example_dag ex_bodies 1 ex_executor = Some (Inr out, e1)"
    using execute_succeeds[OF ex_executor_params(1) ex_headers(1)] by blast
  moreover have "e_tip e1 = 1" by (rule execute_chain_block_ok[OF run])
  moreover have "e_height ex_executor \<noteq> - 1" by (simp add: ex_executor_params)
  from execute_then_undo_exact[OF presets_validate(1) ex_executor_reachable this run]
  obtain e2 where "undo_one 1 e1 = (Inr (), e2)" "e_tip e2 = e_tip ex_executor" by blast
  moreover have "e_tip ex_executor = 0" by (simp add: ex_executor_def new_executor_def)
  ultimately show ?thesis by auto
qed

theorem reorg_is_replay_witness:
  "\<exists>outs e1 r a a'. execute_all toy_lib example_dag ex_bodies [1] [] ex_executor = Some (Inr outs, e1) \<and>
     apply_reorg toy_lib example_dag ex_bodies [1] [2] e1 = Some (r, a) \<and>
     execute_all toy_lib example_dag ex_bodies [2] [] ex_executor = Some (r, a') \<and> same_chain (\<lambda>_. 0) a a'"
proof -
  obtain o1 e1 o2 e2 where run: "execute_chain_block toy_lib example_dag ex_bodies 1 ex_executor = Some (Inr o1, e1)"
    "execute_chain_block toy_lib example_dag ex_bodies 2 ex_executor = Some (Inr o2, e2)"
    using execute_succeeds[OF ex_executor_params(1) ex_headers(1)] execute_succeeds[OF ex_executor_params(1) ex_headers(2)] by meson
  then have all: "execute_all toy_lib example_dag ex_bodies [1] [] ex_executor = Some (Inr [o1], e1)"
    "execute_all toy_lib example_dag ex_bodies [2] [] ex_executor = Some (Inr [o2], e2)" by simp_all
  obtain window where w: "pruning_window_blocks testnet_1bps = Some window" "0 < window"
    by (rule window_of_params[OF presets_validate(1)])
  have c: "coded (\<lambda>_. 0) (e_state ex_executor)" by (simp add: ex_executor_def new_executor_def new_state_def coded_def)
  have "length [1 :: block_hash] \<le> window" "unat (e_height ex_executor) + length [1 :: block_hash] < 2 ^ 64"
    using w(2) by (simp_all add: ex_executor_params)
  from reorg_is_replay[OF presets_validate(1) ex_executor_reachable toy_evm_law c all(1) w(1) this,
      of example_dag ex_bodies "[2]"] all
  show ?thesis by (auto split: option.splits)
qed

end
