(* ===== verification/Node_Replay.thy ===== *)
theory Node_Replay
  imports Executor_Props Reorg
begin

text \<open>
  An executor that undoes and executes is compared with one that only ever executed the current
  chain from genesis. The latter's history is a \<open>trail\<close>; \<open>tracked\<close> is the simulation relation, kept by
  executing a block and, as far as the journal reaches, by undoing one.
\<close>

section \<open>Trails\<close>

inductive trail ::
  "('tx, 'res, 'log, 'code) chain_lib \<Rightarrow> dag_store \<Rightarrow> 'tx body_store \<Rightarrow> ('log, 'code) executor \<Rightarrow> block_hash list \<Rightarrow>
   ('log, 'code) executor \<Rightarrow> bool"
  for L dag bodies e0 where
  start: "trail L dag bodies e0 [] e0"
| step: "trail L dag bodies e0 bs e \<Longrightarrow> execute_chain_block L dag bodies b e = Some (Inr out, e1) \<Longrightarrow>
    trail L dag bodies e0 (b # bs) e1"

inductive_cases trail_NilE: "trail L dag bodies e0 [] e"
inductive_cases trail_ConsE: "trail L dag bodies e0 (b # bs) e"

lemma trail_unique: "trail L dag bodies e0 bs e \<Longrightarrow> trail L dag bodies e0 bs e' \<Longrightarrow> e = e'"
proof (induction arbitrary: e' rule: trail.induct)
  case start
  then show ?case by (auto elim: trail_NilE)
next
  case (step bs e b out e1)
  from step.prems show ?case
  proof (rule trail_ConsE)
    fix e2 out2 assume "trail L dag bodies e0 bs e2" "execute_chain_block L dag bodies b e2 = Some (Inr out2, e')"
    with step.IH step.hyps(2) show ?thesis by auto
  qed
qed

lemma trail_suffix: "trail L dag bodies e0 (xs @ ys) e \<Longrightarrow> \<exists>e'. trail L dag bodies e0 ys e'"
proof (induction xs arbitrary: e)
  case (Cons x xs)
  from Cons.prems have "trail L dag bodies e0 (x # (xs @ ys)) e" by simp
  then obtain e1 where "trail L dag bodies e0 (xs @ ys) e1" by (rule trail_ConsE)
  with Cons.IH show ?case .
qed auto

lemma trail_cong:
  assumes "\<And>b. b \<in> set bs \<Longrightarrow> execute_chain_block L dag bodies b = execute_chain_block L dag' bodies' b"
  shows "trail L dag bodies e0 bs e \<longleftrightarrow> trail L dag' bodies' e0 bs e"
  using assms
proof (induction bs arbitrary: e)
  case Nil
  then show ?case by (auto elim: trail_NilE intro: trail.start)
next
  case (Cons b bs)
  have eq: "execute_chain_block L dag bodies b = execute_chain_block L dag' bodies' b" using Cons.prems by simp
  have IH: "trail L dag bodies e0 bs e1 \<longleftrightarrow> trail L dag' bodies' e0 bs e1" for e1 using Cons by simp
  show ?case
  proof
    assume "trail L dag bodies e0 (b # bs) e"
    then obtain e1 out where "trail L dag bodies e0 bs e1" "execute_chain_block L dag bodies b e1 = Some (Inr out, e)"
      by (rule trail_ConsE)
    with IH eq show "trail L dag' bodies' e0 (b # bs) e" by (auto intro: trail.step)
  next
    assume "trail L dag' bodies' e0 (b # bs) e"
    then obtain e1 out where "trail L dag' bodies' e0 bs e1" "execute_chain_block L dag' bodies' b e1 = Some (Inr out, e)"
      by (rule trail_ConsE)
    with IH eq show "trail L dag bodies e0 (b # bs) e" by (auto intro: trail.step)
  qed
qed

lemma execute_all_append:
  "execute_all L dag bodies (xs @ ys) outs e =
    (case execute_all L dag bodies xs outs e of
       None \<Rightarrow> None | Some (Inl err, e1) \<Rightarrow> Some (Inl err, e1) | Some (Inr outs1, e1) \<Rightarrow> execute_all L dag bodies ys outs1 e1)"
  by (induction xs arbitrary: outs e) (auto split: option.split prod.split sum.split)

lemma trail_execute_all:
  "trail L dag bodies e0 bs e \<Longrightarrow> \<exists>outs. execute_all L dag bodies (rev bs) [] e0 = Some (Inr outs, e)"
  by (induction rule: trail.induct) (auto simp: execute_all_append)

text \<open>What every trail starts from: a fresh executor, under the EVM law and valid parameters.\<close>

definition base_ok :: "('tx, 'res, 'log, 'code) chain_lib \<Rightarrow> (u256 \<Rightarrow> 'code) \<Rightarrow> nat \<Rightarrow> ('log, 'code) executor \<Rightarrow> bool" where
  "base_ok L D window e0 \<longleftrightarrow> evm_law D L \<and> executor_ok window e0 \<and> e_journal e0 = [] \<and> coded D (e_state e0) \<and> e_height e0 = 0 \<and>
     validate_params (e_params e0) = Some (Inr ()) \<and>
     pruning_window_blocks (e_params e0) = Some window \<and> 0 < window \<and> window < 2 ^ 64"

lemma base_okD:
  assumes "base_ok L D window e0"
  shows "evm_law D L" "executor_ok window e0" "e_journal e0 = []" "coded D (e_state e0)" "e_height e0 = 0"
    "validate_params (e_params e0) = Some (Inr ())" "pruning_window_blocks (e_params e0) = Some window" "0 < window" "window < 2 ^ 64"
  using assms by (simp_all add: base_ok_def)

lemma below_top: "unat (h :: u64) + 1 < 2 ^ 64 \<Longrightarrow> h \<noteq> - 1"
  using unat_max_word[where 'a = 64] by auto

lemma trail_facts:
  assumes base: "base_ok L D window e0" and "trail L dag bodies e0 bs e" "length bs < 2 ^ 64"
  shows "executor_ok window e \<and> coded D (e_state e) \<and> unat (e_height e) = length bs \<and> e_params e = e_params e0 \<and>
    e_parallel e = e_parallel e0 \<and> (e_journal e = [] \<longleftrightarrow> bs = []) \<and> e_tip e = (case bs of [] \<Rightarrow> e_tip e0 | b # _ \<Rightarrow> b)"
  using assms(2,3)
proof (induction rule: trail.induct)
  case start
  then show ?case using base by (simp add: base_ok_def)
next
  case (step bs e b out e1)
  note B = base_okD[OF base]
  from step have IH: "executor_ok window e" "coded D (e_state e)" "unat (e_height e) = length bs" "e_params e = e_params e0"
    "e_parallel e = e_parallel e0" by simp_all
  have h: "e_height e \<noteq> - 1" by (rule below_top) (use IH(3) step.prems in simp)
  have w: "pruning_window_blocks (e_params e) = Some window" using IH(4) B(7) by simp
  obtain blk ctx g where "run_block L (e_parallel e) ctx g (tagged_sequence L dag bodies b) (e_state e)
      (e_parallel_rounds e) (e_fallback_rounds e) = (e_state e1, blk, e_parallel_rounds e1, e_fallback_rounds e1)"
    and r: "e_journal e1 = pruned window (e_height e + 1) (e_journal e) @ [(e_height e + 1, b, x_undo blk)]"
      "e_height e1 = e_height e + 1" "e_tip e1 = b" "e_params e1 = e_params e" "e_parallel e1 = e_parallel e"
    by (rule execute_chain_block_step[OF step.hyps(2) w]) (rule that, assumption+)
  from execute_chain_block_inv(1)[OF IH(1) step.hyps(2) w B(9) h] execute_coded(1)[OF B(1) IH(2) step.hyps(2)] IH r
  show ?case by (simp add: unat_succ[OF h])
qed

lemma trail_results:
  assumes base: "base_ok L D window e0" and "trail L dag bodies e0 (xs @ ys) e" "trail L dag bodies e0 ys e'"
    "length (xs @ ys) < 2 ^ 64" "unat h \<le> length ys"
  shows "e_results e h = e_results e' h"
  using assms(2,4)
proof (induction xs arbitrary: e)
  case Nil
  with trail_unique assms(3) show ?case by fastforce
next
  case (Cons x xs)
  from Cons.prems(1) have "trail L dag bodies e0 (x # (xs @ ys)) e" by simp
  then obtain e1 out where t: "trail L dag bodies e0 (xs @ ys) e1" "execute_chain_block L dag bodies x e1 = Some (Inr out, e)"
    by (rule trail_ConsE)
  have "e_results e = (e_results e1)(e_height e1 + 1 \<mapsto> out)" by (rule execute_chain_block_ok[OF t(2)])
  moreover have "unat (e_height e1) = length (xs @ ys)" using trail_facts[OF base t(1)] Cons.prems(2) by simp
  moreover have "e_height e1 \<noteq> - 1" by (rule below_top) (use calculation(2) Cons.prems(2) in simp)
  ultimately have "e_results e h = e_results e1 h" using assms(5) unat_succ[of "e_height e1"] by auto
  with Cons.IH[OF t(1)] Cons.prems(2) show ?case by simp
qed

section \<open>Receipts and hashes\<close>

definition paired :: "('log, 'code) executed_block \<Rightarrow> bool" where
  "paired b \<longleftrightarrow> length (x_hashes b) = length (x_receipts b)"

lemma fold_keeps: "P st \<Longrightarrow> (\<And>x st. P st \<Longrightarrow> P (f x st)) \<Longrightarrow> P (fold f xs st)"
  by (induction xs arbitrary: st) auto

lemma paired_ops [simp]:
  "paired empty_block" "paired (defer_tx b) = paired b" "paired (record_tx L tx res b) = paired b"
  "paired (note_all as s b) = paired b"
  by (simp_all add: paired_def empty_block_def defer_tx_def record_tx_def note_all_def Let_def)

lemma paired_absorb [simp]: "paired b \<Longrightarrow> paired c \<Longrightarrow> paired (absorb b c)"
  by (simp add: paired_def absorb_def Let_def)

lemma paired_sequential: "paired (snd (execute_sequentially L ctx g tagged order s))"
  unfolding execute_sequentially_def
  by (rule fold_keeps[where P = "\<lambda>st. paired (snd st)"]) (auto simp: run_one_def split: prod.splits option.splits)

lemma paired_round: "paired (fst (snd st)) \<Longrightarrow> paired (fst (snd (run_round L ctx g tagged layer st)))"
proof -
  assume p: "paired (fst (snd st))"
  obtain s b pr f where st: "st = (s, b, pr, f)" by (metis prod_cases4)
  let ?sps = "speculate L ctx s (map (\<lambda>i. tagged ! i) layer)"
  have "paired (fst (snd (fold (commit_speculation L g tagged) (zip layer ?sps) (s, b, []))))"
    by (rule fold_keeps[where P = "\<lambda>st. paired (fst (snd st))"])
      (use p in \<open>auto simp: st commit_speculation_def Let_def split: prod.splits option.splits\<close>)
  moreover have "paired (absorb b (snd (execute_sequentially L ctx g tagged layer s)))"
    using p paired_absorb[OF _ paired_sequential] by (simp add: st)
  ultimately show ?thesis
    by (simp add: run_round_def st Let_def case_prod_beta split: option.split)
qed

lemma paired_run_block: "run_block L par ctx g tagged s p f = (s', b, p', f') \<Longrightarrow> paired b"
proof -
  assume run: "run_block L par ctx g tagged s p f = (s', b, p', f')"
  have "paired (fst (snd (fold (run_round L ctx g tagged) layers (s, empty_block, p, f))))" for layers
    by (rule fold_keeps[where P = "\<lambda>st. paired (fst (snd st))"]) (simp_all add: paired_round)
  with run paired_sequential[of L ctx g tagged "canonical_order L tagged" s] show ?thesis
    by (auto simp: run_block_def execute_rounds_parallel_def case_prod_beta split: if_splits) (metis fst_conv snd_conv)
qed

text \<open>A recorded result belongs to the block at that height of the trail.\<close>

lemma trail_outcome:
  assumes base: "base_ok L D window e0" and "trail L dag bodies e0 bs e" "length bs < 2 ^ 64" "0 < unat h" "unat h \<le> length bs"
    "e_results e h = Some out"
  shows "o_hash out = rev bs ! (unat h - 1) \<and> o_height out = h \<and> length (o_hashes out) = length (o_receipts out)"
  using assms(2-)
proof (induction rule: trail.induct)
  case (step bs e b o1 e1)
  show ?case
  proof (rule execute_chain_block_ok[OF step.hyps(2)], goal_cases)
    case (1 header base_fee limit window' blk)
    have H: "unat (e_height e) = length bs" using trail_facts[OF base step.hyps(1)] step.prems(1) by simp
    have top: "unat (e_height e + 1) = length bs + 1"
      using unat_succ[OF below_top[of "e_height e"]] H step.prems(1) by simp
    show ?case
    proof (cases "h = e_height e + 1")
      case True
      with 1(7) step.prems(4) have "out = o1" by simp
      with 1(6) paired_run_block[OF 1(5)] True top show ?thesis by (simp add: paired_def nth_append)
    next
      case False
      then have "unat h \<le> length bs" using top step.prems(3) by (simp add: word_unat_eq_iff)
      moreover have "e_results e h = Some out" using 1(7) False step.prems(4) by simp
      moreover have "unat h - 1 < length (rev bs)" using calculation(1) step.prems(2) by simp
      ultimately show ?thesis using step.IH step.prems(1,2) by (simp add: nth_append)
    qed
  qed
qed simp

section \<open>Tracking\<close>

definition tracked ::
  "('tx, 'res, 'log, 'code) chain_lib \<Rightarrow> dag_store \<Rightarrow> 'tx body_store \<Rightarrow> ('log, 'code) executor \<Rightarrow> (u256 \<Rightarrow> 'code) \<Rightarrow> nat \<Rightarrow>
   block_hash list \<Rightarrow> ('log, 'code) executor \<Rightarrow> ('log, 'code) executor \<Rightarrow> bool" where
  "tracked L dag bodies e0 D window bs eS eN \<longleftrightarrow> trail L dag bodies e0 bs eS \<and> tracks D window eS eN \<and>
     (\<forall>ys e. suffix ys bs \<longrightarrow> trail L dag bodies e0 ys e \<longrightarrow> holds_code D (e_state e) (e_state eN))"

lemma tracked_cong:
  assumes "\<And>b. b \<in> set bs \<Longrightarrow> execute_chain_block L dag bodies b = execute_chain_block L dag' bodies' b"
  shows "tracked L dag bodies e0 D window bs eS eN \<longleftrightarrow> tracked L dag' bodies' e0 D window bs eS eN"
proof -
  have "trail L dag bodies e0 ys e \<longleftrightarrow> trail L dag' bodies' e0 ys e" if "suffix ys bs" for ys e
    by (rule trail_cong) (use assms set_mono_suffix[OF that] in blast)
  moreover have "suffix bs bs" by simp
  ultimately show ?thesis unfolding tracked_def by metis
qed

lemma tracked_start: "base_ok L D window e0 \<Longrightarrow> tracked L dag bodies e0 D window [] e0 e0"
  by (auto simp: tracked_def base_ok_def tracks_def same_chain_def same_acc_def holds_code_coded
      intro: trail.start elim!: trail_NilE)

lemma tracked_same:
  assumes "tracked L dag bodies e0 D window bs eS eN"
  shows "same_chain D eS eN" "executor_ok window eN" "coded D (e_state eN)" "trail L dag bodies e0 bs eS"
  using assms by (simp_all add: tracked_def tracks_def same_chain_def same_acc_def)

lemma suffix_pruned_mono: "suffix j' j \<Longrightarrow> suffix (pruned window h j') (pruned window h j)"
  by (auto simp: pruned_def suffix_def)

lemma same_block_record:
  assumes "evm_law D L" "same_chain D eS eN" "execute_chain_block L dag bodies b eS = Some (Inr o1, eS1)"
    "execute_chain_block L dag bodies b eN = Some (Inr o2, eN1)" "pruning_window_blocks (e_params eS) = Some window"
  obtains u where
    "e_journal eS1 = pruned window (e_height eS + 1) (e_journal eS) @ [(e_height eS + 1, b, u)]"
    "e_journal eN1 = pruned window (e_height eS + 1) (e_journal eN) @ [(e_height eS + 1, b, u)]"
proof (rule execute_chain_block_ok[OF assms(3)], rule execute_chain_block_ok[OF assms(4)], goal_cases)
  case (1 header fee limit w blk header' fee' limit' w' blk')
  have eq: "e_params eN = e_params eS" "e_results eN = e_results eS" "e_parallel eN = e_parallel eS" "e_height eN = e_height eS"
    "same_acc D (e_state eS) (e_state eN)" using assms(2) by (simp_all add: same_chain_def)
  have fee: "next_base_fee L eN (e_height eN) = next_base_fee L eS (e_height eS)"
    by (simp add: next_base_fee_def eq split: option.split)
  have same: "header' = header" "fee' = fee" "limit' = limit" "w' = window" "w = window"
    using 1(2-5,14-17) fee assms(5) by (simp_all add: eq)
  have "x_undo blk' = x_undo blk"
    using run_block_same[OF assms(1) eq(5)] 1(6,18) by (simp add: eq same) (metis fst_conv snd_conv)
  with 1(13,25) that[of "x_undo blk"] show ?case by (simp add: eq same pruned_snoc)
qed

lemma tracked_execute:
  assumes base: "base_ok L D window e0" and tr: "tracked L dag bodies e0 D window bs eS eN" and len: "length bs + 1 < 2 ^ 64"
    and run: "execute_chain_block L dag bodies b eN = Some (Inr out, eN1)"
  shows "\<exists>eS1. tracked L dag bodies e0 D window (b # bs) eS1 eN1 \<and> e_results eS1 (e_height eS1) = Some out"
proof -
  note B = base_okD[OF base] and same = tracked_same[OF tr]
  obtain eS1 where runS: "execute_chain_block L dag bodies b eS = Some (Inr out, eS1)" and sc: "same_chain D eS1 eN1"
    using execute_chain_block_same[OF B(1) same(1), of dag bodies b] run by (auto split: option.splits)
  have trail1: "trail L dag bodies e0 (b # bs) eS1" by (rule trail.step[OF same(4) runS])
  have facts: "e_params eS = e_params e0" "unat (e_height eS) = length bs" using trail_facts[OF base same(4)] len by simp_all
  then have w: "pruning_window_blocks (e_params eS) = Some window" using B(7) by simp
  have eq: "e_params eN = e_params eS" "e_height eN = e_height eS" using same(1) by (simp_all add: same_chain_def)
  have h: "e_height eN \<noteq> - 1" by (rule below_top) (use facts eq len in simp)
  obtain u where "e_journal eS1 = pruned window (e_height eS + 1) (e_journal eS) @ [(e_height eS + 1, b, u)]"
    "e_journal eN1 = pruned window (e_height eS + 1) (e_journal eN) @ [(e_height eS + 1, b, u)]"
    by (rule same_block_record[OF B(1) same(1) runS run w])
  moreover have "suffix (e_journal eN) (e_journal eS)" using tr by (simp add: tracked_def tracks_def)
  ultimately have "suffix (e_journal eN1) (e_journal eS1)" by (simp add: suffix_pruned_mono)
  moreover have "executor_ok window eN1"
    by (rule execute_chain_block_inv(1)[OF same(2) run _ B(9) h]) (simp add: eq w)
  ultimately have "tracks D window eS1 eN1" using sc by (simp add: tracks_def)
  moreover have "holds_code D (e_state e) (e_state eN1)" if "suffix ys (b # bs)" "trail L dag bodies e0 ys e" for ys e
  proof (cases "ys = b # bs")
    case True
    with that trail_unique[OF trail1] have "e = eS1" by auto
    moreover have "w_accounts (e_state eN1) = w_accounts (e_state eS1)" "coded D (e_state eN1)"
      using sc by (simp_all add: same_chain_def same_acc_def)
    ultimately show ?thesis by (simp add: holds_code_coded)
  next
    case False
    with that(1) have "suffix ys bs" by (simp add: suffix_Cons)
    with tr that(2) have "holds_code D (e_state e) (e_state eN)" by (simp add: tracked_def)
    from holds_code_grows[OF this execute_coded(2,1)[OF B(1) same(3) run]] show ?thesis .
  qed
  moreover have "e_results eS1 (e_height eS1) = Some out" by (rule execute_chain_block_ok[OF runS]) simp
  ultimately show ?thesis using trail1 by (auto simp: tracked_def)
qed

lemma tracked_undo:
  assumes base: "base_ok L D window e0" and tr: "tracked L dag bodies e0 D window (b # bs) eS1 eN1" and len: "length (b # bs) < 2 ^ 64"
    and j: "1 < length (e_journal eN1) \<or> bs = [] \<and> e_journal eN1 \<noteq> []"
  shows "\<exists>eS eN. undo_one b eN1 = (Inr (), eN) \<and> tracked L dag bodies e0 D window bs eS eN \<and>
    length (e_journal eN1) = length (e_journal eN) + 1"
proof -
  note B = base_okD[OF base] and same = tracked_same[OF tr]
  from same(4) obtain eS out where t: "trail L dag bodies e0 bs eS" "execute_chain_block L dag bodies b eS = Some (Inr out, eS1)"
    by (rule trail_ConsE)
  have facts: "executor_ok window eS" "coded D (e_state eS)" "unat (e_height eS) = length bs" "e_params eS = e_params e0"
    "e_journal eS = [] \<longleftrightarrow> bs = []" using trail_facts[OF base t(1)] len by simp_all
  have w: "pruning_window_blocks (e_params eS) = Some window" using facts(4) B(7) by simp
  have h: "e_height eS \<noteq> - 1" by (rule below_top) (use facts len in simp)
  have holds: "holds_code D (e_state eS) (e_state eN1)" using tr t(1) by (auto simp: tracked_def suffix_Cons)
  have track: "tracks D window eS1 eN1" using tr by (simp add: tracked_def)
  have k: "(if bs = [] then 0 else 1) < length (e_journal eN1)" "e_journal eS = [] \<or> 0 < (if bs = [] then 0 else 1 :: nat)"
    using j facts(5) by auto
  obtain eN where u: "undo_one b eN1 = (Inr (), eN)" "tracks D window eS eN"
    "length (e_journal eN1) = length (e_journal eN) + 1" "w_code (e_state eN) = w_code (e_state eN1)"
    using undo_one_tracks[OF B(1) facts(1,2) t(2) w B(8,9) h track holds k] by blast
  have "holds_code D (e_state e) (e_state eN)" if "suffix ys bs" "trail L dag bodies e0 ys e" for ys e
    using tr that holds_code_same[OF u(4)] by (auto simp: tracked_def suffix_Cons)
  with u t(1) show ?thesis by (auto simp: tracked_def)
qed

lemma tracked_undo_all:
  assumes base: "base_ok L D window e0"
  shows "tracked L dag bodies e0 D window (rm @ common) eS eN \<Longrightarrow> length (rm @ common) < 2 ^ 64 \<Longrightarrow>
    length rm < length (e_journal eN) \<or> common = [] \<and> length rm \<le> length (e_journal eN) \<Longrightarrow>
    \<exists>eS' eN'. undo_all rm eN = (Inr (), eN') \<and> tracked L dag bodies e0 D window common eS' eN'"
proof (induction rm arbitrary: eS eN)
  case (Cons b rm)
  have "1 < length (e_journal eN) \<or> rm @ common = [] \<and> e_journal eN \<noteq> []" using Cons.prems(3) by (cases rm) auto
  from tracked_undo[OF base _ _ this, of dag bodies b eS] Cons.prems(1,2)
  obtain eS1 eN1 where "undo_one b eN = (Inr (), eN1)" "tracked L dag bodies e0 D window (rm @ common) eS1 eN1"
    "length (e_journal eN) = length (e_journal eN1) + 1" by auto
  with Cons.IH[of eS1 eN1] Cons.prems(2,3) show ?case by auto
qed auto

lemma tracked_execute_all:
  assumes base: "base_ok L D window e0"
  shows "tracked L dag bodies e0 D window bs eS eN \<Longrightarrow> length bs + length ad < 2 ^ 64 \<Longrightarrow>
    (\<And>b. b \<in> set ad \<Longrightarrow> dag_header dag b \<noteq> None) \<Longrightarrow>
    \<exists>outs' eS' eN'. execute_all L dag bodies ad outs eN = Some (Inr (outs @ outs'), eN') \<and>
      tracked L dag bodies e0 D window (rev ad @ bs) eS' eN' \<and> map o_hash outs' = ad \<and>
      (\<forall>i < length ad. e_results eN' (of_nat (length bs + 1 + i)) = Some (outs' ! i))"
proof (induction ad arbitrary: bs eS eN outs)
  case Nil
  then show ?case by auto
next
  case (Cons b ad)
  note B = base_okD[OF base] and same = tracked_same[OF Cons.prems(1)]
  have pr: "validate_params (e_params eN) = Some (Inr ())"
    using same(1) trail_facts[OF base same(4)] Cons.prems(2) B(6) by (simp add: same_chain_def)
  obtain out eN1 where run: "execute_chain_block L dag bodies b eN = Some (Inr out, eN1)"
    using execute_succeeds[OF pr, of dag b L bodies] Cons.prems(3) by auto
  obtain eS1 where tr1: "tracked L dag bodies e0 D window (b # bs) eS1 eN1" and res: "e_results eS1 (e_height eS1) = Some out"
    using tracked_execute[OF base Cons.prems(1) _ run] Cons.prems(2) by auto
  have hash: "o_hash out = b" by (rule execute_chain_block_ok[OF run]) simp
  obtain outs' eS' eN' where IH: "execute_all L dag bodies ad (outs @ [out]) eN1 = Some (Inr ((outs @ [out]) @ outs'), eN')"
    "tracked L dag bodies e0 D window (rev ad @ b # bs) eS' eN'" "map o_hash outs' = ad"
    "\<forall>i < length ad. e_results eN' (of_nat (length (b # bs) + 1 + i)) = Some (outs' ! i)"
    using Cons.IH[OF tr1, of "outs @ [out]"] Cons.prems(2,3) by auto
  have top: "unat (e_height eS1) = length (b # bs)"
    using trail_facts[OF base tracked_same(4)[OF tr1]] Cons.prems(2) by simp
  then have hN: "e_height eS1 = of_nat (length bs + 1)" using Cons.prems(2) by (simp add: word_unat_eq_iff unat_of_nat take_bit_eq_mod del: of_nat_Suc of_nat_add)
  have "e_results eS' (e_height eS1) = e_results eS1 (e_height eS1)"
    using trail_results[OF base tracked_same(4)[OF IH(2)] tracked_same(4)[OF tr1]] top Cons.prems(2) by simp
  then have "e_results eN' (of_nat (length bs + 1)) = Some out"
    using res hN tracked_same(1)[OF IH(2)] by (simp add: same_chain_def)
  then have "e_results eN' (of_nat (length bs + 1 + i)) = Some ((out # outs') ! i)" if "i < length (b # ad)" for i
    using IH(4) that by (cases i) (auto simp: add.assoc)
  with run IH(1-3) hash show ?case by (intro exI[of _ "out # outs'"] exI[of _ eS'] exI[of _ eN']) simp
qed

end
