(* ===== verification/Pool_Inv.thy ===== *)
theory Pool_Inv
  imports Pool
begin

text \<open>
  The pool's invariant: the index by sender and nonce names exactly the transactions held by hash, no
  sender has an empty or oversized queue, and the pool is within its bound.
\<close>

section \<open>The index\<close>

definition queued :: "'tx tx_pool \<Rightarrow> address \<Rightarrow> u64 \<Rightarrow> u256 option" where
  "queued q a n = (case nonces_of q a of None \<Rightarrow> None | Some ns \<Rightarrow> map_of ns n)"

definition queues_ok :: "'tx tx_pool \<Rightarrow> bool" where
  "queues_ok q \<longleftrightarrow> bmap_ok (q_by_sender q) \<and>
     (\<forall>a ns. nonces_of q a = Some ns \<longrightarrow> bmap_ok ns \<and> ns \<noteq> [] \<and> length ns \<le> pc_max_per_sender (q_config q))"

definition index_ok :: "'tx tx_view \<Rightarrow> 'tx tx_pool \<Rightarrow> bool" where
  "index_ok V q \<longleftrightarrow> hmap_ok (q_by_hash q) \<and> (\<forall>h p. pool_get q h = Some p \<longrightarrow> p_hash V p = h) \<and>
     (\<forall>a n h. queued q a n = Some h \<longleftrightarrow> (\<exists>p. pool_get q h = Some p \<and> p_sender V p = a \<and> p_nonce V p = n))"

definition pool_core :: "'tx tx_view \<Rightarrow> 'tx tx_pool \<Rightarrow> bool" where
  "pool_core V q \<longleftrightarrow> queues_ok q \<and> index_ok V q"

definition pool_ok :: "'tx tx_view \<Rightarrow> 'tx tx_pool \<Rightarrow> bool" where
  "pool_ok V q \<longleftrightarrow> pool_core V q \<and> pool_len q \<le> pc_max_transactions (q_config q)"

lemma new_pool_ok: "pool_ok V (new_pool config)"
  by (auto simp: pool_ok_def pool_core_def queues_ok_def index_ok_def new_pool_def queued_def nonces_of_def
      pool_get_def pool_len_def)

lemma pool_coreD:
  assumes "pool_core V q"
  shows "bmap_ok (q_by_sender q)" "hmap_ok (q_by_hash q)"
    "nonces_of q a = Some ns \<Longrightarrow> bmap_ok ns" "nonces_of q a = Some ns \<Longrightarrow> ns \<noteq> []"
    "nonces_of q a = Some ns \<Longrightarrow> length ns \<le> pc_max_per_sender (q_config q)"
    "pool_get q h = Some p \<Longrightarrow> p_hash V p = h"
    "pool_get q h = Some p \<Longrightarrow> queued q (p_sender V p) (p_nonce V p) = Some h"
    "queued q a n = Some h \<Longrightarrow> \<exists>p. pool_get q h = Some p \<and> p_sender V p = a \<and> p_nonce V p = n"
  using assms unfolding pool_core_def queues_ok_def index_ok_def by blast+

lemma core_sequence: "pool_core V (q\<lparr>q_sequence := n\<rparr>) \<longleftrightarrow> pool_core V q"
  by (simp add: pool_core_def queues_ok_def index_ok_def queued_def nonces_of_def pool_get_def)

section \<open>Removal\<close>

lemma pool_remove_fields:
  "q_config (snd (pool_remove V h q)) = q_config q" "q_sequence (snd (pool_remove V h q)) = q_sequence q"
  by (auto simp: pool_remove_def Let_def split: option.splits)

lemma pool_remove_get:
  assumes "hmap_ok (q_by_hash q)"
  shows "pool_get (snd (pool_remove V h q)) = (pool_get q)(h := None)"
  using assms by (auto simp: pool_remove_def pool_get_def Let_def fun_eq_iff split: option.split)

lemma pool_remove_len:
  assumes "pool_core V q"
  shows "pool_len (snd (pool_remove V h q)) = (if pool_get q h = None then pool_len q else pool_len q - 1)"
  using hmap.size_remove[OF pool_coreD(2)[OF assms], of h]
  by (auto simp: pool_remove_def pool_get_def pool_len_def Let_def split: option.split)

lemma pool_remove_nonces:
  assumes "pool_core V q" "pool_get q h = Some p"
  shows "nonces_of (snd (pool_remove V h q)) a =
      (if a = p_sender V p
       then (case nonces_of q a of None \<Rightarrow> None
             | Some ns \<Rightarrow> if AList.delete (p_nonce V p) ns = [] then None else Some (AList.delete (p_nonce V p) ns))
       else nonces_of q a)"
  using assms pool_coreD(1)[OF assms(1)] unfolding pool_get_def
  by (simp add: pool_remove_def nonces_of_def Let_def bmap.lookup_put bmap.lookup_remove split: option.split)

lemma pool_remove_queued:
  assumes "pool_core V q" "pool_get q h = Some p"
  shows "queued (snd (pool_remove V h q)) a n = (if a = p_sender V p \<and> n = p_nonce V p then None else queued q a n)"
proof (cases "nonces_of q a")
  case (Some ns)
  have "AList.delete (p_nonce V p) ns = [] \<Longrightarrow> n \<noteq> p_nonce V p \<Longrightarrow> map_of ns n = None"
    by (metis delete_conv' fun_upd_other map_of.simps(1))
  with Some show ?thesis by (auto simp: queued_def pool_remove_nonces[OF assms] delete_conv')
qed (auto simp: queued_def pool_remove_nonces[OF assms])

lemma pool_remove_core:
  assumes core: "pool_core V q"
  shows "pool_core V (snd (pool_remove V h q))"
proof (cases "pool_get q h")
  case None
  then show ?thesis using core by (simp add: pool_remove_def pool_get_def)
next
  case (Some p)
  let ?q = "snd (pool_remove V h q)"
  note D = pool_coreD[OF core]
  have "bmap_ok (q_by_sender ?q)" "hmap_ok (q_by_hash ?q)"
    using Some D(1,2) by (auto simp: pool_remove_def pool_get_def Let_def bmap.put_ok bmap.remove_ok split: option.splits)
  moreover have "bmap_ok ns \<and> ns \<noteq> [] \<and> length ns \<le> pc_max_per_sender (q_config q)" if ns: "nonces_of ?q a = Some ns" for a ns
  proof -
    from ns consider "nonces_of q a = Some ns"
      | old where "nonces_of q a = Some old" "ns = AList.delete (p_nonce V p) old" "ns \<noteq> []"
      unfolding pool_remove_nonces[OF core Some] by (auto split: if_splits option.splits)
    then show ?thesis
    proof cases
      case 2
      with D(3,5) have "bmap_ok ns" "length old \<le> pc_max_per_sender (q_config q)" by (simp_all add: bmap.remove_ok)
      then show ?thesis using 2 length_delete_hmap_le[of "p_nonce V p" old] by simp
    qed (use D(3-5) in blast)
  qed
  moreover have "queued ?q a n = Some h' \<longleftrightarrow> (\<exists>p. pool_get ?q h' = Some p \<and> p_sender V p = a \<and> p_nonce V p = n)" for a n h'
    using D(7)[OF Some] D(7)[of h'] D(8)[of a n h'] Some
    by (auto simp: pool_remove_queued[OF core Some] pool_remove_get[OF D(2)])
  ultimately show ?thesis using D(6)
    by (auto simp: pool_core_def queues_ok_def index_ok_def pool_remove_fields pool_remove_get[OF D(2)])
qed

lemma pool_remove_ok: "pool_ok V q \<Longrightarrow> pool_ok V (snd (pool_remove V h q))"
  by (auto simp: pool_ok_def pool_remove_core pool_remove_len pool_remove_fields)

lemma pool_prune_ok: "pool_ok V q \<Longrightarrow> pool_ok V (pool_prune V account_nonces q)"
  unfolding pool_prune_def Let_def by (rule fold_invariant_set[where P = "pool_ok V"]) (simp_all add: pool_remove_ok)

section \<open>Insertion\<close>

lemma pool_insert_get:
  "pool_get (pool_insert V p q) = (pool_get q)(p_hash V p \<mapsto> p)"
  by (auto simp: pool_insert_def pool_get_def Let_def)

lemma pool_insert_nonces:
  assumes "pool_core V q"
  shows "nonces_of (pool_insert V p q) a =
    (if a = p_sender V p
     then Some (bmap_insert (p_nonce V p) (p_hash V p) (case nonces_of q a of None \<Rightarrow> [] | Some ns \<Rightarrow> ns))
     else nonces_of q a)"
  using pool_coreD(1)[OF assms] by (simp add: pool_insert_def nonces_of_def Let_def bmap.lookup_put)

lemma pool_insert_core:
  assumes core: "pool_core V q" and fresh: "queued q (p_sender V p) (p_nonce V p) = None" "pool_get q (p_hash V p) = None"
    and room: "length (case nonces_of q (p_sender V p) of None \<Rightarrow> [] | Some ns \<Rightarrow> ns) < pc_max_per_sender (q_config q)"
  shows "pool_core V (pool_insert V p q)"
proof -
  note D = pool_coreD[OF core]
  let ?q = "pool_insert V p q" let ?ns = "case nonces_of q (p_sender V p) of None \<Rightarrow> [] | Some ns \<Rightarrow> ns"
  have ns: "bmap_ok ?ns" using D(3) by (auto split: option.split)
  have len: "length (bmap_insert (p_nonce V p) (p_hash V p) ?ns) \<le> pc_max_per_sender (q_config q)"
    using bmap.size_put[OF ns, of "p_nonce V p" "p_hash V p"] room by simp
  have lk: "map_of (bmap_insert (p_nonce V p) (p_hash V p) ?ns) = (map_of ?ns)(p_nonce V p \<mapsto> p_hash V p)"
    by (rule bmap.lookup_put[OF ns])
  have qd: "queued ?q a n = (if a = p_sender V p \<and> n = p_nonce V p then Some (p_hash V p) else queued q a n)" for a n
    using lk by (auto simp: queued_def pool_insert_nonces[OF core] split: option.split)
  have gone: "queued q a n \<noteq> Some (p_hash V p)" for a n using D(8) fresh(2) by fastforce
  have "queued ?q a n = Some h \<longleftrightarrow> (\<exists>p. pool_get ?q h = Some p \<and> p_sender V p = a \<and> p_nonce V p = n)" for a n h
  proof (cases "h = p_hash V p")
    case True
    with gone show ?thesis by (auto simp: qd pool_insert_get)
  next
    case False
    with D(7)[of h] D(8)[of a n h] fresh(1) show ?thesis by (auto simp: qd pool_insert_get)
  qed
  moreover have "bmap_ok (q_by_sender ?q)" "hmap_ok (q_by_hash ?q)" "q_config ?q = q_config q"
    using D(1,2) by (simp_all add: pool_insert_def Let_def bmap.put_ok)
  moreover have "bmap_insert (p_nonce V p) (p_hash V p) ?ns \<noteq> []" by (simp add: bmap_insert_def)
  ultimately show ?thesis
    using D(3-6) len bmap.put_ok[OF ns, of "p_nonce V p" "p_hash V p"]
    unfolding pool_core_def queues_ok_def index_ok_def pool_insert_nonces[OF core] pool_insert_get
    by (auto split: if_splits)
qed

end
