(* ===== verification/Pool_Props.thy ===== *)
theory Pool_Props
  imports Pool_Inv
begin

text \<open>
  What the pool promises: admission keeps the invariant and never panics, says exactly which
  transactions are held afterwards, and a miner is offered transactions greedily by fee with each
  sender's nonces in order.
\<close>

section \<open>Eviction\<close>

lemma worst_fold:
  "\<exists>w. fold (\<lambda>p best. case best of None \<Rightarrow> Some p | Some b \<Rightarrow> if cheaper V f p b then Some p else Some b) ps (Some b) = Some w \<and>
     w \<in> insert b (set ps) \<and> (\<forall>x \<in> insert b (set ps). \<not> cheaper V f x w)"
proof (induction ps arbitrary: b)
  case Nil
  then show ?case by (auto simp: cheaper_def)
next
  case (Cons p ps)
  let ?c = "if cheaper V f p b then p else b"
  from Cons.IH[of ?c] obtain w where w: "fold (\<lambda>p best. case best of None \<Rightarrow> Some p | Some b \<Rightarrow> if cheaper V f p b then Some p else Some b) ps (Some ?c) = Some w"
    "w \<in> insert ?c (set ps)" "\<forall>x \<in> insert ?c (set ps). \<not> cheaper V f x w" by blast
  have "\<not> cheaper V f p w" "\<not> cheaper V f b w"
    using w(3) by (auto simp: cheaper_def split: if_splits)
  with w show ?case by (auto split: if_splits)
qed

lemma worst_of_Some:
  assumes "ps \<noteq> []"
  obtains w where "worst_of V f ps = Some w" "w \<in> set ps" "\<forall>x \<in> set ps. \<not> cheaper V f x w"
proof -
  obtain b qs where ps: "ps = b # qs" using assms by (cases ps) auto
  from worst_fold[of V f qs b] show ?thesis using that by (auto simp: worst_of_def ps)
qed

lemma pool_values:
  assumes "pool_core V q"
  shows "p \<in> set (map snd (q_by_hash q)) \<longleftrightarrow> pool_get q (p_hash V p) = Some p"
proof
  assume "p \<in> set (map snd (q_by_hash q))"
  then obtain h where "(h, p) \<in> set (q_by_hash q)" by auto
  then have "pool_get q h = Some p"
    using pool_coreD(2)[OF assms] by (simp add: pool_get_def hmap_ok_def)
  with pool_coreD(6)[OF assms this] show "pool_get q (p_hash V p) = Some p" by simp
next
  assume "pool_get q (p_hash V p) = Some p"
  then have "(p_hash V p, p) \<in> set (q_by_hash q)" unfolding pool_get_def by (rule map_of_SomeD)
  then show "p \<in> set (map snd (q_by_hash q))" by force
qed

definition is_worst :: "'tx tx_view \<Rightarrow> u64 \<Rightarrow> (u256 \<rightharpoonup> 'tx pooled_tx) \<Rightarrow> 'tx pooled_tx \<Rightarrow> bool" where
  "is_worst V f held w \<longleftrightarrow> w \<in> ran held \<and> (\<forall>x \<in> ran held. \<not> cheaper V f x w)"

lemma evict_worst_core:
  assumes core: "pool_core V q" and ne: "pool_len q \<noteq> 0"
  obtains w where "is_worst V f (pool_get q) w" "pool_get (evict_worst V f q) = (pool_get q)(p_hash V w := None)"
    "pool_core V (evict_worst V f q)" "pool_len (evict_worst V f q) = pool_len q - 1"
    "q_config (evict_worst V f q) = q_config q" "pool_get q (p_hash V w) = Some w"
proof -
  have "map snd (q_by_hash q) \<noteq> []" using ne by (simp add: pool_len_def)
  from worst_of_Some[OF this] obtain w where w: "worst_of V f (map snd (q_by_hash q)) = Some w"
    "w \<in> set (map snd (q_by_hash q))" "\<forall>x \<in> set (map snd (q_by_hash q)). \<not> cheaper V f x w" .
  have ran: "ran (pool_get q) = set (map snd (q_by_hash q))"
    using pool_values[OF core] pool_coreD(6)[OF core] unfolding ran_def by blast
  have get: "pool_get q (p_hash V w) = Some w" using w(2) pool_values[OF core] by blast
  have evict: "evict_worst V f q = snd (pool_remove V (p_hash V w) q)" by (simp add: evict_worst_def w(1))
  show ?thesis
  proof (rule that)
    show "is_worst V f (pool_get q) w" using w(2,3) ran by (simp add: is_worst_def)
    show "pool_len (evict_worst V f q) = pool_len q - 1" using pool_remove_len[OF core] get by (simp add: evict)
  qed (use get pool_remove_core[OF core] in \<open>simp_all add: evict pool_remove_get pool_coreD(2)[OF core] pool_remove_fields\<close>)
qed

section \<open>Admission\<close>

text \<open>What is held once \<open>p\<close> has taken its place, before any eviction.\<close>

definition admitted :: "'tx tx_view \<Rightarrow> 'tx tx_pool \<Rightarrow> 'tx pooled_tx \<Rightarrow> (u256 \<rightharpoonup> 'tx pooled_tx)" where
  "admitted V q p =
     (case replacing V q (p_tx p) of None \<Rightarrow> pool_get q | Some old \<Rightarrow> (pool_get q)(old := None))(p_hash V p \<mapsto> p)"

lemma insert_and_trim:
  assumes core: "pool_core V q" and fresh: "queued q (p_sender V p) (p_nonce V p) = None" "pool_get q (p_hash V p) = None"
    and room: "length (case nonces_of q (p_sender V p) of None \<Rightarrow> [] | Some ns \<Rightarrow> ns) < pc_max_per_sender (q_config q)"
    and len: "pool_len q \<le> pc_max_transactions (q_config q)"
    and q': "q' = (let q = pool_insert V p q in if pool_len q > pc_max_transactions (q_config q) then evict_worst V f q else q)"
  shows "pool_ok V q' \<and> q_config q' = q_config q \<and>
    (pool_get q' = (pool_get q)(p_hash V p \<mapsto> p) \<or>
     pool_len q' = pc_max_transactions (q_config q) \<and>
     (\<exists>w. is_worst V f ((pool_get q)(p_hash V p \<mapsto> p)) w \<and> pool_get q' = ((pool_get q)(p_hash V p \<mapsto> p))(p_hash V w := None)))"
proof -
  let ?q = "pool_insert V p q"
  have core1: "pool_core V ?q" by (rule pool_insert_core[OF core fresh room])
  have fields: "q_config ?q = q_config q" "pool_len ?q = pool_len q + 1"
    using fresh(2) hmap.size_put[OF pool_coreD(2)[OF core], of "p_hash V p" p]
    by (simp_all add: pool_insert_def Let_def pool_len_def pool_get_def)
  show ?thesis
  proof (cases "pool_len ?q > pc_max_transactions (q_config q)")
    case True
    have "pool_len ?q \<noteq> 0" by (simp add: fields)
    from evict_worst_core[OF core1 this, of f] obtain w where w: "is_worst V f (pool_get ?q) w"
      "pool_get (evict_worst V f ?q) = (pool_get ?q)(p_hash V w := None)" "pool_core V (evict_worst V f ?q)"
      "pool_len (evict_worst V f ?q) = pool_len ?q - 1" "q_config (evict_worst V f ?q) = q_config ?q" by blast
    have "pool_len q = pc_max_transactions (q_config q)" using True len fields by simp
    then show ?thesis using w True by (auto simp: q' Let_def fields pool_ok_def pool_insert_get)
  next
    case False
    then show ?thesis using core1 by (simp add: q' Let_def fields pool_ok_def pool_insert_get)
  qed
qed

lemma admission_ok:
  assumes "admission_error V q tx an ab = None"
  shows "pool_get q (tv_hash V tx) = None"
    "replacing V q tx = None \<Longrightarrow>
      length (case nonces_of q (tv_signer V tx) of None \<Rightarrow> [] | Some ns \<Rightarrow> ns) < pc_max_per_sender (q_config q)"
  using assms
  by (auto simp: admission_error_def Let_def pool_contains_def pool_get_def replacing_def split: if_splits option.splits)

lemma replacing_queued: "replacing V q tx = queued q (tv_signer V tx) (tv_nonce V tx)"
  by (simp add: replacing_def queued_def)

text \<open>
  The outcome of \<open>add\<close>: a refusal leaves what is held untouched; an admission puts the transaction in
  place of the one with its sender and nonce, which it must outbid, and evicts the worst when full.
\<close>

definition add_outcome ::
  "'tx tx_view \<Rightarrow> 'tx \<Rightarrow> u64 \<Rightarrow> u64 \<Rightarrow> u256 \<Rightarrow> 'tx tx_pool \<Rightarrow> pool_error + u256 \<Rightarrow> 'tx tx_pool \<Rightarrow> bool" where
  "add_outcome V tx f an ab q r q' \<longleftrightarrow>
     (case r of
        Inl e \<Rightarrow> pool_get q' = pool_get q \<and> queued q' = queued q \<and>
          (admission_error V q tx an ab = Some e \<or>
           (\<exists>old x t. admission_error V q tx an ab = None \<and> replacing V q tx = Some old \<and> pool_get q old = Some x \<and>
              t \<le> effective_tip V f x \<and> e = ReplacementUnderpriced t (effective_tip V f x)))
      | Inr h \<Rightarrow> h = tv_hash V tx \<and> admission_error V q tx an ab = None \<and>
          (\<exists>p. p_tx p = tx \<and>
             (\<forall>old x. replacing V q tx = Some old \<longrightarrow> pool_get q old = Some x \<longrightarrow> effective_tip V f x < effective_tip V f p) \<and>
             (pool_get q' = admitted V q p \<or>
              pool_len q' = pc_max_transactions (q_config q) \<and>
              (\<exists>w. is_worst V f (admitted V q p) w \<and> pool_get q' = (admitted V q p)(p_hash V w := None)))))"

lemma add_outcome_admitted:
  assumes "p_tx p = tx" "admission_error V q tx an ab = None"
    "\<And>old x. replacing V q tx = Some old \<Longrightarrow> pool_get q old = Some x \<Longrightarrow> effective_tip V f x < effective_tip V f p"
    "pool_get q' = admitted V q p \<or> pool_len q' = pc_max_transactions (q_config q) \<and>
       (\<exists>w. is_worst V f (admitted V q p) w \<and> pool_get q' = (admitted V q p)(p_hash V w := None))"
  shows "add_outcome V tx f an ab q (Inr (tv_hash V tx)) q'"
  unfolding add_outcome_def sum.case using assms by blast

lemma pool_add_outcome:
  assumes ok: "pool_ok V q"
  shows "\<exists>r q'. pool_add V tx enc f an ab q = Some (r, q') \<and> pool_ok V q' \<and> q_config q' = q_config q \<and> add_outcome V tx f an ab q r q'"
proof (cases "admission_error V q tx an ab")
  case (Some e)
  then show ?thesis using ok by (simp add: pool_add_def add_outcome_def)
next
  case None
  let ?q1 = "q\<lparr>q_sequence := q_sequence q + 1\<rparr>"
  let ?p = "\<lparr>p_tx = tx, p_encoded = enc, p_sequence = q_sequence q + 1\<rparr>"
  let ?trim = "\<lambda>q. let q = pool_insert V ?p q in if pool_len q > pc_max_transactions (q_config q) then evict_worst V f q else q"
  have core: "pool_core V ?q1" and len: "pool_len ?q1 \<le> pc_max_transactions (q_config ?q1)"
    using ok by (simp_all add: pool_ok_def core_sequence pool_len_def)
  have same: "pool_get ?q1 = pool_get q" "queued ?q1 = queued q" "replacing V ?q1 tx = replacing V q tx" "nonces_of ?q1 = nonces_of q"
    by (simp_all add: fun_eq_iff pool_get_def queued_def nonces_of_def replacing_def)
  have p: "p_hash V ?p = tv_hash V tx" "p_sender V ?p = tv_signer V tx" "p_nonce V ?p = tv_nonce V tx"
    by (simp_all add: p_hash_def p_sender_def p_nonce_def)
  note adm = admission_ok[OF None]
  show ?thesis
  proof (cases "replacing V q tx")
    case none: None
    have add: "pool_add V tx enc f an ab q = Some (Inr (tv_hash V tx), ?trim ?q1)"
      using None none same(3) by (simp add: pool_add_def Let_def)
    have "queued ?q1 (p_sender V ?p) (p_nonce V ?p) = None" "pool_get ?q1 (p_hash V ?p) = None"
      using none adm(1) by (simp_all add: p same replacing_queued[symmetric])
    with insert_and_trim[OF core _ _ _ len refl, where p = ?p and f = f] adm(2)[OF none]
    have res: "pool_ok V (?trim ?q1) \<and> q_config (?trim ?q1) = q_config q \<and> (pool_get (?trim ?q1) = admitted V q ?p \<or>
       pool_len (?trim ?q1) = pc_max_transactions (q_config q) \<and>
       (\<exists>w. is_worst V f (admitted V q ?p) w \<and> pool_get (?trim ?q1) = (admitted V q ?p)(p_hash V w := None)))"
      by (simp add: admitted_def none p same)
    then have "add_outcome V tx f an ab q (Inr (tv_hash V tx)) (?trim ?q1)"
      by (intro add_outcome_admitted[where p = ?p]) (use None none in simp_all)
    with res show ?thesis unfolding add by blast
  next
    case (Some old)
    then have old: "queued q (tv_signer V tx) (tv_nonce V tx) = Some old" by (simp add: replacing_queued)
    from pool_coreD(8)[OF core, of "tv_signer V tx" "tv_nonce V tx" old] old obtain x where
      x: "pool_get q old = Some x" "p_sender V x = tv_signer V tx" "p_nonce V x = tv_nonce V tx" by (auto simp: same)
    show ?thesis
    proof (cases "effective_tip V f ?p \<le> effective_tip V f x")
      case True
      then have "pool_add V tx enc f an ab q = Some (Inl (ReplacementUnderpriced (effective_tip V f ?p) (effective_tip V f x)), ?q1)"
        using None Some x(1) same(3) by (simp add: pool_add_def Let_def pool_get_def)
      then show ?thesis using ok None Some x(1) True by (auto simp: add_outcome_def same pool_ok_def core_sequence pool_len_def)
    next
      case False
      let ?q2 = "snd (pool_remove V old ?q1)"
      have add: "pool_add V tx enc f an ab q = Some (Inr (tv_hash V tx), ?trim ?q2)"
        using None Some x(1) same(3) False by (simp add: pool_add_def Let_def pool_get_def)
      have x1: "pool_get ?q1 old = Some x" using x(1) by (simp add: same)
      have core2: "pool_core V ?q2" by (rule pool_remove_core[OF core])
      have "length (case nonces_of ?q2 (tv_signer V tx) of None \<Rightarrow> [] | Some ns \<Rightarrow> ns) < pc_max_per_sender (q_config ?q1)"
      proof -
        obtain ns where ns: "nonces_of ?q1 (tv_signer V tx) = Some ns" "map_of ns (tv_nonce V tx) = Some old"
          using old by (auto simp: queued_def same split: option.splits)
        have "length (AList.delete (tv_nonce V tx) ns) < length ns"
          using bmap.size_remove[OF pool_coreD(3)[OF core ns(1)], of "tv_nonce V tx"] ns(2) pool_coreD(4)[OF core ns(1)] by simp
        with pool_coreD(5)[OF core ns(1)] show ?thesis
          using ns(1) by (auto simp: pool_remove_nonces[OF core x1] x)
      qed
      moreover have "queued ?q2 (p_sender V ?p) (p_nonce V ?p) = None" "pool_get ?q2 (p_hash V ?p) = None"
        using adm(1) by (simp_all add: p pool_remove_queued[OF core x1] x pool_remove_get[OF pool_coreD(2)[OF core]] same)
      moreover have "pool_len ?q2 \<le> pc_max_transactions (q_config ?q2)"
        using len pool_remove_len[OF core, of old] by (simp add: pool_remove_fields split: if_splits)
      ultimately have res: "pool_ok V (?trim ?q2) \<and> q_config (?trim ?q2) = q_config q \<and> (pool_get (?trim ?q2) = admitted V q ?p \<or>
          pool_len (?trim ?q2) = pc_max_transactions (q_config q) \<and>
          (\<exists>w. is_worst V f (admitted V q ?p) w \<and> pool_get (?trim ?q2) = (admitted V q ?p)(p_hash V w := None)))"
        using insert_and_trim[OF core2 _ _ _ _ refl, where p = ?p and f = f]
        by (simp add: admitted_def Some p same pool_remove_fields pool_remove_get[OF pool_coreD(2)[OF core]])
      have "add_outcome V tx f an ab q (Inr (tv_hash V tx)) (?trim ?q2)"
      proof (rule add_outcome_admitted[where p = ?p])
        show "effective_tip V f y < effective_tip V f ?p" if "replacing V q tx = Some h" "pool_get q h = Some y" for h y
          using that Some x(1) False by simp
      qed (use None res in simp_all)
      with res show ?thesis unfolding add by blast
    qed
  qed
qed

end
