(* ===== verification/Pool_Best.thy ===== *)
theory Pool_Best
  imports Pool_Inv
begin

text \<open>
  The loop of \<open>best_transactions\<close>: what it has taken from each sender is a prefix of the sender's queue,
  and each turn it takes a best among the next of every sender.
\<close>

section \<open>Queues\<close>

definition queue :: "'tx tx_pool \<Rightarrow> address \<Rightarrow> (u64, u256) bmap" where
  "queue q a = (case nonces_of q a of None \<Rightarrow> [] | Some ns \<Rightarrow> ns)"

definition taken_of :: "(address, nat) hmap \<Rightarrow> address \<Rightarrow> nat" where
  "taken_of taken a = (case map_of taken a of None \<Rightarrow> 0 | Some n \<Rightarrow> n)"

lemma queue_sorted: "pool_core V q \<Longrightarrow> sorted_wrt (<) (map fst (queue q a))"
  using pool_coreD(3)[of V q a] by (auto simp: queue_def bmap_ok_def split: option.split)

lemma queue_mem:
  assumes "pool_core V q"
  shows "(n, h) \<in> set (queue q a) \<longleftrightarrow> (\<exists>p. pool_get q h = Some p \<and> p_sender V p = a \<and> p_nonce V p = n)"
proof -
  have "(n, h) \<in> set (queue q a) \<longleftrightarrow> queued q a n = Some h"
  proof (cases "nonces_of q a")
    case (Some ns)
    have "distinct (map fst ns)" using pool_coreD(3)[OF assms Some] by (rule bmap_ok_distinct)
    with Some map_of_mem[of ns n h] show ?thesis by (simp add: queue_def queued_def)
  qed (simp add: queue_def queued_def)
  then show ?thesis using pool_coreD(7,8)[OF assms] by blast
qed

lemma queue_nth:
  assumes "pool_core V q" "i < length (queue q a)"
  obtains p where "pool_get q (snd (queue q a ! i)) = Some p" "p_sender V p = a" "p_nonce V p = fst (queue q a ! i)"
    "p_hash V p = snd (queue q a ! i)"
proof -
  have "(fst (queue q a ! i), snd (queue q a ! i)) \<in> set (queue q a)" using nth_mem[OF assms(2)] by simp
  with queue_mem[OF assms(1)] obtain p where "pool_get q (snd (queue q a ! i)) = Some p" "p_sender V p = a"
    "p_nonce V p = fst (queue q a ! i)" by blast
  then show ?thesis using that pool_coreD(6)[OF assms(1)] by blast
qed

lemma queue_distinct: "pool_core V q \<Longrightarrow> distinct (map snd (queue q a))"
proof -
  assume core: "pool_core V q"
  have "i = j" if "i < length (queue q a)" "j < length (queue q a)" "snd (queue q a ! i) = snd (queue q a ! j)" for i j
  proof -
    from queue_nth[OF core that(1)] queue_nth[OF core that(2)] that(3)
    have "fst (queue q a ! i) = fst (queue q a ! j)" by (metis option.inject)
    moreover have "distinct (map fst (queue q a))" using queue_sorted[OF core] by (simp add: strict_sorted_iff)
    ultimately show ?thesis using that(1,2) by (simp add: distinct_conv_nth) metis
  qed
  then show ?thesis by (auto simp: distinct_conv_nth)
qed

section \<open>The invariant of the loop\<close>

definition best_inv :: "'tx tx_view \<Rightarrow> 'tx tx_pool \<Rightarrow> (address, nat) hmap \<Rightarrow> 'tx pooled_tx list \<Rightarrow> bool" where
  "best_inv V q taken out \<longleftrightarrow>
     (\<forall>a. taken_of taken a \<le> length (queue q a) \<and>
        map (p_hash V) (filter (\<lambda>p. p_sender V p = a) out) = map snd (take (taken_of taken a) (queue q a))) \<and>
     (\<forall>p \<in> set out. pool_get q (p_hash V p) = Some p) \<and> distinct (map (p_hash V) out)"

text \<open>A transaction the miner may take next: everything its sender sent before it has been taken.\<close>

definition eligible :: "'tx tx_view \<Rightarrow> 'tx tx_pool \<Rightarrow> 'tx pooled_tx list \<Rightarrow> 'tx pooled_tx \<Rightarrow> bool" where
  "eligible V q out p \<longleftrightarrow> pool_get q (p_hash V p) = Some p \<and> p \<notin> set out \<and>
     (\<forall>p'. pool_get q (p_hash V p') = Some p' \<longrightarrow> p_sender V p' = p_sender V p \<longrightarrow> p_nonce V p' < p_nonce V p \<longrightarrow> p' \<in> set out)"

lemma best_inv_start: "best_inv V q [] []"
  by (simp add: best_inv_def taken_of_def)

lemma taken_iff:
  assumes core: "pool_core V q" and inv: "best_inv V q taken out" and i: "i < length (queue q a)"
    and p: "pool_get q (p_hash V p) = Some p" "p_hash V p = snd (queue q a ! i)"
  shows "p \<in> set out \<longleftrightarrow> i < taken_of taken a"
proof -
  have sender: "p_sender V p = a" by (rule queue_nth[OF core i]) (use p in auto)
  have "p \<in> set out \<longleftrightarrow> p_hash V p \<in> p_hash V ` set (filter (\<lambda>p. p_sender V p = a) out)"
  proof
    assume "p_hash V p \<in> p_hash V ` set (filter (\<lambda>p. p_sender V p = a) out)"
    then obtain p' where "p' \<in> set out" "p_hash V p' = p_hash V p" by auto
    with inv p(1) show "p \<in> set out" by (metis best_inv_def option.inject)
  qed (use sender in auto)
  also have "p_hash V ` set (filter (\<lambda>p. p_sender V p = a) out) = set (map snd (take (taken_of taken a) (queue q a)))"
    using inv unfolding best_inv_def by (metis list.set_map)
  also have "p_hash V p \<in> set (map snd (take (taken_of taken a) (queue q a))) \<longleftrightarrow> i < taken_of taken a"
  proof
    assume "p_hash V p \<in> set (map snd (take (taken_of taken a) (queue q a)))"
    then obtain j where j: "j < taken_of taken a" "j < length (queue q a)" "snd (queue q a ! j) = snd (queue q a ! i)"
      by (auto simp: in_set_conv_nth p(2))
    with queue_distinct[OF core, of a] i have "j = i" by (auto simp: distinct_conv_nth)
    with j show "i < taken_of taken a" by simp
  next
    assume "i < taken_of taken a"
    with i have "queue q a ! i \<in> set (take (taken_of taken a) (queue q a))" by (auto simp: in_set_conv_nth intro!: exI[of _ i])
    then show "p_hash V p \<in> set (map snd (take (taken_of taken a) (queue q a)))" by (simp add: p(2))
  qed
  finally show ?thesis .
qed

lemma eligible_iff:
  assumes core: "pool_core V q" and inv: "best_inv V q taken out"
  shows "eligible V q out p \<longleftrightarrow>
    (\<exists>a. taken_of taken a < length (queue q a) \<and> pool_get q (snd (queue q a ! taken_of taken a)) = Some p)"
proof
  assume el: "eligible V q out p"
  let ?a = "p_sender V p" let ?n = "taken_of taken (p_sender V p)"
  have get: "pool_get q (p_hash V p) = Some p" using el by (simp add: eligible_def)
  with queue_mem[OF core] have "(p_nonce V p, p_hash V p) \<in> set (queue q ?a)" by blast
  then obtain j where j: "j < length (queue q ?a)" "queue q ?a ! j = (p_nonce V p, p_hash V p)" by (auto simp: in_set_conv_nth)
  then have "\<not> j < ?n" using taken_iff[OF core inv j(1) get] el by (simp add: eligible_def)
  moreover have "\<not> ?n < j"
  proof
    assume lt: "?n < j"
    then have n: "?n < length (queue q ?a)" using j(1) by simp
    obtain p' where p': "pool_get q (snd (queue q ?a ! ?n)) = Some p'" "p_sender V p' = ?a"
      "p_nonce V p' = fst (queue q ?a ! ?n)" "p_hash V p' = snd (queue q ?a ! ?n)" by (rule queue_nth[OF core n])
    have "fst (queue q ?a ! ?n) < fst (queue q ?a ! j)"
      using sorted_wrt_nth_less[OF queue_sorted[OF core, of ?a] lt] j(1) n by simp
    then have "p' \<in> set out" using el p' j(2) by (auto simp: eligible_def)
    moreover have "pool_get q (p_hash V p') = Some p'" using p' by simp
    ultimately show False using taken_iff[OF core inv n _ p'(4)] by simp
  qed
  ultimately have "j = ?n" by simp
  with j get show "\<exists>a. taken_of taken a < length (queue q a) \<and> pool_get q (snd (queue q a ! taken_of taken a)) = Some p"
    by (intro exI[of _ ?a]) auto
next
  assume "\<exists>a. taken_of taken a < length (queue q a) \<and> pool_get q (snd (queue q a ! taken_of taken a)) = Some p"
  then obtain a where a: "taken_of taken a < length (queue q a)" "pool_get q (snd (queue q a ! taken_of taken a)) = Some p" by blast
  obtain p0 where "pool_get q (snd (queue q a ! taken_of taken a)) = Some p0" "p_sender V p0 = a"
      "p_nonce V p0 = fst (queue q a ! taken_of taken a)" "p_hash V p0 = snd (queue q a ! taken_of taken a)"
    by (rule queue_nth[OF core a(1)])
  with a(2) have p: "p_sender V p = a" "p_nonce V p = fst (queue q a ! taken_of taken a)"
    "p_hash V p = snd (queue q a ! taken_of taken a)" "pool_get q (p_hash V p) = Some p" by simp_all
  have "p' \<in> set out" if p': "pool_get q (p_hash V p') = Some p'" "p_sender V p' = a" "p_nonce V p' < p_nonce V p" for p'
  proof -
    from queue_mem[OF core] p' have "(p_nonce V p', p_hash V p') \<in> set (queue q a)" by blast
    then obtain j where j: "j < length (queue q a)" "queue q a ! j = (p_nonce V p', p_hash V p')" by (auto simp: in_set_conv_nth)
    have "j < taken_of taken a"
    proof (rule ccontr)
      assume "\<not> j < taken_of taken a"
      then consider "j = taken_of taken a" | "taken_of taken a < j" by linarith
      then show False
      proof cases
        case 2
        from sorted_wrt_nth_less[OF queue_sorted[OF core, of a] 2] j p'(3) a(1) p(2) show False by simp
      qed (use j(2) p(2) p'(3) in simp)
    qed
    then show ?thesis using taken_iff[OF core inv j(1) p'(1)] j(2) by simp
  qed
  moreover have "p \<notin> set out" using taken_iff[OF core inv a(1) p(4,3)] by simp
  ultimately show "eligible V q out p" using p by (auto simp: eligible_def)
qed

section \<open>One turn\<close>

lemma next_of_queue:
  assumes core: "pool_core V q" and e: "(a, ns) \<in> set (q_by_sender q)"
  shows "next_of q taken (a, ns) =
    (if taken_of taken a < length (queue q a) then pool_get q (snd (queue q a ! taken_of taken a)) else None)"
proof -
  have "map_of (q_by_sender q) a = Some ns"
    using e map_of_mem[OF bmap_ok_distinct[OF pool_coreD(1)[OF core]]] by blast
  then have "queue q a = ns" by (simp add: queue_def nonces_of_def)
  then show ?thesis by (simp add: next_of_def Let_def taken_of_def pool_get_def)
qed

definition chosen_ok :: "'tx tx_view \<Rightarrow> u64 \<Rightarrow> 'tx tx_pool \<Rightarrow> (address, nat) hmap \<Rightarrow> (nat \<times> address \<times> (u64, u256) bmap) list \<Rightarrow>
    ('tx pooled_tx \<times> nat) option \<Rightarrow> bool" where
  "chosen_ok V f q taken es r \<longleftrightarrow>
     (case r of
        None \<Rightarrow> \<forall>(i, e) \<in> set es. next_of q taken e = None
      | Some (p, i) \<Rightarrow> (\<exists>e. (i, e) \<in> set es \<and> next_of q taken e = Some p) \<and>
          (\<forall>(j, e) \<in> set es. \<forall>p'. next_of q taken e = Some p' \<longrightarrow> \<not> better V f p' p))"

lemma better_order:
  "\<not> better V f p p" "better V f p c \<Longrightarrow> \<not> better V f x c \<Longrightarrow> \<not> better V f x p"
  unfolding better_def Let_def by auto

lemma weigh_step:
  assumes IH: "chosen_ok V f q taken es r"
  shows "chosen_ok V f q taken (es @ [(i, e)]) (weigh V f q taken (i, e) r)"
proof (cases "next_of q taken e")
  case None
  with IH show ?thesis by (cases r) (auto simp: weigh_def chosen_ok_def)
next
  case (Some p)
  show ?thesis
  proof (cases r)
    case None
    have "\<exists>x. (i, x) \<in> set (es @ [(i, e)]) \<and> next_of q taken x = Some p" using Some by (intro exI[of _ e]) simp
    with None IH Some show ?thesis by (fastforce simp: weigh_def chosen_ok_def better_order(1))
  next
    case r: (Some cj)
    obtain c j where cj: "cj = (c, j)" by (cases cj)
    have c: "\<exists>e. (j, e) \<in> set es \<and> next_of q taken e = Some c"
      "\<And>k e p'. (k, e) \<in> set es \<Longrightarrow> next_of q taken e = Some p' \<Longrightarrow> \<not> better V f p' c"
      using IH by (auto simp: chosen_ok_def r cj)
    show ?thesis
    proof (cases "better V f p c")
      case True
      have "\<not> better V f p' p" if "(k, e') \<in> set es" "next_of q taken e' = Some p'" for k e' p'
        using c(2)[OF that] better_order(2)[OF True] by blast
      moreover have "\<exists>x. (i, x) \<in> set (es @ [(i, e)]) \<and> next_of q taken x = Some p" using Some by (intro exI[of _ e]) simp
      ultimately show ?thesis using True Some by (fastforce simp: weigh_def r cj chosen_ok_def better_order(1))
    next
      case False
      with c Some show ?thesis by (auto simp: weigh_def r cj chosen_ok_def)
    qed
  qed
qed

lemma weigh_fold: "chosen_ok V f q taken es (fold (weigh V f q taken) es None)"
proof (induction es rule: rev_induct)
  case (snoc x es)
  obtain i e where "x = (i, e)" by (cases x)
  with weigh_step[OF snoc.IH, of i e] show ?case by simp
qed (simp add: chosen_ok_def)

lemma turn_correct:
  assumes core: "pool_core V q" and inv: "best_inv V q taken out"
  shows "case fold (weigh V f q taken) (enumerate 0 (q_by_sender q)) None of
      None \<Rightarrow> \<forall>p. \<not> eligible V q out p
    | Some (p, i) \<Rightarrow> eligible V q out p \<and> (\<forall>x. eligible V q out x \<longrightarrow> \<not> better V f x p) \<and>
        fst (q_by_sender q ! i) = p_sender V p \<and>
        best_inv V q (AList.update (p_sender V p) (taken_of taken (p_sender V p) + 1) taken) (out @ [p])"
proof -
  let ?es = "enumerate 0 (q_by_sender q)"
  have entry: "(i, a, ns) \<in> set ?es \<Longrightarrow> (a, ns) \<in> set (q_by_sender q) \<and> q_by_sender q ! i = (a, ns)" for i a ns
    by (auto simp: in_set_enumerate_eq) (metis nth_mem)
  have all: "\<exists>i ns. (i, a, ns) \<in> set ?es" if "0 < length (queue q a)" for a
  proof -
    from that obtain ns where "nonces_of q a = Some ns" by (auto simp: queue_def split: option.splits)
    then have "(a, ns) \<in> set (q_by_sender q)" unfolding nonces_of_def by (rule map_of_SomeD)
    then obtain i where "i < length (q_by_sender q)" "q_by_sender q ! i = (a, ns)" by (auto simp: in_set_conv_nth)
    then show ?thesis by (auto simp: in_set_enumerate_eq intro!: exI[of _ i])
  qed
  have el: "eligible V q out p \<longleftrightarrow> (\<exists>i e. (i, e) \<in> set ?es \<and> next_of q taken e = Some p)" for p
    unfolding eligible_iff[OF core inv]
  proof (intro iffI; elim exE conjE)
    fix a assume a: "taken_of taken a < length (queue q a)" "pool_get q (snd (queue q a ! taken_of taken a)) = Some p"
    have "0 < length (queue q a)" using a(1) by linarith
    from all[OF this] obtain i ns where e: "(i, a, ns) \<in> set ?es" by blast
    with a entry[OF e] show "\<exists>i e. (i, e) \<in> set ?es \<and> next_of q taken e = Some p"
      using next_of_queue[OF core, of a ns taken] by (intro exI[of _ i] exI[of _ "(a, ns)"]) simp
  next
    fix i e assume e: "(i, e) \<in> set ?es" "next_of q taken e = Some p"
    obtain a ns where "e = (a, ns)" by (cases e)
    with e entry next_of_queue[OF core, of a ns taken]
    show "\<exists>a. taken_of taken a < length (queue q a) \<and> pool_get q (snd (queue q a ! taken_of taken a)) = Some p"
      by (auto split: if_splits)
  qed
  note ch = weigh_fold[of V f q taken ?es]
  show ?thesis
  proof (cases "fold (weigh V f q taken) ?es None")
    case None
    with ch el show ?thesis by (auto simp: chosen_ok_def)
  next
    case (Some pi)
    then obtain p i where pi: "fold (weigh V f q taken) ?es None = Some (p, i)" by (cases pi) auto
    from ch[unfolded chosen_ok_def pi] obtain a ns where e: "(i, a, ns) \<in> set ?es" "next_of q taken (a, ns) = Some p"
      and best: "\<forall>(j, e) \<in> set ?es. \<forall>p'. next_of q taken e = Some p' \<longrightarrow> \<not> better V f p' p" by auto
    have n: "taken_of taken a < length (queue q a)" "pool_get q (snd (queue q a ! taken_of taken a)) = Some p"
      using e(2) entry[OF e(1)] next_of_queue[OF core, of a ns taken] by (auto split: if_splits)
    obtain p0 where "pool_get q (snd (queue q a ! taken_of taken a)) = Some p0" "p_sender V p0 = a"
        "p_hash V p0 = snd (queue q a ! taken_of taken a)" by (rule queue_nth[OF core n(1)])
    with n(2) have p: "p_sender V p = a" "p_hash V p = snd (queue q a ! taken_of taken a)" by simp_all
    have elp: "eligible V q out p" using el e by blast
    have I: "taken_of taken b \<le> length (queue q b)"
      "map (p_hash V) (filter (\<lambda>p. p_sender V p = b) out) = map snd (take (taken_of taken b) (queue q b))"
      "distinct (map (p_hash V) out)" "\<forall>p \<in> set out. pool_get q (p_hash V p) = Some p" for b
      using inv by (simp_all add: best_inv_def)
    have new: "p_hash V p \<notin> set (map (p_hash V) out)"
    proof
      assume "p_hash V p \<in> set (map (p_hash V) out)"
      then obtain p' where "p' \<in> set out" "p_hash V p' = p_hash V p" by auto
      with I(4) elp show False unfolding eligible_def by (metis option.inject)
    qed
    have cnt: "taken_of (AList.update a (taken_of taken a + 1) taken) b = (if b = a then taken_of taken a + 1 else taken_of taken b)" for b
      by (simp add: taken_of_def)
    have "best_inv V q (AList.update a (taken_of taken a + 1) taken) (out @ [p])"
      unfolding best_inv_def
    proof (intro conjI allI)
      fix b
      show "taken_of (AList.update a (taken_of taken a + 1) taken) b \<le> length (queue q b)" unfolding cnt using I(1)[of b] n(1) by simp
      show "map (p_hash V) (filter (\<lambda>p. p_sender V p = b) (out @ [p]))
          = map snd (take (taken_of (AList.update a (taken_of taken a + 1) taken) b) (queue q b))"
        unfolding cnt using I(2)[of b] p n(1) by (auto simp: take_Suc_conv_app_nth)
    qed (use I new elp in \<open>auto simp: eligible_def\<close>)
    with elp el best entry[OF e(1)] p(1) show ?thesis unfolding pi by auto
  qed
qed


section \<open>The whole loop\<close>

definition greedy :: "'tx tx_view \<Rightarrow> u64 \<Rightarrow> 'tx tx_pool \<Rightarrow> 'tx pooled_tx list \<Rightarrow> bool" where
  "greedy V f q out \<longleftrightarrow> (\<forall>i < length out. eligible V q (take i out) (out ! i) \<and>
     (\<forall>x. eligible V q (take i out) x \<longrightarrow> \<not> better V f x (out ! i)))"

lemma greedy_snoc:
  "greedy V f q out \<Longrightarrow> eligible V q out p \<Longrightarrow> (\<forall>x. eligible V q out x \<longrightarrow> \<not> better V f x p) \<Longrightarrow> greedy V f q (out @ [p])"
  by (auto simp: greedy_def nth_append less_Suc_eq)

lemma taken_bound:
  assumes "pool_core V q" "best_inv V q taken out"
  shows "length out \<le> pool_len q"
proof -
  have "set (map (p_hash V) out) \<subseteq> set (map fst (q_by_hash q))"
  proof
    fix h assume "h \<in> set (map (p_hash V) out)"
    then obtain p where "pool_get q h = Some p" using assms(2) by (auto simp: best_inv_def)
    then show "h \<in> set (map fst (q_by_hash q))" unfolding pool_get_def using map_of_SomeD by force
  qed
  then have "card (set (map (p_hash V) out)) \<le> card (set (map fst (q_by_hash q)))" by (rule card_mono[OF finite_set])
  moreover have "card (set (map (p_hash V) out)) = length out"
    using distinct_card[of "map (p_hash V) out"] assms(2) by (simp add: best_inv_def)
  ultimately show ?thesis using card_length[of "map fst (q_by_hash q)"] by (simp add: pool_len_def)
qed

lemma exhausted:
  assumes core: "pool_core V q" and inv: "best_inv V q taken out" and none: "\<forall>p. \<not> eligible V q out p"
  shows "length out = pool_len q"
proof -
  have full: "p \<in> set out" if p: "pool_get q h = Some p" for h p
  proof -
    have hp: "p_hash V p = h" using pool_coreD(6)[OF core p] .
    with queue_mem[OF core] p have "(p_nonce V p, h) \<in> set (queue q (p_sender V p))" by blast
    then obtain j where j: "j < length (queue q (p_sender V p))" "queue q (p_sender V p) ! j = (p_nonce V p, h)"
      by (auto simp: in_set_conv_nth)
    have "\<not> taken_of taken (p_sender V p) < length (queue q (p_sender V p))"
    proof
      assume n: "taken_of taken (p_sender V p) < length (queue q (p_sender V p))"
      obtain x where "pool_get q (snd (queue q (p_sender V p) ! taken_of taken (p_sender V p))) = Some x"
        by (rule queue_nth[OF core n])
      with n none eligible_iff[OF core inv] show False by blast
    qed
    then show ?thesis using taken_iff[OF core inv j(1), of p] j p hp by simp
  qed
  have "set (map fst (q_by_hash q)) \<subseteq> set (map (p_hash V) out)"
  proof
    fix h assume "h \<in> set (map fst (q_by_hash q))"
    then obtain p where p: "pool_get q h = Some p" unfolding pool_get_def using map_of_eq_None_iff[of "q_by_hash q" h] by fastforce
    have "p_hash V p \<in> set (map (p_hash V) out)" using full[OF p] by (simp del: image_eqI) (rule imageI)
    then show "h \<in> set (map (p_hash V) out)" using pool_coreD(6)[OF core p] by simp
  qed
  then have "card (set (map fst (q_by_hash q))) \<le> card (set (map (p_hash V) out))" by (rule card_mono[OF finite_set])
  moreover have "card (set (map fst (q_by_hash q))) = pool_len q"
    using pool_coreD(2)[OF core] distinct_card[of "map fst (q_by_hash q)"] by (simp add: hmap_ok_def pool_len_def)
  ultimately show ?thesis using taken_bound[OF core inv] card_length[of "map (p_hash V) out"] by simp
qed

lemma best_loop_correct:
  assumes "pool_core V q" "best_inv V q taken out" "greedy V f q out" "length out \<le> limit"
  shows "\<exists>taken'. best_inv V q taken' (best_loop V f q limit taken out) \<and> greedy V f q (best_loop V f q limit taken out) \<and>
    length (best_loop V f q limit taken out) = min limit (pool_len q)"
  using assms
proof (induction V f q limit taken out rule: best_loop.induct)
  case (1 V f q limit taken out)
  show ?case
  proof (cases "length out < limit")
    case False
    with 1 taken_bound[OF 1(2,3)] show ?thesis by (auto simp: best_loop.simps min_def)
  next
    case True
    note turn = turn_correct[OF 1(2,3), of f]
    show ?thesis
    proof (cases "fold (weigh V f q taken) (enumerate 0 (q_by_sender q)) None")
      case None
      with turn have "length out = pool_len q" using exhausted[OF 1(2,3)] by simp
      then show ?thesis using True None 1(3,4) by (auto simp: best_loop.simps[of V f q limit taken out] min_def)
    next
      case (Some pi)
      then obtain p i where pi: "fold (weigh V f q taken) (enumerate 0 (q_by_sender q)) None = Some (p, i)" by (cases pi) auto
      with turn have t: "eligible V q out p" "\<forall>x. eligible V q out x \<longrightarrow> \<not> better V f x p" "fst (q_by_sender q ! i) = p_sender V p"
        "best_inv V q (AList.update (p_sender V p) (taken_of taken (p_sender V p) + 1) taken) (out @ [p])" by auto
      let ?t = "AList.update (p_sender V p) (taken_of taken (p_sender V p) + 1) taken"
      have step: "best_loop V f q limit taken out = best_loop V f q limit ?t (out @ [p])"
        using True pi t(3) by (simp add: best_loop.simps[of V f q limit taken out] Let_def taken_of_def)
      have "\<exists>taken'. best_inv V q taken' (best_loop V f q limit ?t (out @ [p])) \<and> greedy V f q (best_loop V f q limit ?t (out @ [p])) \<and>
          length (best_loop V f q limit ?t (out @ [p])) = min limit (pool_len q)"
        using 1(1)[OF True pi refl refl refl] t greedy_snoc[OF 1(4) t(1,2)] True 1(2)
        by (simp add: t(3) taken_of_def)
      then show ?thesis unfolding step .
    qed
  qed
qed

end
