(* ===== verification/Pool_Reach.thy ===== *)
theory Pool_Reach
  imports Pool_Props Pool_Best
begin

text \<open>
  The properties of the pools a node can have: those that the operations build from an empty pool.
\<close>

section \<open>Reachable pools\<close>

inductive pool_reachable :: "'tx tx_view \<Rightarrow> pool_config \<Rightarrow> 'tx tx_pool \<Rightarrow> bool" for V config where
  start: "pool_reachable V config (new_pool config)"
| add: "pool_reachable V config q \<Longrightarrow> pool_add V tx enc base_fee nonce balance q = Some (r, q') \<Longrightarrow> pool_reachable V config q'"
| remove: "pool_reachable V config q \<Longrightarrow> pool_reachable V config (snd (pool_remove V h q))"
| prune: "pool_reachable V config q \<Longrightarrow> pool_reachable V config (pool_prune V nonces q)"

inductive_cases pool_reachable_cases: "pool_reachable V config q"

lemma fold_remove_fields:
  "q_config (fold (\<lambda>h q. snd (pool_remove V h q)) hs q) = q_config q"
  by (induction hs arbitrary: q) (simp_all add: pool_remove_fields)

lemma fold_remove_get:
  "pool_core V q \<Longrightarrow> pool_get (fold (\<lambda>h q. snd (pool_remove V h q)) hs q) = (\<lambda>h. if h \<in> set hs then None else pool_get q h)"
proof (induction hs arbitrary: q)
  case (Cons h hs)
  have "pool_core V (snd (pool_remove V h q))" by (rule pool_remove_core[OF Cons.prems])
  from Cons.IH[OF this] show ?case by (auto simp: pool_remove_get pool_coreD(2)[OF Cons.prems] fun_eq_iff)
qed simp

lemma pool_reachable_ok: "pool_reachable V config q \<Longrightarrow> pool_ok V q \<and> q_config q = config"
proof (induction rule: pool_reachable.induct)
  case (add q tx enc f n b r q')
  then show ?case using pool_add_outcome[of V q tx enc f n b] by auto
next
  case (prune q nonces)
  moreover have "q_config (pool_prune V nonces q) = q_config q" by (simp add: pool_prune_def Let_def fold_remove_fields)
  ultimately show ?case by (simp add: pool_prune_ok)
qed (simp_all add: new_pool_ok pool_remove_ok pool_remove_fields, simp add: new_pool_def)

lemma pool_prune_get:
  assumes "pool_core V q"
  shows "pool_get (pool_prune V nonces q) =
    (\<lambda>h. case pool_get q h of None \<Rightarrow> None | Some p \<Rightarrow> if p_nonce V p < nonces (p_sender V p) then None else Some p)"
proof
  fix h
  let ?stale = "map (p_hash V) (filter (\<lambda>p. p_nonce V p < nonces (p_sender V p)) (map snd (q_by_hash q)))"
  have "h \<in> set ?stale \<longleftrightarrow> (\<exists>p. pool_get q h = Some p \<and> p_nonce V p < nonces (p_sender V p))"
  proof
    assume "h \<in> set ?stale"
    then obtain p where "p \<in> set (map snd (q_by_hash q))" "p_nonce V p < nonces (p_sender V p)" "h = p_hash V p" by auto
    with pool_values[OF assms] show "\<exists>p. pool_get q h = Some p \<and> p_nonce V p < nonces (p_sender V p)" by blast
  next
    assume "\<exists>p. pool_get q h = Some p \<and> p_nonce V p < nonces (p_sender V p)"
    then obtain p where p: "pool_get q h = Some p" "p_nonce V p < nonces (p_sender V p)" by blast
    have hp: "p_hash V p = h" by (rule pool_coreD(6)[OF assms p(1)])
    have "p \<in> set (map snd (q_by_hash q))" using pool_values[OF assms, of p] p(1) hp by simp
    with p(2) have "p \<in> set (filter (\<lambda>p. p_nonce V p < nonces (p_sender V p)) (map snd (q_by_hash q)))" by simp
    then have "p_hash V p \<in> set ?stale" unfolding set_map by (rule imageI)
    with hp show "h \<in> set ?stale" by simp
  qed
  then show "pool_get (pool_prune V nonces q) h =
      (case pool_get q h of None \<Rightarrow> None | Some p \<Rightarrow> if p_nonce V p < nonces (p_sender V p) then None else Some p)"
    by (auto simp: pool_prune_def Let_def fold_remove_get[OF assms] simp del: set_map split: option.split)
qed

section \<open>Properties\<close>


definition plain_view :: "nat tx_view" where
  "plain_view = \<lparr>tv_hash = of_nat, tv_signer = (\<lambda>_. 7), tv_nonce = of_nat, tv_chain_id = (\<lambda>_. Some 1),
     tv_is_blob = (\<lambda>_. False), tv_gas_limit = (\<lambda>_. 21000), tv_max_fee = (\<lambda>_. 10), tv_max_priority_fee = (\<lambda>_. Some 2),
     tv_value = (\<lambda>_. 0)\<rparr>"


text \<open>
  The index. In every pool the operations can build, the per-sender, per-nonce index names
  exactly the transactions held by hash, so there is at most one transaction per sender and
  nonce; no sender is listed with an empty queue or more than the per-sender limit; a removal takes
  out exactly the named transaction, and a prune exactly the transactions whose nonce is
  below their sender's account nonce.
\<close>

theorem pool_index_exact:
  assumes "pool_reachable V config q"
  shows "(queued q a n = Some h \<longleftrightarrow> (\<exists>p. pool_get q h = Some p \<and> p_hash V p = h \<and> p_sender V p = a \<and> p_nonce V p = n)) \<and>
    (nonces_of q a = Some ns \<longrightarrow> sorted_wrt (<) (map fst ns) \<and> 0 < length ns \<and> length ns \<le> pc_max_per_sender config) \<and>
    pool_len q \<le> pc_max_transactions config \<and>
    pool_remove V h q = (pool_get q h, snd (pool_remove V h q)) \<and>
    pool_get (snd (pool_remove V h q)) = (pool_get q)(h := None) \<and>
    pool_get (pool_prune V nonces q) =
      (\<lambda>h. case pool_get q h of None \<Rightarrow> None | Some p \<Rightarrow> if p_nonce V p < nonces (p_sender V p) then None else Some p)"
proof -
  have ok: "pool_ok V q" "q_config q = config" using pool_reachable_ok[OF assms] by auto
  then have core: "pool_core V q" by (simp add: pool_ok_def)
  note D = pool_coreD[OF core]
  have "queued q a n = Some h \<longleftrightarrow> (\<exists>p. pool_get q h = Some p \<and> p_hash V p = h \<and> p_sender V p = a \<and> p_nonce V p = n)"
    using D(6-8) by blast
  moreover have "nonces_of q a = Some ns \<longrightarrow> sorted_wrt (<) (map fst ns) \<and> 0 < length ns \<and> length ns \<le> pc_max_per_sender config"
    using D(3-5) ok(2) by (auto simp: bmap_ok_def)
  moreover have "pool_remove V h q = (pool_get q h, snd (pool_remove V h q))"
    by (simp add: pool_remove_def pool_get_def Let_def split: option.split)
  ultimately show ?thesis
    using ok by (simp add: pool_ok_def pool_remove_get[OF D(2)] pool_prune_get[OF core])
qed

theorem pool_index_exact_witness:
  "queued (new_pool (new_pool_config 1 5) :: nat tx_pool) 7 0 = Some 3 \<longleftrightarrow>
    (\<exists>p. pool_get (new_pool (new_pool_config 1 5)) 3 = Some p \<and> p_hash plain_view p = 3 \<and> p_sender plain_view p = 7 \<and> p_nonce plain_view p = 0)"
  using pool_index_exact[OF start[of plain_view "new_pool_config 1 5"], of 7 0 3 "[]" "\<lambda>_. 0"] by blast



end
