(* ===== verification/Node_Inv.thy ===== *)
theory Node_Inv
  imports Node Node_Replay Pool_Reach
begin

text \<open>
  The node's invariant: execution has followed the DAG to its virtual selected parent and stands
  where executing the selected chain from genesis would have put it; the transaction index names
  executed transactions of that chain; the pool is well formed.
\<close>

section \<open>What a block's execution reads of the DAG and the bodies\<close>

lemma execute_chain_block_cong:
  assumes "dag_header dag b = dag_header dag' b" "tagged_sequence L dag bodies b = tagged_sequence L dag' bodies' b"
  shows "execute_chain_block L dag bodies b = execute_chain_block L dag' bodies' b"
  by (rule ext) (unfold execute_chain_block_def assms, rule refl)

lemma base_sequence_in:
  assumes "dag_ok hash s" "b \<in> blocks s"
  shows "set (base_sequence s b) \<subseteq> blocks s"
proof (cases "b = s_genesis s")
  case True
  from dag_okD(1)[OF assms(1)] have g: "s_genesis s \<in> blocks s" by (simp add: topology_ok_def)
  then obtain h where "map_of (s_headers s) (s_genesis s) = Some h" using header_of_block by blast
  with dag_okD(7)[OF assms(1)] have "dag_data s b = Some (genesis_data (s_genesis s) h)"
    by (simp add: data_spec_def True dag_data_def)
  with g True show ?thesis by (simp add: base_sequence_def genesis_data_def)
next
  case False
  from mergeset_of_block[OF assms False] obtain ms where "base_sequence s b = ms @ [b]"
    "set ms = past s b - past s (selected_parent_of s b) - {selected_parent_of s b}" by blast
  then show ?thesis using assms(2) ancestor_in_blocks[OF dag_okD(1)[OF assms(1)] _ assms(2)] by (auto simp: past_def)
qed

lemma execute_chain_block_agree:
  assumes "dag_ok hash s" "agree (blocks s) s t" "b \<in> blocks s" "\<And>x. x \<in> blocks s \<Longrightarrow> body_get bodies x = body_get bodies' x"
  shows "execute_chain_block L s bodies b = execute_chain_block L t bodies' b"
proof (rule execute_chain_block_cong)
  have same: "dag_header s x = dag_header t x" "dag_data s x = dag_data t x" if "x \<in> blocks s" for x
    using assms(2) that by (simp_all add: agree_def dag_header_def dag_data_def)
  then show "dag_header s b = dag_header t b" using assms(3) by simp
  have "base_sequence t b = base_sequence s b" using same assms(3) by (simp add: base_sequence_def)
  moreover have "(case dag_header s x of None \<Rightarrow> 0 | Some h \<Rightarrow> h_miner h) = (case dag_header t x of None \<Rightarrow> 0 | Some h \<Rightarrow> h_miner h)"
    "body_get bodies x = body_get bodies' x" if "x \<in> set (base_sequence s b)" for x
    using same(1) assms(4) that base_sequence_in[OF assms(1,3)] by auto
  ultimately show "tagged_sequence L s bodies b = tagged_sequence L t bodies' b"
    by (simp add: tagged_sequence_def Let_def cong: map_cong)
qed

lemma virtual_selected_parent_in:
  assumes "dag_ok hash s"
  shows "virtual_selected_parent s \<in> blocks s"
proof -
  have tips: "set (dag_tips s) = set (s_tips s)" using dag_okD(5)[OF assms] by (simp add: dag_tips_def tips_ok_def)
  have "s_genesis s \<in> blocks s" using dag_okD(1)[OF assms] by (simp add: topology_ok_def)
  from below_a_tip[OF assms this] tips have "virtual_selected_parent s \<in> set (s_tips s)"
    by (cases "dag_tips s") (auto simp: virtual_selected_parent_def)
  then show ?thesis using dag_okD(5)[OF assms] by (simp add: tips_ok_def)
qed

lemma same_tip:
  assumes "dag_ok hash s" "dag_ok hash' t" "agree (blocks s) s t" "blocks s = blocks t"
  shows "virtual_selected_parent s = virtual_selected_parent t"
proof -
  have "set (s_tips s) = set (s_tips t)"
    using dag_okD(5)[OF assms(1)] dag_okD(5)[OF assms(2)] assms(4) agree_parents[OF assms(3)] by (auto simp: tips_ok_def)
  then have tips: "s_tips s = s_tips t" "set (s_tips s) \<subseteq> blocks s"
    using dag_okD(5)[OF assms(1)] dag_okD(5)[OF assms(2)] by (auto simp: tips_ok_def intro: sorted_distinct_set_unique)
  have "dag_tips s = dag_tips t"
    unfolding dag_tips_def tips(1)[symmetric]
    by (rule sort_by_cong) (use tips(2) agree_compare[OF assms(3)] in blast)
  with assms(3) show ?thesis by (simp add: virtual_selected_parent_def agree_def split: list.split)
qed

lemma equal_blocks_agree:
  assumes dr: "dag_reachable hash genesis k limit s" "dag_reachable hash genesis k limit t"
    and bl: "blocks s = blocks t" and inj: "inj_on hash (stored_headers s \<union> stored_headers t)"
  shows "agree (blocks s) s t"
proof -
  note ok = reachable_ok[OF dr(1)] reachable_ok[OF dr(2)] and lim = reachable_limits[OF dr(1)] reachable_limits[OF dr(2)]
  note dag = dag_okD[OF ok(1)] dag_okD[OF ok(2)]
  have "map_of (s_headers s) x = map_of (s_headers t) x" if "x \<in> blocks s" for x
    using header_of_block[OF that] header_of_block[of x t] that bl dag(4,11) inj_onD[OF inj]
    unfolding hash_keyed_def stored_headers_def by (metis UnCI ranI)
  then show ?thesis using same_data[OF dr inj] bl lim parents_in_blocks[OF dag(1)] by (auto simp: agree_def)
qed

section \<open>The invariant\<close>

text \<open>The selected chain down to, and without, genesis.\<close>

abbreviation chain_above :: "dag_store \<Rightarrow> block_hash \<Rightarrow> block_hash list" where
  "chain_above s tip \<equiv> butlast (selected_parent_chain s tip)"

definition index_sound :: "(u256, tx_location) hmap \<Rightarrow> ('log, 'code) executor \<Rightarrow> nat \<Rightarrow> bool" where
  "index_sound idx e n \<longleftrightarrow> hmap_ok idx \<and>
     (\<forall>h loc. map_of idx h = Some loc \<longrightarrow> 0 < unat (l_height loc) \<and> unat (l_height loc) \<le> n \<and>
        (\<exists>out. e_results e (l_height loc) = Some out \<and> o_hash out = l_chain_block loc \<and>
           l_index loc < length (o_hashes out) \<and> o_hashes out ! l_index loc = h))"

text \<open>A reorganisation this deep can be undone: part of the journal is left, or nothing has been pruned.\<close>

definition journal_covers :: "('log, 'code) executor \<Rightarrow> nat \<Rightarrow> bool" where
  "journal_covers e n \<longleftrightarrow> n < length (e_journal e) \<or> length (e_journal e) = unat (e_height e)"

definition chain_followed ::
  "('tx, 'res, 'log, 'code) chain_lib \<Rightarrow> ('log, 'code) executor \<Rightarrow> (u256 \<Rightarrow> 'code) \<Rightarrow> nat \<Rightarrow> dag_store \<Rightarrow> 'tx body_store \<Rightarrow>
   ('log, 'code) executor \<Rightarrow> bool" where
  "chain_followed L e0 D window dag bodies e \<longleftrightarrow> e_tip e \<in> blocks dag \<and>
     (\<exists>eS. tracked L dag bodies e0 D window (chain_above dag (e_tip e)) eS e)"

definition following ::
  "('tx, 'res, 'log, 'code) chain_lib \<Rightarrow> ('log, 'code) executor \<Rightarrow> (u256 \<Rightarrow> 'code) \<Rightarrow> nat \<Rightarrow> dag_store \<Rightarrow>
   ('tx, 'log, 'code) node_state \<Rightarrow> bool" where
  "following L e0 D window dag st \<longleftrightarrow> e_tip (n_executor st) \<in> blocks dag \<and>
     (\<exists>eS. tracked L dag (n_bodies st) e0 D window (chain_above dag (e_tip (n_executor st))) eS (n_executor st)) \<and>
     index_sound (n_tx_index st) (n_executor st) (length (chain_above dag (e_tip (n_executor st))))"

lemma following_iff:
  "following L e0 D window dag st \<longleftrightarrow> chain_followed L e0 D window dag (n_bodies st) (n_executor st) \<and>
     index_sound (n_tx_index st) (n_executor st) (length (chain_above dag (e_tip (n_executor st))))"
  by (simp add: following_def chain_followed_def)

section \<open>The transaction index\<close>

lemma index_outcome_ok:
  assumes "hmap_ok idx"
  shows "hmap_ok (index_outcome out idx)"
  unfolding index_outcome_def using assms
  by (rule fold_keeps[where P = hmap_ok]) (auto split: prod.splits)

lemma index_outcome_get:
  assumes "map_of (index_outcome out idx) h = Some loc"
  shows "map_of idx h = Some loc \<or> l_height loc = o_height out \<and> l_chain_block loc = o_hash out \<and>
    l_index loc < length (o_hashes out) \<and> o_hashes out ! l_index loc = h"
proof -
  have "map_of idx' h = Some loc \<or> (\<exists>i < length hs. loc = \<lparr>l_height = o_height out, l_chain_block = o_hash out, l_index = n + i\<rparr> \<and> hs ! i = h)"
    if "map_of (fold (\<lambda>(i, h). AList.update h \<lparr>l_height = o_height out, l_chain_block = o_hash out, l_index = i\<rparr>) (enumerate n hs) idx') h = Some loc"
    for n hs idx'
    using that
  proof (induction hs arbitrary: n idx')
    case (Cons x hs)
    let ?x = "\<lparr>l_height = o_height out, l_chain_block = o_hash out, l_index = n\<rparr>"
    have "map_of (fold (\<lambda>(i, h). AList.update h \<lparr>l_height = o_height out, l_chain_block = o_hash out, l_index = i\<rparr>)
        (enumerate (Suc n) hs) (AList.update x ?x idx')) h = Some loc" using Cons.prems by simp
    from Cons.IH[OF this] consider "map_of (AList.update x ?x idx') h = Some loc"
      | i where "i < length hs" "loc = \<lparr>l_height = o_height out, l_chain_block = o_hash out, l_index = Suc n + i\<rparr>" "hs ! i = h"
      by blast
    then show ?case
    proof cases
      case 1
      then show ?thesis by (cases "x = h") (auto simp: update_conv' intro!: exI[of _ 0])
    next
      case 2
      then show ?thesis by (intro disjI2 exI[of _ "Suc i"]) simp
    qed
  qed simp
  from this[of 0 "o_hashes out" idx] assms show ?thesis by (auto simp: index_outcome_def)
qed

lemma index_outcomes_sound:
  assumes "index_sound idx e n"
    and "\<And>out. out \<in> set outs \<Longrightarrow> 0 < unat (o_height out) \<and> unat (o_height out) \<le> n \<and> e_results e (o_height out) = Some out"
  shows "index_sound (fold index_outcome outs idx) e n"
  using assms
proof (induction outs arbitrary: idx)
  case (Cons out outs)
  have "index_sound (index_outcome out idx) e n"
    unfolding index_sound_def
  proof (intro conjI allI impI)
    show "hmap_ok (index_outcome out idx)" using Cons.prems(1) by (simp add: index_outcome_ok index_sound_def)
    fix h loc assume "map_of (index_outcome out idx) h = Some loc"
    from index_outcome_get[OF this] Cons.prems show "0 < unat (l_height loc)" "unat (l_height loc) \<le> n"
      "\<exists>out. e_results e (l_height loc) = Some out \<and> o_hash out = l_chain_block loc \<and>
           l_index loc < length (o_hashes out) \<and> o_hashes out ! l_index loc = h"
      by (fastforce simp: index_sound_def)+
  qed
  then show ?case using Cons.IH Cons.prems(2) by simp
qed simp

section \<open>Advancing\<close>

lemma chain_length:
  assumes "dag_ok hash s" "b \<in> blocks s"
  shows "length (selected_parent_chain s b) \<le> dag_len s"
proof -
  note shape = selected_parent_chain_shape[OF dag_okD(1,2)[OF assms(1)] assms(2)]
  have "length (selected_parent_chain s b) = card (set (selected_parent_chain s b))" using shape by (simp add: distinct_card)
  also have "\<dots> \<le> card (blocks s)" using shape by (intro card_mono) auto
  also have "\<dots> \<le> dag_len s" unfolding blocks_def dag_len_def by (metis card_image_le card_length finite_set le_trans)
  finally show ?thesis .
qed

lemma drop_removed_get:
  assumes "hmap_ok idx"
  shows "map_of (drop_removed rm idx) h = Some loc \<longleftrightarrow> map_of idx h = Some loc \<and> l_chain_block loc \<notin> set rm"
    "hmap_ok (drop_removed rm idx)"
proof -
  have d: "distinct (map fst (drop_removed rm idx))"
    using assms by (simp add: drop_removed_def hmap_ok_def distinct_map_filter)
  then show "hmap_ok (drop_removed rm idx)" by (simp add: hmap_ok_def)
  have "map_of (drop_removed rm idx) h = Some loc \<longleftrightarrow> (h, loc) \<in> set (drop_removed rm idx)"
    using d by (rule map_of_eq_Some_iff)
  moreover have "map_of idx h = Some loc \<longleftrightarrow> (h, loc) \<in> set idx" using assms by (simp add: hmap_ok_def)
  ultimately show "map_of (drop_removed rm idx) h = Some loc \<longleftrightarrow> map_of idx h = Some loc \<and> l_chain_block loc \<notin> set rm"
    by (auto simp: drop_removed_def)
qed

text \<open>Entries that survive the filter name blocks below the fork, whose results do not change.\<close>

lemma index_after_undo:
  assumes base: "base_ok L D window e0" and old: "tracked L dag bodies e0 D window (rm @ common) eS eN"
    and new: "tracked L dag bodies e0 D window common eS' eN'" and len: "length (rm @ common) < 2 ^ 64"
    and idx: "index_sound idx eN (length (rm @ common))"
  shows "index_sound (drop_removed rm idx) eN' (length common)"
  unfolding index_sound_def
proof (intro conjI allI impI)
  have ok: "hmap_ok idx" using idx by (simp add: index_sound_def)
  then show "hmap_ok (drop_removed rm idx)" by (rule drop_removed_get(2))
  fix h loc assume "map_of (drop_removed rm idx) h = Some loc"
  with drop_removed_get(1)[OF ok] have loc: "map_of idx h = Some loc" "l_chain_block loc \<notin> set rm" by blast+
  with idx obtain out where out: "e_results eN (l_height loc) = Some out" "o_hash out = l_chain_block loc"
      "l_index loc < length (o_hashes out)" "o_hashes out ! l_index loc = h"
    and H: "0 < unat (l_height loc)" "unat (l_height loc) \<le> length (rm @ common)" unfolding index_sound_def by blast
  have eq: "e_results eS = e_results eN" "e_results eS' = e_results eN'"
    using tracked_same(1)[OF old] tracked_same(1)[OF new] by (simp_all add: same_chain_def)
  have "o_hash out = rev (rm @ common) ! (unat (l_height loc) - 1)"
    using trail_outcome[OF base tracked_same(4)[OF old] len H] out(1) by (simp add: eq)
  moreover have "rev (rm @ common) ! (unat (l_height loc) - 1) \<in> set rm" if "length common < unat (l_height loc)"
  proof -
    have "rev (rm @ common) ! (unat (l_height loc) - 1) = rev rm ! (unat (l_height loc) - 1 - length common)"
      using that not_less_eq[of "unat (l_height loc) - 1" "length common"] by (auto simp: nth_append)
    also have "\<dots> \<in> set (rev rm)" using that H by (intro nth_mem) auto
    finally show ?thesis by simp
  qed
  ultimately have low: "unat (l_height loc) \<le> length common" using out(2) loc(2) by fastforce
  have "e_results eS (l_height loc) = e_results eS' (l_height loc)"
    by (rule trail_results[OF base tracked_same(4)[OF old] tracked_same(4)[OF new] len low])
  then have "e_results eN' (l_height loc) = Some out" using out(1) by (simp add: eq)
  with out(2-4) show "0 < unat (l_height loc)" "unat (l_height loc) \<le> length common"
    "\<exists>out. e_results eN' (l_height loc) = Some out \<and> o_hash out = l_chain_block loc \<and>
       l_index loc < length (o_hashes out) \<and> o_hashes out ! l_index loc = h" using H(1) low by blast+
qed

lemma index_after_execute:
  assumes base: "base_ok L D window e0" and old: "tracked L dag bodies e0 D window common eS eN"
    and new: "tracked L dag bodies e0 D window (xs @ common) eS' eN'" and len: "length (xs @ common) < 2 ^ 64"
    and idx: "index_sound idx eN (length common)"
  shows "index_sound idx eN' (length (xs @ common))"
proof -
  have "e_results eN' h = e_results eN h" if "unat h \<le> length common" for h
    using trail_results[OF base tracked_same(4)[OF new] tracked_same(4)[OF old] len that]
      tracked_same(1)[OF old] tracked_same(1)[OF new] by (simp add: same_chain_def)
  with idx show ?thesis unfolding index_sound_def by fastforce
qed

lemma tracked_tip:
  assumes base: "base_ok L D window e0" and tr: "tracked L dag bodies e0 D window bs eS eN" and "length bs < 2 ^ 64"
  shows "e_tip eN = (case bs of [] \<Rightarrow> e_tip e0 | b # _ \<Rightarrow> b)" "unat (e_height eN) = length bs"
  using trail_facts[OF base tracked_same(4)[OF tr] assms(3)] tracked_same(1)[OF tr] by (simp_all add: same_chain_def)

text \<open>The outcomes a reorganisation returns carry their own heights.\<close>

lemma outcome_height:
  assumes base: "base_ok L D window e0" and tr: "tracked L dag bodies e0 D window bs eS eN" and len: "length bs < 2 ^ 64"
    and out: "out \<in> set outs" and all: "\<forall>i < length outs. e_results eN (of_nat (n + 1 + i)) = Some (outs ! i)"
    and n: "n + length outs = length bs"
  shows "0 < unat (o_height out) \<and> unat (o_height out) \<le> length bs \<and> e_results eN (o_height out) = Some out"
proof -
  from out obtain i where i: "i < length outs" "out = outs ! i" by (auto simp: in_set_conv_nth)
  let ?h = "of_nat (n + 1 + i) :: u64"
  have res: "e_results eN ?h = Some out" using all i by blast
  have "n + 1 + i < 2 ^ 64" using i(1) len n by linarith
  then have H: "unat ?h = n + 1 + i" by (simp add: unat_of_nat take_bit_eq_mod del: of_nat_Suc of_nat_add)
  have "e_results eS ?h = Some out" using res tracked_same(1)[OF tr] by (simp add: same_chain_def)
  then have "o_height out = ?h" using trail_outcome[OF base tracked_same(4)[OF tr] len, of ?h out] H i(1) n by simp
  with res H i(1) n show ?thesis by simp
qed

lemma chain_above_hd:
  assumes "dag_ok hash s" "b \<in> blocks s"
  shows "(case chain_above s b of [] \<Rightarrow> b = s_genesis s | c # _ \<Rightarrow> c = b)"
proof (cases "chain_above s b")
  note shape = selected_parent_chain_shape[OF dag_okD(1,2)[OF assms(1)] assms(2)]
  case Nil
  then have "selected_parent_chain s b = [last (selected_parent_chain s b)]" using shape append_butlast_last_id by fastforce
  then have "b = s_genesis s" using shape by (metis list.sel(1))
  with Nil show ?thesis by simp
next
  note shape = selected_parent_chain_shape[OF dag_okD(1,2)[OF assms(1)] assms(2)]
  case (Cons c bs)
  then have "c = b" using shape by (metis append_butlast_last_id hd_append list.distinct(1) list.sel(1))
  with Cons show ?thesis by simp
qed

text \<open>
  A reorganisation to a stored block: what is common stays, the removed part is undone and the added part executed, and
  execution stands at the new tip.
\<close>

lemma reorg_follows:
  assumes base: "base_ok L D window e0" and ok: "dag_ok hash s" and tip0: "e_tip e0 = s_genesis s"
    and fol: "chain_followed L e0 D window s bodies e" and new: "new \<in> blocks s" and bound: "2 * dag_len s \<le> MAX_REORG_WALK"
    and cov: "journal_covers e (length (removed (compute_reorg s (e_tip e) new)))"
  obtains common eS eS1 e1 eS2 e2 outs where
    "chain_above s (e_tip e) = removed (compute_reorg s (e_tip e) new) @ common"
    "chain_above s new = rev (added (compute_reorg s (e_tip e) new)) @ common"
    "length (chain_above s (e_tip e)) < 2 ^ 64" "length (chain_above s new) < 2 ^ 64"
    "tracked L s bodies e0 D window (chain_above s (e_tip e)) eS e"
    "undo_all (removed (compute_reorg s (e_tip e) new)) e = (Inr (), e1)" "tracked L s bodies e0 D window common eS1 e1"
    "execute_all L s bodies (added (compute_reorg s (e_tip e) new)) [] e1 = Some (Inr outs, e2)"
    "tracked L s bodies e0 D window (chain_above s new) eS2 e2"
    "map o_hash outs = added (compute_reorg s (e_tip e) new)"
    "\<forall>i < length outs. e_results e2 (of_nat (length common + 1 + i)) = Some (outs ! i)"
    "e_tip e2 = new" "chain_followed L e0 D window s bodies e2"
proof -
  let ?old = "e_tip e" let ?r = "compute_reorg s ?old new"
  note dag = dag_okD[OF ok]
  have old: "?old \<in> blocks s" using fol by (simp add: chain_followed_def)
  obtain c where c: "c \<noteq> []" "selected_parent_chain s ?old = removed ?r @ c" "selected_parent_chain s new = rev (added ?r) @ c"
    using compute_reorg_split[OF ok old new bound] by blast
  let ?common = "butlast c"
  have above: "chain_above s ?old = removed ?r @ ?common" "chain_above s new = rev (added ?r) @ ?common"
    using c by (simp_all add: butlast_append)
  have "dag_len s < 2 ^ 64" using bound by (simp add: MAX_REORG_WALK_def)
  then have lens: "length (chain_above s ?old) < 2 ^ 64" "length (chain_above s new) < 2 ^ 64"
    using chain_length[OF ok old] chain_length[OF ok new] by simp_all
  obtain eS where tr: "tracked L s bodies e0 D window (chain_above s ?old) eS e" using fol by (auto simp: chain_followed_def)
  have "length (removed ?r) < length (e_journal e) \<or> ?common = [] \<and> length (removed ?r) \<le> length (e_journal e)"
    using cov tracked_tip(2)[OF base tr lens(1)] above(1) unfolding journal_covers_def by (cases ?common) auto
  from tracked_undo_all[OF base tr[unfolded above] lens(1)[unfolded above] this] obtain eS1 e1 where
    u: "undo_all (removed ?r) e = (Inr (), e1)" "tracked L s bodies e0 D window ?common eS1 e1" by blast
  have hdr: "dag_header s b \<noteq> None" if "b \<in> set (added ?r)" for b
  proof -
    have "b \<in> blocks s" using that c(3) selected_parent_chain_shape[OF dag(1,2) new] by auto
    then show ?thesis using header_of_block[of b s] by (auto simp: dag_header_def)
  qed
  have "length ?common + length (added ?r) < 2 ^ 64" using lens(2) above(2) by simp
  from tracked_execute_all[OF base u(2) this hdr, of "[]"] obtain outs eS2 e2 where
    x: "execute_all L s bodies (added ?r) [] e1 = Some (Inr outs, e2)"
      "tracked L s bodies e0 D window (chain_above s new) eS2 e2" "map o_hash outs = added ?r"
      "\<forall>i < length (added ?r). e_results e2 (of_nat (length ?common + 1 + i)) = Some (outs ! i)" by (auto simp: above(2))
  have outs: "length outs = length (added ?r)" using x(3) by (metis length_map)
  have "e_tip e2 = (case chain_above s new of [] \<Rightarrow> e_tip e0 | b # _ \<Rightarrow> b)" by (rule tracked_tip(1)[OF base x(2) lens(2)])
  then have tip: "e_tip e2 = new" using chain_above_hd[OF ok new] tip0 by (simp split: list.splits)
  show ?thesis
    by (rule that[OF above lens tr u x(1,2,3)]) (use x(2,4) outs tip new in \<open>auto simp: chain_followed_def\<close>)
qed

lemma advance_follows:
  assumes base: "base_ok L D window e0" and ok: "dag_ok hash (n_dag st)" and tip0: "e_tip e0 = s_genesis (n_dag st)"
    and fol: "following L e0 D window (n_dag st) st" and bound: "2 * dag_len (n_dag st) \<le> MAX_REORG_WALK"
    and cov: "journal_covers (n_executor st)
      (length (removed (compute_reorg (n_dag st) (e_tip (n_executor st)) (virtual_selected_parent (n_dag st)))))"
  obtains outs st' where "advance L V st = Some (Inr outs, st')"
    "n_dag st' = n_dag st" "n_bodies st' = n_bodies st" "n_params st' = n_params st"
    "e_tip (n_executor st') = virtual_selected_parent (n_dag st)" "following L e0 D window (n_dag st) st'"
    "map o_hash outs = added (compute_reorg (n_dag st) (e_tip (n_executor st)) (virtual_selected_parent (n_dag st)))"
    "n_pool st' = (if e_tip (n_executor st) = virtual_selected_parent (n_dag st) then n_pool st
       else refresh_pool V (e_state (n_executor st')) outs (n_pool st))"
proof (cases "virtual_selected_parent (n_dag st) = e_tip (n_executor st)")
  case True
  show ?thesis by (rule that[of "[]" st]) (use True fol in \<open>simp_all add: advance_def compute_reorg_def\<close>)
next
  case ne: False
  let ?s = "n_dag st" let ?new = "virtual_selected_parent (n_dag st)"
  let ?r = "compute_reorg ?s (e_tip (n_executor st)) ?new"
  note cf = fol[unfolded following_iff]
  from reorg_follows[OF base ok tip0 conjunct1[OF cf] virtual_selected_parent_in[OF ok] bound cov]
  obtain common eS eS1 eN1 eS2 eN2 outs where
    ch: "chain_above ?s (e_tip (n_executor st)) = removed ?r @ common" "chain_above ?s ?new = rev (added ?r) @ common"
      "length (chain_above ?s (e_tip (n_executor st))) < 2 ^ 64" "length (chain_above ?s ?new) < 2 ^ 64" and
    tr: "tracked L ?s (n_bodies st) e0 D window (chain_above ?s (e_tip (n_executor st))) eS (n_executor st)"
      "undo_all (removed ?r) (n_executor st) = (Inr (), eN1)" "tracked L ?s (n_bodies st) e0 D window common eS1 eN1"
      "execute_all L ?s (n_bodies st) (added ?r) [] eN1 = Some (Inr outs, eN2)"
      "tracked L ?s (n_bodies st) e0 D window (chain_above ?s ?new) eS2 eN2" and
    x: "map o_hash outs = added ?r" "\<forall>i < length outs. e_results eN2 (of_nat (length common + 1 + i)) = Some (outs ! i)"
      "e_tip eN2 = ?new" "chain_followed L e0 D window ?s (n_bodies st) eN2" by metis
  have i1: "index_sound (drop_removed (removed ?r) (n_tx_index st)) eN1 (length common)"
    using index_after_undo[OF base tr(1)[unfolded ch(1)] tr(3)] ch(3) conjunct2[OF cf] by (simp add: ch(1))
  have i2: "index_sound (drop_removed (removed ?r) (n_tx_index st)) eN2 (length (chain_above ?s ?new))"
    using index_after_execute[OF base tr(3) tr(5)[unfolded ch(2)] ch(4)[unfolded ch(2)] i1] by (simp add: ch(2))
  have outs: "0 < unat (o_height out) \<and> unat (o_height out) \<le> length (chain_above ?s ?new) \<and>
      e_results eN2 (o_height out) = Some out" if "out \<in> set outs" for out
  proof (rule outcome_height[OF base tr(5) ch(4) that, of "length common"])
    show "length common + length outs = length (chain_above ?s ?new)" using arg_cong[OF x(1), of length] ch(2) by simp
  qed (rule x(2))
  let ?st' = "st\<lparr>n_tx_index := fold index_outcome outs (drop_removed (removed ?r) (n_tx_index st)), n_executor := eN2,
      n_pool := refresh_pool V (e_state eN2) outs (n_pool st)\<rparr>"
  have adv: "advance L V st = Some (Inr outs, ?st')"
    using ne tr(2,4) by (simp add: advance_def Let_def apply_reorg_def)
  show ?thesis
  proof (rule that[OF adv])
    show "following L e0 D window ?s ?st'" using x(3,4) index_outcomes_sound[OF i2 outs] by (simp add: following_iff)
  qed (use ne x(1,3) in simp_all)
qed

section \<open>Growth and agreement\<close>

text \<open>A DAG that grows, with the bodies of its old blocks unchanged, does not disturb what was executed.\<close>

lemma followed_grows:
  assumes "dag_ok hash s" "dag_ok hash t" "agree (blocks s) s t" "\<And>x. x \<in> blocks s \<Longrightarrow> body_get bodies x = body_get bodies' x"
    and "chain_followed L e0 D window s bodies e"
  shows "chain_followed L e0 D window t bodies' e" "chain_above t (e_tip e) = chain_above s (e_tip e)"
proof -
  let ?tip = "e_tip e"
  have tip: "?tip \<in> blocks s" using assms(5) by (simp add: chain_followed_def)
  note dag = dag_okD[OF assms(1)] dag_okD[OF assms(2)]
  from agree_chain[OF assms(3) dag(1,2,8,9) tip] have ch: "selected_parent_chain t ?tip = selected_parent_chain s ?tip"
    "set (selected_parent_chain s ?tip) \<subseteq> blocks s" by auto
  have "execute_chain_block L s bodies b = execute_chain_block L t bodies' b" if "b \<in> set (chain_above s ?tip)" for b
    using execute_chain_block_agree[OF assms(1,3) _ assms(4)] ch(2) in_set_butlastD[OF that] by blast
  from tracked_cong[OF this, of "chain_above s ?tip"] assms(5)
  have "\<exists>eS. tracked L t bodies' e0 D window (chain_above s ?tip) eS e" by (auto simp: chain_followed_def)
  moreover have "?tip \<in> blocks t" using tip assms(3) by (auto simp: agree_def)
  ultimately show "chain_followed L e0 D window t bodies' e" "chain_above t ?tip = chain_above s ?tip"
    by (simp_all add: chain_followed_def ch(1))
qed

text \<open>Executors that follow DAGs with the same blocks, to the tips those select, stand in the same state.\<close>

lemma followers_agree:
  assumes dr: "dag_reachable hash genesis k limit s" "dag_reachable hash genesis k limit t"
    and bl: "blocks s = blocks t" and inj: "inj_on hash (stored_headers s \<union> stored_headers t)"
    and fol: "chain_followed L e0 D window s bodies e" "chain_followed L e0 D window t bodies' e'"
    and tips: "e_tip e = virtual_selected_parent s" "e_tip e' = virtual_selected_parent t"
    and bodies: "\<And>b. b \<in> blocks s \<Longrightarrow> body_get bodies b = body_get bodies' b"
  shows "e_tip e = e_tip e' \<and> e_height e = e_height e' \<and> e_results e = e_results e' \<and>
    w_accounts (e_state e) = w_accounts (e_state e') \<and> root_of L (e_state e) = root_of L (e_state e')"
proof -
  note ok = reachable_ok[OF dr(1)] reachable_ok[OF dr(2)]
  note dag = dag_okD[OF ok(1)] dag_okD[OF ok(2)]
  have agr: "agree (blocks s) s t" by (rule equal_blocks_agree[OF dr bl inj])
  have tip: "virtual_selected_parent t = virtual_selected_parent s" using same_tip[OF ok agr bl] by simp
  let ?tip = "virtual_selected_parent s"
  from agree_chain[OF agr dag(1,2,8,9) virtual_selected_parent_in[OF ok(1)]]
  have ch: "selected_parent_chain t ?tip = selected_parent_chain s ?tip" "set (selected_parent_chain s ?tip) \<subseteq> blocks s" by auto
  obtain eS eT where tr: "tracked L s bodies e0 D window (chain_above s ?tip) eS e"
    "tracked L t bodies' e0 D window (chain_above s ?tip) eT e'" using fol tips tip ch(1) by (auto simp: chain_followed_def)
  have "execute_chain_block L s bodies b = execute_chain_block L t bodies' b" if "b \<in> set (chain_above s ?tip)" for b
    using execute_chain_block_agree[OF ok(1) agr _ bodies] ch(2) in_set_butlastD[OF that] by blast
  from trail_cong[OF this, of "chain_above s ?tip"] tracked_same(4)[OF tr(1)] tracked_same(4)[OF tr(2)]
  have "eS = eT" using trail_unique by metis
  with tracked_same(1)[OF tr(1)] tracked_same(1)[OF tr(2)] tips tip
  show ?thesis by (simp add: same_chain_def same_acc_def root_of_def state_root_def)
qed

end
