(* ===== verification/Node_Props.thy ===== *)
theory Node_Props
  imports Node_Inv
begin

text \<open>
  What a node promises: it stands where executing its selected chain from genesis puts it, so nodes
  that hold the same blocks agree; adding a block and submitting a transaction have exact outcomes;
  receipts are those of the current chain.
\<close>

section \<open>The pool after an advance\<close>

lemma fold_update_get:
  "map_of (fold (\<lambda>a. AList.update a (f a)) xs m) x = (if x \<in> set xs then Some (f x) else map_of m x)"
  by (induction xs arbitrary: m) (auto simp: update_conv')

lemma sender_nonces_get:
  assumes "pool_get q h = Some p"
  shows "map_of (sender_nonces V s q) (p_sender V p) = Some (nonce s (p_sender V p))"
proof -
  have "h \<in> set (pool_hashes q)"
    using assms map_of_SomeD unfolding pool_get_def pool_hashes_def by force
  with assms have "p_sender V p \<in> set (List.map_filter (\<lambda>h. map_option (p_sender V) (pool_get q h)) (pool_hashes q))"
    by (force simp: List.map_filter_def)
  then show ?thesis by (simp add: sender_nonces_def fold_update_get)
qed

lemma refresh_pool_get:
  assumes "pool_core V q"
  shows "pool_get (refresh_pool V s outs q) h =
    (case pool_get q h of None \<Rightarrow> None
     | Some p \<Rightarrow> if h \<in> set (concat (map o_hashes outs)) \<or> p_nonce V p < nonce s (p_sender V p) then None else Some p)"
proof -
  let ?q = "fold (\<lambda>h q. snd (pool_remove V h q)) (concat (map o_hashes outs)) q"
  have core: "pool_core V ?q"
    using fold_keeps[where P = "pool_core V", OF assms, of "\<lambda>h q. snd (pool_remove V h q)"] pool_remove_core by blast
  have get: "pool_get ?q h = (if h \<in> set (concat (map o_hashes outs)) then None else pool_get q h)" for h
    by (simp add: fold_remove_get[OF assms])
  show ?thesis
    using sender_nonces_get[of ?q h _ V s]
    by (auto simp: refresh_pool_def Let_def pool_prune_get[OF core] get simp del: set_concat split: option.split)
qed

lemma refresh_pool_reachable:
  assumes "pool_reachable V config q"
  shows "pool_reachable V config (refresh_pool V s outs q)"
  unfolding refresh_pool_def Let_def
  by (intro pool_reachable.prune fold_keeps[where P = "pool_reachable V config"] assms pool_reachable.remove)

section \<open>Reachable nodes\<close>

text \<open>
  A node starts at genesis and then takes transactions and blocks in any order, valid or not. Two
  bounds: the store stays within half the guard of the reorganisation walk (50 million blocks), and no
  added block causes a reorganisation the journal cannot undo.
\<close>

definition shallow :: "(header \<Rightarrow> block_hash) \<Rightarrow> header \<Rightarrow> ('tx, 'log, 'code) node_state \<Rightarrow> bool" where
  "shallow hash h st \<longleftrightarrow>
     (let dag = snd (add_block hash (n_dag st) h) in
      2 * (dag_len (n_dag st) + 1) \<le> MAX_REORG_WALK \<and>
      journal_covers (n_executor st) (length (removed (compute_reorg dag (e_tip (n_executor st)) (virtual_selected_parent dag)))))"

inductive node_reachable ::
  "(header \<Rightarrow> block_hash) \<Rightarrow> ('env, 'tx) raw_lib \<Rightarrow> ('tx, 'res, 'log, 'code) chain_lib \<Rightarrow> 'tx tx_view \<Rightarrow> chain_params \<Rightarrow> header \<Rightarrow>
   'code world_state \<Rightarrow> nat \<Rightarrow> ('tx, 'log, 'code) node_state \<Rightarrow> bool"
  for hash R L V params genesis s0 k where
  start: "new_backend hash L params genesis s0 k = Some st \<Longrightarrow> h_parents genesis = [] \<Longrightarrow>
    node_reachable hash R L V params genesis s0 k st"
| submit: "node_reachable hash R L V params genesis s0 k st \<Longrightarrow> submit_raw R L V enc st = Some (r, st') \<Longrightarrow>
    node_reachable hash R L V params genesis s0 k st'"
| add: "node_reachable hash R L V params genesis s0 k st \<Longrightarrow> shallow hash h st \<Longrightarrow>
    backend_add_block hash L V h txs enc st = Some (r', st') \<Longrightarrow> node_reachable hash R L V params genesis s0 k st'"

definition node_ok ::
  "(header \<Rightarrow> block_hash) \<Rightarrow> ('tx, 'res, 'log, 'code) chain_lib \<Rightarrow> 'tx tx_view \<Rightarrow> chain_params \<Rightarrow> header \<Rightarrow> 'code world_state \<Rightarrow> nat \<Rightarrow>
   (u256 \<Rightarrow> 'code) \<Rightarrow> nat \<Rightarrow> ('tx, 'log, 'code) node_state \<Rightarrow> bool" where
  "node_ok hash L V params genesis s0 k D window st \<longleftrightarrow>
     dag_reachable hash genesis k (mergeset_size_limit params) (n_dag st) \<and>
     e_tip (n_executor st) = virtual_selected_parent (n_dag st) \<and>
     following L (new_executor L params s0 (hash genesis)) D window (n_dag st) st \<and>
     2 * dag_len (n_dag st) \<le> MAX_REORG_WALK \<and>
     (\<exists>config. pool_reachable V config (n_pool st))"

lemma following_grows:
  assumes "dag_ok hash s" "dag_ok hash t" "agree (blocks s) s t" "\<And>x. x \<in> blocks s \<Longrightarrow> body_get (n_bodies st) x = body_get (n_bodies st') x"
    and "following L e0 D window s st" "n_executor st' = n_executor st" "n_tx_index st' = n_tx_index st"
  shows "following L e0 D window t st'"
proof -
  from assms(5) have fol: "chain_followed L e0 D window s (n_bodies st) (n_executor st)"
    "index_sound (n_tx_index st) (n_executor st) (length (chain_above s (e_tip (n_executor st))))" by (simp_all only: following_iff)
  from followed_grows[OF assms(1-4) fol(1)] fol(2) show ?thesis by (simp only: following_iff assms(6,7))
qed

lemma base_ok_new:
  assumes "validate_params p = Some (Inr ())" "evm_law D L" "coded D s0"
  obtains window where "base_ok L D window (new_executor L p s0 g)" "e_tip (new_executor L p s0 g) = g"
proof -
  obtain window where "pruning_window_blocks p = Some window" "0 < window" "window < 2 ^ 64"
    by (rule window_of_params[OF assms(1)])
  with assms new_executor_ok[of window L p s0 g] that[of window] show ?thesis
    by (simp add: base_ok_def) (simp add: new_executor_def)
qed

lemma backend_add_follows:
  assumes base: "base_ok L D window (new_executor L p s0 (hash genesis))" and nok: "node_ok hash L V p genesis s0 k D window st"
    and sh: "shallow hash h st"
  shows "\<exists>r st'. backend_add_block hash L V h txs enc st = Some (r, st') \<and> node_ok hash L V p genesis s0 k D window st' \<and>
    (case add_block_result hash (n_dag st) h of
       Inl err \<Rightarrow> r = Inl (DagRefused err) \<and> (\<exists>c. st' = st\<lparr>n_dag := n_dag st\<lparr>s_reachability := c\<rparr>\<rparr>)
     | Inr b \<Rightarrow> (\<exists>outs. r = Inr outs \<and> blocks (n_dag st') = insert b (blocks (n_dag st)) \<and> b = hash h \<and>
         n_bodies st' = body_insert b txs (n_bodies st) \<and> n_params st' = n_params st \<and>
         map o_hash outs = added (compute_reorg (n_dag st') (e_tip (n_executor st)) (e_tip (n_executor st'))) \<and>
         n_pool st' = (if e_tip (n_executor st) = e_tip (n_executor st') then n_pool st
           else refresh_pool V (e_state (n_executor st')) outs (n_pool st))))"
proof -
  let ?s = "n_dag st"
  obtain r0 t where run: "add_block hash ?s h = (r0, t)" by fastforce
  have dr: "dag_reachable hash genesis k (mergeset_size_limit p) ?s" and tip: "e_tip (n_executor st) = virtual_selected_parent ?s"
    and fol: "following L (new_executor L p s0 (hash genesis)) D window ?s st"
    and pool: "\<exists>config. pool_reachable V config (n_pool st)" using nok by (simp_all add: node_ok_def)
  have dr': "dag_reachable hash genesis k (mergeset_size_limit p) t" using dag_reachable.add[OF dr, of h] run by simp
  note ok = reachable_ok[OF dr] and ok' = reachable_ok[OF dr']
  note cases = add_block_cases[OF ok run]
  show ?thesis
  proof (cases r0)
    case (Inl err)
    with cases obtain c where res: "add_block_result hash ?s h = Inl err" and t: "t = ?s\<lparr>s_reachability := c\<rparr>" by auto
    have sg: "same_graph ?s t" by (simp add: same_graph_def t)
    note agr = same_graph_agree[OF sg dag_okD(1)[OF ok]]
    have "following L (new_executor L p s0 (hash genesis)) D window t (st\<lparr>n_dag := t\<rparr>)"
      by (rule following_grows[OF ok ok' agr _ fol]) simp_all
    moreover have "virtual_selected_parent t = virtual_selected_parent ?s"
      using same_tip[OF ok ok' agr same_graph_simps(1)[OF sg]] by simp
    ultimately have "node_ok hash L V p genesis s0 k D window (st\<lparr>n_dag := t\<rparr>)"
      using dr' tip pool nok by (simp add: node_ok_def dag_len_def t)
    then show ?thesis using res run Inl t by (auto simp: backend_add_block_def)
  next
    case (Inr b)
    with cases have res: "add_block_result hash ?s h = Inr b" and b: "b = hash h" "b \<notin> blocks ?s"
      and ins: "inserted ?s b h t" by auto
    note agr = inserted_agree[OF ins b(2) dag_okD(1)[OF ok]]
    let ?bytes = "fold (\<lambda>(tx, bytes). AList.update (tv_hash V tx) bytes) (zip txs enc) (n_tx_bytes st)"
    let ?st = "st\<lparr>n_dag := t, n_tx_bytes := ?bytes, n_bodies := body_insert (hash h) txs (n_bodies st)\<rparr>"
    have "body_get (n_bodies st) x = body_get (n_bodies ?st) x" if "x \<in> blocks ?s" for x
      using that b by (auto simp: body_get_def body_insert_def update_conv')
    from following_grows[OF ok ok' agr this fol]
    have fol': "following L (new_executor L p s0 (hash genesis)) D window (n_dag ?st) ?st" by simp
    have "length (s_headers t) \<le> Suc (length (s_headers ?s))"
      using ins b(2) by (simp add: inserted_def length_update_le)
    then have bound: "2 * dag_len (n_dag ?st) \<le> MAX_REORG_WALK"
      using sh by (simp add: shallow_def dag_len_def Let_def)
    have cov: "journal_covers (n_executor ?st)
        (length (removed (compute_reorg (n_dag ?st) (e_tip (n_executor ?st)) (virtual_selected_parent (n_dag ?st)))))"
      using sh run by (simp add: shallow_def Let_def)
    have gen: "e_tip (new_executor L p s0 (hash genesis)) = s_genesis (n_dag ?st)"
      using reachable_limits[OF dr'] by (simp add: new_executor_def)
    have ok'': "dag_ok hash (n_dag ?st)" using ok' by simp
    obtain outs st' where adv: "advance L V ?st = Some (Inr outs, st')"
      "n_dag st' = n_dag ?st" "n_bodies st' = n_bodies ?st" "n_params st' = n_params ?st"
      "e_tip (n_executor st') = virtual_selected_parent (n_dag ?st)"
      "following L (new_executor L p s0 (hash genesis)) D window (n_dag ?st) st'"
      "map o_hash outs = added (compute_reorg (n_dag ?st) (e_tip (n_executor ?st)) (virtual_selected_parent (n_dag ?st)))"
      "n_pool st' = (if e_tip (n_executor ?st) = virtual_selected_parent (n_dag ?st) then n_pool ?st
         else refresh_pool V (e_state (n_executor st')) outs (n_pool ?st))"
      by (rule advance_follows[OF base ok'' gen fol' bound cov, where V = V]) (rule that, assumption+)
    have "backend_add_block hash L V h txs enc st = Some (Inr outs, st')"
      using run Inr adv(1) by (simp add: backend_add_block_def)
    moreover obtain config where "pool_reachable V config (n_pool st)" using pool by blast
    then have "pool_reachable V config (n_pool st')" using refresh_pool_reachable adv(8) by (auto split: if_splits)
    then have "node_ok hash L V p genesis s0 k D window st'" using adv dr' bound by (auto simp: node_ok_def)
    ultimately show ?thesis
      using res adv b inserted_basic(1)[OF ins b(2)] by (intro exI[of _ "Inr outs"] exI[of _ st']) simp
  qed
qed

lemma submit_follows:
  assumes base: "base_ok L D window (new_executor L p s0 (hash genesis))" and nok: "node_ok hash L V p genesis s0 k D window st"
  shows "\<exists>r st'. submit_raw R L V enc st = Some (r, st') \<and> node_ok hash L V p genesis s0 k D window st' \<and>
    n_dag st' = n_dag st \<and> n_bodies st' = n_bodies st \<and> n_executor st' = n_executor st \<and> n_tx_index st' = n_tx_index st"
proof -
  let ?e = "n_executor st"
  obtain config where q: "pool_reachable V config (n_pool st)" using nok by (auto simp: node_ok_def)
  obtain eS where tr: "tracked L (n_dag st) (n_bodies st) (new_executor L p s0 (hash genesis)) D window (chain_above (n_dag st) (e_tip ?e)) eS ?e"
    using nok by (auto simp: node_ok_def following_def)
  have params: "e_params eS = p" if "trail L dag bodies (new_executor L p s0 (hash genesis)) bs eS" for dag bodies bs eS
    using that
  proof induction
    case (step bs e b out e1)
    have "e_params e1 = e_params e" by (rule execute_chain_block_ok[OF step.hyps(2)])
    with step.IH show ?case by simp
  qed (simp add: new_executor_def)
  have "e_params ?e = p" using tracked_same(1,4)[OF tr] params by (simp add: same_chain_def)
  moreover have "validate_params p = Some (Inr ())" using base_okD(6)[OF base] by (simp add: new_executor_def)
  ultimately have "backend_next_base_fee L st \<noteq> None"
    using derived_values(2)[of p, OF _ refl] by (simp add: backend_next_base_fee_def next_base_fee_def split: option.split)
  then obtain fee where fee: "backend_next_base_fee L st = Some fee" by blast
  have ok: "pool_ok V (n_pool st)" using pool_reachable_ok[OF q] by simp
  have same: "node_ok hash L V p genesis s0 k D window (st\<lparr>n_pool := q', n_tx_bytes := bs\<rparr>)" if "pool_reachable V config q'" for q' bs
    using nok that by (auto simp: node_ok_def following_def)
  have same': "node_ok hash L V p genesis s0 k D window (st\<lparr>n_pool := q'\<rparr>)" if "pool_reachable V config q'" for q'
    using same[OF that, of "n_tx_bytes st"] by simp
  show ?thesis
  proof (cases "\<exists>env signer. decode_2718 R enc = Inr env \<and> recover_signer R env = Inr signer")
    case False
    then show ?thesis using nok by (auto simp: submit_raw_def split: sum.split)
  next
    case True
    then obtain env signer where es: "decode_2718 R enc = Inr env" "recover_signer R env = Inr signer" by blast
    obtain r q' where add: "pool_add V (new_recovered R env signer) enc fee (nonce (e_state ?e) signer)
        (balance (e_state ?e) signer) (n_pool st) = Some (r, q')" using pool_add_outcome[OF ok] by blast
    have q': "pool_reachable V config q'" by (rule pool_reachable.add[OF q add])
    show ?thesis
    proof (cases r)
      case (Inl err)
      then show ?thesis using es fee add same'[OF q'] by (simp add: submit_raw_def)
    next
      case (Inr h)
      then show ?thesis using es fee add same[OF q'] by (simp add: submit_raw_def)
    qed
  qed
qed

lemma node_reachable_ok:
  assumes base: "base_ok L D window (new_executor L p s0 (hash genesis))"
  shows "node_reachable hash R L V p genesis s0 k st \<Longrightarrow> node_ok hash L V p genesis s0 k D window st"
proof (induction rule: node_reachable.induct)
  case (start st)
  let ?s = "new_dag hash genesis k (mergeset_size_limit p)"
  from start(1) have st: "n_dag st = ?s" "n_executor st = new_executor L p s0 (hash genesis)" "n_tx_index st = []"
    "\<exists>c. n_pool st = new_pool c" by (auto simp: new_backend_def split: option.splits)
  have dr: "dag_reachable hash genesis k (mergeset_size_limit p) ?s" by (rule dag_reachable.start[OF start(2)])
  have g: "hash genesis \<in> blocks ?s" by (simp add: blocks_def)
  have tips: "dag_tips ?s = [hash genesis]" by (simp add: dag_tips_def sort_by_def)
  have tip: "e_tip (new_executor L p s0 (hash genesis)) = hash genesis" by (simp add: new_executor_def)
  have "selected_parent_chain ?s (hash genesis) = [hash genesis]"
    using selected_parent_chain_unfold[OF dag_okD(1,2)[OF reachable_ok[OF dr]] g] by simp
  then have "following L (new_executor L p s0 (hash genesis)) D window ?s st"
    using g tracked_start[OF base] by (auto simp: following_def st tip index_sound_def hmap_ok_def)
  moreover have "\<exists>config. pool_reachable V config (n_pool st)" using st(4) pool_reachable.start by metis
  ultimately show ?case using dr by (simp add: node_ok_def st(1,2) tip tips virtual_selected_parent_def dag_len_def MAX_REORG_WALK_def)
next
  case (submit st enc r st')
  with submit_follows[OF base submit.IH, of R enc] show ?case by auto
next
  case (add st h txs enc r st')
  with backend_add_follows[OF base add.IH, of h txs enc] show ?case by auto
qed

section \<open>Properties\<close>

text \<open>
  C2: A node stands where replaying its DAG puts it. However blocks and transactions arrived, valid or
  not, and however often the chain reorganised on the way, its execution is at the virtual selected
  parent of its DAG, and accounts, state root, recorded results and height are those of a fresh executor
  that executes the selected chain once from genesis.
\<close>

theorem node_is_replay:
  assumes "validate_params p = Some (Inr ())" and "evm_law D L" and "coded D s0"
    and "node_reachable hash R L V p genesis s0 k st"
  shows "e_tip (n_executor st) = virtual_selected_parent (n_dag st) \<and>
    (\<exists>outs e. execute_all L (n_dag st) (n_bodies st) (tl (rev (selected_parent_chain (n_dag st) (virtual_selected_parent (n_dag st)))))
        [] (new_executor L p s0 (hash genesis)) = Some (Inr outs, e) \<and> same_chain D e (n_executor st) \<and>
       root_of L (e_state e) = root_of L (e_state (n_executor st)))"
proof -
  obtain window where base: "base_ok L D window (new_executor L p s0 (hash genesis))" by (rule base_ok_new[OF assms(1-3)])
  let ?tip = "virtual_selected_parent (n_dag st)"
  from node_reachable_ok[OF base assms(4)] obtain eS where tip: "e_tip (n_executor st) = ?tip"
    and tr: "tracked L (n_dag st) (n_bodies st) (new_executor L p s0 (hash genesis)) D window (chain_above (n_dag st) ?tip) eS (n_executor st)"
    by (auto simp: node_ok_def following_def)
  have "rev (chain_above (n_dag st) ?tip) = tl (rev (selected_parent_chain (n_dag st) ?tip))" using butlast_rev[of "rev (selected_parent_chain (n_dag st) ?tip)"] by simp
  moreover obtain outs where "execute_all L (n_dag st) (n_bodies st) (rev (chain_above (n_dag st) ?tip)) []
      (new_executor L p s0 (hash genesis)) = Some (Inr outs, eS)" using trail_execute_all[OF tracked_same(4)[OF tr]] by blast
  ultimately show ?thesis using tip tracked_same(1)[OF tr] root_of_same by (auto simp: same_chain_def)
qed

text \<open>
  C3: Nodes agree. Two nodes over the same genesis that hold the same blocks with the same bodies, received in
  any orders, with any other submissions and refused blocks on the way, have the same tip, height, recorded
  results, accounts and state root, as long as the hashes of the headers they hold do not collide.
\<close>

theorem nodes_agree:
  assumes "validate_params p = Some (Inr ())" and "evm_law D L" and "coded D s0"
    and "node_reachable hash R L V p genesis s0 k st" and "node_reachable hash R' L V' p genesis s0 k st'"
    and "blocks (n_dag st) = blocks (n_dag st')" and "inj_on hash (stored_headers (n_dag st) \<union> stored_headers (n_dag st'))"
    and "\<And>b. b \<in> blocks (n_dag st) \<Longrightarrow> body_get (n_bodies st) b = body_get (n_bodies st') b"
  shows "e_tip (n_executor st) = e_tip (n_executor st') \<and> e_height (n_executor st) = e_height (n_executor st') \<and>
    e_results (n_executor st) = e_results (n_executor st') \<and>
    w_accounts (e_state (n_executor st)) = w_accounts (e_state (n_executor st')) \<and>
    root_of L (e_state (n_executor st)) = root_of L (e_state (n_executor st'))"
proof -
  obtain window where base: "base_ok L D window (new_executor L p s0 (hash genesis))" by (rule base_ok_new[OF assms(1-3)])
  note nok = node_reachable_ok[OF base assms(4), unfolded node_ok_def following_iff] node_reachable_ok[OF base assms(5), unfolded node_ok_def following_iff]
  show ?thesis using followers_agree[OF _ _ assms(6,7) _ _ _ _ assms(8)] nok by blast
qed


lemma located_on_chain:
  assumes "validate_params p = Some (Inr ())" and "evm_law D L" and "coded D s0"
    and "node_reachable hash R L V p genesis s0 k st" and "map_of (n_tx_index st) h = Some location"
  shows "\<exists>receipt outcome. backend_receipt st h = Some (location, receipt, outcome) \<and>
    l_chain_block location \<in> set (selected_parent_chain (n_dag st) (virtual_selected_parent (n_dag st))) \<and>
    result_at (n_executor st) (l_height location) = Some outcome \<and> o_height outcome = l_height location \<and>
    o_hash outcome = l_chain_block location \<and> o_hashes outcome ! l_index location = h \<and>
    l_index location < length (o_hashes outcome) \<and> receipt = o_receipts outcome ! l_index location"
proof -
  obtain window where base: "base_ok L D window (new_executor L p s0 (hash genesis))" by (rule base_ok_new[OF assms(1-3)])
  let ?tip = "virtual_selected_parent (n_dag st)"
  note nok = node_reachable_ok[OF base assms(4)]
  obtain eS where ok: "dag_ok hash (n_dag st)" and tip: "e_tip (n_executor st) = ?tip"
    and tr: "tracked L (n_dag st) (n_bodies st) (new_executor L p s0 (hash genesis)) D window (chain_above (n_dag st) ?tip) eS (n_executor st)"
    and idx: "index_sound (n_tx_index st) (n_executor st) (length (chain_above (n_dag st) ?tip))"
    using nok reachable_ok by (auto simp: node_ok_def following_def)
  from idx assms(5) obtain out where H: "0 < unat (l_height location)" "unat (l_height location) \<le> length (chain_above (n_dag st) ?tip)"
    and out: "e_results (n_executor st) (l_height location) = Some out" "o_hash out = l_chain_block location"
      "l_index location < length (o_hashes out)" "o_hashes out ! l_index location = h"
    unfolding index_sound_def by blast
  have "2 * dag_len (n_dag st) \<le> MAX_REORG_WALK" using nok by (simp add: node_ok_def)
  then have len: "length (chain_above (n_dag st) ?tip) < 2 ^ 64"
    using chain_length[OF ok virtual_selected_parent_in[OF ok]] by (simp add: MAX_REORG_WALK_def)
  have "e_results eS (l_height location) = Some out" using out(1) tracked_same(1)[OF tr] by (simp add: same_chain_def)
  note tout = trail_outcome[OF base tracked_same(4)[OF tr] len H this]
  have "rev (chain_above (n_dag st) ?tip) ! (unat (l_height location) - 1) \<in> set (rev (chain_above (n_dag st) ?tip))"
    using H by (intro nth_mem) auto
  then have "l_chain_block location \<in> set (selected_parent_chain (n_dag st) ?tip)"
    using tout out(2) by (auto dest: in_set_butlastD)
  with out assms(5) tout show ?thesis by (simp add: backend_receipt_def result_at_def)
qed

text \<open>
  C5: Receipts are those of the current chain. When a node answers with a receipt, the location names a block of
  its selected chain, the outcome is the one recorded at that height for that block, and the transaction
  is the one with that index in it. No receipt survives a reorganisation that removed its block, and a located
  transaction always has one.
\<close>

theorem receipt_sound:
  assumes "validate_params p = Some (Inr ())" and "evm_law D L" and "coded D s0"
    and "node_reachable hash R L V p genesis s0 k st" and "map_of (n_tx_index st) h = Some location"
  shows "\<exists>receipt outcome. backend_receipt st h = Some (location, receipt, outcome) \<and>
    l_chain_block location \<in> set (selected_parent_chain (n_dag st) (virtual_selected_parent (n_dag st))) \<and>
    result_at (n_executor st) (l_height location) = Some outcome \<and> o_height outcome = l_height location \<and>
    o_hash outcome = l_chain_block location \<and> o_hashes outcome ! l_index location = h \<and>
    l_index location < length (o_hashes outcome) \<and> receipt = o_receipts outcome ! l_index location"
  by (rule located_on_chain[OF assms])

section \<open>A small node\<close>

definition toy_view :: "toy_tx tx_view" where
  "toy_view = \<lparr>tv_hash = t_id, tv_signer = t_signer, tv_nonce = (\<lambda>_. 0), tv_chain_id = (\<lambda>_. Some 1), tv_is_blob = (\<lambda>_. False),
     tv_gas_limit = t_limit, tv_max_fee = t_tip, tv_max_priority_fee = (\<lambda>_. None), tv_value = (\<lambda>_. 0)\<rparr>"

definition toy_raw :: "(unit, toy_tx) raw_lib" where
  "toy_raw = \<lparr>decode_2718 = (\<lambda>_. Inl ''malformed''), recover_signer = (\<lambda>_. Inl ''unsigned''), new_recovered = (\<lambda>_ _. toy 0 0 0 None 0 0)\<rparr>"

text \<open>The node at genesis, and after block 1, which carries one transaction.\<close>

definition node0 :: "(toy_tx, unit, nat) node_state" where
  "node0 = the (new_backend ex_hash toy_lib testnet_1bps (ex_block 0 []) new_state 2)"

abbreviation toy_reachable :: "(toy_tx, unit, nat) node_state \<Rightarrow> bool" where
  "toy_reachable \<equiv> node_reachable ex_hash toy_raw toy_lib toy_view testnet_1bps (ex_block 0 []) new_state 2"

lemma toy_base: "validate_params testnet_1bps = Some (Inr ())" "evm_law (\<lambda>_. 0) toy_lib" "coded (\<lambda>_. 0) (new_state :: nat world_state)"
  by (simp_all add: presets_validate toy_evm_law new_state_def coded_def)

lemma node0_new: "new_backend ex_hash toy_lib testnet_1bps (ex_block 0 []) new_state 2 = Some node0"
  using derived_values(3)[OF toy_base(1) refl] by (simp add: node0_def new_backend_def)

lemma node0_fields:
  "n_dag node0 = ex_dag 2 180 []" "n_executor node0 = new_executor toy_lib testnet_1bps new_state 0"
  "n_tx_index node0 = []" "n_bodies node0 = []"
proof -
  obtain g where g: "block_gas_limit testnet_1bps = Some g" using derived_values(3)[OF toy_base(1) refl] by blast
  have "mergeset_size_limit testnet_1bps = 180" by (simp add: mergeset_size_limit_def testnet_1bps_def param_consts)
  then have eq: "node0 = \<lparr>n_params = testnet_1bps, n_dag = new_dag ex_hash (ex_block 0 []) 2 180, n_bodies = [],
      n_executor = new_executor toy_lib testnet_1bps new_state 0,
      n_pool = new_pool (new_pool_config (of_nat (chain_id testnet_1bps)) (of_nat g)), n_tx_index = [], n_tx_bytes = []\<rparr>"
    by (simp add: node0_def new_backend_def g)
  show "n_dag node0 = ex_dag 2 180 []" "n_executor node0 = new_executor toy_lib testnet_1bps new_state 0"
    "n_tx_index node0 = []" "n_bodies node0 = []" unfolding eq by (simp_all add: ex_dag_def)
qed

lemma node0_reachable: "toy_reachable node0"
  by (rule node_reachable.start[OF node0_new]) (simp add: ex_block_def)

lemma ex_blocks_0: "blocks (ex_dag 2 180 []) = {0}"
  by (simp add: ex_dag_def blocks_def)

lemma node0_shallow: "shallow ex_hash h node0"
  by (simp add: shallow_def journal_covers_def node0_fields new_executor_def ex_dag_def dag_len_def MAX_REORG_WALK_def Let_def)

lemma ex_dag1:
  "fst (add_block ex_hash (ex_dag 2 180 []) (ex_block 1 [0])) = Inr 1"
  "virtual_selected_parent (ex_dag 2 180 [(1, [0])]) = 1"
  "selected_parent_chain (ex_dag 2 180 [(1, [0])]) 0 = [0]"
  "selected_parent_chain (ex_dag 2 180 [(1, [0])]) 1 = [1, 0]"
  "base_sequence (ex_dag 2 180 [(1, [0])]) 1 = [1]"
  by code_simp+

text \<open>Adding block 1 with a transaction of hash 5 indexes that transaction.\<close>

lemma toy_block_hashes:
  assumes "run_block toy_lib False ctx g [(m, toy 5 0 11 None 2 0)] s p f = (s', blk, p', f')"
  shows "x_hashes blk = [5]"
proof -
  have "canonical_order toy_lib [(m, toy 5 0 11 None 2 0)] = [0]" by code_simp
  with assms show ?thesis
    by (auto simp: run_block_def execute_sequentially_def run_one_def over_budget_def toy_lib_def toy_transact_def toy_def
        empty_block_def record_tx_def note_all_def saturating_add_def Let_def split: prod.splits)
qed

lemma node1:
  obtains outs st where
    "backend_add_block ex_hash toy_lib toy_view (ex_block 1 [0]) [toy 5 0 11 None 2 0] [] node0 = Some (Inr outs, st)"
    "toy_reachable st" "map_of (n_tx_index st) 5 = Some \<lparr>l_height = 1, l_chain_block = 1, l_index = 0\<rparr>"
proof -
  let ?dag = "ex_dag 2 180 [(1, [0])]" let ?e = "new_executor toy_lib testnet_1bps new_state 0 :: (unit, nat) executor"
  let ?tx = "toy 5 0 11 None 2 0" let ?bodies = "[(1, [?tx])]"
  have run: "add_block ex_hash (ex_dag 2 180 []) (ex_block 1 [0]) = (Inr 1, ?dag)"
    using ex_dag1(1) by (simp add: ex_dag_def prod_eq_iff)
  have dr: "dag_reachable ex_hash (ex_block 0 []) 2 180 ?dag" by (rule ex_dag_reachable)
  have tip: "e_tip ?e = 0" by (simp add: new_executor_def)
  have "inserted (ex_dag 2 180 []) 1 (ex_block 1 [0]) ?dag" "1 \<notin> blocks (ex_dag 2 180 [])"
    using add_block_cases[OF reachable_ok[OF ex_dag_reachable] run] by simp_all
  from inserted_basic(1)[OF this] have bl: "blocks ?dag = {0, 1}" by (auto simp: ex_blocks_0)
  have "dag_len ?dag = 2" by code_simp
  then obtain common where "common \<noteq> []" "[0] = removed (compute_reorg ?dag 0 1) @ common"
    "[1, 0] = rev (added (compute_reorg ?dag 0 1)) @ common"
    using compute_reorg_split[OF reachable_ok[OF dr], of 0 1] ex_dag1(3,4) bl by (auto simp: MAX_REORG_WALK_def)
  then have reorg: "removed (compute_reorg ?dag 0 1) = []" "added (compute_reorg ?dag 0 1) = [1]"
    by (auto simp: append_eq_Cons_conv Cons_eq_append_conv)
  have "dag_header ?dag 1 \<noteq> None" using header_of_block[of 1 ?dag] bl by (auto simp: dag_header_def)
  moreover have "validate_params (e_params ?e) = Some (Inr ())" by (simp add: new_executor_def toy_base)
  ultimately obtain out e1 where x: "execute_chain_block toy_lib ?dag ?bodies 1 ?e = Some (Inr out, e1)"
    using execute_succeeds by blast
  have out: "o_height out = 1 \<and> o_hash out = 1 \<and> o_hashes out = [5]"
  proof (rule execute_chain_block_ok[OF x], goal_cases)
    case (1 header base_fee limit window blk)
    have "tagged_sequence toy_lib ?dag ?bodies 1 = [(case dag_header ?dag 1 of None \<Rightarrow> 0 | Some h \<Rightarrow> h_miner h, ?tx)]"
      by (simp add: tagged_sequence_def ex_dag1(5) body_get_def deduplicate_def dedup_seen.simps Let_def)
    with 1(5) have "x_hashes blk = [5]" using toy_block_hashes by (simp add: new_executor_def)
    with 1(6) show ?case by (simp add: new_executor_def)
  qed
  let ?st = "node0\<lparr>n_dag := ?dag, n_bodies := ?bodies, n_executor := e1, n_tx_index := index_outcome out [],
    n_pool := refresh_pool toy_view (e_state e1) [out] (n_pool node0)\<rparr>"
  have add: "backend_add_block ex_hash toy_lib toy_view (ex_block 1 [0]) [?tx] [] node0 = Some (Inr [out], ?st)"
    using run reorg x ex_dag1(2) tip
    by (simp add: backend_add_block_def node0_fields body_insert_def advance_def Let_def drop_removed_def apply_reorg_def)
  have "map_of (n_tx_index ?st) 5 = Some \<lparr>l_height = 1, l_chain_block = 1, l_index = 0\<rparr>"
    using out by (simp add: index_outcome_def)
  from that[OF add node_reachable.add[OF node0_reachable node0_shallow add] this] show ?thesis .
qed

theorem node_is_replay_witness:
  "\<exists>st. toy_reachable st \<and> map_of (n_tx_index st) 5 \<noteq> None \<and> e_tip (n_executor st) = virtual_selected_parent (n_dag st)"
proof -
  obtain outs st where "toy_reachable st" "map_of (n_tx_index st) 5 = Some \<lparr>l_height = 1, l_chain_block = 1, l_index = 0\<rparr>"
    by (rule node1)
  with node_is_replay[OF toy_base this(1)] show ?thesis by auto
qed

text \<open>A node that was also offered genesis again, which it refuses, agrees with one that was not.\<close>

theorem nodes_agree_witness:
  "\<exists>st st' r. toy_reachable st \<and> backend_add_block ex_hash toy_lib toy_view (ex_block 0 []) [] [] st = Some (Inl r, st') \<and>
     e_results (n_executor st) = e_results (n_executor st')"
proof -
  obtain st' c where st': "backend_add_block ex_hash toy_lib toy_view (ex_block 0 []) [] [] node0 =
      Some (Inl (DagRefused (AlreadyPresent 0)), st')" and s: "n_dag st' = n_dag node0" "n_bodies st' = n_bodies node0"
    by (simp add: backend_add_block_def add_block_def node0_fields ex_dag_def contains_def Let_def)
  have r': "toy_reachable st'" by (rule node_reachable.add[OF node0_reachable node0_shallow st'])
  have "stored_headers (n_dag node0) = {ex_block 0 []}" by (simp add: node0_fields ex_dag_def stored_headers_def)
  then have "inj_on ex_hash (stored_headers (n_dag node0) \<union> stored_headers (n_dag st'))" by (simp add: s)
  from nodes_agree[OF toy_base node0_reachable r' _ this] s st' node0_reachable show ?thesis by auto
qed


theorem receipt_sound_witness:
  "\<exists>st receipt outcome. toy_reachable st \<and>
     backend_receipt st 5 = Some (\<lparr>l_height = 1, l_chain_block = 1, l_index = 0\<rparr>, receipt, outcome) \<and> o_hashes outcome ! 0 = 5"
proof -
  obtain outs st where "toy_reachable st" "map_of (n_tx_index st) 5 = Some \<lparr>l_height = 1, l_chain_block = 1, l_index = 0\<rparr>"
    by (rule node1)
  with receipt_sound[OF toy_base this] show ?thesis by auto
qed

end
