(* ===== verification/Dev_Props.thy ===== *)
theory Dev_Props
  imports Dev_Node Node_Props
begin

text \<open>
  What mining on a node and its queries promise: the genesis loader builds a well-formed state, a
  mined block is one the rules accept and the store takes, and settlement depth counts blue blocks.
\<close>

section \<open>The genesis state\<close>

lemma genesis_storage_get:
  assumes "distinct (map fst entries)"
  shows "genesis_storage (Some entries) slot = (case map_of entries slot of None \<Rightarrow> None | Some v \<Rightarrow> if v = 0 then None else Some v)"
proof -
  have "fold (\<lambda>(slot, v) m. if v = 0 then m else m(slot \<mapsto> v)) entries m slot =
      (case map_of entries slot of None \<Rightarrow> m slot | Some v \<Rightarrow> if v = 0 then m slot else Some v)" for m
    using assms
  proof (induction entries arbitrary: m)
    case (Cons e es)
    then have "map_of es (fst e) = None" by (simp add: map_of_eq_None_iff)
    with Cons show ?case by (cases e) (auto split: option.split)
  qed simp
  then show ?thesis by (simp add: genesis_storage_def)
qed

lemma genesis_storage_nonzero: "genesis_storage slots slot \<noteq> Some 0"
proof -
  have "fold (\<lambda>(slot, v) m. if v = 0 then m else m(slot \<mapsto> v)) entries m slot \<noteq> Some 0" if "m slot \<noteq> Some 0"
    for entries and m :: "u256 \<rightharpoonup> u256"
    using that
  proof (induction entries arbitrary: m)
    case (Cons e es)
    have "(case e of (slot, v) \<Rightarrow> (\<lambda>m. if v = 0 then m else m(slot \<mapsto> v))) m slot \<noteq> Some 0"
      using Cons.prems by (cases e) simp
    then show ?case unfolding fold_simps by (rule Cons.IH)
  qed simp
  then show ?thesis by (simp add: genesis_storage_def split: option.split)
qed

definition genesis_code :: "(8 word list \<Rightarrow> 'code) \<Rightarrow> genesis_account \<Rightarrow> 'code option" where
  "genesis_code new_raw acc =
     (case ga_code acc of Some bytes \<Rightarrow> if bytes = [] then None else Some (new_raw bytes) | None \<Rightarrow> None)"

definition genesis_state_of :: "(8 word list \<Rightarrow> 'code) \<Rightarrow> ('code \<Rightarrow> u256) \<Rightarrow> genesis_account \<Rightarrow> 'code account_state" where
  "genesis_state_of new_raw hash_slow acc =
     \<lparr>a_info = \<lparr>i_balance = ga_balance acc, i_nonce = (case ga_nonce acc of None \<Rightarrow> 0 | Some n \<Rightarrow> n),
        i_code_hash = (case genesis_code new_raw acc of Some c \<Rightarrow> hash_slow c | None \<Rightarrow> KECCAK256_EMPTY), i_code = None\<rparr>,
      a_storage = genesis_storage (ga_storage acc)\<rparr>"

lemma load_account_fields:
  "w_accounts (load_account new_raw hash_slow (a, acc) s) = (w_accounts s)(a \<mapsto> genesis_state_of new_raw hash_slow acc)"
  "w_code (load_account new_raw hash_slow (a, acc) s) =
     (case genesis_code new_raw acc of None \<Rightarrow> w_code s | Some c \<Rightarrow> (w_code s)(hash_slow c \<mapsto> c))"
  by (auto simp: load_account_def genesis_state_of_def genesis_code_def insert_code_def insert_account_def Let_def split: option.split)

lemma load_fold:
  assumes "distinct (map fst alloc)"
  shows "w_accounts (fold (load_account new_raw hash_slow) alloc s) a =
    (case map_of alloc a of None \<Rightarrow> w_accounts s a | Some acc \<Rightarrow> Some (genesis_state_of new_raw hash_slow acc))"
  using assms
proof (induction alloc arbitrary: s)
  case (Cons e alloc)
  obtain b acc where e: "e = (b, acc)" by fastforce
  then have "map_of alloc b = None" using Cons.prems by (simp add: map_of_eq_None_iff)
  with Cons show ?case by (auto simp: e load_account_fields split: option.split)
qed simp

lemma load_coded:
  assumes "\<And>c. c \<in> C \<Longrightarrow> D (hash_slow c) = c" "\<And>a acc c. (a, acc) \<in> set alloc \<Longrightarrow> genesis_code new_raw acc = Some c \<Longrightarrow> c \<in> C"
    and "coded D s"
  shows "coded D (fold (load_account new_raw hash_slow) alloc s)"
  using assms(2,3)
proof (induction alloc arbitrary: s)
  case (Cons e alloc)
  obtain b acc where e: "e = (b, acc)" by fastforce
  have "coded D (load_account new_raw hash_slow e s)"
    using Cons.prems(1)[of b acc] Cons.prems(2) assms(1)
    by (auto simp: coded_def e load_account_fields genesis_state_of_def split: option.splits if_splits)
  moreover have "(a, acc) \<in> set alloc \<Longrightarrow> genesis_code new_raw acc = Some c \<Longrightarrow> c \<in> C" for a acc c
    using Cons.prems(1)[of a acc c] by simp
  ultimately show ?case unfolding fold_simps by (intro Cons.IH)
qed simp

text \<open>
  The genesis loader never fails, and with one entry per address it builds exactly the
  listed accounts: their balance, nonce and code hash, their non-zero slots and no zero slot, and
  nothing else. If bytecode is identified by its hash, the state is well formed in the sense the
  node's own theorems ask for.
\<close>

theorem load_genesis_exact:
  assumes "distinct (map fst alloc)"
    and "\<And>a acc c. (a, acc) \<in> set alloc \<Longrightarrow> genesis_code new_raw acc = Some c \<Longrightarrow> D (hash_slow c) = c"
  shows "\<exists>s. load_genesis new_raw hash_slow alloc = Inr s \<and> coded D s \<and>
    (\<forall>a. account s a = map_option (genesis_state_of new_raw hash_slow) (map_of alloc a)) \<and>
    (\<forall>a acc slot. account s a = Some acc \<longrightarrow> a_storage acc slot \<noteq> Some 0)"
proof -
  let ?s = "fold (load_account new_raw hash_slow) alloc new_state"
  have acc: "account ?s a = map_option (genesis_state_of new_raw hash_slow) (map_of alloc a)" for a
    by (simp add: account_def load_fold[OF assms(1)] new_state_def split: option.split)
  have "coded D new_state" by (simp add: coded_def new_state_def)
  from load_coded[where C = "{c. \<exists>a acc. (a, acc) \<in> set alloc \<and> genesis_code new_raw acc = Some c}", OF _ _ this] assms(2)
  have "coded D ?s" by blast
  moreover have "a_storage acc slot \<noteq> Some 0" if "account ?s a = Some acc" for a acc slot
    using that genesis_storage_nonzero by (auto simp: acc genesis_state_of_def)
  ultimately show ?thesis using acc by (auto simp: load_genesis_def)
qed

theorem load_genesis_exact_witness:
  "\<exists>s. load_genesis length of_nat [(1, \<lparr>ga_balance = 5, ga_nonce = None, ga_code = Some [9], ga_storage = Some [(3, 0), (4, 7)]\<rparr>)]
     = Inr s \<and> coded unat s \<and> balance s 1 = 5 \<and> storage_slot s 1 4 = 7 \<and> storage_slot s 1 3 = 0 \<and> account s 2 = None"
proof -
  let ?acc = "\<lparr>ga_balance = 5, ga_nonce = None, ga_code = Some [9], ga_storage = Some [(3, 0), (4, 7)]\<rparr>"
  have "genesis_code length ?acc = Some 1" by (simp add: genesis_code_def)
  then have law: "unat (of_nat c :: u256) = c" if "(a, acc) \<in> set [(1 :: address, ?acc)]" "genesis_code length acc = Some c" for a acc c
    using that by (clarsimp simp: genesis_code_def)
  have "distinct (map fst [(1 :: address, ?acc)])" by simp
  from load_genesis_exact[OF this, of length unat of_nat] law
  obtain s where s: "load_genesis length of_nat [(1, ?acc)] = Inr s" "coded unat s"
    "\<And>a. account s a = map_option (genesis_state_of length of_nat) (map_of [(1, ?acc)] a)" by blast
  from s(3)[of 1] s(3)[of 2] have "w_accounts s 1 = Some (genesis_state_of length of_nat ?acc)" "account s 2 = None"
    by (simp_all add: account_def)
  with s(1,2) show ?thesis
    by (simp add: balance_def storage_slot_def genesis_state_of_def genesis_storage_def)
qed

section \<open>Mining\<close>

lemma dev_parents_facts:
  assumes "dag_ok hash s"
  shows "dev_parents s \<noteq> []" "sorted_wrt (<) (dev_parents s)" "set (dev_parents s) \<subseteq> set (s_tips s)"
    "length (dev_parents s) \<le> MAX_PARENTS"
proof -
  have tips: "set (dag_tips s) = set (s_tips s)" "distinct (dag_tips s)"
    using dag_okD(5)[OF assms] by (simp_all add: dag_tips_def tips_ok_def)
  have "s_genesis s \<in> blocks s" using dag_okD(1)[OF assms] by (simp add: topology_ok_def)
  from below_a_tip[OF assms this] tips(1) have "dag_tips s \<noteq> []" by (cases "dag_tips s") auto
  then have "take MAX_PARENTS (dag_tips s) \<noteq> []" by (simp add: MAX_PARENTS_def)
  moreover have "dev_parents s = sort (take MAX_PARENTS (dag_tips s))"
    using tips(2) by (simp add: dev_parents_def remdups_adj_distinct)
  moreover have "sort (take MAX_PARENTS (dag_tips s)) = [] \<longleftrightarrow> take MAX_PARENTS (dag_tips s) = []" by (metis set_empty set_sort)
  ultimately show "dev_parents s \<noteq> []" "sorted_wrt (<) (dev_parents s)" "set (dev_parents s) \<subseteq> set (s_tips s)"
    "length (dev_parents s) \<le> MAX_PARENTS"
    using tips set_take_subset[of MAX_PARENTS "dag_tips s"] by (simp_all add: strict_sorted_iff)
qed

text \<open>A block on the current tips is refused at most for the size of its merge set.\<close>

lemma tips_block_result:
  assumes ok: "dag_ok hash s" and ps: "h_parents h \<noteq> []" "set (h_parents h) \<subseteq> set (s_tips s)"
    and inj: "inj_on hash (insert h (stored_headers s))"
  shows "add_block_result hash s h = Inr (hash h) \<or>
    add_block_result hash s h = Inl (MergesetTooLarge (hash h) (s_mergeset_size_limit s))"
proof -
  have tips: "set (s_tips s) = {b \<in> blocks s. \<forall>c \<in> blocks s. b \<notin> set (parents_of s c)}"
    using dag_okD(5)[OF ok] by (simp add: tips_ok_def)
  have "hash h \<notin> blocks s"
  proof
    assume b: "hash h \<in> blocks s"
    from header_of_block[OF b] obtain h0 where h0: "map_of (s_headers s) (hash h) = Some h0" by blast
    then have "hash h0 = hash h" "h0 \<in> stored_headers s"
      using dag_okD(4)[OF ok] by (auto simp: hash_keyed_def stored_headers_def ran_def)
    with inj have "h0 = h" by (auto simp: inj_on_def)
    with h0 have "parents_of s (hash h) = h_parents h" by (simp add: parents_of_def)
    moreover obtain p where "p \<in> set (h_parents h)" using ps(1) by (cases "h_parents h") auto
    ultimately have "p \<in> set (parents_of s (hash h))" "p \<in> set (h_parents h)" by simp_all
    with ps(2) tips b show False by blast
  qed
  moreover have "find (\<lambda>p. p \<notin> blocks s) (h_parents h) = None"
    using ps(2) tips by (auto simp: find_missing_None)
  ultimately show ?thesis using ps(1) by (simp add: add_block_result_def)
qed

lemma node_params_valid:
  assumes base: "base_ok L D window (new_executor L p s0 (hash genesis))" and nok: "node_ok hash L V p genesis s0 k D window st"
  shows "e_params (n_executor st) = p"
proof -
  obtain eS where "tracked L (n_dag st) (n_bodies st) (new_executor L p s0 (hash genesis)) D window
      (chain_above (n_dag st) (e_tip (n_executor st))) eS (n_executor st)" using nok by (auto simp: node_ok_def following_def)
  note tr = tracked_same(1,4)[OF this]
  have "e_params eS = e_params (new_executor L p s0 (hash genesis))"
    using tr(2)
  proof induction
    case (step bs e b out e1)
    have "e_params e1 = e_params e" by (rule execute_chain_block_ok[OF step.hyps(2)])
    with step.IH show ?case by simp
  qed simp
  with tr(1) show ?thesis by (simp add: same_chain_def) (simp add: new_executor_def)
qed

text \<open>What the miner found is added: it joins the DAG unless the merge set of the tips is over the limit.\<close>

lemma mined_block_added:
  assumes base: "base_ok L D window (new_executor L p s0 (hash genesis))"
    and nok: "node_ok hash L V p genesis s0 k D window (v_backend d)"
    and t: "dev_template L otr V (v_miner d) now (v_backend d) = Some (template, txs, enc)"
    and tp: "h_parents template = dev_parents (n_dag (v_backend d))"
    and found: "mine_loop pow dev_target 0 template 0 MAX_ATTEMPTS = Found h n"
    and sh: "shallow hash h (v_backend d)" and inj: "inj_on hash (insert h (stored_headers (n_dag (v_backend d))))"
  shows "\<exists>r st. mine_once hash pow L otr V now d = Some (r, d\<lparr>v_backend := st\<rparr>) \<and>
      (r = Some (hash h) \<and> hash h \<in> blocks (n_dag st) \<and> body_get (n_bodies st) (hash h) = txs \<and>
         e_tip (n_executor st) = virtual_selected_parent (n_dag st) \<or>
       r = None \<and> fst (add_block hash (n_dag (v_backend d)) h) = Inl (MergesetTooLarge (hash h) (mergeset_size_limit p)))"
proof -
  let ?st = "v_backend d"
  have dr: "dag_reachable hash genesis k (mergeset_size_limit p) (n_dag ?st)" using nok by (simp add: node_ok_def)
  note ok = reachable_ok[OF dr] and facts = dev_parents_facts[OF reachable_ok[OF dr]]
  from mine_loop_Found[OF found] have ps: "h_parents h = dev_parents (n_dag ?st)" using tp by auto
  obtain r st where run: "backend_add_block hash L V h txs enc ?st = Some (r, st)"
    and nok': "node_ok hash L V p genesis s0 k D window st"
    and out: "case add_block_result hash (n_dag ?st) h of
       Inl err \<Rightarrow> r = Inl (DagRefused err) \<and> (\<exists>c. st = ?st\<lparr>n_dag := n_dag ?st\<lparr>s_reachability := c\<rparr>\<rparr>)
     | Inr b \<Rightarrow> (\<exists>outs. r = Inr outs \<and> blocks (n_dag st) = insert b (blocks (n_dag ?st)) \<and> b = hash h \<and>
         n_bodies st = body_insert b txs (n_bodies ?st) \<and> n_params st = n_params ?st \<and>
         map o_hash outs = added (compute_reorg (n_dag st) (e_tip (n_executor ?st)) (e_tip (n_executor st))) \<and>
         n_pool st = (if e_tip (n_executor ?st) = e_tip (n_executor st) then n_pool ?st
           else refresh_pool V (e_state (n_executor st)) outs (n_pool ?st)))"
    using backend_add_follows[OF base nok sh, of txs enc] by blast
  have eq: "mine_once hash pow L otr V now d = (case r of Inl _ \<Rightarrow> Some (None, d\<lparr>v_backend := st\<rparr>)
      | Inr _ \<Rightarrow> Some (Some (hash h), d\<lparr>v_backend := st\<rparr>))"
    using facts(1) tp by (simp add: mine_once_def t found run)
  obtain r0 s' where add: "add_block hash (n_dag ?st) h = (r0, s')" by fastforce
  from tips_block_result[OF ok _ _ inj] facts(1,3) ps
  consider "add_block_result hash (n_dag ?st) h = Inr (hash h)"
    | "add_block_result hash (n_dag ?st) h = Inl (MergesetTooLarge (hash h) (s_mergeset_size_limit (n_dag ?st)))" by auto
  then show ?thesis
  proof cases
    case 1
    with out have o: "\<exists>outs. r = Inr outs" "hash h \<in> blocks (n_dag st)" "n_bodies st = body_insert (hash h) txs (n_bodies ?st)"
      by auto
    have "e_tip (n_executor st) = virtual_selected_parent (n_dag st)" using nok' by (simp add: node_ok_def)
    with o eq show ?thesis
      by (intro exI[of _ "Some (hash h)"] exI[of _ st]) (auto simp: body_get_def body_insert_def update_conv')
  next
    case 2
    with add_block_cases[OF ok add] have "r0 = Inl (MergesetTooLarge (hash h) (mergeset_size_limit p))"
      using reachable_limits[OF dr] by (auto split: sum.splits)
    with 2 out eq add show ?thesis by auto
  qed
qed



lemma bit_len_dev: "bit_len (2 ^ 252 - 1) = 252"
proof -
  let ?n = "2 ^ 252 - 1 :: nat"
  have "\<not> bit_len ?n \<le> 251"
  proof
    assume "bit_len ?n \<le> 251"
    then have "(2::nat) ^ bit_len ?n \<le> 2 ^ 251" by (rule power_increasing) simp
    with bit_len_upper[of ?n] show False by simp
  qed
  moreover have "\<not> 252 \<le> bit_len ?n - 1"
  proof
    assume "252 \<le> bit_len ?n - 1"
    then have "(2::nat) ^ 252 \<le> 2 ^ (bit_len ?n - 1)" by (rule power_increasing) simp
    with bit_len_lower[of ?n] show False by simp
  qed
  ultimately show ?thesis by linarith
qed
text \<open>
  The header of a mined block encodes a smaller target than the one \<open>mine_once\<close> compares with: the
  compact form drops the low bits of \<open>dev_target\<close>, so a hash in between is mined but does not meet the block's own bits.
\<close>

lemma dev_target_rounded: "\<exists>t. to_target (from_target dev_target) = Inr t \<and> t < dev_target"
proof -
  let ?n = "2 ^ 252 - 1 :: nat"
  have n: "unat dev_target = ?n"
    by (simp add: dev_target_def unat_drop_bit_eq drop_bit_eq_div unsigned_minus_1_eq_mask mask_eq_exp_minus_1)
  have "rounded ?n = ?n div 2 ^ 232 * 2 ^ 232" unfolding rounded_def expo_def bit_len_dev by simp
  then have lt: "rounded ?n < ?n" by simp
  have "dev_target \<noteq> 0" using n by auto
  from to_target_from_target[OF this] lt show ?thesis unfolding n by (auto simp: word_less_nat_alt n)
qed

section \<open>Settlement depth\<close>

lemma chain_from_member:
  assumes "topology_ok s" "data_shape s" "t \<in> blocks s" "b \<in> set (selected_parent_chain s t)"
  shows "set (selected_parent_chain s b) \<subseteq> set (selected_parent_chain s t)"
  using assms(3,4)
proof (induction "topological_height s t" arbitrary: t rule: less_induct)
  case less
  note unf = selected_parent_chain_unfold[OF assms(1,2) less.prems(1)]
  show ?case
  proof (cases "t = s_genesis s \<or> b = t")
    case True
    with unf less.prems(2) show ?thesis by auto
  next
    case False
    note below = selected_parent_below[OF assms(1,2) less.prems(1)]
    from False unf less.prems(2) have "b \<in> set (selected_parent_chain s (selected_parent_of s t))" by auto
    with less.hyps[OF below(3,1)] False unf show ?thesis by auto
  qed
qed

text \<open>
  Settlement confidence counts blue blocks. A transaction a reachable node does not locate is reported as not
  executed and nothing else. For a located one the reported height and score are those of a block of the
  current selected chain, and the depth is the exact number of blue blocks on that chain which are not yet
  counted by the executing block: never an artefact of the saturating subtraction.
\<close>

theorem confidence_exact:
  assumes "validate_params p = Some (Inr ())" and "evm_law D L" and "coded D s0"
    and "node_reachable hash R L V p genesis s0 k st"
  shows "(map_of (n_tx_index st) h = None \<and>
      get_confidence st h = \<lparr>cf_executed = False, cf_height = None, cf_blue_score = None, cf_blue_score_depth = None\<rparr>) \<or>
    (\<exists>location b tip. map_of (n_tx_index st) h = Some location \<and> b = l_chain_block location \<and>
      tip = virtual_selected_parent (n_dag st) \<and> b \<in> set (selected_parent_chain (n_dag st) tip) \<and>
      chain_blues (n_dag st) b \<subseteq> chain_blues (n_dag st) tip \<and>
      get_confidence st h = \<lparr>cf_executed = True, cf_height = Some (l_height location),
        cf_blue_score = Some (card (chain_blues (n_dag st) b)),
        cf_blue_score_depth = Some (card (chain_blues (n_dag st) tip - chain_blues (n_dag st) b))\<rparr>)"
proof (cases "map_of (n_tx_index st) h")
  case (Some location)
  let ?s = "n_dag st" let ?tip = "virtual_selected_parent ?s" and ?b = "l_chain_block location"
  from located_on_chain[OF assms Some] have b: "?b \<in> set (selected_parent_chain ?s ?tip)" by auto
  obtain window where base: "base_ok L D window (new_executor L p s0 (hash genesis))" by (rule base_ok_new[OF assms(1-3)])
  have dr: "dag_reachable hash genesis k (mergeset_size_limit p) ?s"
    using node_reachable_ok[OF base assms(4)] by (simp add: node_ok_def)
  note ok = reachable_ok[OF dr] note dag = dag_okD[OF ok] and tip = virtual_selected_parent_in[OF reachable_ok[OF dr]]
  have bin: "?b \<in> blocks ?s" using b selected_parent_chain_shape[OF dag(1,2) tip] by auto
  have sub: "chain_blues ?s ?b \<subseteq> chain_blues ?s ?tip"
    using chain_from_member[OF dag(1,2) tip b] by (auto simp: chain_blues_def)
  have fin: "finite (chain_blues ?s ?b)" by (simp add: chain_blues_def)
  have score: "score_of ?s x = card (chain_blues ?s x)" if "x \<in> blocks ?s" for x
    using blue_score_chain[OF dr that] by (auto simp: score_of_def dag_data_def)
  have "get_confidence st h = \<lparr>cf_executed = True, cf_height = Some (l_height location),
        cf_blue_score = Some (card (chain_blues ?s ?b)),
        cf_blue_score_depth = Some (card (chain_blues ?s ?tip - chain_blues ?s ?b))\<rparr>"
    by (simp add: get_confidence_def Let_def Some score bin tip card_Diff_subset[OF fin sub])
  with Some b sub show ?thesis by blast
qed (simp add: get_confidence_def)

theorem confidence_exact_witness:
  "\<exists>st. toy_reachable st \<and> cf_executed (get_confidence st 5) \<and> cf_height (get_confidence st 5) = Some 1 \<and>
     \<not> cf_executed (get_confidence node0 5)"
proof -
  obtain outs st where st: "toy_reachable st" "map_of (n_tx_index st) 5 = Some \<lparr>l_height = 1, l_chain_block = 1, l_index = 0\<rparr>"
    by (rule node1)
  from confidence_exact[OF toy_base st(1), of 5] st(2)
  have "cf_executed (get_confidence st 5) \<and> cf_height (get_confidence st 5) = Some 1" by auto
  moreover have "\<not> cf_executed (get_confidence node0 5)"
    by (simp add: get_confidence_def node0_fields)
  ultimately show ?thesis using st(1) by blast
qed

end
