(* ===== verification/Json.thy ===== *)
theory Json
  imports Chain_Prelude
begin

text \<open>
  What the RPC layer uses of \<open>serde_json\<close>'s values and of the hexadecimal formatting and parsing of the standard
  library. An object is its fields in the order the code lists them. A float is its text.
\<close>

section \<open>Values\<close>

datatype json_number = PosInt u64 | NegInt int | Float string

datatype json =
    JNull
  | JBool bool
  | JNumber json_number
  | JString string
  | JArray "json list"
  | JObject "(string \<times> json) list"

fun as_u64 :: "json_number \<Rightarrow> u64 option" where
  "as_u64 (PosInt n) = Some n"
| "as_u64 _ = None"

fun json_get :: "json \<Rightarrow> string \<Rightarrow> json option" where
  "json_get (JObject fields) k = map_of fields k"
| "json_get _ k = None"

fun as_str :: "json \<Rightarrow> string option" where
  "as_str (JString s) = Some s"
| "as_str _ = None"

section \<open>Hexadecimal text\<close>

definition hex_digit :: "nat \<Rightarrow> char" where
  "hex_digit n = (if n < 10 then char_of (48 + n) else char_of (87 + n))"

fun hex_digits :: "nat \<Rightarrow> string" where
  "hex_digits n = (if n < 16 then [hex_digit n] else hex_digits (n div 16) @ [hex_digit (n mod 16)])"

declare hex_digits.simps [simp del]

text \<open>The formats \<open>{:#x}\<close>, and \<open>{:#0w x}\<close> with \<open>w\<close> digits after the prefix.\<close>

definition hex :: "nat \<Rightarrow> string" where
  "hex n = ''0x'' @ hex_digits n"

definition hex_padded :: "nat \<Rightarrow> nat \<Rightarrow> string" where
  "hex_padded w n = ''0x'' @ replicate (w - length (hex_digits n)) (CHR ''0'') @ hex_digits n"

text \<open>\<open>hex::encode\<close>.\<close>

definition hex_encode :: "8 word list \<Rightarrow> string" where
  "hex_encode bs = concat (map (\<lambda>b. [hex_digit (unat b div 16), hex_digit (unat b mod 16)]) bs)"

definition digit_value :: "char \<Rightarrow> nat option" where
  "digit_value c =
     (let n = of_char c :: nat in
      if 48 \<le> n \<and> n \<le> 57 then Some (n - 48)
      else if 97 \<le> n \<and> n \<le> 102 then Some (n - 87)
      else if 65 \<le> n \<and> n \<le> 70 then Some (n - 55)
      else None)"

text \<open>\<open>u64::from_str_radix(s, 16)\<close>: a sign, then digits, and the value must fit at every step.\<close>

fun parse_digits :: "nat \<Rightarrow> string \<Rightarrow> nat option" where
  "parse_digits acc [] = Some acc"
| "parse_digits acc (c # cs) =
     (case digit_value c of None \<Rightarrow> None
      | Some d \<Rightarrow> if acc * 16 + d < 2 ^ 64 then parse_digits (acc * 16 + d) cs else None)"

definition from_str_radix_16 :: "string \<Rightarrow> u64 option" where
  "from_str_radix_16 s =
     (let digits = (case s of c # cs \<Rightarrow> if c = CHR ''+'' then cs else s | [] \<Rightarrow> [])
      in if digits = [] then None else map_option of_nat (parse_digits 0 digits))"

text \<open>\<open>trim_start_matches("0x")\<close>, which takes the prefix off as often as it stands there.\<close>

fun trim_0x :: "string \<Rightarrow> string" where
  "trim_0x (a # b # s) = (if a = CHR ''0'' \<and> b = CHR ''x'' then trim_0x s else a # b # s)"
| "trim_0x s = s"

section \<open>Round trip\<close>

lemma digit_value_hex [simp]: "n < 16 \<Longrightarrow> digit_value (hex_digit n) = Some n"
  by (auto simp: digit_value_def hex_digit_def Let_def of_char_of take_bit_eq_mod)

lemma hex_digit_not_x: "n < 16 \<Longrightarrow> hex_digit n \<noteq> CHR ''x''"
  using digit_value_hex[of n] by (force simp: digit_value_def)

lemma hex_digits_nonempty [simp]: "hex_digits n \<noteq> []"
  by (subst hex_digits.simps) simp

lemma hex_digits_no_x: "CHR ''x'' \<notin> set (hex_digits n)"
proof (induction n rule: hex_digits.induct)
  case (1 n)
  then show ?case
    using hex_digit_not_x[of n] hex_digit_not_x[of "n mod 16"] by (subst hex_digits.simps) auto
qed

lemma trim_hex: "trim_0x (hex_digits n) = hex_digits n"
  using hex_digits_no_x[of n] by (cases "hex_digits n" rule: trim_0x.cases) auto

lemma parse_hex_digits:
  "acc * 16 ^ length (hex_digits n) + n < 2 ^ 64 \<Longrightarrow> parse_digits acc (hex_digits n @ s) = parse_digits (acc * 16 ^ length (hex_digits n) + n) s"
proof (induction n arbitrary: acc s rule: hex_digits.induct)
  case (1 n)
  show ?case
  proof (cases "n < 16")
    case True
    with 1(2) show ?thesis by (simp add: hex_digits.simps[of n])
  next
    case False
    let ?d = "hex_digits (n div 16)"
    have len: "hex_digits n = ?d @ [hex_digit (n mod 16)]" using False by (simp add: hex_digits.simps[of n])
    have "acc * 16 ^ length ?d + n div 16 \<le> acc * 16 ^ length (hex_digits n) + n" by (simp add: len)
    then have "parse_digits acc (?d @ hex_digit (n mod 16) # s) = parse_digits (acc * 16 ^ length ?d + n div 16) (hex_digit (n mod 16) # s)"
      using 1(2) by (intro 1(1)[OF False]) simp
    moreover have "(acc * 16 ^ length ?d + n div 16) * 16 + n mod 16 = acc * 16 ^ length (hex_digits n) + n" by (simp add: len algebra_simps)
    ultimately show ?thesis using 1(2) by (simp add: len ac_simps)
  qed
qed

lemma from_str_hex: "n < 2 ^ 64 \<Longrightarrow> from_str_radix_16 (trim_0x (hex n)) = Some (of_nat n)"
proof -
  assume n: "n < 2 ^ 64"
  have "hd (hex_digits n) \<noteq> CHR ''+''"
  proof -
    have "\<forall>c \<in> set (hex_digits n). digit_value c \<noteq> None"
    proof (induction n rule: hex_digits.induct)
      case (1 n)
      then show ?case by (subst hex_digits.simps) auto
    qed
    moreover have "digit_value (CHR ''+'') = None" by code_simp
    ultimately show ?thesis by (metis hd_in_set hex_digits_nonempty)
  qed
  then have "from_str_radix_16 (hex_digits n) = map_option of_nat (parse_digits 0 (hex_digits n))"
    by (cases "hex_digits n") (auto simp: from_str_radix_16_def Let_def)
  moreover have "parse_digits 0 (hex_digits n) = Some n" using parse_hex_digits[of 0 n "[]"] n by simp
  moreover have "trim_0x (hex n) = hex_digits n" by (simp add: hex_def trim_hex)
  ultimately show ?thesis by simp
qed

end
