(* ===== verification/Eth.thy ===== *)
theory Eth
  imports Node Json Compact Work
begin

text \<open>
  The \<open>eth\<close> namespace of the RPC server, \<open>crates/rpc/src/eth.rs\<close>: how blocks, receipts, logs, fees and calls are
  read from the node and rendered. A method that takes the lock several times reads one and the same
  node state here. What third-party types and libraries contribute (parsing of addresses, the fields of
  a transaction envelope and of a log, the bloom filter, the EVM, the ratio of two integers as a float, the
  texts of errors) is the record \<open>eth_lib\<close>; as in \<open>Node\<close>, \<open>None\<close> is a panic.
\<close>

section \<open>The library\<close>

record call_env =
  ce_caller :: address
  ce_gas_limit :: u64
  ce_gas_price :: "128 word"
  ce_gas_priority_fee :: "128 word option"
  ce_kind :: "address option"
  ce_value :: u256
  ce_data :: "8 word list"
  ce_nonce :: u64
  ce_chain_id :: u64

datatype call_result =
    CallSuccess u64 "8 word list"
  | CallRevert u64 "8 word list"
  | CallHalt u64 string

fun call_gas_used :: "call_result \<Rightarrow> u64" where
  "call_gas_used (CallSuccess gas _) = gas"
| "call_gas_used (CallRevert gas _) = gas"
| "call_gas_used (CallHalt gas _) = gas"

record ('env, 'log, 'code) eth_lib =
  el_parse_address :: "string \<Rightarrow> address option"
  el_parse_b256 :: "string \<Rightarrow> u256 option"
  el_log_address :: "'log \<Rightarrow> address"
  el_log_topics :: "'log \<Rightarrow> u256 list"
  el_log_data :: "'log \<Rightarrow> 8 word list"
  el_logs_bloom :: "'log list \<Rightarrow> 2048 word"
  el_hash :: "'env \<Rightarrow> u256"
  el_nonce :: "'env \<Rightarrow> u64"
  el_kind :: "'env \<Rightarrow> address option"
  el_value :: "'env \<Rightarrow> u256"
  el_gas_limit :: "'env \<Rightarrow> u64"
  el_max_fee :: "'env \<Rightarrow> 128 word"
  el_max_priority_fee :: "'env \<Rightarrow> 128 word option"
  el_input :: "'env \<Rightarrow> 8 word list"
  el_chain_id :: "'env \<Rightarrow> u64 option"
  el_type :: "'env \<Rightarrow> 8 word"
  el_create :: "address \<Rightarrow> u64 \<Rightarrow> address"
  el_original_bytes :: "'code \<Rightarrow> 8 word list"
  el_call :: "chain_params \<Rightarrow> block_ctx \<Rightarrow> 'code world_state \<Rightarrow> call_env \<Rightarrow> string + call_result"
  el_ratio :: "u64 \<Rightarrow> u64 \<Rightarrow> json"
  el_error_text :: "backend_error \<Rightarrow> string"
  el_value_text :: "json \<Rightarrow> string"

section \<open>Errors and formats\<close>

record rpc_error =
  re_code :: int
  re_message :: string
  re_data :: "string option"

definition TRANSACTION_REJECTED :: int where "TRANSACTION_REJECTED = -32003"
definition INVALID_PARAMS :: int where "INVALID_PARAMS = -32602"
definition SUGGESTED_TIP_WEI :: u64 where "SUGGESTED_TIP_WEI = 1000000000"
definition TX_GAS_LIMIT_CAP :: u64 where "TX_GAS_LIMIT_CAP = 2 ^ 24"

definition invalid_params :: "string \<Rightarrow> rpc_error" where
  "invalid_params message = \<lparr>re_code = INVALID_PARAMS, re_message = message, re_data = None\<rparr>"

definition rejected :: "string \<Rightarrow> rpc_error" where
  "rejected message = \<lparr>re_code = TRANSACTION_REJECTED, re_message = message, re_data = None\<rparr>"

definition hex_u64 :: "u64 \<Rightarrow> string" where "hex_u64 v = hex (unat v)"
definition hex_u256 :: "u256 \<Rightarrow> string" where "hex_u256 v = hex (unat v)"

text \<open>\<open>{:#x}\<close> of a hash, an address and a bloom filter, which print all their bytes.\<close>

definition hex_hash :: "u256 \<Rightarrow> string" where "hex_hash h = hex_padded 64 (unat h)"
definition hex_address :: "address \<Rightarrow> string" where "hex_address a = hex_padded 40 (unat a)"
definition hex_bloom :: "2048 word \<Rightarrow> string" where "hex_bloom b = hex_padded 512 (unat b)"
definition hex_bytes :: "8 word list \<Rightarrow> string" where "hex_bytes bs = ''0x'' @ hex_encode bs"

section \<open>Block parameters\<close>

definition resolve_height ::
  "('env, 'log, 'code) eth_lib \<Rightarrow> ('tx, 'log, 'code) node_state \<Rightarrow> json option \<Rightarrow> rpc_error + u64" where
  "resolve_height E st block =
     (case block of None \<Rightarrow> Inr (backend_height st)
      | Some value \<Rightarrow>
          (case value of
             JNull \<Rightarrow> Inr (backend_height st)
           | JString tag \<Rightarrow>
               if tag \<in> {''latest'', ''pending'', ''safe'', ''finalized''} then Inr (backend_height st)
               else if tag = ''earliest'' then Inr 0
               else (case from_str_radix_16 (trim_0x tag) of
                       None \<Rightarrow> Inl (invalid_params (''bad block tag '' @ tag)) | Some n \<Rightarrow> Inr n)
           | JNumber n \<Rightarrow>
               (case as_u64 n of None \<Rightarrow> Inl (invalid_params ''block number out of range'') | Some n \<Rightarrow> Inr n)
           | JObject _ \<Rightarrow>
               (case json_get value ''blockNumber'' of
                  Some (JString n) \<Rightarrow>
                    (case from_str_radix_16 (trim_0x n) of
                       None \<Rightarrow> Inl (invalid_params ''bad blockNumber'') | Some n \<Rightarrow> Inr n)
                | _ \<Rightarrow> Inr (backend_height st))
           | other \<Rightarrow> Inl (invalid_params (''unsupported block parameter '' @ el_value_text E other))))"

definition is_pending :: "json option \<Rightarrow> bool" where
  "is_pending block \<longleftrightarrow> block = Some (JString ''pending'')"

section \<open>Accounts\<close>

definition eth_chain_id :: "('tx, 'log, 'code) node_state \<Rightarrow> string" where
  "eth_chain_id st = hex_u64 (of_nat (chain_id (n_params st)))"

definition eth_block_number :: "('tx, 'log, 'code) node_state \<Rightarrow> string" where
  "eth_block_number st = hex_u64 (backend_height st)"

definition eth_get_balance :: "('tx, 'log, 'code) node_state \<Rightarrow> address \<Rightarrow> json option \<Rightarrow> string" where
  "eth_get_balance st a block = hex_u256 (backend_balance st a)"

definition eth_get_transaction_count :: "'tx tx_view \<Rightarrow> ('tx, 'log, 'code) node_state \<Rightarrow> address \<Rightarrow> json option \<Rightarrow> string" where
  "eth_get_transaction_count V st a block = hex_u64 (if is_pending block then pending_nonce V st a else backend_nonce st a)"

definition eth_get_code :: "('env, 'log, 'code) eth_lib \<Rightarrow> ('tx, 'log, 'code) node_state \<Rightarrow> address \<Rightarrow> json option \<Rightarrow> string" where
  "eth_get_code E st a block =
     hex_bytes (case code_at (e_state (n_executor st)) a of None \<Rightarrow> [] | Some c \<Rightarrow> el_original_bytes E c)"

definition eth_get_storage_at :: "('tx, 'log, 'code) node_state \<Rightarrow> address \<Rightarrow> u256 \<Rightarrow> json option \<Rightarrow> string" where
  "eth_get_storage_at st a slot block = hex_padded 64 (unat (storage_slot (e_state (n_executor st)) a slot))"

definition eth_accounts :: "address list" where "eth_accounts = []"
definition eth_syncing :: bool where "eth_syncing = False"

section \<open>Calls\<close>

record tx_request =
  rq_from :: "address option"
  rq_to :: "address option option"
  rq_gas :: "u64 option"
  rq_value :: "u256 option"
  rq_input :: "8 word list option"

definition call_env_of ::
  "('tx, 'res, 'log, 'code) chain_lib \<Rightarrow> ('tx, 'log, 'code) node_state \<Rightarrow> tx_request \<Rightarrow> call_env option" where
  "call_env_of L st request =
     (case backend_next_base_fee L st of None \<Rightarrow> None
      | Some base_fee \<Rightarrow>
          let caller = (case rq_from request of None \<Rightarrow> 0 | Some a \<Rightarrow> a) in
          map_option (\<lambda>gas.
            \<lparr>ce_caller = caller, ce_gas_limit = gas, ce_gas_price = ucast base_fee, ce_gas_priority_fee = Some 0,
             ce_kind = (case rq_to request of None \<Rightarrow> None | Some kind \<Rightarrow> kind),
             ce_value = (case rq_value request of None \<Rightarrow> 0 | Some v \<Rightarrow> v),
             ce_data = (case rq_input request of None \<Rightarrow> [] | Some d \<Rightarrow> d),
             ce_nonce = backend_nonce st caller, ce_chain_id = of_nat (chain_id (n_params st))\<rparr>)
           (case rq_gas request of Some gas \<Rightarrow> Some gas
            | None \<Rightarrow> map_option (\<lambda>limit. min (of_nat limit) TX_GAS_LIMIT_CAP) (block_gas_limit (n_params st))))"

definition simulate ::
  "('env, 'log, 'code) eth_lib \<Rightarrow> ('tx, 'res, 'log, 'code) chain_lib \<Rightarrow> ('tx, 'log, 'code) node_state \<Rightarrow> tx_request \<Rightarrow>
   (rpc_error + call_result) option" where
  "simulate E L st request =
     (case (call_env_of L st request, block_gas_limit (n_params st)) of
        (Some tx, Some limit) \<Rightarrow>
          let tx = tx\<lparr>ce_gas_price := 0, ce_gas_priority_fee := Some 0\<rparr>;
              height = backend_height st;
              ctx = \<lparr>ctx_height = height + 1,
                ctx_timestamp_secs = saturating_add (case result_at (n_executor st) height of None \<Rightarrow> 0 | Some r \<Rightarrow> o_timestamp_secs r) 1,
                ctx_base_fee = 0, ctx_gas_limit = of_nat limit, ctx_prevrandao = e_tip (n_executor st)\<rparr>
          in Some (case el_call E (n_params st) ctx (e_state (n_executor st)) tx of
                     Inl e \<Rightarrow> Inl (rejected (''call failed: '' @ e)) | Inr r \<Rightarrow> Inr r)
      | _ \<Rightarrow> None)"

definition eth_call ::
  "('env, 'log, 'code) eth_lib \<Rightarrow> ('tx, 'res, 'log, 'code) chain_lib \<Rightarrow> ('tx, 'log, 'code) node_state \<Rightarrow> tx_request \<Rightarrow>
   (rpc_error + string) option" where
  "eth_call E L st request =
     map_option (\<lambda>r. case r of
         Inl e \<Rightarrow> Inl e
       | Inr (CallSuccess _ output) \<Rightarrow> Inr (hex_bytes output)
       | Inr (CallRevert _ output) \<Rightarrow>
           Inl \<lparr>re_code = TRANSACTION_REJECTED, re_message = ''execution reverted'', re_data = Some (hex_bytes output)\<rparr>
       | Inr (CallHalt _ reason) \<Rightarrow> Inl (rejected (''execution halted: '' @ reason)))
     (simulate E L st request)"

definition MARGIN_PERCENT :: u64 where "MARGIN_PERCENT = 25"

definition eth_estimate_gas ::
  "('env, 'log, 'code) eth_lib \<Rightarrow> ('tx, 'res, 'log, 'code) chain_lib \<Rightarrow> ('tx, 'log, 'code) node_state \<Rightarrow> tx_request \<Rightarrow>
   (rpc_error + string) option" where
  "eth_estimate_gas E L st request =
     map_option (\<lambda>r. case r of
         Inl e \<Rightarrow> Inl e
       | Inr (CallHalt _ reason) \<Rightarrow> Inl (rejected (''execution halted: '' @ reason))
       | Inr result \<Rightarrow>
           let with_margin = saturating_mul (call_gas_used result) (100 + MARGIN_PERCENT) div 100
           in Inr (hex_u64 (max with_margin 21000)))
     (simulate E L st request)"

section \<open>Fees\<close>

definition eth_gas_price :: "('tx, 'res, 'log, 'code) chain_lib \<Rightarrow> ('tx, 'log, 'code) node_state \<Rightarrow> string option" where
  "eth_gas_price L st = map_option (\<lambda>base. hex_u64 (saturating_add base SUGGESTED_TIP_WEI)) (backend_next_base_fee L st)"

definition eth_max_priority_fee_per_gas :: string where
  "eth_max_priority_fee_per_gas = hex_u64 SUGGESTED_TIP_WEI"

definition gas_used_ratio :: "('env, 'log, 'code) eth_lib \<Rightarrow> u64 \<Rightarrow> u64 \<Rightarrow> json" where
  "gas_used_ratio E gas_used gas_limit = (if gas_limit = 0 then JNumber (PosInt 0) else el_ratio E gas_used gas_limit)"

definition requested_count :: "json \<Rightarrow> u64" where
  "requested_count cnt =
     min 1024 (max 1
       (case cnt of
          JString s \<Rightarrow> (case from_str_radix_16 (trim_0x s) of None \<Rightarrow> 1 | Some n \<Rightarrow> n)
        | JNumber n \<Rightarrow> (case as_u64 n of None \<Rightarrow> 1 | Some n \<Rightarrow> n)
        | _ \<Rightarrow> 1))"

text \<open>The heights of an inclusive range.\<close>

definition height_range :: "u64 \<Rightarrow> u64 \<Rightarrow> u64 list" where
  "height_range a b = map of_nat [unat a ..< Suc (unat b)]"

definition eth_fee_history ::
  "('env, 'log, 'code) eth_lib \<Rightarrow> ('tx, 'res, 'log, 'code) chain_lib \<Rightarrow> ('tx, 'log, 'code) node_state \<Rightarrow> json \<Rightarrow> nat option \<Rightarrow> json option" where
  "eth_fee_history E L st cnt percentiles =
     (case (backend_next_base_fee L st, block_gas_limit (n_params st)) of
        (Some next_fee, Some limit) \<Rightarrow>
          let tip = backend_height st;
              oldest = saturating_sub tip (saturating_sub (requested_count cnt) 1);
              fees = map (\<lambda>height. case result_at (n_executor st) height of None \<Rightarrow> (next_fee, 0)
                                    | Some r \<Rightarrow> (o_base_fee r, o_gas_used r)) (height_range oldest tip)
          in Some (JObject
               ([(''oldestBlock'', JString (hex_u64 oldest)),
                 (''baseFeePerGas'', JArray (map (\<lambda>(base, _). JString (hex_u64 base)) fees @ [JString (hex_u64 next_fee)])),
                 (''gasUsedRatio'', JArray (map (\<lambda>(_, used). gas_used_ratio E used (of_nat limit)) fees))] @
                (case percentiles of None \<Rightarrow> []
                 | Some n \<Rightarrow> [(''reward'', JArray (map (\<lambda>_. JArray (replicate n (JString (hex_u64 SUGGESTED_TIP_WEI)))) fees))])))
      | _ \<Rightarrow> None)"

section \<open>Transactions\<close>

definition json_opt :: "('a \<Rightarrow> string) \<Rightarrow> 'a option \<Rightarrow> json" where
  "json_opt f x = (case x of None \<Rightarrow> JNull | Some v \<Rightarrow> JString (f v))"

definition signer_of :: "('env, 'tx) raw_lib \<Rightarrow> 'env \<Rightarrow> address" where
  "signer_of R envelope = (case recover_signer R envelope of Inl _ \<Rightarrow> 0 | Inr a \<Rightarrow> a)"

definition render_transaction ::
  "('env, 'log, 'code) eth_lib \<Rightarrow> ('env, 'tx) raw_lib \<Rightarrow> 'env \<Rightarrow> block_hash option \<Rightarrow> u64 option \<Rightarrow> nat option \<Rightarrow> json" where
  "render_transaction E R envelope block_hash block_number index =
     JObject
       [(''hash'', JString (hex_hash (el_hash E envelope))),
        (''nonce'', JString (hex_u64 (el_nonce E envelope))),
        (''blockHash'', json_opt hex_hash block_hash),
        (''blockNumber'', json_opt hex_u64 block_number),
        (''transactionIndex'', json_opt hex index),
        (''from'', JString (hex_address (signer_of R envelope))),
        (''to'', json_opt hex_address (el_kind E envelope)),
        (''value'', JString (hex_u256 (el_value E envelope))),
        (''gas'', JString (hex_u64 (el_gas_limit E envelope))),
        (''gasPrice'', JString (hex (unat (el_max_fee E envelope)))),
        (''maxFeePerGas'', JString (hex (unat (el_max_fee E envelope)))),
        (''maxPriorityFeePerGas'', JString (hex (case el_max_priority_fee E envelope of None \<Rightarrow> 0 | Some fee \<Rightarrow> unat fee))),
        (''input'', JString (hex_bytes (el_input E envelope))),
        (''chainId'', json_opt hex_u64 (el_chain_id E envelope)),
        (''type'', JString (hex (unat (el_type E envelope)))),
        (''accessList'', JArray []),
        (''v'', JString ''0x0''), (''r'', JString ''0x0''), (''s'', JString ''0x0'')]"

definition eth_send_raw_transaction ::
  "('env, 'log, 'code) eth_lib \<Rightarrow> ('env, 'tx) raw_lib \<Rightarrow> ('tx, 'res, 'log, 'code) chain_lib \<Rightarrow> 'tx tx_view \<Rightarrow> 8 word list \<Rightarrow>
   ('tx, 'log, 'code) node_state \<Rightarrow> ((rpc_error + string) \<times> ('tx, 'log, 'code) node_state) option" where
  "eth_send_raw_transaction E R L V raw st =
     (case submit_raw R L V raw st of None \<Rightarrow> None
      | Some (Inl e, st) \<Rightarrow> Some (Inl (rejected (el_error_text E e)), st)
      | Some (Inr h, st) \<Rightarrow> Some (Inr (hex_hash h), st))"

definition eth_get_transaction_by_hash ::
  "('env, 'log, 'code) eth_lib \<Rightarrow> ('env, 'tx) raw_lib \<Rightarrow> ('tx, 'log, 'code) node_state \<Rightarrow> u256 \<Rightarrow> json option" where
  "eth_get_transaction_by_hash E R st h =
     (case map_of (n_tx_bytes st) h of None \<Rightarrow> None
      | Some bytes \<Rightarrow>
          (case decode_2718 R bytes of Inl _ \<Rightarrow> None
           | Inr envelope \<Rightarrow>
               let location = map_of (n_tx_index st) h
               in Some (render_transaction E R envelope (map_option l_chain_block location) (map_option l_height location)
                          (map_option l_index location))))"

section \<open>Receipts\<close>

definition render_log ::
  "('env, 'log, 'code) eth_lib \<Rightarrow> block_hash \<Rightarrow> u64 \<Rightarrow> u256 \<Rightarrow> nat \<Rightarrow> nat \<Rightarrow> 'log \<Rightarrow> json" where
  "render_log E block height tx tx_index log_index log =
     JObject
       [(''address'', JString (hex_address (el_log_address E log))),
        (''topics'', JArray (map (\<lambda>t. JString (hex_hash t)) (el_log_topics E log))),
        (''data'', JString (hex_bytes (el_log_data E log))),
        (''blockHash'', JString (hex_hash block)),
        (''blockNumber'', JString (hex_u64 height)),
        (''transactionHash'', JString (hex_hash tx)),
        (''transactionIndex'', JString (hex tx_index)),
        (''logIndex'', JString (hex log_index)),
        (''removed'', JBool False)]"

text \<open>Sender, recipient and created contract, from the bytes the node holds.\<close>

definition receipt_parties ::
  "('env, 'log, 'code) eth_lib \<Rightarrow> ('env, 'tx) raw_lib \<Rightarrow> ('tx, 'log, 'code) node_state \<Rightarrow> u256 \<Rightarrow> address \<times> json \<times> json" where
  "receipt_parties E R st h =
     (case map_of (n_tx_bytes st) h of None \<Rightarrow> (0, JNull, JNull)
      | Some bytes \<Rightarrow>
          (case decode_2718 R bytes of Inl _ \<Rightarrow> (0, JNull, JNull)
           | Inr envelope \<Rightarrow>
               let sender = signer_of R envelope
               in case el_kind E envelope of
                   Some a \<Rightarrow> (sender, JString (hex_address a), JNull)
                 | None \<Rightarrow> (sender, JNull, JString (hex_address (el_create E sender (el_nonce E envelope))))))"

definition gas_used_at :: "'log receipt list \<Rightarrow> nat \<Rightarrow> u64 \<Rightarrow> u64" where
  "gas_used_at receipts index cumulative =
     saturating_sub cumulative
       (if index = 0 then 0
        else if index - 1 < length receipts then rc_cumulative_gas (receipts ! (index - 1)) else 0)"

definition blue_score_at :: "dag_store \<Rightarrow> block_hash \<Rightarrow> nat" where
  "blue_score_at dag b = (case dag_data dag b of None \<Rightarrow> 0 | Some d \<Rightarrow> d_blue_score d)"

definition eth_get_transaction_receipt ::
  "('env, 'log, 'code) eth_lib \<Rightarrow> ('env, 'tx) raw_lib \<Rightarrow> ('tx, 'log, 'code) node_state \<Rightarrow> u256 \<Rightarrow> json option" where
  "eth_get_transaction_receipt E R st h =
     (case backend_receipt st h of None \<Rightarrow> None
      | Some (location, receipt, outcome) \<Rightarrow>
          (case receipt_parties E R st h of
             (sender, recipient, contract) \<Rightarrow>
               Some (JObject
                 [(''transactionHash'', JString (hex_hash h)),
                  (''transactionIndex'', JString (hex (l_index location))),
                  (''blockHash'', JString (hex_hash (o_hash outcome))),
                  (''blockNumber'', JString (hex_u64 (l_height location))),
                  (''from'', JString (hex_address sender)),
                  (''to'', recipient),
                  (''cumulativeGasUsed'', JString (hex_u64 (rc_cumulative_gas receipt))),
                  (''gasUsed'', JString (hex_u64 (gas_used_at (o_receipts outcome) (l_index location) (rc_cumulative_gas receipt)))),
                  (''contractAddress'', contract),
                  (''logs'', JArray (map (\<lambda>(i, log). render_log E (o_hash outcome) (l_height location) h (l_index location) i log)
                      (enumerate 0 (rc_logs receipt)))),
                  (''logsBloom'', JString (hex_bloom (el_logs_bloom E (rc_logs receipt)))),
                  (''status'', JString (if rc_status receipt then ''0x1'' else ''0x0'')),
                  (''effectiveGasPrice'', JString (hex_u64 (o_base_fee outcome))),
                  (''type'', JString ''0x2''),
                  (''blueScoreDepth'', JString (hex (blue_score_at (n_dag st) (virtual_selected_parent (n_dag st)) -
                      blue_score_at (n_dag st) (o_hash outcome))))])))"

section \<open>Blocks\<close>

definition header_difficulty :: "header \<Rightarrow> u256" where
  "header_difficulty h = work_for_target (case to_target (h_bits h) of Inl _ \<Rightarrow> - 1 | Inr target \<Rightarrow> target)"

definition block_transactions ::
  "('env, 'log, 'code) eth_lib \<Rightarrow> ('env, 'tx) raw_lib \<Rightarrow> ('tx, 'log, 'code) node_state \<Rightarrow> 'log chain_outcome \<Rightarrow> u64 \<Rightarrow> bool \<Rightarrow> json list" where
  "block_transactions E R st outcome height full =
     (if full then
        List.map_filter (\<lambda>(index, h).
            case map_of (n_tx_bytes st) h of None \<Rightarrow> None
            | Some bytes \<Rightarrow>
                (case decode_2718 R bytes of Inl _ \<Rightarrow> None
                 | Inr envelope \<Rightarrow> Some (render_transaction E R envelope (Some (o_hash outcome)) (Some height) (Some index))))
          (enumerate 0 (o_hashes outcome))
      else map (\<lambda>h. JString (hex_hash h)) (o_hashes outcome))"

definition render_block ::
  "('env, 'log, 'code) eth_lib \<Rightarrow> ('env, 'tx) raw_lib \<Rightarrow> ('tx, 'res, 'log, 'code) chain_lib \<Rightarrow> ('tx, 'log, 'code) node_state \<Rightarrow> u64 \<Rightarrow> bool \<Rightarrow>
   json option option" where
  "render_block E R L st height full =
     (case result_at (n_executor st) height of None \<Rightarrow> Some None
      | Some outcome \<Rightarrow>
          (case block_gas_limit (n_params st) of None \<Rightarrow> None
           | Some limit \<Rightarrow>
               let header = dag_header (n_dag st) (o_hash outcome);
                   dat = dag_data (n_dag st) (o_hash outcome)
               in Some (Some (JObject
                 [(''number'', JString (hex_u64 height)),
                  (''hash'', JString (hex_hash (o_hash outcome))),
                  (''parentHash'', JString (hex_hash (case (header, dat) of (Some _, Some d) \<Rightarrow> d_selected_parent d | _ \<Rightarrow> 0))),
                  (''nonce'', JString (hex_padded 16 (case header of None \<Rightarrow> 0 | Some h \<Rightarrow> unat (h_nonce h)))),
                  (''sha3Uncles'', JString (hex_hash (empty_root L))),
                  (''logsBloom'', JString (hex_bloom (fold (\<lambda>r acc. acc OR el_logs_bloom E (rc_logs r)) (o_receipts outcome) 0))),
                  (''transactionsRoot'', JString (hex_hash (case header of None \<Rightarrow> empty_root L | Some h \<Rightarrow> h_txs_root h))),
                  (''stateRoot'', JString (hex_hash (o_state_root outcome))),
                  (''receiptsRoot'', JString (hex_hash (o_receipts_root outcome))),
                  (''miner'', JString (hex_address (o_miner outcome))),
                  (''difficulty'', JString (hex_u256 (case header of None \<Rightarrow> 0 | Some h \<Rightarrow> header_difficulty h))),
                  (''totalDifficulty'', JString (hex_u256 (case dat of None \<Rightarrow> 0 | Some d \<Rightarrow> d_blue_work d))),
                  (''mixHash'', JString (hex_hash (o_hash outcome))),
                  (''extraData'', JString ''0x''),
                  (''size'', JString (hex_u64 0)),
                  (''gasLimit'', JString (hex limit)),
                  (''gasUsed'', JString (hex_u64 (o_gas_used outcome))),
                  (''timestamp'', JString (hex_u64 (o_timestamp_secs outcome))),
                  (''baseFeePerGas'', JString (hex_u64 (o_base_fee outcome))),
                  (''transactions'', JArray (block_transactions E R st outcome height full)),
                  (''uncles'', JArray []),
                  (''blueScore'', JString (hex (case header of None \<Rightarrow> 0 | Some _ \<Rightarrow> blue_score_at (n_dag st) (o_hash outcome))))]))))"

definition eth_get_block_by_number ::
  "('env, 'log, 'code) eth_lib \<Rightarrow> ('env, 'tx) raw_lib \<Rightarrow> ('tx, 'res, 'log, 'code) chain_lib \<Rightarrow> ('tx, 'log, 'code) node_state \<Rightarrow> json \<Rightarrow> bool option \<Rightarrow>
   (rpc_error + json option) option" where
  "eth_get_block_by_number E R L st block full =
     (case resolve_height E st (Some block) of Inl e \<Rightarrow> Some (Inl e)
      | Inr height \<Rightarrow> map_option Inr (render_block E R L st height (full = Some True)))"

definition eth_get_block_by_hash ::
  "('env, 'log, 'code) eth_lib \<Rightarrow> ('env, 'tx) raw_lib \<Rightarrow> ('tx, 'res, 'log, 'code) chain_lib \<Rightarrow> ('tx, 'log, 'code) node_state \<Rightarrow> block_hash \<Rightarrow>
   bool option \<Rightarrow> json option option" where
  "eth_get_block_by_hash E R L st h full =
     (case find (\<lambda>height. case result_at (n_executor st) height of None \<Rightarrow> False | Some r \<Rightarrow> o_hash r = h)
         (height_range 0 (e_height (n_executor st))) of
        None \<Rightarrow> Some None
      | Some height \<Rightarrow> render_block E R L st height (full = Some True))"

section \<open>Logs\<close>

definition parse_addresses :: "('env, 'log, 'code) eth_lib \<Rightarrow> json option \<Rightarrow> address list" where
  "parse_addresses E value =
     (case value of
        Some (JString one) \<Rightarrow> (case el_parse_address E one of None \<Rightarrow> [] | Some a \<Rightarrow> [a])
      | Some (JArray many) \<Rightarrow> List.map_filter (\<lambda>v. Option.bind (as_str v) (el_parse_address E)) many
      | _ \<Rightarrow> [])"

definition parse_topics :: "('env, 'log, 'code) eth_lib \<Rightarrow> json option \<Rightarrow> u256 list option list" where
  "parse_topics E value =
     (case value of
        Some (JArray positions) \<Rightarrow>
          map (\<lambda>position. case position of
              JString one \<Rightarrow> map_option (\<lambda>t. [t]) (el_parse_b256 E one)
            | JArray many \<Rightarrow> Some (List.map_filter (\<lambda>v. Option.bind (as_str v) (el_parse_b256 E)) many)
            | _ \<Rightarrow> None) positions
      | _ \<Rightarrow> [])"

fun topics_match :: "u256 list option list \<Rightarrow> u256 list \<Rightarrow> bool" where
  "topics_match [] actual = True"
| "topics_match (None # wanted) actual = topics_match wanted (tl actual)"
| "topics_match (Some allowed # wanted) [] = False"
| "topics_match (Some allowed # wanted) (topic # actual) = (topic \<in> set allowed \<and> topics_match wanted actual)"

definition MAX_RANGE :: u64 where "MAX_RANGE = 10000"

definition log_wanted :: "('env, 'log, 'code) eth_lib \<Rightarrow> address list \<Rightarrow> u256 list option list \<Rightarrow> 'log \<Rightarrow> bool" where
  "log_wanted E addresses topics log \<longleftrightarrow>
     (addresses = [] \<or> el_log_address E log \<in> set addresses) \<and> topics_match topics (el_log_topics E log)"

text \<open>One receipt's logs, with the index in the block that the code counts along.\<close>

fun scan_logs ::
  "('env, 'log, 'code) eth_lib \<Rightarrow> address list \<Rightarrow> u256 list option list \<Rightarrow> block_hash \<Rightarrow> u64 \<Rightarrow> u256 \<Rightarrow> nat \<Rightarrow> 'log list \<Rightarrow> nat \<times> json list \<Rightarrow> nat \<times> json list" where
  "scan_logs E addresses topics block height tx tx_index [] st = st"
| "scan_logs E addresses topics block height tx tx_index (log # logs) (log_index, out) =
     scan_logs E addresses topics block height tx tx_index logs
       (log_index + 1,
        if log_wanted E addresses topics log then out @ [render_log E block height tx tx_index log_index log] else out)"

definition block_logs ::
  "('env, 'log, 'code) eth_lib \<Rightarrow> address list \<Rightarrow> u256 list option list \<Rightarrow> ('log, 'code) executor \<Rightarrow> u64 \<Rightarrow> json list \<Rightarrow> json list" where
  "block_logs E addresses topics e height out =
     (case result_at e height of None \<Rightarrow> out
      | Some outcome \<Rightarrow>
          snd (fold (\<lambda>(tx_index, receipt).
              scan_logs E addresses topics (o_hash outcome) height
                (if tx_index < length (o_hashes outcome) then o_hashes outcome ! tx_index else 0) tx_index (rc_logs receipt))
            (enumerate 0 (o_receipts outcome)) (0, out)))"

definition eth_get_logs ::
  "('env, 'log, 'code) eth_lib \<Rightarrow> ('tx, 'log, 'code) node_state \<Rightarrow> json \<Rightarrow> rpc_error + json list" where
  "eth_get_logs E st filters =
     (let tip = backend_height st in
      case resolve_height E st (json_get filters ''fromBlock'') of Inl e \<Rightarrow> Inl e
      | Inr first \<Rightarrow>
          (case resolve_height E st (json_get filters ''toBlock'') of Inl e \<Rightarrow> Inl e
           | Inr final \<Rightarrow>
               let first = min first tip; final = min final tip in
               if first > final then Inl (invalid_params ''fromBlock is after toBlock'')
               else if final - first > MAX_RANGE
               then Inl (invalid_params (''block range '' @ el_value_text E (JNumber (PosInt (final - first))) @ '' exceeds the 10000 block limit''))
               else Inr (fold (block_logs E (parse_addresses E (json_get filters ''address'')) (parse_topics E (json_get filters ''topics''))
                      (n_executor st)) (height_range first final) [])))"

end
