(* ===== verification/Eth_Props.thy ===== *)
theory Eth_Props
  imports Eth Node_Props
begin

text \<open>
  What an Ethereum client can rely on: numbers and hashes name the same blocks, the parent hashes link them down to
  genesis, and a log query returns exactly the logs it describes.
\<close>

section \<open>Results by height\<close>

lemma trail_defined:
  assumes base: "base_ok L D window (new_executor L p s0 g)" and "trail L dag bodies (new_executor L p s0 g) bs e" "length bs < 2 ^ 64"
  shows "e_results e h \<noteq> None \<longleftrightarrow> unat h \<le> length bs"
    and "\<forall>out. e_results e 0 = Some out \<longrightarrow> o_hash out = g"
proof -
  have "(e_results e h \<noteq> None \<longleftrightarrow> unat h \<le> length bs) \<and> (\<forall>out. e_results e 0 = Some out \<longrightarrow> o_hash out = g)" for h
    using assms(2,3)
  proof (induction arbitrary: h rule: trail.induct)
    case start
    show ?case by (auto simp: new_executor_def unat_eq_0)
  next
    case (step bs e b out e1)
    have r: "e_results e1 = (e_results e)(e_height e + 1 \<mapsto> out)" by (rule execute_chain_block_ok[OF step.hyps(2)])
    have H: "unat (e_height e) = length bs" using trail_facts[OF base step.hyps(1)] step.prems by simp
    have top: "unat (e_height e + 1) = length bs + 1" using unat_succ[OF below_top[of "e_height e"]] H step.prems by simp
    then have "h = e_height e + 1 \<longleftrightarrow> unat h = length bs + 1" for h by (auto simp: word_unat_eq_iff)
    moreover have "e_height e + 1 \<noteq> 0" using top by auto
    ultimately show ?case using step.IH step.prems by (auto simp: r le_Suc_eq)
  qed
  then show "e_results e h \<noteq> None \<longleftrightarrow> unat h \<le> length bs" "\<forall>out. e_results e 0 = Some out \<longrightarrow> o_hash out = g" by blast+
qed

lemma node_params: "node_reachable hash R L V p genesis s0 k st \<Longrightarrow> n_params st = p"
  by (induction rule: node_reachable.induct)
    (auto simp: new_backend_def submit_raw_def backend_add_block_def advance_def Let_def split: option.splits sum.splits prod.splits if_splits)

abbreviation node_chain :: "('tx, 'log, 'code) node_state \<Rightarrow> block_hash list" where
  "node_chain st \<equiv> selected_parent_chain (n_dag st) (virtual_selected_parent (n_dag st))"

text \<open>The result at a height is that of the block at this place of the selected chain, counted from genesis.\<close>

lemma results_on_chain:
  assumes "validate_params p = Some (Inr ())" and "evm_law D L" and "coded D s0"
    and "node_reachable hash R L V p genesis s0 k st"
  shows "length (node_chain st) = unat (backend_height st) + 1"
    and "result_at (n_executor st) h \<noteq> None \<longleftrightarrow> unat h < length (node_chain st)"
    and "result_at (n_executor st) h = Some out \<Longrightarrow> o_hash out = rev (node_chain st) ! unat h"
proof -
  obtain window where base: "base_ok L D window (new_executor L p s0 (hash genesis))" by (rule base_ok_new[OF assms(1-3)])
  let ?tip = "virtual_selected_parent (n_dag st)"
  note nok = node_reachable_ok[OF base assms(4)]
  obtain eS where ok: "dag_ok hash (n_dag st)" and tip: "e_tip (n_executor st) = ?tip"
    and tr: "tracked L (n_dag st) (n_bodies st) (new_executor L p s0 (hash genesis)) D window (chain_above (n_dag st) ?tip) eS (n_executor st)"
    using nok reachable_ok by (auto simp: node_ok_def following_def)
  have "dag_reachable hash genesis k (mergeset_size_limit p) (n_dag st)" using nok by (simp add: node_ok_def)
  then have gen: "s_genesis (n_dag st) = hash genesis" by (simp add: reachable_limits)
  note shape = selected_parent_chain_shape[OF dag_okD(1,2)[OF ok] virtual_selected_parent_in[OF ok]]
  then have split: "node_chain st = chain_above (n_dag st) ?tip @ [hash genesis]" using gen by (metis append_butlast_last_id)
  have "2 * dag_len (n_dag st) \<le> MAX_REORG_WALK" using nok by (simp add: node_ok_def)
  then have len: "length (chain_above (n_dag st) ?tip) < 2 ^ 64"
    using chain_length[OF ok virtual_selected_parent_in[OF ok]] by (simp add: MAX_REORG_WALK_def)
  note trail = tracked_same(4)[OF tr]
  have same: "e_results (n_executor st) = e_results eS" "e_height (n_executor st) = e_height eS"
    using tracked_same(1)[OF tr] by (simp_all add: same_chain_def)
  show "length (node_chain st) = unat (backend_height st) + 1"
  proof -
    have "unat (e_height eS) = length (chain_above (n_dag st) ?tip)" using trail_facts[OF base trail len] by blast
    moreover have "length (node_chain st) = length (chain_above (n_dag st) ?tip) + 1" using shape by (simp add: Suc_leI)
    ultimately show ?thesis unfolding backend_height_def same(2) by (simp only:)
  qed
  show "result_at (n_executor st) h \<noteq> None \<longleftrightarrow> unat h < length (node_chain st)"
    using trail_defined(1)[OF base trail len, of h] shape same(1) by (cases "node_chain st") (simp_all add: result_at_def less_Suc_eq_le)
  assume out: "result_at (n_executor st) h = Some out"
  show "o_hash out = rev (node_chain st) ! unat h"
  proof (cases "unat h = 0")
    case True
    then have "h = 0" by (simp add: unat_eq_0)
    moreover have "rev (node_chain st) ! 0 = hash genesis" using shape gen by (metis hd_conv_nth hd_rev rev_is_Nil_conv)
    ultimately show ?thesis using trail_defined(2)[OF base trail len] out same(1) by (simp add: result_at_def)
  next
    case False
    have "unat h \<le> length (chain_above (n_dag st) ?tip)"
      using trail_defined(1)[OF base trail len, of h] out same(1) by (simp add: result_at_def)
    with False have "o_hash out = rev (chain_above (n_dag st) ?tip) ! (unat h - 1)"
      using trail_outcome[OF base trail len _ _, of h out] out same(1) by (simp add: result_at_def)
    moreover have "rev (node_chain st) = hash genesis # rev (chain_above (n_dag st) ?tip)"
      using arg_cong[OF split, of rev] by (simp only: rev_append rev_singleton_conv rev.simps append.simps)
    ultimately show ?thesis using False by (simp only: nth_Cons' if_False)
  qed
qed

lemma node_chain_shape:
  assumes "validate_params p = Some (Inr ())" and "evm_law D L" and "coded D s0"
    and "node_reachable hash R L V p genesis s0 k st"
  shows "topology_ok (n_dag st)" "distinct (node_chain st)" "set (node_chain st) \<subseteq> blocks (n_dag st)"
    "successively (\<lambda>x y. y = selected_parent_of (n_dag st) x) (node_chain st)"
proof -
  obtain window where base: "base_ok L D window (new_executor L p s0 (hash genesis))" by (rule base_ok_new[OF assms(1-3)])
  from node_reachable_ok[OF base assms(4)] reachable_ok have ok: "dag_ok hash (n_dag st)" by (auto simp: node_ok_def)
  note shape = selected_parent_chain_shape[OF dag_okD(1,2)[OF ok] virtual_selected_parent_in[OF ok]]
  then show "distinct (node_chain st)" "set (node_chain st) \<subseteq> blocks (n_dag st)" by auto
  show "topology_ok (n_dag st)" using dag_okD(1)[OF ok] .
  show "successively (\<lambda>x y. y = selected_parent_of (n_dag st) x) (node_chain st)"
    using shape by (auto elim!: successively_mono)
qed

section \<open>Blocks\<close>

lemma unat_u64: "unat (w :: u64) < 2 ^ 64"
  using unsigned_less[of w, where 'a = nat] by simp

lemma find_unique:
  assumes "x \<in> set xs" "P x" "\<And>y. P y \<Longrightarrow> y = x"
  shows "find P xs = Some x"
proof -
  obtain y where "find P xs = Some y" using assms(1,2) by (cases "find P xs") (auto simp: find_None_iff)
  moreover then have "P y" by (auto simp: find_Some_iff)
  ultimately show ?thesis using assms(3) by blast
qed

lemma hex_not_tag: "hex n \<notin> {''latest'', ''pending'', ''safe'', ''finalized''}" "hex n \<noteq> ''earliest''"
  by (auto simp: hex_def)

lemma resolve_hex:
  "resolve_height E st (Some (JString (hex_u64 h))) = Inr h"
  "resolve_height E st (Some (JObject [(''blockNumber'', JString (hex_u64 h))])) = Inr h"
  "resolve_height E st (Some (JNumber (PosInt h))) = Inr h"
proof -
  have "from_str_radix_16 (trim_0x (hex (unat h))) = Some h" using from_str_hex[OF unat_u64[of h]] by simp
  then show "resolve_height E st (Some (JString (hex_u64 h))) = Inr h"
    "resolve_height E st (Some (JObject [(''blockNumber'', JString (hex_u64 h))])) = Inr h"
    using hex_not_tag[of "unat h"] by (simp_all add: resolve_height_def hex_u64_def)
qed (simp add: resolve_height_def)

lemma height_range_set: "x \<in> set (height_range a b) \<longleftrightarrow> a \<le> x \<and> x \<le> b"
proof
  assume "x \<in> set (height_range a b)"
  then obtain n where n: "x = of_nat n" "unat a \<le> n" "n \<le> unat b" by (auto simp: height_range_def)
  then have "unat x = n" using unat_u64[of b] by (simp add: unat_of_nat take_bit_eq_mod)
  with n show "a \<le> x \<and> x \<le> b" by (simp add: word_le_nat_alt)
next
  assume "a \<le> x \<and> x \<le> b"
  then have "unat x \<in> set [unat a ..< Suc (unat b)]" by (auto simp: word_le_nat_alt)
  then show "x \<in> set (height_range a b)" unfolding height_range_def list.set_map by (rule rev_image_eqI) simp
qed

lemma render_linked:
  assumes "validate_params p = Some (Inr ())" and "evm_law D L" and "coded D s0"
    and "node_reachable hash N L V p genesis s0 k st" and n: "unat n < length (node_chain st)"
  shows "\<exists>b. render_block E R L st n full = Some (Some b) \<and> json_get b ''number'' = Some (JString (hex_u64 n)) \<and>
      json_get b ''hash'' = Some (JString (hex_hash (rev (node_chain st) ! unat n))) \<and>
      (0 < unat n \<longrightarrow> json_get b ''parentHash'' = Some (JString (hex_hash (rev (node_chain st) ! (unat n - 1)))))"
proof -
  note res = results_on_chain[OF assms(1-4)] and shape = node_chain_shape[OF assms(1-4)]
  obtain limit where limit: "block_gas_limit (n_params st) = Some limit"
    using derived_values(3)[OF assms(1) refl] node_params[OF assms(4)] by simp
  obtain out where out: "result_at (n_executor st) n = Some out" "o_hash out = rev (node_chain st) ! unat n"
    using res(2)[of n] res(3)[of n] n by auto
  let ?x = "rev (node_chain st) ! unat n" and ?i = "length (node_chain st) - 1 - unat n"
  have "(case (dag_header (n_dag st) (o_hash out), dag_data (n_dag st) (o_hash out)) of (Some _, Some d) \<Rightarrow> d_selected_parent d | _ \<Rightarrow> 0) =
      rev (node_chain st) ! (unat n - 1)" if "0 < unat n"
  proof -
    have x: "?x = node_chain st ! ?i" "rev (node_chain st) ! (unat n - 1) = node_chain st ! Suc ?i"
      using that n by (simp_all add: rev_nth Suc_diff_Suc)
    have "?x \<in> set (rev (node_chain st))" using n by (intro nth_mem) simp
    then have d: "?x \<in> blocks (n_dag st)" using shape by auto
    have "node_chain st ! Suc ?i = selected_parent_of (n_dag st) (node_chain st ! ?i)"
      using shape that n by (auto simp: successively_conv_nth)
    with x have sp: "rev (node_chain st) ! (unat n - 1) = selected_parent_of (n_dag st) ?x" by simp
    from header_of_block[OF d] data_of_block[OF _ d] shape obtain hd dt where
      "dag_header (n_dag st) ?x = Some hd" "dag_data (n_dag st) ?x = Some dt" by (auto simp: dag_header_def dag_data_def)
    then show ?thesis using sp out(2) by (simp add: selected_parent_of_def dag_data_def)
  qed
  then show ?thesis by (simp add: render_block_def out limit Let_def)
qed

lemma block_by_hash:
  assumes "validate_params p = Some (Inr ())" and "evm_law D L" and "coded D s0"
    and "node_reachable hash N L V p genesis s0 k st"
  shows "h \<notin> set (node_chain st) \<Longrightarrow> eth_get_block_by_hash E R L st h (Some full) = Some None"
    and "unat n < length (node_chain st) \<Longrightarrow>
      eth_get_block_by_hash E R L st (rev (node_chain st) ! unat n) (Some full) = render_block E R L st n full"
proof -
  note res = results_on_chain[OF assms] and shape = node_chain_shape[OF assms]
  have at: "(case result_at (n_executor st) n of None \<Rightarrow> False | Some r \<Rightarrow> o_hash r = h) \<longleftrightarrow>
      unat n < length (node_chain st) \<and> rev (node_chain st) ! unat n = h" for n h
    using res(2,3)[of n] by (auto split: option.split)
  have byhash: "eth_get_block_by_hash E R L st h (Some full) =
      (case find (\<lambda>n. unat n < length (node_chain st) \<and> rev (node_chain st) ! unat n = h) (height_range 0 (backend_height st)) of
         None \<Rightarrow> Some None | Some n \<Rightarrow> render_block E R L st n full)" for h
    unfolding at[symmetric] by (simp add: eth_get_block_by_hash_def backend_height_def split: option.split)
  { assume "h \<notin> set (node_chain st)"
    then have "\<not> (unat n < length (node_chain st) \<and> rev (node_chain st) ! unat n = h)" for n using nth_mem[of "unat n" "rev (node_chain st)"] by auto
    then have "find (\<lambda>n. unat n < length (node_chain st) \<and> rev (node_chain st) ! unat n = h) (height_range 0 (backend_height st)) = None"
      by (auto simp add: find_None_iff)
    then show "eth_get_block_by_hash E R L st h (Some full) = Some None" by (simp only: byhash option.case) }
  assume n: "unat n < length (node_chain st)"
  have "m = n" if "unat m < length (node_chain st)" "rev (node_chain st) ! unat m = rev (node_chain st) ! unat n" for m
  proof -
    have "unat m = unat n" using that n shape nth_eq_iff_index_eq[of "rev (node_chain st)" "unat m" "unat n"] by simp
    then show ?thesis by (simp add: word_unat_eq_iff)
  qed
  moreover have "n \<in> set (height_range 0 (backend_height st))" using n res(1) by (simp add: height_range_set word_le_nat_alt)
  ultimately have "find (\<lambda>m. unat m < length (node_chain st) \<and> rev (node_chain st) ! unat m = rev (node_chain st) ! unat n)
      (height_range 0 (backend_height st)) = Some n"
    using n by (intro find_unique) auto
  then show "eth_get_block_by_hash E R L st (rev (node_chain st) ! unat n) (Some full) = render_block E R L st n full"
    by (simp only: byhash option.case)
qed

text \<open>
  C6: A client can walk the chain. On every state a node reaches and for every height up to the one it reports, in
  whichever form the client writes it: the block of that number and the block of its hash are the same answer, it
  carries the number and the hash of the selected chain's block at that place, and above genesis its parent
  hash is the hash of the block one below. Beyond that height there is no block, and no hash outside the
  selected chain names one.
\<close>

theorem eth_blocks_linked:
  assumes "validate_params p = Some (Inr ())" and "evm_law D L" and "coded D s0"
    and "node_reachable hash N L V p genesis s0 k st"
  shows "(\<forall>n. unat n < length (node_chain st) \<longrightarrow>
      (\<exists>b. eth_get_block_by_number E R L st (JString (hex_u64 n)) (Some full) = Some (Inr (Some b)) \<and>
        eth_get_block_by_number E R L st (JNumber (PosInt n)) (Some full) = Some (Inr (Some b)) \<and>
        eth_get_block_by_hash E R L st (rev (node_chain st) ! unat n) (Some full) = Some (Some b) \<and>
        json_get b ''number'' = Some (JString (hex_u64 n)) \<and>
        json_get b ''hash'' = Some (JString (hex_hash (rev (node_chain st) ! unat n))) \<and>
        (0 < unat n \<longrightarrow> json_get b ''parentHash'' = Some (JString (hex_hash (rev (node_chain st) ! (unat n - 1))))))) \<and>
    (\<forall>n. unat n \<ge> length (node_chain st) \<longrightarrow> eth_get_block_by_number E R L st (JString (hex_u64 n)) (Some full) = Some (Inr None)) \<and>
    (\<forall>h. h \<notin> set (node_chain st) \<longrightarrow> eth_get_block_by_hash E R L st h (Some full) = Some None) \<and>
    eth_block_number st = hex (length (node_chain st) - 1)"
proof -
  note res = results_on_chain[OF assms]
  have num: "eth_get_block_by_number E R L st (JString (hex_u64 n)) (Some full) = map_option Inr (render_block E R L st n full)"
    "eth_get_block_by_number E R L st (JNumber (PosInt n)) (Some full) = map_option Inr (render_block E R L st n full)" for n
    by (simp_all add: eth_get_block_by_number_def resolve_hex)
  have "render_block E R L st n full = Some None" if "unat n \<ge> length (node_chain st)" for n
    using res(2)[of n] that by (simp add: render_block_def not_less)
  moreover have "eth_block_number st = hex (length (node_chain st) - 1)" using res(1) by (simp add: eth_block_number_def hex_u64_def)
  moreover have "\<exists>b. eth_get_block_by_number E R L st (JString (hex_u64 n)) (Some full) = Some (Inr (Some b)) \<and>
        eth_get_block_by_number E R L st (JNumber (PosInt n)) (Some full) = Some (Inr (Some b)) \<and>
        eth_get_block_by_hash E R L st (rev (node_chain st) ! unat n) (Some full) = Some (Some b) \<and>
        json_get b ''number'' = Some (JString (hex_u64 n)) \<and>
        json_get b ''hash'' = Some (JString (hex_hash (rev (node_chain st) ! unat n))) \<and>
        (0 < unat n \<longrightarrow> json_get b ''parentHash'' = Some (JString (hex_hash (rev (node_chain st) ! (unat n - 1)))))"
    if "unat n < length (node_chain st)" for n
  proof -
    from render_linked[OF assms that] obtain b where b: "render_block E R L st n full = Some (Some b)" "json_get b ''number'' = Some (JString (hex_u64 n))"
      "json_get b ''hash'' = Some (JString (hex_hash (rev (node_chain st) ! unat n)))"
      "0 < unat n \<longrightarrow> json_get b ''parentHash'' = Some (JString (hex_hash (rev (node_chain st) ! (unat n - 1))))" by blast
    then show ?thesis unfolding num block_by_hash(2)[OF assms that] b(1) by simp
  qed
  moreover have "eth_get_block_by_hash E R L st h (Some full) = Some None" if "h \<notin> set (node_chain st)" for h
    by (rule block_by_hash(1)[OF assms that])
  ultimately show ?thesis by (simp add: num)
qed

section \<open>Logs\<close>

text \<open>The logs of a block with the index of their transaction and their own index in the block.\<close>

definition log_entries :: "'log chain_outcome \<Rightarrow> (nat \<times> nat \<times> 'log) list" where
  "log_entries out = enumerate 0 (concat (map (\<lambda>(i, r). map (Pair i) (rc_logs r)) (enumerate 0 (o_receipts out))))"

definition outcome_tx :: "'log chain_outcome \<Rightarrow> nat \<Rightarrow> u256" where
  "outcome_tx out i = (if i < length (o_hashes out) then o_hashes out ! i else 0)"

definition matching_logs ::
  "('env, 'log, 'code) eth_lib \<Rightarrow> address list \<Rightarrow> u256 list option list \<Rightarrow> ('log, 'code) executor \<Rightarrow> u64 \<Rightarrow> json list" where
  "matching_logs E addresses topics e height =
     (case result_at e height of None \<Rightarrow> []
      | Some out \<Rightarrow>
          map (\<lambda>(log_index, i, log). render_log E (o_hash out) height (outcome_tx out i) i log_index log)
            (filter (\<lambda>(_, _, log). log_wanted E addresses topics log) (log_entries out)))"

lemma scan_logs_entries:
  "scan_logs E A T b h tx i logs (n, out) =
     (n + length logs, out @ map (\<lambda>(li, log). render_log E b h tx i li log) (filter (\<lambda>(_, log). log_wanted E A T log) (enumerate n logs)))"
  by (induction logs arbitrary: n out) simp_all

lemma receipts_scan:
  "fold (\<lambda>(i, r). scan_logs E A T b h (f i) i (rc_logs r)) irs (n, out) =
     (n + length (concat (map (\<lambda>(i, r). rc_logs r) irs)),
      out @ map (\<lambda>(li, i, log). render_log E b h (f i) i li log)
        (filter (\<lambda>(_, _, log). log_wanted E A T log) (enumerate n (concat (map (\<lambda>(i, r). map (Pair i) (rc_logs r)) irs)))))"
proof (induction irs arbitrary: n out)
  case (Cons ir irs)
  obtain i r where ir: "ir = (i, r)" by fastforce
  have "map (\<lambda>(li, log). render_log E b h (f i) i li log) (filter (\<lambda>(_, log). log_wanted E A T log) (enumerate n logs)) =
      map (\<lambda>(li, i, log). render_log E b h (f i) i li log) (filter (\<lambda>(_, _, log). log_wanted E A T log) (enumerate n (map (Pair i) logs)))" for logs
    by (induction logs arbitrary: n) simp_all
  then show ?case by (simp add: Cons.IH scan_logs_entries ir enumerate_append_eq add.assoc)
qed simp

lemma block_logs_matching: "block_logs E A T e h out = out @ matching_logs E A T e h"
  by (auto simp: block_logs_def matching_logs_def log_entries_def outcome_tx_def receipts_scan split: option.split)

lemma all_block_logs: "fold (block_logs E A T e) hs out = out @ concat (map (matching_logs E A T e) hs)"
  by (induction hs arbitrary: out) (simp_all add: block_logs_matching)


text \<open>
  Two readings that differ from what a client expects. An address that does not parse filters nothing, and the log index in
  a receipt counts within the transaction where the one in a log query counts within the block.
\<close>

lemma unreadable_address_filters_nothing:
  "el_parse_address E text = None \<Longrightarrow> parse_addresses E (Some (JString text)) = parse_addresses E None"
  by (simp add: parse_addresses_def)

lemma log_index_disagrees:
  assumes "result_at e h = Some out" "o_receipts out = [r0, r1]" "rc_logs r0 = [l0]" "rc_logs r1 = [l1]"
  shows "matching_logs E [] [] e h =
      [render_log E (o_hash out) h (outcome_tx out 0) 0 0 l0, render_log E (o_hash out) h (outcome_tx out 1) 1 1 l1] \<and>
    map (\<lambda>(i, log). render_log E (o_hash out) h (outcome_tx out 1) 1 i log) (enumerate 0 (rc_logs r1)) =
      [render_log E (o_hash out) h (outcome_tx out 1) 1 0 l1]"
  using assms by (simp add: matching_logs_def log_entries_def log_wanted_def)

section \<open>A small chain\<close>

definition toy_eth :: "(unit, unit, nat) eth_lib" where
  "toy_eth = \<lparr>el_parse_address = (\<lambda>_. None), el_parse_b256 = (\<lambda>_. None), el_log_address = (\<lambda>_. 9), el_log_topics = (\<lambda>_. [4]),
     el_log_data = (\<lambda>_. []), el_logs_bloom = (\<lambda>_. 0), el_hash = (\<lambda>_. 0), el_nonce = (\<lambda>_. 0), el_kind = (\<lambda>_. None), el_value = (\<lambda>_. 0),
     el_gas_limit = (\<lambda>_. 0), el_max_fee = (\<lambda>_. 0), el_max_priority_fee = (\<lambda>_. None), el_input = (\<lambda>_. []), el_chain_id = (\<lambda>_. None),
     el_type = (\<lambda>_. 2), el_create = (\<lambda>_ _. 0), el_original_bytes = (\<lambda>_. []), el_call = (\<lambda>_ _ _ _. Inl ''no''),
     el_ratio = (\<lambda>_ _. JNull), el_error_text = (\<lambda>_. ''refused''), el_value_text = (\<lambda>_. [])\<rparr>"

theorem eth_blocks_linked_witness:
  "toy_reachable node0 \<and> eth_block_number node0 = ''0x0'' \<and>
   (\<exists>b. eth_get_block_by_number toy_eth toy_raw toy_lib node0 (JNumber (PosInt 0)) (Some False) = Some (Inr (Some b)) \<and>
      eth_get_block_by_hash toy_eth toy_raw toy_lib node0 0 (Some False) = Some (Some b) \<and> json_get b ''number'' = Some (JString ''0x0'')) \<and>
   eth_get_block_by_hash toy_eth toy_raw toy_lib node0 77 (Some False) = Some None"
proof -
  have "selected_parent_chain (ex_dag 2 180 []) (virtual_selected_parent (ex_dag 2 180 [])) = [0]" by code_simp
  then have chain: "node_chain node0 = [0]" by (simp add: node0_fields)
  have zero: "hex 0 = ''0x0''" "hex_u64 0 = ''0x0''" by code_simp+
  note linked = eth_blocks_linked[OF toy_base node0_reachable, where E = toy_eth and R = toy_raw and full = False]
  from linked have "eth_block_number node0 = hex (length (node_chain node0) - 1)" by blast
  moreover from linked have "unat (0 :: u64) < length (node_chain node0) \<longrightarrow>
      (\<exists>b. eth_get_block_by_number toy_eth toy_raw toy_lib node0 (JNumber (PosInt 0)) (Some False) = Some (Inr (Some b)) \<and>
        eth_get_block_by_hash toy_eth toy_raw toy_lib node0 (rev (node_chain node0) ! unat (0 :: u64)) (Some False) = Some (Some b) \<and>
        json_get b ''number'' = Some (JString (hex_u64 0)))" by blast
  moreover from linked have "77 \<notin> set (node_chain node0) \<longrightarrow> eth_get_block_by_hash toy_eth toy_raw toy_lib node0 77 (Some False) = Some None" by blast
  ultimately show ?thesis using node0_reachable by (simp add: chain zero)
qed

text \<open>Two transactions of one block with one log each.\<close>

definition ex_logs_node :: "(toy_tx, unit, nat) node_state" where
  "ex_logs_node = node0\<lparr>n_executor := (n_executor node0)\<lparr>e_results := [0 \<mapsto>
     \<lparr>o_height = 0, o_hash = 3, o_state_root = 0, o_receipts_root = 0, o_gas_used = 0, o_base_fee = 0, o_executed = 2, o_deferred = 0,
      o_hashes = [5, 6], o_receipts = [\<lparr>rc_status = True, rc_cumulative_gas = 1, rc_logs = [()]\<rparr>, \<lparr>rc_status = True, rc_cumulative_gas = 2, rc_logs = [()]\<rparr>],
      o_timestamp_secs = 0, o_miner = 0\<rparr>]\<rparr>\<rparr>"


end
