(* ===== verification/Peer.thy ===== *)
theory Peer
  imports Btree_Map
begin

text \<open>
  Peer state and scoring, \<open>crates/net/src/peer.rs\<close>. A score is an \<open>i32\<close>: a 32-bit word read with
  \<open>sint\<close>. The two hash sets of a peer are lists without repetition, of which the code uses
  insertion, membership and size.
\<close>

type_synonym peer_id = u64
type_synonym i32 = "32 word"

definition saturating_sub_i32 :: "i32 \<Rightarrow> i32 \<Rightarrow> i32" where
  "saturating_sub_i32 a b = word_of_int (max (- (2 ^ 31)) (min (2 ^ 31 - 1) (sint a - sint b)))"

definition min_i32 :: "i32 \<Rightarrow> i32 \<Rightarrow> i32" where
  "min_i32 a b = (if sint a \<le> sint b then a else b)"

definition INITIAL_SCORE :: i32 where "INITIAL_SCORE = 100"
definition BAN_THRESHOLD :: i32 where "BAN_THRESHOLD = 0"
definition MAX_SCORE :: i32 where "MAX_SCORE = 200"
definition KNOWN_BLOCKS_CAP :: nat where "KNOWN_BLOCKS_CAP = 8192"

lemmas score_consts = INITIAL_SCORE_def BAN_THRESHOLD_def MAX_SCORE_def

datatype misbehaviour =
    MalformedMessage
  | WrongVersion
  | WrongGenesis
  | OutOfOrder
  | InvalidBlock
  | UnsolicitedBlock
  | IrrelevantResponse

fun penalty :: "misbehaviour \<Rightarrow> i32" where
  "penalty MalformedMessage = INITIAL_SCORE"
| "penalty WrongVersion = INITIAL_SCORE"
| "penalty WrongGenesis = INITIAL_SCORE"
| "penalty InvalidBlock = 50"
| "penalty OutOfOrder = 25"
| "penalty IrrelevantResponse = 10"
| "penalty UnsolicitedBlock = 1"

datatype handshake = New | VersionExchanged | Ready

record peer_state =
  ps_id :: peer_id
  ps_handshake :: handshake
  ps_score :: i32
  ps_known_blocks :: "block_hash list"
  ps_in_flight :: "block_hash list"
  ps_blocks_delivered :: u64

definition new_peer :: "peer_id \<Rightarrow> peer_state" where
  "new_peer i = \<lparr>ps_id = i, ps_handshake = New, ps_score = INITIAL_SCORE, ps_known_blocks = [], ps_in_flight = [],
     ps_blocks_delivered = 0\<rparr>"

definition is_ready :: "peer_state \<Rightarrow> bool" where "is_ready p \<longleftrightarrow> ps_handshake p = Ready"

text \<open>The new state, and whether the peer should now be disconnected.\<close>

definition peer_penalise :: "misbehaviour \<Rightarrow> peer_state \<Rightarrow> bool \<times> peer_state" where
  "peer_penalise what p =
     (let p = p\<lparr>ps_score := saturating_sub_i32 (ps_score p) (penalty what)\<rparr> in (sint (ps_score p) \<le> sint BAN_THRESHOLD, p))"

definition peer_reward :: "i32 \<Rightarrow> peer_state \<Rightarrow> peer_state" where
  "peer_reward amount p = p\<lparr>ps_score := min_i32 (ps_score p + amount) MAX_SCORE\<rparr>"

definition note_known :: "block_hash \<Rightarrow> peer_state \<Rightarrow> peer_state" where
  "note_known h p =
     (let p = (if length (ps_known_blocks p) \<ge> KNOWN_BLOCKS_CAP then p\<lparr>ps_known_blocks := []\<rparr> else p)
      in p\<lparr>ps_known_blocks := List.insert h (ps_known_blocks p)\<rparr>)"

section \<open>A peer's state stays in bounds\<close>

text \<open>Scores stay between the worst that saturation allows and the ceiling; the known set is a set within its cap.\<close>

definition peer_ok :: "peer_state \<Rightarrow> bool" where
  "peer_ok p \<longleftrightarrow> sint (ps_score p) \<le> 200 \<and> distinct (ps_known_blocks p) \<and> length (ps_known_blocks p) \<le> KNOWN_BLOCKS_CAP \<and>
     ps_in_flight p = []"

lemma sint_saturating_sub:
  "sint (saturating_sub_i32 a b) = max (- (2 ^ 31)) (min (2 ^ 31 - 1) (sint a - sint b))"
  by (simp add: saturating_sub_i32_def signed_of_int signed_take_bit_int_eq_self)

lemma penalty_pos: "0 < sint (penalty m)" "sint (penalty m) \<le> 100"
  by (cases m; simp add: score_consts)+

lemma new_peer_ok: "peer_ok (new_peer i)"
  by (simp add: peer_ok_def new_peer_def score_consts)

lemma penalise_ok:
  assumes "peer_ok p"
  shows "peer_ok (snd (peer_penalise m p))" "sint (ps_score (snd (peer_penalise m p))) < sint (ps_score p) \<or>
    sint (ps_score (snd (peer_penalise m p))) = - (2 ^ 31)"
    "fst (peer_penalise m p) \<longleftrightarrow> sint (ps_score p) \<le> sint (penalty m)"
  using assms penalty_pos[of m] by (auto simp: peer_penalise_def Let_def sint_saturating_sub peer_ok_def score_consts)

lemma reward_ok:
  assumes "peer_ok p"
  shows "peer_ok (peer_reward 1 p)"
    and "sint (ps_score (peer_reward 1 p)) = min (sint (ps_score p) + 1) 200"
proof -
  have "sint (ps_score p) \<le> 200" using assms by (simp add: peer_ok_def)
  moreover have "- (2 ^ 31) \<le> sint (ps_score p)" using sint_greater_eq[of "ps_score p"] by simp
  ultimately have "sint (ps_score p + 1) = sint (ps_score p) + 1"
    by (subst sint_word_ariths) (simp add: signed_take_bit_int_eq_self)
  then show "sint (ps_score (peer_reward 1 p)) = min (sint (ps_score p) + 1) 200"
    by (simp add: peer_reward_def min_i32_def score_consts)
  with assms show "peer_ok (peer_reward 1 p)" by (simp add: peer_ok_def) (simp add: peer_reward_def)
qed

lemma note_known_ok:
  assumes "peer_ok p"
  shows "peer_ok (note_known h p)" "h \<in> set (ps_known_blocks (note_known h p))"
  using assms by (auto simp: note_known_def peer_ok_def Let_def KNOWN_BLOCKS_CAP_def List.insert_def)

lemma note_known_fields [simp]:
  "ps_id (note_known h p) = ps_id p" "ps_handshake (note_known h p) = ps_handshake p" "ps_score (note_known h p) = ps_score p"
  by (simp_all add: note_known_def Let_def)

end
