(* ===== verification/Message.thy ===== *)
theory Message
  imports Header "HOL-Library.Countable"
begin

text \<open>
  The wire protocol, \<open>crates/net/src/message.rs\<close>: the messages, their tags and limits, encoding and
  decoding. The RLP encoding of the payloads is \<open>alloy_rlp\<close>'s and a parameter; what the code relies
  on is \<open>rlp_law\<close>: a decoder reads back exactly what the encoder wrote and leaves the rest.
\<close>

type_synonym octet = "8 word"

section \<open>Messages\<close>

definition PROTOCOL_VERSION :: u32 where "PROTOCOL_VERSION = 1"
definition MAX_INV_ENTRIES :: nat where "MAX_INV_ENTRIES = 512"
definition MAX_BLOCK_BATCH :: nat where "MAX_BLOCK_BATCH = 128"
definition MAX_TXS_PER_BLOCK :: nat where "MAX_TXS_PER_BLOCK = 8192"

record block_payload =
  bp_header :: header
  bp_transactions :: "octet list list"

definition empty_payload :: "header \<Rightarrow> block_payload" where
  "empty_payload h = \<lparr>bp_header = h, bp_transactions = []\<rparr>"

definition payload_hash :: "(header \<Rightarrow> block_hash) \<Rightarrow> block_payload \<Rightarrow> block_hash" where
  "payload_hash hash b = hash (bp_header b)"

datatype message =
    Version u32 block_hash "block_hash list"
  | Verack
  | Ping u64
  | Pong u64
  | GetTips
  | Tips "block_hash list"
  | InvBlocks "block_hash list"
  | GetBlocks "block_hash list"
  | Blocks "block_payload list"
  | InvTxs "block_hash list"
  | GetTxs "block_hash list"

fun message_tag :: "message \<Rightarrow> octet" where
  "message_tag (Version _ _ _) = 0x01"
| "message_tag Verack = 0x02"
| "message_tag (Ping _) = 0x03"
| "message_tag (Pong _) = 0x04"
| "message_tag GetTips = 0x05"
| "message_tag (Tips _) = 0x06"
| "message_tag (InvBlocks _) = 0x07"
| "message_tag (GetBlocks _) = 0x08"
| "message_tag (Blocks _) = 0x09"
| "message_tag (InvTxs _) = 0x0a"
| "message_tag (GetTxs _) = 0x0b"

fun message_name :: "message \<Rightarrow> string" where
  "message_name (Version _ _ _) = ''version''"
| "message_name Verack = ''verack''"
| "message_name (Ping _) = ''ping''"
| "message_name (Pong _) = ''pong''"
| "message_name GetTips = ''gettips''"
| "message_name (Tips _) = ''tips''"
| "message_name (InvBlocks _) = ''invblocks''"
| "message_name (GetBlocks _) = ''getblocks''"
| "message_name (Blocks _) = ''blocks''"
| "message_name (InvTxs _) = ''invtxs''"
| "message_name (GetTxs _) = ''gettxs''"

record version_payload =
  vp_version :: u32
  vp_genesis :: block_hash
  vp_tips :: "block_hash list"

datatype codec_error =
    CodecEmpty
  | UnknownTag octet
  | CodecRlp string
  | TooManyEntries string nat nat
  | TrailingBytes nat

section \<open>The codec\<close>

record rlp_lib =
  rlp_u64 :: "u64 \<Rightarrow> octet list"
  unrlp_u64 :: "octet list \<Rightarrow> string + u64 \<times> octet list"
  rlp_hashes :: "block_hash list \<Rightarrow> octet list"
  unrlp_hashes :: "octet list \<Rightarrow> string + block_hash list \<times> octet list"
  rlp_version :: "version_payload \<Rightarrow> octet list"
  unrlp_version :: "octet list \<Rightarrow> string + version_payload \<times> octet list"
  rlp_blocks :: "block_payload list \<Rightarrow> octet list"
  unrlp_blocks :: "octet list \<Rightarrow> string + block_payload list \<times> octet list"

definition rlp_law :: "rlp_lib \<Rightarrow> bool" where
  "rlp_law R \<longleftrightarrow>
     (\<forall>x r. unrlp_u64 R (rlp_u64 R x @ r) = Inr (x, r)) \<and> (\<forall>x r. unrlp_hashes R (rlp_hashes R x @ r) = Inr (x, r)) \<and>
     (\<forall>x r. unrlp_version R (rlp_version R x @ r) = Inr (x, r)) \<and> (\<forall>x r. unrlp_blocks R (rlp_blocks R x @ r) = Inr (x, r))"

fun encode_body :: "rlp_lib \<Rightarrow> message \<Rightarrow> octet list" where
  "encode_body R (Version v g tips) = rlp_version R \<lparr>vp_version = v, vp_genesis = g, vp_tips = tips\<rparr>"
| "encode_body R Verack = []"
| "encode_body R GetTips = []"
| "encode_body R (Ping n) = rlp_u64 R n"
| "encode_body R (Pong n) = rlp_u64 R n"
| "encode_body R (Tips hs) = rlp_hashes R hs"
| "encode_body R (InvBlocks hs) = rlp_hashes R hs"
| "encode_body R (GetBlocks hs) = rlp_hashes R hs"
| "encode_body R (InvTxs hs) = rlp_hashes R hs"
| "encode_body R (GetTxs hs) = rlp_hashes R hs"
| "encode_body R (Blocks bs) = rlp_blocks R bs"

definition encode_to_vec :: "rlp_lib \<Rightarrow> message \<Rightarrow> octet list" where
  "encode_to_vec R m = message_tag m # encode_body R m"

definition check_len :: "nat \<Rightarrow> nat \<Rightarrow> string \<Rightarrow> codec_error + unit" where
  "check_len found limit what = (if found > limit then Inl (TooManyEntries what found limit) else Inr ())"

text \<open>A decoded value and the bytes left over, or the error that \<open>?\<close> returns.\<close>

definition rlp :: "string + 'a \<times> octet list \<Rightarrow> codec_error + 'a \<times> octet list" where
  "rlp r = (case r of Inl e \<Rightarrow> Inl (CodecRlp e) | Inr x \<Rightarrow> Inr x)"

definition decode_hashes :: "rlp_lib \<Rightarrow> octet list \<Rightarrow> string \<Rightarrow> codec_error + block_hash list \<times> octet list" where
  "decode_hashes R buf what =
     (case rlp (unrlp_hashes R buf) of Inl e \<Rightarrow> Inl e
      | Inr (hashes, buf) \<Rightarrow>
          (case check_len (length hashes) MAX_INV_ENTRIES what of Inl e \<Rightarrow> Inl e | Inr _ \<Rightarrow> Inr (hashes, buf)))"

definition decode_version :: "rlp_lib \<Rightarrow> octet list \<Rightarrow> codec_error + message \<times> octet list" where
  "decode_version R buf =
     (case rlp (unrlp_version R buf) of Inl e \<Rightarrow> Inl e
      | Inr (p, buf) \<Rightarrow>
          (case check_len (length (vp_tips p)) MAX_INV_ENTRIES ''version.tips'' of Inl e \<Rightarrow> Inl e
           | Inr _ \<Rightarrow> Inr (Version (vp_version p) (vp_genesis p) (vp_tips p), buf)))"

text \<open>The first body over the limit, in order.\<close>

fun check_bodies :: "block_payload list \<Rightarrow> codec_error + unit" where
  "check_bodies [] = Inr ()"
| "check_bodies (b # bs) =
     (case check_len (length (bp_transactions b)) MAX_TXS_PER_BLOCK ''block.transactions'' of
        Inl e \<Rightarrow> Inl e | Inr _ \<Rightarrow> check_bodies bs)"

definition decode_blocks :: "rlp_lib \<Rightarrow> octet list \<Rightarrow> codec_error + message \<times> octet list" where
  "decode_blocks R buf =
     (case rlp (unrlp_blocks R buf) of Inl e \<Rightarrow> Inl e
      | Inr (bs, buf) \<Rightarrow>
          (case check_len (length bs) MAX_BLOCK_BATCH ''blocks'' of Inl e \<Rightarrow> Inl e
           | Inr _ \<Rightarrow> (case check_bodies bs of Inl e \<Rightarrow> Inl e | Inr _ \<Rightarrow> Inr (Blocks bs, buf))))"

definition as_message :: "('a \<Rightarrow> message) \<Rightarrow> codec_error + 'a \<times> octet list \<Rightarrow> codec_error + message \<times> octet list" where
  "as_message c r = (case r of Inl e \<Rightarrow> Inl e | Inr (x, buf) \<Rightarrow> Inr (c x, buf))"

definition decode_body :: "rlp_lib \<Rightarrow> octet \<Rightarrow> octet list \<Rightarrow> codec_error + message \<times> octet list" where
  "decode_body R t buf =
     (if t = 0x01 then decode_version R buf
      else if t = 0x02 then Inr (Verack, buf)
      else if t = 0x05 then Inr (GetTips, buf)
      else if t = 0x03 then as_message Ping (rlp (unrlp_u64 R buf))
      else if t = 0x04 then as_message Pong (rlp (unrlp_u64 R buf))
      else if t = 0x06 then as_message Tips (decode_hashes R buf ''tips'')
      else if t = 0x07 then as_message InvBlocks (decode_hashes R buf ''invblocks'')
      else if t = 0x08 then as_message GetBlocks (decode_hashes R buf ''getblocks'')
      else if t = 0x0a then as_message InvTxs (decode_hashes R buf ''invtxs'')
      else if t = 0x0b then as_message GetTxs (decode_hashes R buf ''gettxs'')
      else if t = 0x09 then decode_blocks R buf
      else Inl (UnknownTag t))"

definition decode_from_slice :: "rlp_lib \<Rightarrow> octet list \<Rightarrow> codec_error + message" where
  "decode_from_slice R bytes =
     (case bytes of [] \<Rightarrow> Inl CodecEmpty
      | t # buf \<Rightarrow>
          (case decode_body R t buf of Inl e \<Rightarrow> Inl e
           | Inr (m, buf) \<Rightarrow> if buf \<noteq> [] then Inl (TrailingBytes (length buf)) else Inr m))"

section \<open>What the codec accepts\<close>

fun list_limit :: "nat \<Rightarrow> nat \<Rightarrow> string \<Rightarrow> codec_error option" where
  "list_limit found limit what = (if found > limit then Some (TooManyEntries what found limit) else None)"

text \<open>The limit a message exceeds, if any: hash lists have 512 entries, batches 128 blocks, bodies 8192 transactions.\<close>

fun limit_error :: "message \<Rightarrow> codec_error option" where
  "limit_error (Version _ _ tips) = list_limit (length tips) 512 ''version.tips''"
| "limit_error (Tips hs) = list_limit (length hs) 512 ''tips''"
| "limit_error (InvBlocks hs) = list_limit (length hs) 512 ''invblocks''"
| "limit_error (GetBlocks hs) = list_limit (length hs) 512 ''getblocks''"
| "limit_error (InvTxs hs) = list_limit (length hs) 512 ''invtxs''"
| "limit_error (GetTxs hs) = list_limit (length hs) 512 ''gettxs''"
| "limit_error (Blocks bs) =
     (case list_limit (length bs) 128 ''blocks'' of Some e \<Rightarrow> Some e
      | None \<Rightarrow>
          (case find (\<lambda>b. length (bp_transactions b) > 8192) bs of None \<Rightarrow> None
           | Some b \<Rightarrow> Some (TooManyEntries ''block.transactions'' (length (bp_transactions b)) 8192)))"
| "limit_error _ = None"

named_theorems codec

lemmas [codec] = check_len_def MAX_INV_ENTRIES_def MAX_BLOCK_BATCH_def MAX_TXS_PER_BLOCK_def rlp_def as_message_def
  decode_hashes_def decode_version_def decode_blocks_def

lemma check_bodies_find:
  "check_bodies bs = (case find (\<lambda>b. length (bp_transactions b) > 8192) bs of None \<Rightarrow> Inr ()
     | Some b \<Rightarrow> Inl (TooManyEntries ''block.transactions'' (length (bp_transactions b)) 8192))"
  by (induction bs) (simp_all add: codec)

lemma decode_encoded_body:
  assumes "rlp_law R"
  shows "decode_body R (message_tag m) (encode_body R m @ extra) =
    (case limit_error m of Some e \<Rightarrow> Inl e | None \<Rightarrow> Inr (m, extra))"
  using assms by (cases m) (simp_all add: rlp_law_def decode_body_def codec check_bodies_find split: option.split)

lemma list_limit_None: "list_limit n l what = None \<longleftrightarrow> n \<le> l" by simp

lemma decode_body_limit:
  "decode_body R t buf = Inr (m, rest) \<Longrightarrow> limit_error m = None"
  by (auto simp: decode_body_def codec check_bodies_find split: sum.splits if_splits option.splits)

lemma decode_encoded:
  assumes "rlp_law R"
  shows "decode_from_slice R (encode_to_vec R m @ extra) =
    (case limit_error m of Some e \<Rightarrow> Inl e | None \<Rightarrow> if extra = [] then Inr m else Inl (TrailingBytes (length extra)))"
  by (simp add: decode_from_slice_def encode_to_vec_def decode_encoded_body[OF assms] split: option.split)

lemma decode_within_limits: "decode_from_slice R bytes = Inr m \<Longrightarrow> limit_error m = None"
  by (auto simp: decode_from_slice_def dest: decode_body_limit split: list.splits sum.splits if_splits)

text \<open>
  C21: The codec is exact. With an RLP library that reads back what it writes, decoding the encoding of
  any message gives that message when it respects the protocol limits, the error naming the first
  limit it exceeds when it does not, and the count of trailing bytes when something follows it. Nothing
  over a limit is ever decoded, from whatever bytes.
\<close>

theorem message_codec_exact:
  assumes "rlp_law R"
  shows "decode_from_slice R (encode_to_vec R m @ extra) =
      (case limit_error m of Some e \<Rightarrow> Inl e
       | None \<Rightarrow> if extra = [] then Inr m else Inl (TrailingBytes (length extra))) \<and>
    (decode_from_slice R bytes = Inr m' \<longrightarrow> limit_error m' = None)"
  by (blast intro: decode_encoded[OF assms] decode_within_limits)

section \<open>A codec\<close>

text \<open>A prefix code for every countable type, which shows that the law can hold.\<close>

definition unary :: "'a::countable \<Rightarrow> octet list" where
  "unary x = replicate (to_nat x) 1 @ [0]"

definition ununary :: "octet list \<Rightarrow> string + 'a::countable \<times> octet list" where
  "ununary bs = (case dropWhile ((=) 1) bs of [] \<Rightarrow> Inl ''short'' | _ # r \<Rightarrow> Inr (from_nat (length (takeWhile ((=) 1) bs)), r))"

lemma ununary: "ununary (unary x @ r) = Inr (x, r)"
proof -
  have "takeWhile ((=) (1::octet)) (replicate n 1 @ 0 # r) = replicate n 1 \<and> dropWhile ((=) (1::octet)) (replicate n 1 @ 0 # r) = 0 # r" for n
    by (induction n) simp_all
  then show ?thesis by (simp add: ununary_def unary_def)
qed

definition payload_tuple where
  "payload_tuple b = (let h = bp_header b in
     (bp_transactions b, h_version h, h_parents h, h_timestamp_ms h, h_bits h, h_nonce h, h_miner h, h_txs_root h,
      h_deferred_height h, h_deferred_state_root h, h_deferred_receipts_root h, h_deferred_gas_used h))"

definition tuple_payload where
  "tuple_payload = (\<lambda>(txs, v, ps, t, bits, n, m, root, dh, ds, dr, dg).
     \<lparr>bp_header = \<lparr>h_version = v, h_parents = ps, h_timestamp_ms = t, h_bits = bits, h_nonce = n, h_miner = m, h_txs_root = root,
        h_deferred_height = dh, h_deferred_state_root = ds, h_deferred_receipts_root = dr, h_deferred_gas_used = dg\<rparr>,
      bp_transactions = txs\<rparr>)"

definition reread :: "('a \<Rightarrow> 'b) \<Rightarrow> string + 'a \<times> octet list \<Rightarrow> string + 'b \<times> octet list" where
  "reread f r = (case r of Inl e \<Rightarrow> Inl e | Inr (x, rest) \<Rightarrow> Inr (f x, rest))"

definition toy_rlp :: rlp_lib where
  "toy_rlp = \<lparr>rlp_u64 = unary, unrlp_u64 = ununary, rlp_hashes = unary, unrlp_hashes = ununary,
     rlp_version = (\<lambda>p. unary (vp_version p, vp_genesis p, vp_tips p)),
     unrlp_version = (\<lambda>bs. reread (\<lambda>(v, g, ts). \<lparr>vp_version = v, vp_genesis = g, vp_tips = ts\<rparr>) (ununary bs)),
     rlp_blocks = (\<lambda>bs. unary (map payload_tuple bs)), unrlp_blocks = (\<lambda>bs. reread (map tuple_payload) (ununary bs))\<rparr>"

lemma toy_rlp_law: "rlp_law toy_rlp"
proof -
  have "tuple_payload (payload_tuple b) = b" for b by (simp add: tuple_payload_def payload_tuple_def Let_def)
  then show ?thesis by (simp add: rlp_law_def toy_rlp_def ununary reread_def o_def)
qed

theorem message_codec_exact_witness:
  "rlp_law toy_rlp \<and> decode_from_slice toy_rlp (encode_to_vec toy_rlp (InvBlocks [3, 7])) = Inr (InvBlocks [3, 7]) \<and>
   decode_from_slice toy_rlp (encode_to_vec toy_rlp (Tips (replicate 513 1))) = Inl (TooManyEntries ''tips'' 513 512) \<and>
   decode_from_slice toy_rlp (encode_to_vec toy_rlp (Ping 1) @ [9]) = Inl (TrailingBytes 1)"
  using message_codec_exact[OF toy_rlp_law, of "InvBlocks [3, 7]" "[]"]
    message_codec_exact[OF toy_rlp_law, of "Tips (replicate 513 1)" "[]"] message_codec_exact[OF toy_rlp_law, of "Ping 1" "[9]"]
  by (simp add: toy_rlp_law)

end
