(* ===== verification/Sync.thy ===== *)
theory Sync
  imports Dag Peer Message
begin

text \<open>
  The synchronisation state machine, \<open>crates/net/src/sync.rs\<close>: every message handler and the periodic
  work as functions from the state to the actions for the caller and the new state. Time is an argument,
  as in the code. The header gate, a trait of the code, is the parameter \<open>gate\<close>: \<open>None\<close> accepts.
\<close>

section \<open>State\<close>

type_synonym header_gate = "header \<Rightarrow> string option"

definition accept_all :: header_gate where "accept_all h = None"

datatype action = Send peer_id message | Disconnect peer_id string

record sync_config =
  sc_max_orphans :: nat
  sc_request_timeout_ms :: u64
  sc_genesis :: block_hash

definition new_config :: "block_hash \<Rightarrow> sync_config" where
  "new_config genesis = \<lparr>sc_max_orphans = 4096, sc_request_timeout_ms = 2000, sc_genesis = genesis\<rparr>"

record orphan =
  or_header :: header
  or_from :: peer_id

record dag_sync =
  y_dag :: dag_store
  y_config :: sync_config
  y_peers :: "(peer_id, peer_state) bmap"
  y_orphans :: "(block_hash, orphan) hmap"
  y_orphan_order :: "block_hash list"
  y_waiting_on :: "(block_hash, block_hash list) hmap"
  y_requested :: "(block_hash, peer_id \<times> u64) hmap"
  y_bodies :: "(block_hash, octet list list) hmap"
  y_accepted :: "block_hash list"
  y_retry_cursor :: u64

definition new_sync :: "dag_store \<Rightarrow> sync_config \<Rightarrow> dag_sync" where
  "new_sync dag config =
     \<lparr>y_dag = dag, y_config = config, y_peers = [], y_orphans = [], y_orphan_order = [], y_waiting_on = [], y_requested = [],
      y_bodies = [], y_accepted = [], y_retry_cursor = 0\<rparr>"

definition orphan_count :: "dag_sync \<Rightarrow> nat" where "orphan_count s = length (y_orphans s)"
definition peer_count :: "dag_sync \<Rightarrow> nat" where "peer_count s = length (y_peers s)"
definition pending_request_count :: "dag_sync \<Rightarrow> nat" where "pending_request_count s = length (y_requested s)"

definition sync_body :: "dag_sync \<Rightarrow> block_hash \<Rightarrow> octet list list" where
  "sync_body s h = (case map_of (y_bodies s) h of None \<Rightarrow> [] | Some txs \<Rightarrow> txs)"

definition drain_accepted :: "dag_sync \<Rightarrow> block_hash list \<times> dag_sync" where
  "drain_accepted s = (y_accepted s, s\<lparr>y_accepted := []\<rparr>)"

text \<open>\<open>peers.get_mut(&peer)\<close> and a change of what it finds.\<close>

definition update_peer :: "peer_id \<Rightarrow> (peer_state \<Rightarrow> peer_state) \<Rightarrow> dag_sync \<Rightarrow> dag_sync" where
  "update_peer peer f s = s\<lparr>y_peers := map (\<lambda>(p, st). (p, if p = peer then f st else st)) (y_peers s)\<rparr>"

definition is_orphan :: "dag_sync \<Rightarrow> block_hash \<Rightarrow> bool" where
  "is_orphan s h \<longleftrightarrow> map_of (y_orphans s) h \<noteq> None"

section \<open>Requests and announcements\<close>

text \<open>\<open>GetBlocks\<close> for what is not already in flight.\<close>

definition request_from :: "peer_id \<Rightarrow> block_hash list \<Rightarrow> u64 \<Rightarrow> dag_sync \<Rightarrow> action list \<times> dag_sync" where
  "request_from peer hashes now_ms s =
     (let wanted = take MAX_INV_ENTRIES (filter (\<lambda>h. map_of (y_requested s) h = None) hashes) in
      if wanted = [] then ([], s)
      else ([Send peer (GetBlocks wanted)],
            s\<lparr>y_requested := fold (\<lambda>h. AList.update h (peer, now_ms)) wanted (y_requested s)\<rparr>))"

definition request_unknown :: "peer_id \<Rightarrow> block_hash list \<Rightarrow> u64 \<Rightarrow> dag_sync \<Rightarrow> action list \<times> dag_sync" where
  "request_unknown peer hashes now_ms s =
     request_from peer (filter (\<lambda>h. \<not> contains (y_dag s) h \<and> \<not> is_orphan s h) hashes) now_ms s"

definition announce :: "block_hash \<Rightarrow> peer_id option \<Rightarrow> dag_sync \<Rightarrow> action list \<times> dag_sync" where
  "announce h exclude s =
     (let targets = map ps_id (filter (\<lambda>p. is_ready p \<and> Some (ps_id p) \<noteq> exclude \<and> h \<notin> set (ps_known_blocks p)) (map snd (y_peers s)))
      in (map (\<lambda>peer. Send peer (InvBlocks [h])) targets, fold (\<lambda>peer. update_peer peer (note_known h)) targets s))"

definition sync_penalise :: "peer_id \<Rightarrow> misbehaviour \<Rightarrow> string \<Rightarrow> dag_sync \<Rightarrow> action list \<times> dag_sync" where
  "sync_penalise peer what reason s =
     (case map_of (y_peers s) peer of None \<Rightarrow> ([], s)
      | Some st \<Rightarrow>
          (if fst (peer_penalise what st) then [Disconnect peer reason] else [],
           update_peer peer (\<lambda>st. snd (peer_penalise what st)) s))"

section \<open>Orphans\<close>

text \<open>\<open>waiting_on\<close>: an orphan leaves the set of one of its parents, or joins it.\<close>

definition unwait :: "block_hash \<Rightarrow> block_hash \<Rightarrow> (block_hash, block_hash list) hmap \<Rightarrow> (block_hash, block_hash list) hmap" where
  "unwait orphan parent w =
     (case map_of w parent of None \<Rightarrow> w
      | Some ws \<Rightarrow>
          let ws = btree_remove orphan ws in if ws = [] then AList.delete parent w else AList.update parent ws w)"

definition wait_for :: "block_hash \<Rightarrow> block_hash \<Rightarrow> (block_hash, block_hash list) hmap \<Rightarrow> (block_hash, block_hash list) hmap" where
  "wait_for orphan parent w =
     AList.update parent (btree_insert orphan (case map_of w parent of None \<Rightarrow> [] | Some ws \<Rightarrow> ws)) w"

definition drop_orphan :: "block_hash \<Rightarrow> dag_sync \<Rightarrow> dag_sync" where
  "drop_orphan oldest s =
     (case map_of (y_orphans s) oldest of None \<Rightarrow> s
      | Some evicted \<Rightarrow>
          s\<lparr>y_orphans := AList.delete oldest (y_orphans s),
            y_waiting_on := fold (unwait oldest) (h_parents (or_header evicted)) (y_waiting_on s)\<rparr>)"

text \<open>The eviction loop, over the insertion order.\<close>

fun evict_oldest :: "block_hash list \<Rightarrow> dag_sync \<Rightarrow> dag_sync" where
  "evict_oldest [] s = s\<lparr>y_orphan_order := []\<rparr>"
| "evict_oldest (oldest # order) s =
     (if length (y_orphans s) \<ge> sc_max_orphans (y_config s) then evict_oldest order (drop_orphan oldest s)
      else s\<lparr>y_orphan_order := oldest # order\<rparr>)"

definition store_orphan :: "block_hash \<Rightarrow> header \<Rightarrow> peer_id \<Rightarrow> dag_sync \<Rightarrow> dag_sync" where
  "store_orphan h hdr from s =
     (let s = evict_oldest (y_orphan_order s) s
      in s\<lparr>y_waiting_on := fold (wait_for h) (filter (\<lambda>p. \<not> contains (y_dag s) p) (h_parents hdr)) (y_waiting_on s),
           y_orphans := AList.update h \<lparr>or_header = hdr, or_from = from\<rparr> (y_orphans s),
           y_orphan_order := y_orphan_order s @ [h]\<rparr>)"

text \<open>One child of a parent that joined the DAG, and the worklist of parents.\<close>

definition resolve_child ::
  "(header \<Rightarrow> block_hash) \<Rightarrow> block_hash \<Rightarrow> block_hash list \<times> action list \<times> dag_sync \<Rightarrow> block_hash list \<times> action list \<times> dag_sync" where
  "resolve_child hash child = (\<lambda>(queue, actions, s).
     case map_of (y_orphans s) child of None \<Rightarrow> (queue, actions, s)
     | Some orphan \<Rightarrow>
         if \<not> list_all (contains (y_dag s)) (h_parents (or_header orphan)) then (queue, actions, s)
         else
           let s = s\<lparr>y_orphans := AList.delete child (y_orphans s), y_orphan_order := filter (\<lambda>h. h \<noteq> child) (y_orphan_order s)\<rparr>
           in (case add_block hash (y_dag s) (or_header orphan) of
                 (Inl _, dag) \<Rightarrow> (queue, actions, s\<lparr>y_dag := dag\<rparr>)
               | (Inr _, dag) \<Rightarrow>
                   (case announce child (Some (or_from orphan)) (s\<lparr>y_dag := dag, y_accepted := y_accepted s @ [child]\<rparr>) of
                      (sent, s) \<Rightarrow> (queue @ [child], actions @ sent, s))))"

lemma y_orphans_update_peer [simp]: "y_orphans (update_peer p f s) = y_orphans s"
  by (simp add: update_peer_def)

lemma announce_orphans [simp]: "y_orphans (snd (announce h ex s)) = y_orphans s"
proof -
  have "y_orphans (fold (\<lambda>peer. update_peer peer (note_known h)) ps s) = y_orphans s" for ps
    by (induction ps arbitrary: s) simp_all
  then show ?thesis by (simp add: announce_def Let_def)
qed

lemma announce_orphansD: "announce h ex s = (sent, t) \<Longrightarrow> y_orphans t = y_orphans s"
  using announce_orphans[of h ex s] by simp

lemma resolve_child_decreases:
  "length (fst r') + 2 * length (y_orphans (snd (snd r'))) \<le> length (fst r) + 2 * length (y_orphans (snd (snd r)))"
  if "r' = resolve_child hash child r"
proof -
  obtain q acts s where r: "r = (q, acts, s)" by (cases r)
  have "length (AList.delete child (y_orphans s)) < length (y_orphans s)" if "map_of (y_orphans s) child = Some x" for x
    using map_of_SomeD[OF that] unfolding AList.delete_eq by (intro length_filter_less) auto
  then show ?thesis
    using that by (fastforce simp: r resolve_child_def Let_def split: option.split prod.splits sum.split dest!: announce_orphansD)
qed

lemma resolve_children_decrease:
  "length (fst (fold (resolve_child hash) cs r)) + 2 * length (y_orphans (snd (snd (fold (resolve_child hash) cs r))))
     \<le> length (fst r) + 2 * length (y_orphans (snd (snd r)))"
proof (induction cs arbitrary: r)
  case (Cons c cs)
  show ?case using Cons.IH[of "resolve_child hash c r"] resolve_child_decreases[OF refl, of hash c r] by simp
qed simp

function resolve_loop ::
  "(header \<Rightarrow> block_hash) \<Rightarrow> block_hash list \<Rightarrow> action list \<Rightarrow> dag_sync \<Rightarrow> action list \<times> dag_sync" where
  "resolve_loop hash [] actions s = (actions, s)"
| "resolve_loop hash (parent # queue) actions s =
     (case map_of (y_waiting_on s) parent of None \<Rightarrow> resolve_loop hash queue actions s
      | Some children \<Rightarrow>
          (case fold (resolve_child hash) children (queue, actions, s\<lparr>y_waiting_on := AList.delete parent (y_waiting_on s)\<rparr>) of
             (queue, actions, s) \<Rightarrow> resolve_loop hash queue actions s))"
  by pat_completeness auto

termination
proof (relation "measure (\<lambda>(_, queue, _, s). length queue + 2 * length (y_orphans s))", goal_cases)
  case (3 hash parent queue actions s children q' y a' s')
  then show ?case
    using resolve_children_decrease[of hash children "(queue, actions, s\<lparr>y_waiting_on := AList.delete parent (y_waiting_on s)\<rparr>)"]
    by (simp add: case_prod_unfold)
qed simp_all

definition resolve_orphans_of :: "(header \<Rightarrow> block_hash) \<Rightarrow> block_hash \<Rightarrow> dag_sync \<Rightarrow> action list \<times> dag_sync" where
  "resolve_orphans_of hash h s = resolve_loop hash [h] [] s"

section \<open>Handlers\<close>

definition version_message :: "dag_sync \<Rightarrow> message" where
  "version_message s = Version PROTOCOL_VERSION (sc_genesis (y_config s)) (dag_tips (y_dag s))"

definition on_connect :: "peer_id \<Rightarrow> dag_sync \<Rightarrow> action list \<times> dag_sync" where
  "on_connect peer s = ([Send peer (version_message s)], s\<lparr>y_peers := bmap_insert peer (new_peer peer) (y_peers s)\<rparr>)"

definition on_disconnect :: "peer_id \<Rightarrow> dag_sync \<Rightarrow> dag_sync" where
  "on_disconnect peer s =
     s\<lparr>y_peers := AList.delete peer (y_peers s), y_requested := filter (\<lambda>(_, owner, _). owner \<noteq> peer) (y_requested s)\<rparr>"

definition on_local_block :: "(header \<Rightarrow> block_hash) \<Rightarrow> block_payload \<Rightarrow> dag_sync \<Rightarrow> action list \<times> dag_sync" where
  "on_local_block hash block s =
     (let h = payload_hash hash block; s = s\<lparr>y_bodies := AList.update h (bp_transactions block) (y_bodies s)\<rparr>
      in (case add_block hash (y_dag s) (bp_header block) of
            (Inl _, dag) \<Rightarrow> ([], s\<lparr>y_dag := dag\<rparr>)
          | (Inr _, dag) \<Rightarrow>
              (case announce h None (s\<lparr>y_dag := dag, y_accepted := y_accepted s @ [h]\<rparr>) of
                 (actions, s) \<Rightarrow>
                   (case resolve_orphans_of hash h s of (more_actions, s) \<Rightarrow> (actions @ more_actions, s)))))"

text \<open>Admission of a header that passed the gate: into the DAG, or among the orphans.\<close>

definition admit :: "(header \<Rightarrow> block_hash) \<Rightarrow> header \<Rightarrow> peer_id \<Rightarrow> u64 \<Rightarrow> dag_sync \<Rightarrow> action list \<times> dag_sync" where
  "admit hash hdr from now_ms s =
     (let h = hash hdr in
      case add_block hash (y_dag s) hdr of
        (Inr _, dag) \<Rightarrow>
          (case announce h (Some from)
                  (update_peer from (\<lambda>p. peer_reward 1 (p\<lparr>ps_blocks_delivered := ps_blocks_delivered p + 1\<rparr>))
                    (s\<lparr>y_dag := dag, y_accepted := y_accepted s @ [h]\<rparr>)) of
             (actions, s) \<Rightarrow>
               (case resolve_orphans_of hash h s of (more_actions, s) \<Rightarrow> (actions @ more_actions, s)))
      | (Inl (MissingParent _ _), dag) \<Rightarrow>
          let s = s\<lparr>y_dag := dag\<rparr>;
              missing = filter (\<lambda>p. \<not> contains (y_dag s) p \<and> \<not> is_orphan s p) (h_parents hdr)
          in request_from from missing now_ms (store_orphan h hdr from s)
      | (Inl _, dag) \<Rightarrow> ([], s\<lparr>y_dag := dag\<rparr>))"

definition is_disconnect :: "action \<Rightarrow> bool" where
  "is_disconnect a = (case a of Disconnect _ _ \<Rightarrow> True | Send _ _ \<Rightarrow> False)"

text \<open>The loop over a batch, with the actions so far.\<close>

fun on_blocks ::
  "(header \<Rightarrow> block_hash) \<Rightarrow> header_gate \<Rightarrow> peer_id \<Rightarrow> u64 \<Rightarrow> block_payload list \<Rightarrow> action list \<Rightarrow> dag_sync \<Rightarrow> action list \<times> dag_sync" where
  "on_blocks hash gate peer now_ms [] actions s = (actions, s)"
| "on_blocks hash gate peer now_ms (block # blocks) actions s =
     (let h = hash (bp_header block);
          s = update_peer peer (note_known h) (s\<lparr>y_requested := AList.delete h (y_requested s)\<rparr>)
      in if contains (y_dag s) h \<or> is_orphan s h then on_blocks hash gate peer now_ms blocks actions s
         else case gate (bp_header block) of
             Some reason \<Rightarrow>
               (case sync_penalise peer InvalidBlock ''invalid block'' s of
                  (acts, s) \<Rightarrow>
                    if list_ex is_disconnect (actions @ acts) then (actions @ acts, s)
                    else on_blocks hash gate peer now_ms blocks (actions @ acts) s)
           | None \<Rightarrow>
               (case admit hash (bp_header block) peer now_ms
                       (s\<lparr>y_bodies := AList.update h (bp_transactions block) (y_bodies s)\<rparr>) of
                  (acts, s) \<Rightarrow> on_blocks hash gate peer now_ms blocks (actions @ acts) s))"

definition on_version ::
  "peer_id \<Rightarrow> u32 \<Rightarrow> block_hash \<Rightarrow> block_hash list \<Rightarrow> u64 \<Rightarrow> dag_sync \<Rightarrow> action list \<times> dag_sync" where
  "on_version peer version genesis tips now_ms s =
     (if version \<noteq> PROTOCOL_VERSION then sync_penalise peer WrongVersion ''protocol version mismatch'' s
      else if genesis \<noteq> sc_genesis (y_config s) then sync_penalise peer WrongGenesis ''different network'' s
      else case map_of (y_peers s) peer of None \<Rightarrow> ([], s)
        | Some _ \<Rightarrow>
            let s = update_peer peer (\<lambda>p. fold note_known tips (p\<lparr>ps_handshake := Ready\<rparr>)) s
            in (case request_unknown peer tips now_ms s of (acts, s) \<Rightarrow> (Send peer Verack # acts, s)))"

definition on_inv_blocks :: "peer_id \<Rightarrow> block_hash list \<Rightarrow> u64 \<Rightarrow> dag_sync \<Rightarrow> action list \<times> dag_sync" where
  "on_inv_blocks peer hashes now_ms s = request_unknown peer hashes now_ms (update_peer peer (fold note_known hashes) s)"

definition on_get_blocks :: "(header \<Rightarrow> block_hash) \<Rightarrow> peer_id \<Rightarrow> block_hash list \<Rightarrow> dag_sync \<Rightarrow> action list \<times> dag_sync" where
  "on_get_blocks hash peer hashes s =
     (let blocks = List.map_filter (\<lambda>h. map_option (\<lambda>hdr. \<lparr>bp_header = hdr, bp_transactions = sync_body s h\<rparr>) (dag_header (y_dag s) h))
            (take MAX_BLOCK_BATCH hashes)
      in if blocks = [] then ([], s)
         else ([Send peer (Blocks blocks)], update_peer peer (fold (\<lambda>b. note_known (payload_hash hash b)) blocks) s))"

definition on_message ::
  "(header \<Rightarrow> block_hash) \<Rightarrow> header_gate \<Rightarrow> peer_id \<Rightarrow> message \<Rightarrow> u64 \<Rightarrow> dag_sync \<Rightarrow> action list \<times> dag_sync" where
  "on_message hash gate peer msg now_ms s =
     (case map_of (y_peers s) peer of
        None \<Rightarrow> ([Disconnect peer ''message from unknown peer''], s)
      | Some st \<Rightarrow>
          if \<not> is_ready st \<and> (case msg of Version _ _ _ \<Rightarrow> False | Verack \<Rightarrow> False | _ \<Rightarrow> True)
          then ([Send peer (version_message s)], s)
          else case msg of
              Version version genesis tips \<Rightarrow> on_version peer version genesis tips now_ms s
            | Verack \<Rightarrow> ([], update_peer peer (\<lambda>p. p\<lparr>ps_handshake := Ready\<rparr>) s)
            | Ping nonce \<Rightarrow> ([Send peer (Pong nonce)], s)
            | Pong _ \<Rightarrow> ([], s)
            | GetTips \<Rightarrow> ([Send peer (Tips (dag_tips (y_dag s)))], s)
            | Tips tips \<Rightarrow> request_unknown peer tips now_ms s
            | InvBlocks hashes \<Rightarrow> on_inv_blocks peer hashes now_ms s
            | GetBlocks hashes \<Rightarrow> on_get_blocks hash peer hashes s
            | Blocks blocks \<Rightarrow> on_blocks hash gate peer now_ms blocks [] s
            | InvTxs _ \<Rightarrow> ([], s)
            | GetTxs _ \<Rightarrow> ([], s))"

section \<open>Periodic work\<close>

definition stale_requests :: "u64 \<Rightarrow> dag_sync \<Rightarrow> block_hash list" where
  "stale_requests now_ms s =
     sort (map fst (filter (\<lambda>(_, _, asked_at). saturating_sub now_ms asked_at > sc_request_timeout_ms (y_config s)) (y_requested s)))"

text \<open>The buckets, one per ready peer, filled in turn from a rotating start.\<close>

definition fill_buckets :: "nat \<Rightarrow> nat \<Rightarrow> block_hash list \<Rightarrow> block_hash list list" where
  "fill_buckets start n stale =
     fold (\<lambda>(i, h) buckets. buckets[(start + i) mod n := buckets ! ((start + i) mod n) @ [h]])
       (List.enumerate 0 stale) (replicate n [])"

definition retry_buckets :: "peer_id list \<Rightarrow> block_hash list list \<Rightarrow> u64 \<Rightarrow> action list \<Rightarrow> dag_sync \<Rightarrow> action list \<times> dag_sync" where
  "retry_buckets ready buckets now_ms actions s =
     fold (\<lambda>(peer, bucket) (actions, s).
         if bucket = [] then (actions, s)
         else case request_from peer bucket now_ms s of (acts, s) \<Rightarrow> (actions @ acts, s))
       (zip ready buckets) (actions, s)"

definition on_tick :: "u64 \<Rightarrow> dag_sync \<Rightarrow> action list \<times> dag_sync" where
  "on_tick now_ms s =
     (let stale = stale_requests now_ms s;
          s = s\<lparr>y_requested := fold AList.delete stale (y_requested s)\<rparr>;
          ready = map ps_id (filter is_ready (map snd (y_peers s)));
          unready = map ps_id (filter (\<lambda>p. \<not> is_ready p) (map snd (y_peers s)));
          actions = map (\<lambda>peer. Send peer (version_message s)) unready;
          (actions, s) =
            (if stale \<noteq> [] \<and> ready \<noteq> [] then
               let s = s\<lparr>y_retry_cursor := y_retry_cursor s + 1\<rparr>;
                   start = unat (y_retry_cursor s mod of_nat (length ready))
               in retry_buckets ready (fill_buckets start (length ready) stale) now_ms actions s
             else (actions, s))
      in (actions @ map (\<lambda>peer. Send peer GetTips) ready, s))"

end
