(* ===== verification/Transport.thy ===== *)
theory Transport
  imports Chain_Prelude
begin

text \<open>
  TCP framing, \<open>crates/net/src/transport.rs\<close>: a four-byte big-endian length and that many bytes. A socket
  being read is the bytes it will still deliver and how it ends; the socket being written is a
  parameter, instantiated by the byte vector that \<open>tokio\<close> also writes to.
\<close>

type_synonym byte = "8 word"

section \<open>Sockets\<close>

datatype io_error = UnexpectedEof | OtherIo string

record reader =
  rd_bytes :: "byte list"
  rd_end :: io_error

text \<open>\<open>AsyncReadExt::read_exact\<close>: the buffer is filled, or the stream ended first.\<close>

definition read_exact :: "nat \<Rightarrow> reader \<Rightarrow> (io_error + byte list) \<times> reader" where
  "read_exact n r =
     (if n \<le> length (rd_bytes r) then (Inr (take n (rd_bytes r)), r\<lparr>rd_bytes := drop n (rd_bytes r)\<rparr>)
      else (Inl (rd_end r), r\<lparr>rd_bytes := []\<rparr>))"

text \<open>A socket that fails reports the error and the state it is left in; \<open>vec_socket\<close> is \<open>Vec<u8>\<close>.\<close>

record 'w socket =
  write_all :: "byte list \<Rightarrow> 'w \<Rightarrow> io_error option \<times> 'w"
  flush :: "'w \<Rightarrow> io_error option \<times> 'w"

definition vec_socket :: "byte list socket" where
  "vec_socket = \<lparr>write_all = (\<lambda>bs w. (None, w @ bs)), flush = (\<lambda>w. (None, w))\<rparr>"

section \<open>Frames\<close>

definition MAX_FRAME_BYTES :: u32 where "MAX_FRAME_BYTES = 16 * 1024 * 1024"
definition LENGTH_PREFIX_BYTES :: nat where "LENGTH_PREFIX_BYTES = 4"

datatype frame_error =
    FrameIo io_error
  | FrameTooLarge u64 u32
  | FrameEmpty
  | FrameTruncated u32

text \<open>\<open>u32::to_be_bytes\<close> and \<open>u32::from_be_bytes\<close>.\<close>

definition to_be_bytes :: "u32 \<Rightarrow> byte list" where
  "to_be_bytes n = [ucast (drop_bit 24 n), ucast (drop_bit 16 n), ucast (drop_bit 8 n), ucast n]"

definition from_be_bytes :: "byte list \<Rightarrow> u32" where
  "from_be_bytes bs = foldl (\<lambda>n b. push_bit 8 n OR ucast b) 0 bs"

definition write_frame :: "'w socket \<Rightarrow> byte list \<Rightarrow> 'w \<Rightarrow> (frame_error + unit) \<times> 'w" where
  "write_frame S payload w =
     (if length payload \<ge> 2 ^ 32 then (Inl (FrameTooLarge (- 1) MAX_FRAME_BYTES), w)
      else
        let len = of_nat (length payload) :: u32 in
        if len > MAX_FRAME_BYTES then (Inl (FrameTooLarge (ucast len) MAX_FRAME_BYTES), w)
        else case write_all S (to_be_bytes len @ payload) w of
            (Some e, w) \<Rightarrow> (Inl (FrameIo e), w)
          | (None, w) \<Rightarrow>
              (case flush S w of (Some e, w) \<Rightarrow> (Inl (FrameIo e), w) | (None, w) \<Rightarrow> (Inr (), w)))"

definition read_frame :: "reader \<Rightarrow> (frame_error + byte list option) \<times> reader" where
  "read_frame r =
     (case read_exact LENGTH_PREFIX_BYTES r of
        (Inl e, r) \<Rightarrow> (if e = UnexpectedEof then (Inr None, r) else (Inl (FrameIo e), r))
      | (Inr prefix, r) \<Rightarrow>
          let len = from_be_bytes prefix in
          if len > MAX_FRAME_BYTES then (Inl (FrameTooLarge (ucast len) MAX_FRAME_BYTES), r)
          else if len = 0 then (Inl FrameEmpty, r)
          else (case read_exact (unat len) r of
                 (Inr payload, r) \<Rightarrow> (Inr (Some payload), r)
               | (Inl e, r) \<Rightarrow> (if e = UnexpectedEof then (Inl (FrameTruncated len), r) else (Inl (FrameIo e), r))))"

section \<open>Round trip\<close>

lemma be_bytes_roundtrip: "from_be_bytes (to_be_bytes n) = n"
proof (rule bit_word_eqI)
  fix i
  assume "i < LENGTH(32)"
  then consider "i < 8" | "8 \<le> i" "i < 16" | "16 \<le> i" "i < 24" | "24 \<le> i" "i < 32" by fastforce
  then show "bit (from_be_bytes (to_be_bytes n)) i \<longleftrightarrow> bit n i"
    by cases (auto simp: from_be_bytes_def to_be_bytes_def bit_simps)
qed

lemma length_to_be_bytes [simp]: "length (to_be_bytes n) = 4"
  by (simp add: to_be_bytes_def)

definition frame_ok :: "byte list \<Rightarrow> bool" where
  "frame_ok p \<longleftrightarrow> p \<noteq> [] \<and> length p \<le> 16777216"

lemma frame_length:
  assumes "length p < 2 ^ 32"
  shows "unat (of_nat (length p) :: u32) = length p" and "of_nat (length p) > MAX_FRAME_BYTES \<longleftrightarrow> 16777216 < length p"
    and "ucast (of_nat (length p) :: u32) = (of_nat (length p) :: u64)"
proof -
  show *: "unat (of_nat (length p) :: u32) = length p" using assms by (simp add: unat_of_nat take_bit_eq_mod)
  then show "of_nat (length p) > MAX_FRAME_BYTES \<longleftrightarrow> 16777216 < length p" by (simp add: word_less_nat_alt MAX_FRAME_BYTES_def)
  show "ucast (of_nat (length p) :: u32) = (of_nat (length p) :: u64)" by (metis * of_nat_unat)
qed

lemma write_frame_vec:
  "write_frame vec_socket p w =
     (if length p \<le> 16777216 then (Inr (), w @ to_be_bytes (of_nat (length p)) @ p)
      else (Inl (FrameTooLarge (if length p < 2 ^ 32 then of_nat (length p) else - 1) MAX_FRAME_BYTES), w))"
proof (cases "length p < 2 ^ 32")
  case True
  from frame_length[OF this] True show ?thesis by (simp add: write_frame_def vec_socket_def Let_def not_less)
next
  case False
  then have "\<not> length p \<le> 16777216" by simp
  with False show ?thesis by (simp add: write_frame_def)
qed

lemma read_frame_prefix:
  assumes "frame_ok p"
  shows "read_frame \<lparr>rd_bytes = to_be_bytes (of_nat (length p)) @ p @ later, rd_end = e\<rparr> =
    (Inr (Some p), \<lparr>rd_bytes = later, rd_end = e\<rparr>)"
proof -
  have "length p < 2 ^ 32" using assms by (simp add: frame_ok_def)
  note len = frame_length[OF this]
  have "\<not> of_nat (length p) > MAX_FRAME_BYTES" using assms by (simp add: len(2) frame_ok_def)
  moreover have "(of_nat (length p) :: u32) \<noteq> 0" using assms len(1) by (auto simp: frame_ok_def)
  ultimately show ?thesis
    by (simp add: read_frame_def read_exact_def LENGTH_PREFIX_BYTES_def be_bytes_roundtrip Let_def len(1))
qed

lemma read_frame_end: "read_frame \<lparr>rd_bytes = [], rd_end = UnexpectedEof\<rparr> = (Inr None, \<lparr>rd_bytes = [], rd_end = UnexpectedEof\<rparr>)"
  by (simp add: read_frame_def read_exact_def LENGTH_PREFIX_BYTES_def)

text \<open>Every frame consumes its prefix and at least one byte, and never more than the limit and the prefix.\<close>

lemma read_frame_shrinks:
  assumes "read_frame r = (Inr (Some p), r')"
  shows "length (rd_bytes r) = 4 + length p + length (rd_bytes r')" "frame_ok p" "rd_end r' = rd_end r"
  using assms
  by (auto simp: read_frame_def read_exact_def LENGTH_PREFIX_BYTES_def Let_def frame_ok_def word_less_nat_alt
      MAX_FRAME_BYTES_def not_less unat_eq_0 word_le_nat_alt split: if_splits)

text \<open>
  A stream that breaks off inside the length prefix is also reported as a clean end, although the
  peer had started a frame.
\<close>

lemma partial_prefix_is_clean:
  "read_frame \<lparr>rd_bytes = [0, 0, 1], rd_end = UnexpectedEof\<rparr> = (Inr None, \<lparr>rd_bytes = [], rd_end = UnexpectedEof\<rparr>)"
  by (simp add: read_frame_def read_exact_def LENGTH_PREFIX_BYTES_def)

end
