(* ===== verification/P2p.thy ===== *)
theory P2p
  imports Sync Transport
begin

text \<open>
  The peer-to-peer runtime, \<open>crates/net/src/p2p.rs\<close>: the tasks that drive the state machine of \<open>Sync\<close> over
  sockets. A node is its shared state with every task and what it will do next; one event is one
  section that the code runs under one lock, or one read or write of a socket, and any task whose turn it can be may be
  next. The wall clock is an argument of the events that read it. Addresses are text. A socket being read is what the
  peer sends on it, a socket being written is the parameter \<open>S\<close>.
\<close>

type_synonym socket_addr = string

definition PEER_SEND_QUEUE :: nat where "PEER_SEND_QUEUE = 1024"

record p2p_config =
  pc_listen :: socket_addr
  pc_dial :: "socket_addr list"
  pc_tick_interval_ms :: u64
  pc_redial_interval_ms :: u64

definition new_p2p_config :: "socket_addr \<Rightarrow> p2p_config" where
  "new_p2p_config listen = \<lparr>pc_listen = listen, pc_dial = [], pc_tick_interval_ms = 2000, pc_redial_interval_ms = 5000\<rparr>"

section \<open>Tasks\<close>

text \<open>What remains of a call of \<open>dispatch\<close>: the actions, then the peers to drop from the registry.\<close>

datatype job = Idle | Act "action list" | Forget "peer_id list"

text \<open>Where the read task of a connection stands. It reads when it has nothing to dispatch.\<close>

datatype phase = Joining | Greeting | Serving job | Leaving | Releasing | Closed

record 'w conn =
  cn_reader :: reader
  cn_writer :: 'w
  cn_queue :: "message list"
  cn_receiving :: bool
  cn_phase :: phase

text \<open>
  The registry holds the sending half of the channel of each peer in it. A dialler is an address and the connection
  it waits for.
\<close>

record 'w p2p_node =
  pn_sync :: dag_sync
  pn_registry :: "peer_id list"
  pn_next_peer_id :: u64
  pn_local_addr :: socket_addr
  pn_conns :: "(peer_id, 'w conn) hmap"
  pn_ticker :: job
  pn_calls :: "job list"
  pn_diallers :: "(socket_addr \<times> peer_id option) list"

definition p2p_start :: "dag_sync \<Rightarrow> p2p_config \<Rightarrow> socket_addr \<Rightarrow> 'w p2p_node" where
  "p2p_start sync config bound =
     \<lparr>pn_sync = sync, pn_registry = [], pn_next_peer_id = 0, pn_local_addr = bound, pn_conns = [], pn_ticker = Idle,
      pn_calls = [], pn_diallers = map (\<lambda>address. (address, None)) (pc_dial config)\<rparr>"

definition p2p_peer_count :: "'w p2p_node \<Rightarrow> nat" where
  "p2p_peer_count n = length (pn_registry n)"

definition update_conn :: "peer_id \<Rightarrow> ('w conn \<Rightarrow> 'w conn) \<Rightarrow> 'w p2p_node \<Rightarrow> 'w p2p_node" where
  "update_conn peer f n = n\<lparr>pn_conns := map (\<lambda>(p, c). (p, if p = peer then f c else c)) (pn_conns n)\<rparr>"

abbreviation set_phase :: "peer_id \<Rightarrow> phase \<Rightarrow> 'w p2p_node \<Rightarrow> 'w p2p_node" where
  "set_phase peer ph \<equiv> update_conn peer (\<lambda>c. c\<lparr>cn_phase := ph\<rparr>)"

section \<open>Dispatch\<close>

text \<open>\<open>try_send\<close> on a bounded channel: refused when it is full or when nothing receives any more.\<close>

definition try_send :: "message \<Rightarrow> 'w conn \<Rightarrow> 'w conn option" where
  "try_send m c =
     (if cn_receiving c \<and> length (cn_queue c) < PEER_SEND_QUEUE then Some (c\<lparr>cn_queue := cn_queue c @ [m]\<rparr>) else None)"

text \<open>The first half of \<open>dispatch\<close>, under the registry lock: the peers found stuck, and the messages queued.\<close>

fun dispatch_actions :: "action list \<Rightarrow> peer_id list \<Rightarrow> 'w p2p_node \<Rightarrow> peer_id list \<times> 'w p2p_node" where
  "dispatch_actions [] stuck n = (stuck, n)"
| "dispatch_actions (Disconnect peer _ # acts) stuck n = dispatch_actions acts (stuck @ [peer]) n"
| "dispatch_actions (Send peer m # acts) stuck n =
     (case (if peer \<in> set (pn_registry n) then map_of (pn_conns n) peer else None) of
        None \<Rightarrow> dispatch_actions acts stuck n
      | Some c \<Rightarrow>
          (case try_send m c of None \<Rightarrow> dispatch_actions acts (stuck @ [peer]) n
           | Some c' \<Rightarrow> dispatch_actions acts stuck (update_conn peer (\<lambda>_. c') n)))"

definition run_job :: "job \<Rightarrow> 'w p2p_node \<Rightarrow> job \<times> 'w p2p_node" where
  "run_job job n =
     (case job of Idle \<Rightarrow> (Idle, n)
      | Act acts \<Rightarrow>
          (case dispatch_actions acts [] n of (stuck, n) \<Rightarrow> (if stuck = [] then Idle else Forget stuck, n))
      | Forget stuck \<Rightarrow> (Idle, n\<lparr>pn_registry := filter (\<lambda>p. p \<notin> set stuck) (pn_registry n)\<rparr>))"

section \<open>Connections\<close>

definition spawn_connection :: "reader \<Rightarrow> 'w \<Rightarrow> 'w p2p_node \<Rightarrow> peer_id \<times> 'w p2p_node" where
  "spawn_connection reader writer n =
     (let peer = pn_next_peer_id n;
          c = \<lparr>cn_reader = reader, cn_writer = writer, cn_queue = [], cn_receiving = True, cn_phase = Joining\<rparr>
      in (peer, n\<lparr>pn_next_peer_id := peer + 1, pn_conns := AList.update peer c (pn_conns n)\<rparr>))"

text \<open>One round of the write loop: a message to the socket, or the end when the socket or the channel is closed.\<close>

definition write_turn :: "rlp_lib \<Rightarrow> 'w socket \<Rightarrow> peer_id \<Rightarrow> 'w p2p_node \<Rightarrow> 'w p2p_node option" where
  "write_turn R S peer n =
     (case map_of (pn_conns n) peer of None \<Rightarrow> None
      | Some c \<Rightarrow>
          if \<not> cn_receiving c then None
          else case cn_queue c of
              m # ms \<Rightarrow>
                (case write_frame S (encode_to_vec R m) (cn_writer c) of
                   (Inr _, w) \<Rightarrow> Some (update_conn peer (\<lambda>_. c\<lparr>cn_writer := w, cn_queue := ms\<rparr>) n)
                 | (Inl _, w) \<Rightarrow> Some (update_conn peer (\<lambda>_. c\<lparr>cn_writer := w, cn_queue := [], cn_receiving := False\<rparr>) n))
            | [] \<Rightarrow>
                if peer \<notin> set (pn_registry n) \<and> cn_phase c \<noteq> Joining
                then Some (update_conn peer (\<lambda>_. c\<lparr>cn_receiving := False\<rparr>) n) else None)"

text \<open>One round of the read loop, up to the dispatch of what the state machine answers.\<close>

definition read_turn ::
  "(header \<Rightarrow> block_hash) \<Rightarrow> header_gate \<Rightarrow> rlp_lib \<Rightarrow> peer_id \<Rightarrow> u64 \<Rightarrow> 'w conn \<Rightarrow> 'w p2p_node \<Rightarrow> 'w p2p_node" where
  "read_turn hash gate R peer now_ms c n =
     (case read_frame (cn_reader c) of
        (Inr (Some bytes), r) \<Rightarrow>
          (case decode_from_slice R bytes of
             Inr m \<Rightarrow>
               (case on_message hash gate peer m now_ms (pn_sync n) of
                  (acts, s) \<Rightarrow> update_conn peer (\<lambda>c. c\<lparr>cn_reader := r, cn_phase := Serving (Act acts)\<rparr>) (n\<lparr>pn_sync := s\<rparr>))
           | Inl _ \<Rightarrow> update_conn peer (\<lambda>c. c\<lparr>cn_reader := r, cn_phase := Leaving\<rparr>) n)
      | (Inr None, r) \<Rightarrow> update_conn peer (\<lambda>c. c\<lparr>cn_reader := r, cn_phase := Leaving\<rparr>) n
      | (Inl _, r) \<Rightarrow> update_conn peer (\<lambda>c. c\<lparr>cn_reader := r, cn_phase := Leaving\<rparr>) n)"

text \<open>What the read task of a connection does next.\<close>

definition conn_turn ::
  "(header \<Rightarrow> block_hash) \<Rightarrow> header_gate \<Rightarrow> rlp_lib \<Rightarrow> peer_id \<Rightarrow> u64 \<Rightarrow> 'w p2p_node \<Rightarrow> 'w p2p_node option" where
  "conn_turn hash gate R peer now_ms n =
     (case map_of (pn_conns n) peer of None \<Rightarrow> None
      | Some c \<Rightarrow>
          (case cn_phase c of
             Joining \<Rightarrow> Some (set_phase peer Greeting (n\<lparr>pn_registry := List.insert peer (pn_registry n)\<rparr>))
           | Greeting \<Rightarrow>
               (case on_connect peer (pn_sync n) of
                  (acts, s) \<Rightarrow> Some (set_phase peer (Serving (Act acts)) (n\<lparr>pn_sync := s\<rparr>)))
           | Serving job \<Rightarrow>
               if job = Idle then Some (read_turn hash gate R peer now_ms c n)
               else (case run_job job n of (job', n) \<Rightarrow> Some (set_phase peer (Serving job') n))
           | Leaving \<Rightarrow> Some (set_phase peer Releasing (n\<lparr>pn_registry := filter (\<lambda>p. p \<noteq> peer) (pn_registry n)\<rparr>))
           | Releasing \<Rightarrow> Some (set_phase peer Closed (n\<lparr>pn_sync := on_disconnect peer (pn_sync n)\<rparr>))
           | Closed \<Rightarrow> None))"

section \<open>The other tasks\<close>

text \<open>The ticker, and the callers of \<open>announce_local_block\<close>, which may be many at once.\<close>

definition ticker_turn :: "u64 \<Rightarrow> 'w p2p_node \<Rightarrow> 'w p2p_node" where
  "ticker_turn now_ms n =
     (if pn_ticker n = Idle then (case on_tick now_ms (pn_sync n) of (acts, s) \<Rightarrow> n\<lparr>pn_sync := s, pn_ticker := Act acts\<rparr>)
      else case run_job (pn_ticker n) n of (job, n) \<Rightarrow> n\<lparr>pn_ticker := job\<rparr>)"

definition announce_local_block :: "(header \<Rightarrow> block_hash) \<Rightarrow> block_payload \<Rightarrow> 'w p2p_node \<Rightarrow> 'w p2p_node" where
  "announce_local_block hash block n =
     (case on_local_block hash block (pn_sync n) of (acts, s) \<Rightarrow> n\<lparr>pn_sync := s, pn_calls := pn_calls n @ [Act acts]\<rparr>)"

definition call_turn :: "nat \<Rightarrow> 'w p2p_node \<Rightarrow> 'w p2p_node option" where
  "call_turn i n =
     (if i < length (pn_calls n) then
        case run_job (pn_calls n ! i) n of (job, n) \<Rightarrow> Some (n\<lparr>pn_calls := (pn_calls n)[i := job]\<rparr>)
      else None)"

text \<open>A dialler connects, waits until the read task of the connection has ended, and dials again.\<close>

definition dial_turn :: "nat \<Rightarrow> reader \<Rightarrow> 'w \<Rightarrow> 'w p2p_node \<Rightarrow> 'w p2p_node option" where
  "dial_turn i reader writer n =
     (if i < length (pn_diallers n) \<and> snd (pn_diallers n ! i) = None then
        case spawn_connection reader writer n of
          (peer, n) \<Rightarrow> Some (n\<lparr>pn_diallers := (pn_diallers n)[i := (fst (pn_diallers n ! i), Some peer)]\<rparr>)
      else None)"

definition redial_turn :: "nat \<Rightarrow> 'w p2p_node \<Rightarrow> 'w p2p_node option" where
  "redial_turn i n =
     (if i < length (pn_diallers n) then
        case snd (pn_diallers n ! i) of None \<Rightarrow> None
        | Some peer \<Rightarrow>
            if (case map_of (pn_conns n) peer of None \<Rightarrow> False | Some c \<Rightarrow> cn_phase c = Closed)
            then Some (n\<lparr>pn_diallers := (pn_diallers n)[i := (fst (pn_diallers n ! i), None)]\<rparr>) else None
      else None)"

section \<open>Events\<close>

datatype 'w event =
    Accepts reader 'w
  | Dials nat reader 'w
  | Redials nat
  | Turns peer_id u64
  | Writes peer_id
  | Ticks u64
  | Announces block_payload
  | Calls nat

definition p2p_step ::
  "(header \<Rightarrow> block_hash) \<Rightarrow> header_gate \<Rightarrow> rlp_lib \<Rightarrow> 'w socket \<Rightarrow> 'w event \<Rightarrow> 'w p2p_node \<Rightarrow> 'w p2p_node option" where
  "p2p_step hash gate R S ev n =
     (case ev of Accepts reader writer \<Rightarrow> Some (snd (spawn_connection reader writer n))
      | Dials i reader writer \<Rightarrow> dial_turn i reader writer n
      | Redials i \<Rightarrow> redial_turn i n
      | Turns peer now_ms \<Rightarrow> conn_turn hash gate R peer now_ms n
      | Writes peer \<Rightarrow> write_turn R S peer n
      | Ticks now_ms \<Rightarrow> Some (ticker_turn now_ms n)
      | Announces block \<Rightarrow> Some (announce_local_block hash block n)
      | Calls i \<Rightarrow> call_turn i n)"

fun p2p_run ::
  "(header \<Rightarrow> block_hash) \<Rightarrow> header_gate \<Rightarrow> rlp_lib \<Rightarrow> 'w socket \<Rightarrow> 'w event list \<Rightarrow> 'w p2p_node \<Rightarrow> 'w p2p_node option" where
  "p2p_run hash gate R S [] n = Some n"
| "p2p_run hash gate R S (ev # evs) n =
     (case p2p_step hash gate R S ev n of None \<Rightarrow> None | Some n \<Rightarrow> p2p_run hash gate R S evs n)"

end
