(* ===== verification/Sync_Inv.thy ===== *)
theory Sync_Inv
  imports Sync Dag_Props
begin

text \<open>
  The synchroniser's invariant. The orphan pool, its eviction order and the index of missing parents
  describe the same blocks; every orphan waits for a parent the DAG does not have; the DAG is one that
  blocks were added to in some order. While parents are still queued for resolution the index may
  lag behind the DAG by exactly those parents.
\<close>

section \<open>The parts of the invariant\<close>

definition waiters :: "dag_sync \<Rightarrow> block_hash \<Rightarrow> block_hash set" where
  "waiters s p = (case map_of (y_waiting_on s) p of None \<Rightarrow> {} | Some ws \<Rightarrow> set ws)"

definition lacks :: "dag_sync \<Rightarrow> block_hash list \<Rightarrow> orphan \<Rightarrow> block_hash \<Rightarrow> bool" where
  "lacks s queue orphan p \<longleftrightarrow> p \<in> set (h_parents (or_header orphan)) \<and> (p \<notin> blocks (y_dag s) \<or> p \<in> set queue)"

definition pool_shape :: "(header \<Rightarrow> block_hash) \<Rightarrow> dag_sync \<Rightarrow> bool" where
  "pool_shape hash s \<longleftrightarrow> hmap_ok (y_orphans s) \<and> distinct (y_orphan_order s) \<and>
     set (y_orphan_order s) = dom (map_of (y_orphans s)) \<and>
     (\<forall>h orphan. map_of (y_orphans s) h = Some orphan \<longrightarrow> hash (or_header orphan) = h) \<and>
     length (y_orphans s) \<le> max 1 (sc_max_orphans (y_config s))"

definition peers_ok :: "dag_sync \<Rightarrow> bool" where
  "peers_ok s \<longleftrightarrow> bmap_ok (y_peers s) \<and> (\<forall>(p, st) \<in> set (y_peers s). ps_id st = p \<and> peer_ok st)"

text \<open>
  With \<open>queue\<close> the parents still to be resolved and \<open>rest\<close> the orphans still to be looked at: whoever waits is an
  orphan lacking that parent, unless the parent is queued; every lack is indexed; every orphan lacks something.
\<close>

definition waits_ok :: "dag_sync \<Rightarrow> block_hash list \<Rightarrow> block_hash list \<Rightarrow> bool" where
  "waits_ok s queue rest \<longleftrightarrow>
     (\<forall>p h. h \<in> waiters s p \<longrightarrow> p \<in> set queue \<or> (\<exists>orphan. map_of (y_orphans s) h = Some orphan \<and> lacks s [] orphan p)) \<and>
     (\<forall>h orphan p. map_of (y_orphans s) h = Some orphan \<longrightarrow> lacks s queue orphan p \<longrightarrow> h \<in> waiters s p) \<and>
     (\<forall>h orphan. map_of (y_orphans s) h = Some orphan \<longrightarrow> h \<in> set rest \<or> (\<exists>p. lacks s queue orphan p))"

definition sync_core :: "(header \<Rightarrow> block_hash) \<Rightarrow> header \<Rightarrow> nat \<Rightarrow> nat \<Rightarrow> block_hash list \<Rightarrow> block_hash list \<Rightarrow> dag_sync \<Rightarrow> bool" where
  "sync_core hash genesis k limit queue rest s \<longleftrightarrow>
     dag_reachable hash genesis k limit (y_dag s) \<and> pool_shape hash s \<and> peers_ok s \<and> waits_ok s queue rest \<and>
     distinct queue \<and> set queue \<subseteq> blocks (y_dag s)"

lemma sync_coreD:
  assumes "sync_core hash genesis k limit queue rest s"
  shows "dag_reachable hash genesis k limit (y_dag s)" "pool_shape hash s" "peers_ok s" "waits_ok s queue rest"
    "distinct queue" "set queue \<subseteq> blocks (y_dag s)"
  using assms by (simp_all add: sync_core_def)

section \<open>Peers\<close>

lemma update_peer_get:
  "map_of (y_peers (update_peer p f s)) q = (if q = p then map_option f (map_of (y_peers s) p) else map_of (y_peers s) q)"
proof -
  have "map_of (map (\<lambda>(q, st). (q, if q = p then f st else st)) m) q = (if q = p then map_option f (map_of m p) else map_of m q)" for m
    by (induction m) auto
  then show ?thesis by (simp add: update_peer_def)
qed

lemma update_peer_peers:
  assumes "peers_ok s" "\<And>st. peer_ok st \<Longrightarrow> peer_ok (f st)" "\<And>st. ps_id (f st) = ps_id st"
  shows "\<exists>ps. update_peer p f s = s\<lparr>y_peers := ps\<rparr> \<and> peers_ok (s\<lparr>y_peers := ps\<rparr>)"
proof (intro exI conjI)
  show "update_peer p f s = s\<lparr>y_peers := map (\<lambda>(q, st). (q, if q = p then f st else st)) (y_peers s)\<rparr>"
    by (simp add: update_peer_def)
  let ?m = "map (\<lambda>(q, st). (q, if q = p then f st else st)) (y_peers s)"
  have "map fst ?m = map fst (y_peers s)" by auto
  moreover have "bmap_ok (y_peers s)" using assms(1) by (simp add: peers_ok_def)
  ultimately have "bmap_ok ?m" by (simp only: bmap_ok_def)
  moreover have "\<forall>(q, st') \<in> set ?m. ps_id st' = q \<and> peer_ok st'"
    using assms(1) by (force simp: peers_ok_def assms(2,3))
  ultimately show "peers_ok (s\<lparr>y_peers := ?m\<rparr>)" by (simp add: peers_ok_def)
qed

lemma announce_peers:
  assumes "peers_ok s" "announce h ex s = (acts, t)"
  shows "\<exists>ps. t = s\<lparr>y_peers := ps\<rparr> \<and> peers_ok t"
proof -
  have "\<exists>ps'. fold (\<lambda>peer. update_peer peer (note_known h)) ps s = s\<lparr>y_peers := ps'\<rparr> \<and> peers_ok (s\<lparr>y_peers := ps'\<rparr>)" for ps
    using assms(1)
  proof (induction ps arbitrary: s)
    case Nil
    then show ?case by (intro exI[of _ "y_peers s"]) simp
  next
    case (Cons p ps)
    from update_peer_peers[OF Cons.prems, of "note_known h" p] obtain ps1
      where 1: "update_peer p (note_known h) s = s\<lparr>y_peers := ps1\<rparr>" "peers_ok (s\<lparr>y_peers := ps1\<rparr>)"
      using note_known_ok by auto
    from Cons.IH[OF 1(2)] show ?case by (simp add: 1(1))
  qed
  moreover obtain ps where "t = fold (\<lambda>peer. update_peer peer (note_known h)) ps s" using assms(2) by (auto simp: announce_def Let_def)
  ultimately show ?thesis by metis
qed

lemma sync_core_peers:
  "sync_core hash genesis k limit q r s \<Longrightarrow> peers_ok (s\<lparr>y_peers := ps\<rparr>) \<Longrightarrow> sync_core hash genesis k limit q r (s\<lparr>y_peers := ps\<rparr>)"
  by (simp add: sync_core_def pool_shape_def waits_ok_def lacks_def waiters_def)

text \<open>The fields the invariant does not read.\<close>

lemma sync_core_frame [simp]:
  "sync_core hash genesis k limit q r (s\<lparr>y_requested := x1\<rparr>) \<longleftrightarrow> sync_core hash genesis k limit q r s"
  "sync_core hash genesis k limit q r (s\<lparr>y_bodies := x2\<rparr>) \<longleftrightarrow> sync_core hash genesis k limit q r s"
  "sync_core hash genesis k limit q r (s\<lparr>y_accepted := x3\<rparr>) \<longleftrightarrow> sync_core hash genesis k limit q r s"
  "sync_core hash genesis k limit q r (s\<lparr>y_retry_cursor := x4\<rparr>) \<longleftrightarrow> sync_core hash genesis k limit q r s"
  by (simp_all add: sync_core_def pool_shape_def waits_ok_def lacks_def waiters_def peers_ok_def)

section \<open>Adding to the DAG\<close>

lemma add_block_grows:
  assumes "dag_reachable hash genesis k limit dag" "add_block hash dag h = (r, dag')"
  shows "dag_reachable hash genesis k limit dag'"
    and "case r of Inl e \<Rightarrow> blocks dag' = blocks dag \<and> s_headers dag' = s_headers dag
      | Inr b \<Rightarrow> b = hash h \<and> b \<notin> blocks dag \<and> h_parents h \<noteq> [] \<and> set (h_parents h) \<subseteq> blocks dag \<and>
          blocks dag' = insert b (blocks dag) \<and> s_headers dag' = AList.update b h (s_headers dag)"
    and "r = add_block_result hash dag h"
proof -
  note cases = add_block_cases[OF reachable_ok[OF assms(1)] assms(2)]
  show "dag_reachable hash genesis k limit dag'" using dag_reachable.add[OF assms(1), of h] assms(2) by simp
  from cases show "r = add_block_result hash dag h" by simp
  show "case r of Inl e \<Rightarrow> blocks dag' = blocks dag \<and> s_headers dag' = s_headers dag
      | Inr b \<Rightarrow> b = hash h \<and> b \<notin> blocks dag \<and> h_parents h \<noteq> [] \<and> set (h_parents h) \<subseteq> blocks dag \<and>
          blocks dag' = insert b (blocks dag) \<and> s_headers dag' = AList.update b h (s_headers dag)"
  proof (cases r)
    case (Inl e)
    with cases[THEN conjunct2] obtain c where "dag' = dag\<lparr>s_reachability := c\<rparr>" by auto
    with Inl show ?thesis by (simp add: blocks_def)
  next
    case (Inr b)
    with cases[THEN conjunct2] have "inserted dag b h dag'" "b \<notin> blocks dag" by auto
    with inserted_basic(1)[OF this] Inr cases[THEN conjunct2] show ?thesis by (simp add: inserted_def)
  qed
qed

text \<open>A block that joins leaves the index exact when it is queued, and an orphan that leaves the pool had everything.\<close>

lemma waits_okI:
  assumes "\<And>p h. h \<in> waiters s p \<Longrightarrow> p \<notin> set queue \<Longrightarrow> \<exists>orphan. map_of (y_orphans s) h = Some orphan \<and> lacks s [] orphan p"
    and "\<And>h orphan p. map_of (y_orphans s) h = Some orphan \<Longrightarrow> lacks s queue orphan p \<Longrightarrow> h \<in> waiters s p"
    and "\<And>h orphan. map_of (y_orphans s) h = Some orphan \<Longrightarrow> h \<notin> set rest \<Longrightarrow> \<exists>p. lacks s queue orphan p"
  shows "waits_ok s queue rest"
  using assms unfolding waits_ok_def by blast

lemma waits_okD:
  assumes "waits_ok s queue rest"
  shows "h \<in> waiters s p \<Longrightarrow> p \<notin> set queue \<Longrightarrow> \<exists>orphan. map_of (y_orphans s) h = Some orphan \<and> lacks s [] orphan p"
    and "map_of (y_orphans s) h = Some orphan \<Longrightarrow> lacks s queue orphan p \<Longrightarrow> h \<in> waiters s p"
    and "map_of (y_orphans s) h = Some orphan \<Longrightarrow> h \<notin> set rest \<Longrightarrow> \<exists>p. lacks s queue orphan p"
  using assms unfolding waits_ok_def by blast+

lemma waits_ok_join:
  assumes "waits_ok s queue rest" "blocks (y_dag t) = insert b (blocks (y_dag s))" "b \<notin> blocks (y_dag s)"
    and "y_orphans t = y_orphans s" "y_waiting_on t = y_waiting_on s"
  shows "waits_ok t (queue @ [b]) rest"
proof -
  have l: "lacks t (queue @ [b]) orphan p \<longleftrightarrow> lacks s queue orphan p" "lacks t [] orphan p \<longleftrightarrow> lacks s [] orphan p \<and> p \<noteq> b"
    for orphan p using assms(2,3) by (auto simp: lacks_def)
  have w: "waiters t = waiters s" using assms(5) by (simp add: waiters_def fun_eq_iff)
  show ?thesis
    by (rule waits_okI) (use waits_okD[OF assms(1)] in \<open>simp_all add: l w assms(4)\<close>)
qed

lemma waits_ok_leave:
  assumes "waits_ok s queue (c # rest)" "set (h_parents (or_header orphan)) \<subseteq> blocks (y_dag s)" "map_of (y_orphans s) c = Some orphan"
    and "map_of (y_orphans t) = (map_of (y_orphans s))(c := None)" "y_waiting_on t = y_waiting_on s" "y_dag t = y_dag s"
  shows "waits_ok t queue rest"
proof -
  have l: "lacks t q = lacks s q" for q using assms(6) by (simp add: lacks_def fun_eq_iff)
  have w: "waiters t = waiters s" using assms(5) by (simp add: waiters_def fun_eq_iff)
  have no: "\<not> lacks s [] orphan p" for p using assms(2) by (auto simp: lacks_def)
  show ?thesis
  proof (rule waits_okI)
    fix p h
    assume "h \<in> waiters t p" "p \<notin> set queue"
    with waits_okD(1)[OF assms(1)] obtain o' where "map_of (y_orphans s) h = Some o'" "lacks s [] o' p" by (auto simp: w)
    with no assms(3) show "\<exists>orphan. map_of (y_orphans t) h = Some orphan \<and> lacks t [] orphan p" by (auto simp: l assms(4))
  next
    fix h o' p
    assume "map_of (y_orphans t) h = Some o'" "lacks t queue o' p"
    then show "h \<in> waiters t p" using waits_okD(2)[OF assms(1), of h o' p] by (simp add: l w assms(4) split: if_splits)
  next
    fix h o'
    assume "map_of (y_orphans t) h = Some o'" "h \<notin> set rest"
    then show "\<exists>p. lacks t queue o' p" using waits_okD(3)[OF assms(1), of h o'] by (simp add: l assms(4) split: if_splits)
  qed
qed

lemma waits_ok_skip:
  assumes "waits_ok s queue (c # rest)" "\<And>orphan. map_of (y_orphans s) c = Some orphan \<Longrightarrow> \<exists>p. lacks s queue orphan p"
  shows "waits_ok s queue rest"
  using assms unfolding waits_ok_def by auto metis

lemma waits_ok_blocks:
  "waits_ok s queue rest \<Longrightarrow> blocks (y_dag t) = blocks (y_dag s) \<Longrightarrow> y_orphans t = y_orphans s \<Longrightarrow> y_waiting_on t = y_waiting_on s \<Longrightarrow>
   waits_ok t queue rest"
  by (simp add: waits_ok_def lacks_def waiters_def)

section \<open>Resolution of orphans\<close>

text \<open>
  What resolution does to the rest of the state: the DAG grows by former orphans, the pool shrinks, and an
  orphan leaves the pool for the DAG, or because the DAG refused it with all its parents present.
\<close>

definition refused :: "(header \<Rightarrow> block_hash) \<Rightarrow> header \<Rightarrow> nat \<Rightarrow> nat \<Rightarrow> dag_store \<Rightarrow> header \<Rightarrow> bool" where
  "refused hash genesis k limit dag hdr \<longleftrightarrow>
     (\<exists>d e. dag_reachable hash genesis k limit d \<and> map_of (s_headers d) \<subseteq>\<^sub>m map_of (s_headers dag) \<and>
        set (h_parents hdr) \<subseteq> blocks d \<and> hash hdr \<notin> blocks d \<and> add_block_result hash d hdr = Inl e)"

definition settles :: "(header \<Rightarrow> block_hash) \<Rightarrow> header \<Rightarrow> nat \<Rightarrow> nat \<Rightarrow> dag_sync \<Rightarrow> dag_sync \<Rightarrow> bool" where
  "settles hash genesis k limit s t \<longleftrightarrow>
     y_config t = y_config s \<and> y_bodies t = y_bodies s \<and> y_requested t = y_requested s \<and>
     map_of (s_headers (y_dag s)) \<subseteq>\<^sub>m map_of (s_headers (y_dag t)) \<and>
     ran (map_of (s_headers (y_dag t))) \<subseteq> ran (map_of (s_headers (y_dag s))) \<union> or_header ` ran (map_of (y_orphans s)) \<and>
     map_of (y_orphans t) \<subseteq>\<^sub>m map_of (y_orphans s) \<and> length (y_orphans t) \<le> length (y_orphans s) \<and>
     (\<forall>h orphan. map_of (y_orphans s) h = Some orphan \<longrightarrow> map_of (y_orphans t) h = None \<longrightarrow>
        h \<in> blocks (y_dag t) \<or> refused hash genesis k limit (y_dag t) (or_header orphan))"

lemma settles_refl: "settles hash genesis k limit s s" by (simp add: settles_def)

lemma refused_mono: "refused hash genesis k limit dag hdr \<Longrightarrow> map_of (s_headers dag) \<subseteq>\<^sub>m map_of (s_headers dag') \<Longrightarrow>
    refused hash genesis k limit dag' hdr"
  unfolding refused_def using map_le_trans by blast

lemma blocks_mono: "map_of (s_headers d) \<subseteq>\<^sub>m map_of (s_headers d') \<Longrightarrow> blocks d \<subseteq> blocks d'"
  using map_le_implies_dom_le by (fastforce simp: blocks_def dom_map_of_conv_image_fst)

lemma map_leD: "m \<subseteq>\<^sub>m m' \<Longrightarrow> m a = Some b \<Longrightarrow> m' a = Some b"
  by (force simp: map_le_def dom_def)

lemma ran_le: "m \<subseteq>\<^sub>m m' \<Longrightarrow> ran m \<subseteq> ran m'"
  by (auto simp: ran_def dest: map_leD)

lemma settles_trans:
  assumes "settles hash genesis k limit s t" "settles hash genesis k limit t u"
  shows "settles hash genesis k limit s u"
proof -
  note st = assms(1)[unfolded settles_def] and tu = assms(2)[unfolded settles_def]
  have hd: "map_of (s_headers (y_dag t)) \<subseteq>\<^sub>m map_of (s_headers (y_dag u))" using tu by blast
  have "h \<in> blocks (y_dag u) \<or> refused hash genesis k limit (y_dag u) (or_header orphan)"
    if "map_of (y_orphans s) h = Some orphan" "map_of (y_orphans u) h = None" for h orphan
  proof (cases "map_of (y_orphans t) h")
    case None
    with st that(1) have "h \<in> blocks (y_dag t) \<or> refused hash genesis k limit (y_dag t) (or_header orphan)" by blast
    then show ?thesis using blocks_mono[OF hd] refused_mono[OF _ hd] by blast
  next
    case (Some o')
    from st have "map_of (y_orphans t) \<subseteq>\<^sub>m map_of (y_orphans s)" by blast
    from map_leD[OF this Some] that(1) have "o' = orphan" by simp
    with tu Some that(2) show ?thesis by blast
  qed
  moreover have "or_header ` ran (map_of (y_orphans t)) \<subseteq> or_header ` ran (map_of (y_orphans s))"
    using st ran_le[of "map_of (y_orphans t)"] by blast
  then have "ran (map_of (s_headers (y_dag u))) \<subseteq> ran (map_of (s_headers (y_dag s))) \<union> or_header ` ran (map_of (y_orphans s))"
    using st tu by blast
  moreover have "map_of (s_headers (y_dag s)) \<subseteq>\<^sub>m map_of (s_headers (y_dag u))" "map_of (y_orphans u) \<subseteq>\<^sub>m map_of (y_orphans s)"
    using st tu map_le_trans by blast+
  ultimately show ?thesis using st tu by (simp add: settles_def)
qed

lemma settles_peers: "settles hash genesis k limit s (t\<lparr>y_peers := ps\<rparr>) \<longleftrightarrow> settles hash genesis k limit s t"
  by (simp add: settles_def)

lemma resolve_child_ok:
  assumes core: "sync_core hash genesis k limit queue (c # rest) s"
    and run: "resolve_child hash c (queue, acts, s) = (queue', acts', s')"
  shows "sync_core hash genesis k limit queue' rest s' \<and> settles hash genesis k limit s s'"
proof -
  note core' = sync_coreD[OF core]
  have skip: "sync_core hash genesis k limit queue rest s"
    if "\<And>orphan. map_of (y_orphans s) c = Some orphan \<Longrightarrow> \<exists>p. lacks s queue orphan p"
    using core waits_ok_skip[OF core'(4) that] by (simp add: sync_core_def)
  consider (none) "map_of (y_orphans s) c = None"
    | (lacks) orphan where "map_of (y_orphans s) c = Some orphan" "\<not> set (h_parents (or_header orphan)) \<subseteq> blocks (y_dag s)"
    | (ready) orphan where "map_of (y_orphans s) c = Some orphan" "set (h_parents (or_header orphan)) \<subseteq> blocks (y_dag s)"
    by (cases "map_of (y_orphans s) c") auto
  then show ?thesis
  proof cases
    case none
    with run skip show ?thesis by (simp add: resolve_child_def settles_refl)
  next
    case lacks
    then have "\<not> list_all (contains (y_dag s)) (h_parents (or_header orphan))" "\<exists>p. lacks s queue orphan p"
      by (auto simp: list_all_iff contains_iff lacks_def)
    with run skip lacks(1) show ?thesis by (simp add: resolve_child_def settles_refl)
  next
    case ready
    let ?t = "s\<lparr>y_orphans := AList.delete c (y_orphans s), y_orphan_order := filter (\<lambda>h. h \<noteq> c) (y_orphan_order s)\<rparr>"
    have all: "list_all (contains (y_dag s)) (h_parents (or_header orphan))" using ready(2) by (auto simp: list_all_iff contains_iff)
    have shape: "pool_shape hash ?t"
      using core'(2) length_delete_hmap_le[of c "y_orphans s"] by (auto simp: pool_shape_def split: if_splits)
    have waits: "waits_ok ?t queue rest"
      by (rule waits_ok_leave[OF core'(4) ready(2,1)]) (simp_all add: fun_eq_iff)
    have key: "hash (or_header orphan) = c" using core'(2) ready(1) by (simp add: pool_shape_def)
    have sub: "map_of (AList.delete c (y_orphans s)) \<subseteq>\<^sub>m map_of (y_orphans s)"
      "length (AList.delete c (y_orphans s)) \<le> length (y_orphans s)" by (auto simp: map_le_def length_delete_hmap_le)
    obtain r dag where add: "add_block hash (y_dag s) (or_header orphan) = (r, dag)" by fastforce
    note grows = add_block_grows[OF core'(1) add]
    show ?thesis
    proof (cases r)
      case (Inl e)
      with run add ready(1) all have eq: "queue' = queue" "s' = ?t\<lparr>y_dag := dag\<rparr>" by (auto simp: resolve_child_def Let_def)
      have dag: "blocks dag = blocks (y_dag s)" "s_headers dag = s_headers (y_dag s)" using grows(2) Inl by simp_all
      have "peers_ok (?t\<lparr>y_dag := dag\<rparr>)" using core'(3) by (simp add: peers_ok_def)
      moreover have "pool_shape hash (?t\<lparr>y_dag := dag\<rparr>)" using shape by (simp add: pool_shape_def)
      moreover have "waits_ok (?t\<lparr>y_dag := dag\<rparr>) queue rest" by (rule waits_ok_blocks[OF waits]) (simp_all add: dag)
      ultimately have "sync_core hash genesis k limit queue rest s'" using core' grows(1) dag by (simp add: sync_core_def eq)
      moreover have "c \<in> blocks (y_dag s) \<or> refused hash genesis k limit (y_dag s) (or_header orphan)"
        using core'(1) ready(2) Inl grows(3) key unfolding refused_def by (metis map_le_refl)
      then have "settles hash genesis k limit s s'"
        using sub dag ready(1) refused_mono[of hash genesis k limit "y_dag s" _ dag]
        by (auto simp: settles_def eq refused_def split: if_splits)
      ultimately show ?thesis by (simp add: eq(1))
    next
      case (Inr b)
      let ?u = "?t\<lparr>y_dag := dag, y_accepted := y_accepted s @ [c]\<rparr>"
      obtain sent u where ann: "announce c (Some (or_from orphan)) ?u = (sent, u)" by fastforce
      with run add ready(1) all Inr have eq: "queue' = queue @ [c]" "s' = u" by (auto simp: resolve_child_def Let_def)
      have dag: "c \<notin> blocks (y_dag s)" "blocks dag = insert c (blocks (y_dag s))" "s_headers dag = AList.update c (or_header orphan) (s_headers (y_dag s))"
        using grows(2) Inr key by auto
      have "waits_ok ?u (queue @ [c]) rest" by (rule waits_ok_join[OF waits]) (simp_all add: dag)
      moreover have "peers_ok ?u" "pool_shape hash ?u" using core'(3) shape by (simp_all add: peers_ok_def pool_shape_def)
      ultimately have cu: "sync_core hash genesis k limit (queue @ [c]) rest ?u"
        using core' grows(1) dag by (auto simp: sync_core_def)
      from announce_peers[OF _ ann] core'(3) obtain ps where u: "u = ?u\<lparr>y_peers := ps\<rparr>" "peers_ok u" by (auto simp: peers_ok_def)
      from sync_core_peers[OF cu] u have "sync_core hash genesis k limit (queue @ [c]) rest u" by simp
      moreover have "map_of (s_headers (y_dag s)) \<subseteq>\<^sub>m map_of (s_headers dag)"
        using dag(1,3) by (auto simp: map_le_def blocks_def map_of_keys_iff dom_map_of_conv_image_fst)
      moreover have "ran (map_of (s_headers dag)) \<subseteq> insert (or_header orphan) (ran (map_of (s_headers (y_dag s))))"
        using dag(3) by (auto simp: ran_def split: if_splits)
      ultimately show ?thesis using sub dag ready(1)
        by (auto simp: eq u(1) settles_def ran_def split: if_splits)
    qed
  qed
qed

lemma resolve_children_ok:
  "sync_core hash genesis k limit queue cs s \<Longrightarrow> fold (resolve_child hash) cs (queue, acts, s) = (queue', acts', s') \<Longrightarrow>
   sync_core hash genesis k limit queue' [] s' \<and> settles hash genesis k limit s s'"
proof (induction cs arbitrary: queue acts s)
  case Nil
  then show ?case by (simp add: settles_refl)
next
  case (Cons c cs)
  obtain q1 a1 s1 where r: "resolve_child hash c (queue, acts, s) = (q1, a1, s1)" by (cases "resolve_child hash c (queue, acts, s)")
  note ok = resolve_child_ok[OF Cons.prems(1) r]
  from Cons.IH[of q1 s1 a1] Cons.prems(2) ok r show ?case using settles_trans by fastforce
qed

lemma waits_ok_pop:
  assumes "waits_ok s (parent # queue) []" "parent \<in> blocks (y_dag s)" "set children = waiters s parent" "parent \<notin> set queue"
  shows "waits_ok (s\<lparr>y_waiting_on := AList.delete parent (y_waiting_on s)\<rparr>) queue children"
proof -
  let ?t = "s\<lparr>y_waiting_on := AList.delete parent (y_waiting_on s)\<rparr>"
  have w: "waiters ?t p = (if p = parent then {} else waiters s p)" for p by (simp add: waiters_def)
  have l: "lacks ?t q = lacks s q" "lacks s (parent # queue) orphan p \<longleftrightarrow> lacks s queue orphan p \<or> p = parent \<and> p \<in> set (h_parents (or_header orphan))"
    for q orphan p using assms(2) by (auto simp: lacks_def fun_eq_iff)
  show ?thesis
  proof (rule waits_okI)
    fix p h
    assume "h \<in> waiters ?t p" "p \<notin> set queue"
    then show "\<exists>orphan. map_of (y_orphans ?t) h = Some orphan \<and> lacks ?t [] orphan p"
      using waits_okD(1)[OF assms(1), of h p] by (auto simp: w l(1) split: if_splits)
  next
    fix h orphan p
    assume "map_of (y_orphans ?t) h = Some orphan" "lacks ?t queue orphan p"
    then show "h \<in> waiters ?t p" using waits_okD(2)[OF assms(1), of h orphan p] assms(2,4) by (auto simp: w l lacks_def)
  next
    fix h orphan
    assume "map_of (y_orphans ?t) h = Some orphan" "h \<notin> set children"
    then show "\<exists>p. lacks ?t queue orphan p"
      using waits_okD(3)[OF assms(1), of h orphan] waits_okD(2)[OF assms(1), of h orphan parent] assms(3) by (auto simp: l)
  qed
qed

lemma resolve_loop_ok:
  "sync_core hash genesis k limit queue [] s \<Longrightarrow> resolve_loop hash queue acts s = (acts', s') \<Longrightarrow>
   sync_core hash genesis k limit [] [] s' \<and> settles hash genesis k limit s s'"
proof (induction hash queue acts s rule: resolve_loop.induct)
  case (1 hash acts s)
  then show ?case by (simp add: settles_refl)
next
  case (2 hash parent queue acts s)
  note core = sync_coreD[OF 2(3)]
  let ?t = "s\<lparr>y_waiting_on := AList.delete parent (y_waiting_on s)\<rparr>"
  have pop: "sync_core hash genesis k limit queue children ?t" if "set children = waiters s parent" for children
    using waits_ok_pop[OF core(4) _ that] core by (simp add: sync_core_def pool_shape_def peers_ok_def)
  show ?case
  proof (cases "map_of (y_waiting_on s) parent")
    case None
    then have "?t = s" by (simp add: delete_id map_of_eq_None_iff)
    with pop[of "[]"] None have "sync_core hash genesis k limit queue [] s" by (simp add: waiters_def)
    with 2(1)[OF None] 2(4) None show ?thesis by simp
  next
    case (Some children)
    obtain q1 a1 s1 where f: "fold (resolve_child hash) children (queue, acts, ?t) = (q1, a1, s1)"
      by (cases "fold (resolve_child hash) children (queue, acts, ?t)")
    have "sync_core hash genesis k limit queue children ?t" by (rule pop) (simp add: waiters_def Some)
    from resolve_children_ok[OF this f] have ok: "sync_core hash genesis k limit q1 [] s1" "settles hash genesis k limit ?t s1" by simp_all
    have "resolve_loop hash q1 a1 s1 = (acts', s')" using 2(4) by (simp add: Some f)
    from 2(2)[OF Some f[symmetric] refl ok(1) this] have fin: "sync_core hash genesis k limit [] [] s'" "settles hash genesis k limit s1 s'" by simp_all
    have "settles hash genesis k limit s ?t" by (simp add: settles_def)
    from settles_trans[OF settles_trans[OF this ok(2)] fin(2)] fin(1) show ?thesis by simp
  qed
qed

lemma resolve_orphans_ok:
  assumes "sync_core hash genesis k limit [h] [] s" "resolve_orphans_of hash h s = (acts, s')"
  shows "sync_core hash genesis k limit [] [] s'" "settles hash genesis k limit s s'"
  using resolve_loop_ok[OF assms(1)] assms(2) by (auto simp: resolve_orphans_of_def)

end
