(* ===== verification/Sync_Handlers.thy ===== *)
theory Sync_Handlers
  imports Sync_Inv
begin

text \<open>
  Every operation of the synchroniser keeps its invariant, and what each of them leaves unchanged.
\<close>

abbreviation sync_ok :: "(header \<Rightarrow> block_hash) \<Rightarrow> header \<Rightarrow> nat \<Rightarrow> nat \<Rightarrow> dag_sync \<Rightarrow> bool" where
  "sync_ok hash genesis k limit s \<equiv> sync_core hash genesis k limit [] [] s"

section \<open>Eviction\<close>

definition wset :: "(block_hash, block_hash list) hmap \<Rightarrow> block_hash \<Rightarrow> block_hash set" where
  "wset w p = (case map_of w p of None \<Rightarrow> {} | Some ws \<Rightarrow> set ws)"

lemma waiters_wset: "waiters s = wset (y_waiting_on s)"
  by (simp add: waiters_def wset_def fun_eq_iff)

lemma wset_unwait: "wset (unwait h q w) p = (if p = q then wset w p - {h} else wset w p)"
proof (cases "map_of w q")
  case (Some ws)
  then show ?thesis
    by (cases "btree_remove h ws = []")
       (auto simp: unwait_def wset_def Let_def simp flip: set_btree_remove)
qed (auto simp: unwait_def wset_def)

lemma wset_unwait_all: "wset (fold (unwait h) ps w) p = (if p \<in> set ps then wset w p - {h} else wset w p)"
  by (induction ps arbitrary: w) (auto simp: wset_unwait)

lemma wset_wait_for: "wset (wait_for h q w) p = (if p = q then insert h (wset w p) else wset w p)"
  by (auto simp: wait_for_def wset_def split: option.split)

lemma wset_wait_all: "wset (fold (wait_for h) ps w) p = (if p \<in> set ps then insert h (wset w p) else wset w p)"
  by (induction ps arbitrary: w) (auto simp: wset_wait_for)

lemma drop_orphan_ok:
  assumes ok: "sync_ok hash genesis k limit (s\<lparr>y_orphan_order := oldest # order\<rparr>)"
  shows "sync_ok hash genesis k limit ((drop_orphan oldest s)\<lparr>y_orphan_order := order\<rparr>)"
    and "\<exists>w. drop_orphan oldest s = s\<lparr>y_orphans := AList.delete oldest (y_orphans s), y_waiting_on := w\<rparr>"
    and "length (y_orphans (drop_orphan oldest s)) < length (y_orphans s)"
proof -
  note core = sync_coreD[OF ok]
  have "oldest \<in> dom (map_of (y_orphans s))" using core(2) by (auto simp: pool_shape_def)
  then obtain orphan where o: "map_of (y_orphans s) oldest = Some orphan" by blast
  let ?w = "fold (unwait oldest) (h_parents (or_header orphan)) (y_waiting_on s)"
  let ?t = "s\<lparr>y_orphans := AList.delete oldest (y_orphans s), y_waiting_on := ?w, y_orphan_order := order\<rparr>"
  have eq: "drop_orphan oldest s = s\<lparr>y_orphans := AList.delete oldest (y_orphans s), y_waiting_on := ?w\<rparr>"
    by (simp add: drop_orphan_def o)
  then show "\<exists>w. drop_orphan oldest s = s\<lparr>y_orphans := AList.delete oldest (y_orphans s), y_waiting_on := w\<rparr>" by blast
  show "length (y_orphans (drop_orphan oldest s)) < length (y_orphans s)"
    using map_of_SomeD[OF o] unfolding eq AList.delete_eq by (auto intro!: length_filter_less)
  have w: "waiters ?t p = (if p \<in> set (h_parents (or_header orphan)) then waiters s p - {oldest} else waiters s p)" for p
    by (simp add: waiters_wset wset_unwait_all)
  have l: "lacks ?t q = lacks s q" for q by (simp add: lacks_def fun_eq_iff)
  have s: "lacks (s\<lparr>y_orphan_order := oldest # order\<rparr>) q = lacks s q" "waiters (s\<lparr>y_orphan_order := oldest # order\<rparr>) = waiters s" for q
    by (simp_all add: lacks_def waiters_def fun_eq_iff)
  note waits = waits_okD[OF core(4), unfolded s, simplified]
  have "waits_ok ?t [] []"
  proof (rule waits_okI)
    fix p h
    assume h: "h \<in> waiters ?t p"
    then obtain o' where o': "map_of (y_orphans s) h = Some o'" "lacks s [] o' p" using waits(1)[of h p] by (auto simp: w split: if_splits)
    with o h have "h \<noteq> oldest" by (auto simp: w lacks_def split: if_splits)
    with o' show "\<exists>orphan. map_of (y_orphans ?t) h = Some orphan \<and> lacks ?t [] orphan p" by (simp add: l)
  next
    fix h o' p
    assume "map_of (y_orphans ?t) h = Some o'" "lacks ?t [] o' p"
    then show "h \<in> waiters ?t p" using waits(2)[of h o' p] by (simp add: l w split: if_splits)
  next
    fix h o'
    assume "map_of (y_orphans ?t) h = Some o'"
    then show "\<exists>p. lacks ?t [] o' p" using waits(3)[of h o'] by (simp add: l split: if_splits)
  qed
  moreover have "pool_shape hash ?t"
    using core(2) length_delete_hmap_le[of oldest "y_orphans s"] by (auto simp: pool_shape_def split: if_splits)
  moreover have "peers_ok ?t" using core(3) by (simp add: peers_ok_def)
  ultimately show "sync_ok hash genesis k limit ((drop_orphan oldest s)\<lparr>y_orphan_order := order\<rparr>)"
    using core(1) by (simp add: sync_core_def eq)
qed

lemma evict_oldest_ok:
  assumes "sync_ok hash genesis k limit (s\<lparr>y_orphan_order := order\<rparr>)"
  shows "sync_ok hash genesis k limit (evict_oldest order s) \<and>
    (\<exists>os w ord. evict_oldest order s = s\<lparr>y_orphans := os, y_waiting_on := w, y_orphan_order := ord\<rparr> \<and>
      map_of os \<subseteq>\<^sub>m map_of (y_orphans s) \<and> length os \<le> length (y_orphans s) \<and>
      (length os < sc_max_orphans (y_config s) \<or> os = []) \<and>
      (length (y_orphans s) < sc_max_orphans (y_config s) \<longrightarrow> os = y_orphans s))"
  using assms
proof (induction order s rule: evict_oldest.induct)
  case (1 s)
  then have "y_orphans s = []" by (auto simp: sync_core_def pool_shape_def dom_map_of_conv_image_fst)
  with 1 show ?case by (auto intro!: exI[of _ "[]"] exI[of _ "y_waiting_on s"])
next
  case (2 oldest order s)
  show ?case
  proof (cases "sc_max_orphans (y_config s) \<le> length (y_orphans s)")
    case True
    note drop = drop_orphan_ok[OF 2(2)]
    obtain w where eq: "drop_orphan oldest s = s\<lparr>y_orphans := AList.delete oldest (y_orphans s), y_waiting_on := w\<rparr>" using drop(2) by blast
    note IH = 2(1)[OF True drop(1)]
    from IH[THEN conjunct2] obtain os w' ord where
      r: "evict_oldest order (drop_orphan oldest s) = (drop_orphan oldest s)\<lparr>y_orphans := os, y_waiting_on := w', y_orphan_order := ord\<rparr>"
        "map_of os \<subseteq>\<^sub>m map_of (y_orphans (drop_orphan oldest s))"
        "length os < sc_max_orphans (y_config (drop_orphan oldest s)) \<or> os = []" "length os \<le> length (y_orphans (drop_orphan oldest s))"
      by blast
    have "map_of (AList.delete oldest (y_orphans s)) \<subseteq>\<^sub>m map_of (y_orphans s)" by (auto simp: map_le_def)
    moreover have "map_of os \<subseteq>\<^sub>m map_of (AList.delete oldest (y_orphans s))" using r(2) by (simp add: eq)
    ultimately have "map_of os \<subseteq>\<^sub>m map_of (y_orphans s)" using map_le_trans by blast
    moreover have "evict_oldest (oldest # order) s = s\<lparr>y_orphans := os, y_waiting_on := w', y_orphan_order := ord\<rparr>"
      using True r(1) by (simp add: eq)
    moreover have "length os < sc_max_orphans (y_config s) \<or> os = []" using r(3) by (simp add: eq)
    moreover have "length os \<le> length (y_orphans s)" using r(4) drop(3) by simp
    moreover have "sync_ok hash genesis k limit (evict_oldest (oldest # order) s)" using True IH by simp
    ultimately show ?thesis using True by (intro conjI exI[of _ os] exI[of _ w'] exI[of _ ord]) auto
  next
    case False
    with 2(2) show ?thesis
      by (auto intro!: exI[of _ "y_orphans s"] exI[of _ "y_waiting_on s"] exI[of _ "oldest # order"])
  qed
qed

section \<open>Storing an orphan\<close>

lemma store_orphan_ok:
  assumes ok: "sync_ok hash genesis k limit s" and new: "map_of (y_orphans s) h = None" "hash hdr = h"
    and missing: "\<not> set (h_parents hdr) \<subseteq> blocks (y_dag s)"
  shows "sync_ok hash genesis k limit (store_orphan h hdr from s)"
    and "\<exists>os w ord. store_orphan h hdr from s =
      s\<lparr>y_orphans := AList.update h \<lparr>or_header = hdr, or_from = from\<rparr> os, y_waiting_on := w, y_orphan_order := ord\<rparr> \<and>
      map_of os \<subseteq>\<^sub>m map_of (y_orphans s) \<and> length os \<le> length (y_orphans s) \<and>
      (length (y_orphans s) < sc_max_orphans (y_config s) \<longrightarrow> os = y_orphans s)"
proof -
  have "s\<lparr>y_orphan_order := y_orphan_order s\<rparr> = s" by simp
  with ok have "sync_ok hash genesis k limit (s\<lparr>y_orphan_order := y_orphan_order s\<rparr>)" by simp
  from evict_oldest_ok[OF this] obtain os w ord where
    ok1: "sync_ok hash genesis k limit (evict_oldest (y_orphan_order s) s)" and
    eq1: "evict_oldest (y_orphan_order s) s = s\<lparr>y_orphans := os, y_waiting_on := w, y_orphan_order := ord\<rparr>" and
    sub: "map_of os \<subseteq>\<^sub>m map_of (y_orphans s)" "length os \<le> length (y_orphans s)" and len: "length os < sc_max_orphans (y_config s) \<or> os = []" and
    same: "length (y_orphans s) < sc_max_orphans (y_config s) \<longrightarrow> os = y_orphans s" by blast
  let ?e = "s\<lparr>y_orphans := os, y_waiting_on := w, y_orphan_order := ord\<rparr>"
  let ?o = "\<lparr>or_header = hdr, or_from = from\<rparr>"
  let ?ps = "filter (\<lambda>p. \<not> contains (y_dag s) p) (h_parents hdr)"
  let ?t = "?e\<lparr>y_waiting_on := fold (wait_for h) ?ps w, y_orphans := AList.update h ?o os, y_orphan_order := ord @ [h]\<rparr>"
  have eq: "store_orphan h hdr from s = ?t" by (simp add: store_orphan_def eq1 Let_def)
  then show "\<exists>os w ord. store_orphan h hdr from s =
      s\<lparr>y_orphans := AList.update h \<lparr>or_header = hdr, or_from = from\<rparr> os, y_waiting_on := w, y_orphan_order := ord\<rparr> \<and>
      map_of os \<subseteq>\<^sub>m map_of (y_orphans s) \<and> length os \<le> length (y_orphans s) \<and>
      (length (y_orphans s) < sc_max_orphans (y_config s) \<longrightarrow> os = y_orphans s)"
    using sub same by (intro exI[of _ os] exI[of _ "fold (wait_for h) ?ps w"] exI[of _ "ord @ [h]"]) simp
  note core = sync_coreD[OF ok1, unfolded eq1]
  have fresh: "map_of os h = None" using sub(1) new(1) by (metis map_leD not_None_eq option.distinct(1))
  define t e where "t = ?t" and "e = ?e"
  have wt: "waiters t p = (if p \<in> set ?ps then insert h (waiters e p) else waiters e p)" for p
    by (simp add: t_def e_def waiters_wset wset_wait_all)
  have l: "lacks t q = lacks e q" for q by (simp add: t_def e_def lacks_def fun_eq_iff)
  have lo: "p \<in> set ?ps \<longleftrightarrow> lacks e [] ?o p" for p by (auto simp: e_def lacks_def contains_iff)
  have os: "map_of (y_orphans t) h' = (if h' = h then Some ?o else map_of (y_orphans e) h')" "map_of (y_orphans e) h = None" for h'
    using fresh by (simp_all add: t_def e_def)
  note waits = waits_okD[OF core(4), folded e_def, simplified]
  have "waits_ok t [] []"
  proof (rule waits_okI)
    fix p h'
    assume "h' \<in> waiters t p"
    then show "\<exists>orphan. map_of (y_orphans t) h' = Some orphan \<and> lacks t [] orphan p"
      using waits(1)[of h' p] os(2) by (auto simp: wt l os(1) lo simp del: set_filter split: if_splits)
  next
    fix h' o' p
    assume "map_of (y_orphans t) h' = Some o'" "lacks t [] o' p"
    then show "h' \<in> waiters t p" using waits(2)[of h' o' p] by (auto simp: l wt lo os(1) simp del: set_filter split: if_splits)
  next
    fix h' o'
    assume "map_of (y_orphans t) h' = Some o'"
    moreover have "\<exists>p. lacks e [] ?o p" using missing unfolding lo[symmetric] by (auto simp: contains_iff)
    ultimately show "\<exists>p. lacks t [] o' p" using waits(3)[of h' o'] by (auto simp: l os(1) split: if_splits)
  qed
  then have "waits_ok ?t [] []" by (simp only: t_def)
  moreover have "pool_shape hash ?t"
  proof -
    have "length (AList.update h ?o os) = Suc (length os)"
      using fresh by (simp add: length_update_new map_of_keys_iff)
    moreover have "h \<notin> set ord" using core(2) fresh by (auto simp: pool_shape_def)
    ultimately show ?thesis using core(2) len new(2) by (auto simp: pool_shape_def split: if_splits)
  qed
  moreover have "peers_ok ?t" using core(3) by (simp add: peers_ok_def)
  ultimately show "sync_ok hash genesis k limit (store_orphan h hdr from s)" using core(1) by (simp add: sync_core_def eq)
qed

section \<open>Progress\<close>

text \<open>
  Progress of an operation that is handed \<open>n\<close> headers \<open>H\<close>: the DAG only grows, every header comes from the state
  or from \<open>H\<close>, and with room in the pool every block held before or handed over is held after, unless the
  DAG refused it with all its parents present.
\<close>

definition holds :: "dag_sync \<Rightarrow> block_hash \<Rightarrow> bool" where
  "holds s h \<longleftrightarrow> h \<in> blocks (y_dag s) \<or> map_of (y_orphans s) h \<noteq> None"

definition all_headers :: "dag_sync \<Rightarrow> header set" where
  "all_headers s = stored_headers (y_dag s) \<union> or_header ` ran (map_of (y_orphans s))"

definition advances ::
  "(header \<Rightarrow> block_hash) \<Rightarrow> header \<Rightarrow> nat \<Rightarrow> nat \<Rightarrow> nat \<Rightarrow> header set \<Rightarrow> dag_sync \<Rightarrow> dag_sync \<Rightarrow> bool" where
  "advances hash genesis k limit n H s t \<longleftrightarrow>
     y_config t = y_config s \<and> map_of (s_headers (y_dag s)) \<subseteq>\<^sub>m map_of (s_headers (y_dag t)) \<and>
     all_headers t \<subseteq> all_headers s \<union> H \<and> length (y_orphans t) \<le> length (y_orphans s) + n \<and>
     (length (y_orphans s) + n \<le> sc_max_orphans (y_config s) \<longrightarrow>
        (\<forall>h. holds s h \<or> h \<in> hash ` H \<longrightarrow>
           holds t h \<or> (\<exists>hdr \<in> all_headers s \<union> H. hash hdr = h \<and> refused hash genesis k limit (y_dag t) hdr)))"

lemma advances_trans:
  assumes "advances hash genesis k limit n H s t" "advances hash genesis k limit m H' t u"
  shows "advances hash genesis k limit (n + m) (H \<union> H') s u"
proof -
  note st = assms(1)[unfolded advances_def] and tu = assms(2)[unfolded advances_def]
  have hd: "map_of (s_headers (y_dag t)) \<subseteq>\<^sub>m map_of (s_headers (y_dag u))" using tu by blast
  have "holds u h \<or> (\<exists>hdr \<in> all_headers s \<union> (H \<union> H'). hash hdr = h \<and> refused hash genesis k limit (y_dag u) hdr)"
    if room: "length (y_orphans s) + (n + m) \<le> sc_max_orphans (y_config s)" and h: "holds s h \<or> h \<in> hash ` (H \<union> H')" for h
  proof -
    have room': "length (y_orphans s) + n \<le> sc_max_orphans (y_config s)" "length (y_orphans t) + m \<le> sc_max_orphans (y_config t)"
      using room st by auto
    consider "holds t h \<or> h \<in> hash ` H'"
      | "\<exists>hdr \<in> all_headers s \<union> H. hash hdr = h \<and> refused hash genesis k limit (y_dag t) hdr"
      using h st room'(1) by blast
    then show ?thesis
    proof cases
      case 1
      with tu room'(2) have "holds u h \<or> (\<exists>hdr \<in> all_headers t \<union> H'. hash hdr = h \<and> refused hash genesis k limit (y_dag u) hdr)" by blast
      with st show ?thesis by blast
    next
      case 2
      then show ?thesis using refused_mono[OF _ hd] by blast
    qed
  qed
  moreover have "map_of (s_headers (y_dag s)) \<subseteq>\<^sub>m map_of (s_headers (y_dag u))" using st hd map_le_trans by blast
  moreover have "y_config u = y_config s" "all_headers u \<subseteq> all_headers s \<union> (H \<union> H')" "length (y_orphans u) \<le> length (y_orphans s) + (n + m)"
    using st tu by auto
  ultimately show ?thesis unfolding advances_def by blast
qed

lemma advances_idle:
  assumes "y_config t = y_config s" "y_dag t = y_dag s" "y_orphans t = y_orphans s"
  shows "advances hash genesis k limit 0 {} s t"
  using assms by (simp add: advances_def all_headers_def holds_def)

lemma settles_advances:
  assumes "pool_shape hash s" "settles hash genesis k limit s t"
  shows "advances hash genesis k limit 0 {} s t"
proof -
  note st = assms(2)[unfolded settles_def]
  have hd: "map_of (s_headers (y_dag s)) \<subseteq>\<^sub>m map_of (s_headers (y_dag t))" using st by blast
  have "holds t h \<or> (\<exists>hdr \<in> all_headers s \<union> {}. hash hdr = h \<and> refused hash genesis k limit (y_dag t) hdr)" if "holds s h" for h
  proof (cases "map_of (y_orphans s) h")
    case None
    with that blocks_mono[OF hd] show ?thesis by (auto simp: holds_def)
  next
    case (Some orphan)
    then have key: "hash (or_header orphan) = h" "or_header orphan \<in> all_headers s"
      using assms(1) by (auto simp: pool_shape_def all_headers_def ran_def)
    from st Some have "map_of (y_orphans t) h \<noteq> None \<or> h \<in> blocks (y_dag t) \<or> refused hash genesis k limit (y_dag t) (or_header orphan)" by blast
    with key show ?thesis by (auto simp: holds_def)
  qed
  moreover have "ran (map_of (y_orphans t)) \<subseteq> ran (map_of (y_orphans s))" using st by (intro ran_le) blast
  then have "all_headers t \<subseteq> all_headers s" using st by (auto simp: all_headers_def stored_headers_def)
  ultimately show ?thesis using st by (simp add: advances_def)
qed

section \<open>Admission\<close>

lemma sync_core_join:
  assumes ok: "sync_ok hash genesis k limit s" and add: "add_block hash (y_dag s) hdr = (Inr b, dag)"
  shows "sync_core hash genesis k limit [hash hdr] [] (s\<lparr>y_dag := dag\<rparr>)"
    and "advances hash genesis k limit 0 {hdr} s (s\<lparr>y_dag := dag\<rparr>)"
proof -
  note core = sync_coreD[OF ok] and grows = add_block_grows[OF core(1) add]
  have g: "hash hdr \<notin> blocks (y_dag s)" "blocks dag = insert (hash hdr) (blocks (y_dag s))"
    "s_headers dag = AList.update (hash hdr) hdr (s_headers (y_dag s))" using grows(2) by auto
  have "waits_ok (s\<lparr>y_dag := dag\<rparr>) ([] @ [hash hdr]) []" by (rule waits_ok_join[OF core(4)]) (simp_all add: g)
  with core(2,3) grows(1) g show "sync_core hash genesis k limit [hash hdr] [] (s\<lparr>y_dag := dag\<rparr>)"
    by (simp add: sync_core_def pool_shape_def peers_ok_def)
  have "map_of (s_headers (y_dag s)) (hash hdr) = None" using g(1) by (simp add: blocks_def map_of_keys_iff)
  then have "map_of (s_headers (y_dag s)) \<subseteq>\<^sub>m map_of (s_headers dag)" by (auto simp: g(3) map_le_def)
  moreover have "stored_headers dag \<subseteq> insert hdr (stored_headers (y_dag s))"
    using g(3) by (auto simp: stored_headers_def ran_def split: if_splits)
  ultimately show "advances hash genesis k limit 0 {hdr} s (s\<lparr>y_dag := dag\<rparr>)"
    using g(2) by (auto simp: advances_def all_headers_def holds_def)
qed

lemma sync_core_refused:
  assumes ok: "sync_ok hash genesis k limit s" and add: "add_block hash (y_dag s) hdr = (Inl e, dag)"
  shows "sync_ok hash genesis k limit (s\<lparr>y_dag := dag\<rparr>)" "blocks dag = blocks (y_dag s)" "s_headers dag = s_headers (y_dag s)"
    "advances hash genesis k limit 0 {} s (s\<lparr>y_dag := dag\<rparr>)"
proof -
  note core = sync_coreD[OF ok] and grows = add_block_grows[OF core(1) add]
  show g: "blocks dag = blocks (y_dag s)" "s_headers dag = s_headers (y_dag s)" using grows(2) by simp_all
  have "waits_ok (s\<lparr>y_dag := dag\<rparr>) [] []" by (rule waits_ok_blocks[OF core(4)]) (simp_all add: g)
  with core(2,3) grows(1) show "sync_ok hash genesis k limit (s\<lparr>y_dag := dag\<rparr>)"
    by (simp add: sync_core_def pool_shape_def peers_ok_def)
  show "advances hash genesis k limit 0 {} s (s\<lparr>y_dag := dag\<rparr>)"
    using g by (simp add: advances_def all_headers_def holds_def stored_headers_def)
qed

text \<open>After a block joined: announce it and admit the orphans that waited for it.\<close>

lemma announce_resolve_ok:
  assumes "sync_core hash genesis k limit [h] [] s" "announce h ex s = (acts1, s1)" "resolve_orphans_of hash h s1 = (acts2, t)"
  shows "sync_ok hash genesis k limit t" "advances hash genesis k limit 0 {} s t"
proof -
  from announce_peers[OF sync_coreD(3)[OF assms(1)] assms(2)] obtain ps where s1: "s1 = s\<lparr>y_peers := ps\<rparr>" "peers_ok s1" by blast
  with sync_core_peers[OF assms(1)] have c: "sync_core hash genesis k limit [h] [] s1" by simp
  note r = resolve_orphans_ok[OF c assms(3)]
  from r(1) show "sync_ok hash genesis k limit t" .
  have "advances hash genesis k limit 0 {} s s1" by (rule advances_idle) (simp_all add: s1(1))
  from advances_trans[OF this settles_advances[OF sync_coreD(2)[OF c] r(2)]] show "advances hash genesis k limit 0 {} s t" by simp
qed

lemma update_peer_ok:
  assumes "sync_core hash genesis k limit q r s" "\<And>st. peer_ok st \<Longrightarrow> peer_ok (f st)" "\<And>st. ps_id (f st) = ps_id st"
  shows "sync_core hash genesis k limit q r (update_peer p f s)"
  using update_peer_peers[OF sync_coreD(3)[OF assms(1)] assms(2,3), of p] sync_core_peers[OF assms(1)] by auto

lemma update_peer_frame [simp]:
  "y_dag (update_peer p f s) = y_dag s" "y_config (update_peer p f s) = y_config s" "y_waiting_on (update_peer p f s) = y_waiting_on s"
  "y_requested (update_peer p f s) = y_requested s" "y_bodies (update_peer p f s) = y_bodies s" "y_accepted (update_peer p f s) = y_accepted s"
  by (simp_all add: update_peer_def)

lemma request_from_frame:
  "request_from p hs now s = (acts, t) \<Longrightarrow> \<exists>rq. t = s\<lparr>y_requested := rq\<rparr>"
  by (auto simp: request_from_def Let_def split: if_splits intro: exI[of _ "y_requested s"])

lemma credit_ok: "peer_ok st \<Longrightarrow> peer_ok (peer_reward 1 (st\<lparr>ps_blocks_delivered := n\<rparr>))"
  using reward_ok(1)[of "st\<lparr>ps_blocks_delivered := n\<rparr>"] by (simp add: peer_ok_def)

lemma admit_ok:
  assumes ok: "sync_ok hash genesis k limit s" and new: "map_of (y_orphans s) (hash hdr) = None" "hash hdr \<notin> blocks (y_dag s)"
    and run: "admit hash hdr from now s = (acts, t)"
  shows "sync_ok hash genesis k limit t" and "advances hash genesis k limit 1 {hdr} s t"
proof -
  obtain r dag where add: "add_block hash (y_dag s) hdr = (r, dag)" by fastforce
  have "sync_ok hash genesis k limit t \<and> advances hash genesis k limit 1 {hdr} s t"
  proof (cases r)
    case (Inr b)
    let ?credit = "\<lambda>p. peer_reward 1 (p\<lparr>ps_blocks_delivered := ps_blocks_delivered p + 1\<rparr>)"
    let ?s1 = "update_peer from ?credit (s\<lparr>y_dag := dag, y_accepted := y_accepted s @ [hash hdr]\<rparr>)"
    obtain a1 s2 where ann: "announce (hash hdr) (Some from) ?s1 = (a1, s2)" by fastforce
    obtain a2 where res: "resolve_orphans_of hash (hash hdr) s2 = (a2, t)"
      using run add Inr ann by (auto simp: admit_def Let_def split: prod.splits)
    note join = sync_core_join[OF ok add[unfolded Inr]]
    have "sync_core hash genesis k limit [hash hdr] [] ((s\<lparr>y_dag := dag\<rparr>)\<lparr>y_accepted := y_accepted s @ [hash hdr]\<rparr>)"
      by (simp only: sync_core_frame join(1))
    then have "sync_core hash genesis k limit [hash hdr] [] ?s1"
      by (intro update_peer_ok credit_ok) (simp_all add: peer_reward_def)
    note fin = announce_resolve_ok[OF this ann res]
    have "advances hash genesis k limit 0 {} (s\<lparr>y_dag := dag\<rparr>) ?s1" by (rule advances_idle) simp_all
    from advances_trans[OF advances_trans[OF join(2) this] fin(2)]
    have "advances hash genesis k limit 0 {hdr} s t" by simp
    with fin(1) show ?thesis by (auto simp: advances_def)
  next
    case (Inl e)
    note ref = sync_core_refused[OF ok add[unfolded Inl]]
    show ?thesis
    proof (cases "set (h_parents hdr) \<subseteq> blocks (y_dag s)")
      case True
      have res: "add_block_result hash (y_dag s) hdr = Inl e" using add_block_grows(3)[OF sync_coreD(1)[OF ok] add] Inl by simp
      then have "e \<noteq> MissingParent x y" for x y
        using True find_missing_None[of "blocks (y_dag s)" "h_parents hdr"] by (auto simp: add_block_result_def split: if_splits)
      then have t: "t = s\<lparr>y_dag := dag\<rparr>" using run add Inl by (cases e) (auto simp: admit_def)
      have "refused hash genesis k limit dag hdr"
        using sync_coreD(1)[OF ok] True new(2) res unfolding refused_def ref(3) by (metis map_le_refl)
      with ref show ?thesis by (auto simp: t advances_def)
    next
      case False
      have "add_block_result hash (y_dag s) hdr = Inl e" using add_block_grows(3)[OF sync_coreD(1)[OF ok] add] Inl by simp
      moreover have "h_parents hdr \<noteq> []" using False by auto
      moreover obtain p where "find (\<lambda>p. p \<notin> blocks (y_dag s)) (h_parents hdr) = Some p"
        using False find_missing_None[of "blocks (y_dag s)"] by fastforce
      ultimately have "e = MissingParent (hash hdr) p" using new(2) by (simp add: add_block_result_def)
      with run add Inl obtain hs where "request_from from hs now (store_orphan (hash hdr) hdr from (s\<lparr>y_dag := dag\<rparr>)) = (acts, t)"
        by (auto simp: admit_def Let_def)
      from request_from_frame[OF this] obtain rq where t: "t = (store_orphan (hash hdr) hdr from (s\<lparr>y_dag := dag\<rparr>))\<lparr>y_requested := rq\<rparr>" by blast
      have missing: "\<not> set (h_parents hdr) \<subseteq> blocks (y_dag (s\<lparr>y_dag := dag\<rparr>))" using False ref(2) by simp
      note store = store_orphan_ok[OF ref(1) _ refl missing, of "from"]
      obtain os w ord where st: "store_orphan (hash hdr) hdr from (s\<lparr>y_dag := dag\<rparr>) =
          s\<lparr>y_dag := dag, y_orphans := AList.update (hash hdr) \<lparr>or_header = hdr, or_from = from\<rparr> os, y_waiting_on := w, y_orphan_order := ord\<rparr>"
        "map_of os \<subseteq>\<^sub>m map_of (y_orphans s)" "length os \<le> length (y_orphans s)"
        "length (y_orphans s) < sc_max_orphans (y_config s) \<longrightarrow> os = y_orphans s"
        using store(2) new(1) by auto
      have "all_headers t \<subseteq> all_headers s \<union> {hdr}"
        using ran_le[OF st(2)] by (auto simp: t st(1) all_headers_def stored_headers_def ref(3) ran_def split: if_splits)
      moreover have "length (y_orphans t) \<le> Suc (length (y_orphans s))"
        using le_trans[OF length_update_le, of os "Suc (length (y_orphans s))"] st(3) by (simp add: t st(1))
      moreover have "holds t h" if "Suc (length (y_orphans s)) \<le> sc_max_orphans (y_config s)" "holds s h \<or> h = hash hdr" for h
        using that st(4) by (auto simp: t st(1) holds_def ref(2))
      moreover have "sync_ok hash genesis k limit t" using store(1) new(1) by (simp add: t)
      ultimately show ?thesis by (simp add: advances_def) (simp add: t st(1) ref(3))
    qed
  qed
  then show "sync_ok hash genesis k limit t" "advances hash genesis k limit 1 {hdr} s t" by simp_all
qed

section \<open>Messages\<close>

lemma penalise_peers:
  assumes "sync_ok hash genesis k limit s" "sync_penalise p m reason s = (acts, t)"
  shows "sync_ok hash genesis k limit t \<and> advances hash genesis k limit 0 {} s t"
proof (cases "map_of (y_peers s) p")
  case None
  with assms show ?thesis by (simp add: sync_penalise_def advances_idle)
next
  case (Some st)
  let ?t = "update_peer p (\<lambda>st. snd (peer_penalise m st)) s"
  have "t = ?t" using assms(2) Some by (simp add: sync_penalise_def)
  moreover have "sync_ok hash genesis k limit ?t"
    by (intro update_peer_ok assms(1) penalise_ok) (simp_all add: peer_penalise_def Let_def)
  moreover have "advances hash genesis k limit 0 {} s ?t" by (rule advances_idle) simp_all
  ultimately show ?thesis by simp
qed

lemma note_known_id [simp]: "ps_id (fold note_known hs st) = ps_id st"
  by (induction hs arbitrary: st) simp_all

lemma handshake_ok [simp]: "peer_ok (st\<lparr>ps_handshake := hs\<rparr>) \<longleftrightarrow> peer_ok st"
  by (simp add: peer_ok_def)

lemma note_all_known_ok: "peer_ok st \<Longrightarrow> peer_ok (fold note_known hs st)"
  by (induction hs arbitrary: st) (simp_all add: note_known_ok)

lemma on_blocks_ok:
  assumes "sync_ok hash genesis k limit s" "on_blocks hash gate p now bs acts s = (acts', t)"
  shows "sync_ok hash genesis k limit t \<and>
    ((\<forall>b \<in> set bs. gate (bp_header b) = None) \<longrightarrow> advances hash genesis k limit (length bs) (bp_header ` set bs) s t)"
  using assms
proof (induction bs arbitrary: acts s)
  case Nil
  then show ?case by (simp add: advances_idle)
next
  case (Cons b bs)
  let ?h = "hash (bp_header b)"
  let ?s = "update_peer p (note_known ?h) (s\<lparr>y_requested := AList.delete ?h (y_requested s)\<rparr>)"
  have ok: "sync_ok hash genesis k limit ?s"
    by (intro update_peer_ok note_known_ok) (simp_all add: Cons.prems(1))
  have idle: "advances hash genesis k limit 0 {} s ?s" by (rule advances_idle) simp_all
  show ?case
  proof (cases "contains (y_dag ?s) ?h \<or> is_orphan ?s ?h")
    case True
    with Cons.prems(2) have "on_blocks hash gate p now bs acts ?s = (acts', t)" by (simp add: Let_def)
    note IH = Cons.IH[OF ok this]
    have "holds ?s ?h" using True by (auto simp: holds_def contains_iff is_orphan_def)
    then have "advances hash genesis k limit 1 {bp_header b} ?s ?s" by (auto simp: advances_def)
    from advances_trans[OF advances_trans[OF idle this]] IH show ?thesis by fastforce
  next
    case new: False
    show ?thesis
    proof (cases "gate (bp_header b)")
      case (Some reason)
      obtain a s1 where pen: "sync_penalise p InvalidBlock ''invalid block'' ?s = (a, s1)" by fastforce
      note pok = penalise_peers[OF ok pen]
      from Cons.prems(2) new Some pen consider "t = s1" | "on_blocks hash gate p now bs (acts @ a) s1 = (acts', t)"
        by (auto simp: Let_def split: if_splits)
      then have "sync_ok hash genesis k limit t" using pok Cons.IH[of s1 "acts @ a"] by cases auto
      with Some show ?thesis by auto
    next
      case None
      let ?s1 = "?s\<lparr>y_bodies := AList.update ?h (bp_transactions b) (y_bodies ?s)\<rparr>"
      obtain a s2 where ad: "admit hash (bp_header b) p now ?s1 = (a, s2)" by fastforce
      with Cons.prems(2) new None have run: "on_blocks hash gate p now bs (acts @ a) s2 = (acts', t)" by (simp add: Let_def)
      have "sync_ok hash genesis k limit ?s1" using ok by (simp only: sync_core_frame)
      from admit_ok[OF this _ _ ad] new have "sync_ok hash genesis k limit s2" "advances hash genesis k limit 1 {bp_header b} ?s1 s2"
        by (simp_all add: contains_iff is_orphan_def)
      moreover have "advances hash genesis k limit 0 {} ?s ?s1" by (rule advances_idle) simp_all
      ultimately show ?thesis
        using advances_trans[OF advances_trans[OF idle]] advances_trans Cons.IH[OF _ run] by fastforce
    qed
  qed
qed

lemma request_ok:
  assumes "sync_ok hash genesis k limit s" "request_unknown p hs now s = (acts, t)"
  shows "sync_ok hash genesis k limit t"
  using assms request_from_frame by (fastforce simp: request_unknown_def)

lemma on_message_ok:
  assumes "sync_ok hash genesis k limit s" "on_message hash gate p msg now s = (acts, t)"
  shows "sync_ok hash genesis k limit t"
proof (cases "map_of (y_peers s) p")
  case None
  with assms show ?thesis by (simp add: on_message_def)
next
  case (Some st)
  have upd: "sync_ok hash genesis k limit (update_peer p f s)" if "\<And>st. peer_ok st \<Longrightarrow> peer_ok (f st)" "\<And>st. ps_id (f st) = ps_id st" for f
    by (rule update_peer_ok[OF assms(1) that])
  consider "t = s" | version genesis' tips where "on_version p version genesis' tips now s = (acts, t)"
    | "t = update_peer p (\<lambda>p. p\<lparr>ps_handshake := Ready\<rparr>) s" | tips where "request_unknown p tips now s = (acts, t)"
    | hs where "on_inv_blocks p hs now s = (acts, t)" | hs where "on_get_blocks hash p hs s = (acts, t)"
    | bs where "on_blocks hash gate p now bs [] s = (acts, t)"
    using assms(2) Some by (cases msg) (auto simp: on_message_def split: if_splits)
  then show ?thesis
  proof cases
    case 1
    with assms(1) show ?thesis by simp
  next
    case (2 version genesis' tips)
    let ?u = "update_peer p (\<lambda>p. fold note_known tips (p\<lparr>ps_handshake := Ready\<rparr>)) s"
    have "sync_ok hash genesis k limit ?u" by (rule upd) (simp_all add: note_all_known_ok)
    with 2 show ?thesis using penalise_peers[OF assms(1)] request_ok
      by (auto simp: on_version_def Some Let_def split: if_splits prod.splits)
  next
    case 3
    then show ?thesis by (simp add: upd)
  next
    case (4 tips)
    then show ?thesis by (rule request_ok[OF assms(1)])
  next
    case (5 hs)
    moreover have "sync_ok hash genesis k limit (update_peer p (fold note_known hs) s)" by (rule upd) (simp_all add: note_all_known_ok)
    ultimately show ?thesis using request_ok by (auto simp: on_inv_blocks_def)
  next
    case (6 hs)
    have eq: "fold (\<lambda>b. note_known (payload_hash hash b)) bs = fold note_known (map (payload_hash hash) bs)" for bs
      by (simp add: fold_map o_def)
    have "sync_ok hash genesis k limit (update_peer p (fold note_known hs) s)" for hs by (rule upd) (simp_all add: note_all_known_ok)
    with 6 assms(1) show ?thesis by (auto simp: on_get_blocks_def eq Let_def split: if_splits)
  next
    case (7 bs)
    with on_blocks_ok[OF assms(1) this] show ?thesis by simp
  qed
qed

section \<open>The other operations\<close>

lemma on_connect_ok:
  assumes "sync_ok hash genesis k limit s" "on_connect p s = (acts, t)"
  shows "sync_ok hash genesis k limit t"
proof -
  have "peers_ok (s\<lparr>y_peers := bmap_insert p (new_peer p) (y_peers s)\<rparr>)"
    using sync_coreD(3)[OF assms(1)] new_peer_ok[of p] by (auto simp: peers_ok_def bmap_ok_insert) (auto simp: bmap_insert_def new_peer_def)
  from sync_core_peers[OF assms(1) this] assms(2) show ?thesis by (simp add: on_connect_def)
qed

lemma on_disconnect_ok:
  assumes "sync_ok hash genesis k limit s" shows "sync_ok hash genesis k limit (on_disconnect p s)"
proof -
  have "peers_ok (s\<lparr>y_peers := AList.delete p (y_peers s)\<rparr>)"
    using sync_coreD(3)[OF assms(1)] bmap_ok_delete[of "y_peers s" p] by (auto simp: peers_ok_def) (auto simp: AList.delete_eq)
  from sync_core_peers[OF assms(1) this] show ?thesis unfolding on_disconnect_def sync_core_def
    by (simp add: pool_shape_def peers_ok_def waits_ok_def waiters_def lacks_def)
qed

lemma on_local_block_ok:
  assumes "sync_ok hash genesis k limit s" "on_local_block hash b s = (acts, t)"
  shows "sync_ok hash genesis k limit t"
proof -
  let ?s = "s\<lparr>y_bodies := AList.update (payload_hash hash b) (bp_transactions b) (y_bodies s)\<rparr>"
  have ok: "sync_ok hash genesis k limit ?s" using assms(1) by (simp only: sync_core_frame)
  obtain r dag where add: "add_block hash (y_dag ?s) (bp_header b) = (r, dag)" by fastforce
  show ?thesis
  proof (cases r)
    case (Inl e)
    with sync_core_refused(1)[OF ok add[unfolded Inl]] add assms(2) show ?thesis by (simp add: on_local_block_def Let_def)
  next
    case (Inr x)
    let ?h = "payload_hash hash b"
    let ?u = "?s\<lparr>y_dag := dag, y_accepted := y_accepted s @ [?h]\<rparr>"
    obtain a1 s1 where ann: "announce ?h None ?u = (a1, s1)" by fastforce
    obtain a2 where res: "resolve_orphans_of hash ?h s1 = (a2, t)"
      using assms(2) add Inr ann by (auto simp: on_local_block_def Let_def split: prod.splits)
    from sync_core_join(1)[OF ok add[unfolded Inr]] have "sync_core hash genesis k limit [?h] [] ((?s\<lparr>y_dag := dag\<rparr>)\<lparr>y_accepted := y_accepted s @ [?h]\<rparr>)"
      by (simp only: sync_core_frame payload_hash_def)
    then have "sync_core hash genesis k limit [?h] [] ?u" by simp
    from announce_resolve_ok(1)[OF this ann res] show ?thesis .
  qed
qed

lemma retry_buckets_frame:
  "\<exists>rq. snd (retry_buckets ready buckets now acts s) = s\<lparr>y_requested := rq\<rparr>"
proof -
  have "\<exists>rq. snd (fold (\<lambda>(peer, bucket) (actions, s). if bucket = [] then (actions, s)
      else case request_from peer bucket now s of (acts, s) \<Rightarrow> (actions @ acts, s)) pbs (acts, s)) = s\<lparr>y_requested := rq\<rparr>" for pbs
  proof (induction pbs arbitrary: acts s)
    case Nil
    then show ?case by (intro exI[of _ "y_requested s"]) simp
  next
    case (Cons pb pbs)
    obtain p b where pb: "pb = (p, b)" by fastforce
    obtain a s1 where r: "request_from p b now s = (a, s1)" by fastforce
    from request_from_frame[OF r] obtain rq where s1: "s1 = s\<lparr>y_requested := rq\<rparr>" by blast
    from Cons.IH[of acts s] Cons.IH[of "acts @ a" s1] show ?case by (auto simp: pb r s1)
  qed
  then show ?thesis by (simp add: retry_buckets_def)
qed

lemma on_tick_frame:
  assumes "on_tick now s = (acts, t)"
  shows "\<exists>rq c. t = s\<lparr>y_requested := rq, y_retry_cursor := c\<rparr>"
proof -
  let ?s = "s\<lparr>y_requested := fold AList.delete (stale_requests now s) (y_requested s)\<rparr>"
  let ?u = "?s\<lparr>y_retry_cursor := y_retry_cursor s + 1\<rparr>"
  consider "t = ?s" | ready buckets a where "t = snd (retry_buckets ready buckets now a ?u)"
    using assms by (auto simp: on_tick_def Let_def split: if_splits prod.splits) (metis snd_conv)
  then show ?thesis
  proof cases
    case 1
    then show ?thesis by (intro exI[of _ "y_requested t"] exI[of _ "y_retry_cursor s"]) simp
  next
    case 2
    with retry_buckets_frame[of ready buckets now a ?u] obtain rq where "t = ?u\<lparr>y_requested := rq\<rparr>" by blast
    then show ?thesis by (intro exI[of _ rq] exI[of _ "y_retry_cursor s + 1"]) simp
  qed
qed

lemma on_tick_ok:
  assumes "sync_ok hash genesis k limit s" "on_tick now s = (acts, t)"
  shows "sync_ok hash genesis k limit t"
proof -
  from on_tick_frame[OF assms(2)] obtain rq c where "t = (s\<lparr>y_requested := rq\<rparr>)\<lparr>y_retry_cursor := c\<rparr>" by auto
  with assms(1) show ?thesis by (simp only: sync_core_frame)
qed

end
