(* ===== verification/Sync_Props.thy ===== *)
theory Sync_Props
  imports Sync_Handlers
begin

text \<open>
  What the synchroniser promises: on every reachable state the orphans are exactly the blocks that lack a
  parent, and a node that is sent another node's blocks, in any order and any batches, ends up with them.
\<close>

section \<open>Reachable states\<close>

text \<open>Peers come and go and send anything at any time.\<close>

inductive sync_reachable ::
  "(header \<Rightarrow> block_hash) \<Rightarrow> header_gate \<Rightarrow> header \<Rightarrow> nat \<Rightarrow> nat \<Rightarrow> sync_config \<Rightarrow> dag_sync \<Rightarrow> bool"
  for hash gate genesis k limit config where
  start: "dag_reachable hash genesis k limit dag \<Longrightarrow> sync_reachable hash gate genesis k limit config (new_sync dag config)"
| connect: "sync_reachable hash gate genesis k limit config s \<Longrightarrow> on_connect p s = (acts, t) \<Longrightarrow>
    sync_reachable hash gate genesis k limit config t"
| disconnect: "sync_reachable hash gate genesis k limit config s \<Longrightarrow>
    sync_reachable hash gate genesis k limit config (on_disconnect p s)"
| mined: "sync_reachable hash gate genesis k limit config s \<Longrightarrow> on_local_block hash b s = (acts, t) \<Longrightarrow>
    sync_reachable hash gate genesis k limit config t"
| message: "sync_reachable hash gate genesis k limit config s \<Longrightarrow> on_message hash gate p msg now s = (acts, t) \<Longrightarrow>
    sync_reachable hash gate genesis k limit config t"
| tick: "sync_reachable hash gate genesis k limit config s \<Longrightarrow> on_tick now s = (acts, t) \<Longrightarrow>
    sync_reachable hash gate genesis k limit config t"
| drain: "sync_reachable hash gate genesis k limit config s \<Longrightarrow>
    sync_reachable hash gate genesis k limit config (snd (drain_accepted s))"

lemma sync_reachable_ok: "sync_reachable hash gate genesis k limit config s \<Longrightarrow> sync_ok hash genesis k limit s"
proof (induction rule: sync_reachable.induct)
  case (start dag)
  then show ?case
    by (simp add: sync_core_def new_sync_def pool_shape_def peers_ok_def waits_ok_def waiters_def)
next
  case (drain s)
  then show ?case by (simp add: drain_accepted_def)
qed (rule on_connect_ok on_disconnect_ok on_local_block_ok on_message_ok on_tick_ok; assumption)+

section \<open>Orphans\<close>

text \<open>
  C19: Nothing is stranded. On every reachable state, if no two of the headers held collide: the orphan pool is
  within its bound, its eviction order lists it exactly, no orphan is in the DAG, every orphan is kept
  under its hash and lacks a parent, and the index of missing parents is exact, so that a block waits for a
  parent just when it is an orphan that names it and the DAG does not have it. Every peer's score and
  known set are within their bounds.
\<close>

theorem sync_orphans_exact:
  assumes "sync_reachable hash gate genesis k limit config s" and "inj_on hash (all_headers s)"
  shows "orphan_count s \<le> max 1 (sc_max_orphans (y_config s)) \<and>
    distinct (y_orphan_order s) \<and> set (y_orphan_order s) = dom (map_of (y_orphans s)) \<and>
    dom (map_of (y_orphans s)) \<inter> blocks (y_dag s) = {} \<and>
    (\<forall>h orphan. map_of (y_orphans s) h = Some orphan \<longrightarrow>
       hash (or_header orphan) = h \<and> (\<exists>p \<in> set (h_parents (or_header orphan)). \<not> contains (y_dag s) p)) \<and>
    (\<forall>p h. h \<in> waiters s p \<longleftrightarrow>
       (\<exists>orphan. map_of (y_orphans s) h = Some orphan \<and> p \<in> set (h_parents (or_header orphan)) \<and> \<not> contains (y_dag s) p)) \<and>
    (\<forall>(p, st) \<in> set (y_peers s). ps_id st = p \<and> sint (ps_score st) \<le> 200 \<and> length (ps_known_blocks st) \<le> 8192)"
proof -
  note core = sync_coreD[OF sync_reachable_ok[OF assms(1)]] and waits = waits_okD[OF sync_coreD(4)[OF sync_reachable_ok[OF assms(1)]]]
  have lacking: "\<exists>p \<in> set (h_parents (or_header orphan)). \<not> contains (y_dag s) p" if "map_of (y_orphans s) h = Some orphan" for h orphan
    using waits(3)[OF that] by (auto simp: lacks_def contains_iff)
  have "h \<notin> blocks (y_dag s)" if o: "map_of (y_orphans s) h = Some orphan" for h orphan
  proof
    assume "h \<in> blocks (y_dag s)"
    from header_of_block[OF this] obtain hdr where hdr: "map_of (s_headers (y_dag s)) h = Some hdr" by blast
    note dag = dag_okD[OF reachable_ok[OF core(1)]]
    have "hash hdr = hash (or_header orphan)" using dag(4) hdr core(2) o by (simp add: hash_keyed_def pool_shape_def)
    moreover have "hdr \<in> all_headers s" "or_header orphan \<in> all_headers s"
      using hdr o by (auto simp: all_headers_def stored_headers_def ran_def)
    ultimately have "hdr = or_header orphan" using assms(2) by (simp add: inj_onD)
    then have "set (h_parents (or_header orphan)) \<subseteq> blocks (y_dag s)"
      using parents_in_blocks[OF dag(1), of _ h] hdr by (auto simp: parents_of_def)
    with lacking[OF o] show False by (auto simp: contains_iff)
  qed
  then have "dom (map_of (y_orphans s)) \<inter> blocks (y_dag s) = {}" by auto
  moreover have "h \<in> waiters s p \<longleftrightarrow>
      (\<exists>orphan. map_of (y_orphans s) h = Some orphan \<and> p \<in> set (h_parents (or_header orphan)) \<and> \<not> contains (y_dag s) p)" for p h
    using waits(1)[of h p] waits(2)[of h _ p] by (auto simp: lacks_def contains_iff)
  ultimately show ?thesis
    using core(2,3) lacking by (auto simp: pool_shape_def peers_ok_def peer_ok_def KNOWN_BLOCKS_CAP_def orphan_count_def)
qed

section \<open>Catching up\<close>

text \<open>A header another DAG with the same rules accepted is accepted wherever its parents are.\<close>

lemma same_header:
  assumes "hash_keyed hash d" "hash_keyed hash t" "inj_on hash (stored_headers d \<union> stored_headers t)" "x \<in> blocks d" "x \<in> blocks t"
  shows "map_of (s_headers d) x = map_of (s_headers t) x"
proof -
  from header_of_block[OF assms(4)] header_of_block[OF assms(5)] obtain h h' where
    h: "map_of (s_headers d) x = Some h" "map_of (s_headers t) x = Some h'" by blast
  then have "hash h = hash h'" using assms(1,2) by (simp add: hash_keyed_def)
  moreover have "h \<in> stored_headers d" "h' \<in> stored_headers t" using h by (auto simp: stored_headers_def ran_def)
  ultimately have "h = h'" using inj_onD[OF assms(3)] by blast
  with h show ?thesis by simp
qed

lemma accepted_elsewhere:
  assumes dr: "dag_reachable hash genesis k limit d" "dag_reachable hash genesis k limit t"
    and inj: "inj_on hash (stored_headers d \<union> stored_headers t)"
    and h: "map_of (s_headers t) h = Some hdr" "h \<notin> blocks d" "set (h_parents hdr) \<subseteq> blocks d"
  shows "add_block_result hash d hdr = Inr h"
proof -
  note ok = reachable_ok[OF dr(1)] reachable_ok[OF dr(2)] and lim = reachable_limits[OF dr(1)] reachable_limits[OF dr(2)]
  note dag = dag_okD[OF ok(1)] dag_okD[OF ok(2)]
  have hb: "h \<in> blocks t" using h(1) map_of_keys_iff[of "s_headers t" h] by (simp add: blocks_def)
  have key: "hash hdr = h" using dag(11) h(1) by (simp add: hash_keyed_def)
  have "s_genesis d \<in> blocks d" using dag(1) by (simp add: topology_ok_def)
  then have "h \<noteq> s_genesis t" using h(2) lim by auto
  from block_data[OF ok(2) hb this] h(1) have ps: "h_parents hdr = parents_of t h" "parents_of t h \<noteq> []" "set (parents_of t h) \<subseteq> blocks t"
    by auto
  let ?X = "blocks d \<inter> blocks t"
  have hd: "map_of (s_headers d) x = map_of (s_headers t) x" if "x \<in> ?X" for x
    using same_header[OF dag(4,11) inj] that by blast
  then have "parents_of d x = parents_of t x" if "x \<in> ?X" for x using that by (simp add: parents_of_def)
  then have "set (parents_of d x) \<subseteq> ?X" if "x \<in> ?X" for x
    using that parents_in_blocks[OF dag(1), of _ x] parents_in_blocks[OF dag(8), of _ x] by auto
  then have agr: "agree ?X d t" using hd same_data[OF dr inj] lim by (simp add: agree_def)
  have X: "set (h_parents hdr) \<subseteq> ?X" using h(3) ps by simp
  have ne: "h_parents hdr \<noteq> []" using ps by simp
  from agree_select_parent[OF agr X ne] have sp: "select_parent d (h_parents hdr) = select_parent t (h_parents hdr)" .
  have "select_parent t (h_parents hdr) \<in> ?X" using select_parent_in[OF ne, of t] X by blast
  from agree_merge_set(1)[OF agr X this] lim hb \<open>h \<noteq> s_genesis t\<close>
  have "card (merge_set d (h_parents hdr) (select_parent d (h_parents hdr))) \<le> s_mergeset_size_limit d"
    by (auto simp: limits_ok_def sp[unfolded ps(1)] ps(1))
  moreover have "find (\<lambda>p. p \<notin> blocks d) (h_parents hdr) = None" using h(3) by (simp add: find_missing_None)
  ultimately show ?thesis using h(2) key ne by (simp add: add_block_result_def)
qed

text \<open>Batches of blocks, each handled as the answer of some peer.\<close>

definition receive ::
  "(header \<Rightarrow> block_hash) \<Rightarrow> header_gate \<Rightarrow> (peer_id \<times> u64 \<times> block_payload list) list \<Rightarrow> dag_sync \<Rightarrow> dag_sync" where
  "receive hash gate = fold (\<lambda>(p, now, bs) s. snd (on_blocks hash gate p now bs [] s))"

definition headers_of :: "(peer_id \<times> u64 \<times> block_payload list) list \<Rightarrow> header list" where
  "headers_of batches = map bp_header (concat (map (\<lambda>(_, _, bs). bs) batches))"

lemma receive_ok:
  assumes "sync_ok hash genesis k limit s" "\<forall>hdr \<in> set (headers_of batches). gate hdr = None"
  shows "sync_ok hash genesis k limit (receive hash gate batches s) \<and>
    advances hash genesis k limit (length (headers_of batches)) (set (headers_of batches)) s (receive hash gate batches s)"
  using assms
proof (induction batches arbitrary: s)
  case Nil
  then show ?case by (simp add: receive_def headers_of_def advances_idle)
next
  case (Cons b batches)
  obtain p now bs where b: "b = (p, now, bs)" by (cases b)
  obtain acts t where run: "on_blocks hash gate p now bs [] s = (acts, t)" by fastforce
  have "\<forall>b \<in> set bs. gate (bp_header b) = None" using Cons.prems(2) by (auto simp: headers_of_def b)
  with on_blocks_ok[OF Cons.prems(1) run]
  have t: "sync_ok hash genesis k limit t" "advances hash genesis k limit (length bs) (bp_header ` set bs) s t" by auto
  have "receive hash gate (b # batches) s = receive hash gate batches t" by (simp add: receive_def b run)
  moreover have "set (headers_of (b # batches)) = bp_header ` set bs \<union> set (headers_of batches)"
    "length (headers_of (b # batches)) = length bs + length (headers_of batches)" by (auto simp: headers_of_def b)
  ultimately show ?case using Cons.IH[OF t(1)] Cons.prems(2) advances_trans[OF t(2)] by simp
qed

text \<open>A header that is in one DAG is not refused by another, whatever that held at the time.\<close>

lemma not_refused_elsewhere:
  assumes "dag_reachable hash genesis k limit t" and inj: "inj_on hash (stored_headers s \<union> stored_headers t)"
    and hdr: "map_of (s_headers t) b = Some hdr"
  shows "\<not> refused hash genesis k limit s hdr"
proof
  assume "refused hash genesis k limit s hdr"
  then obtain d e where d: "dag_reachable hash genesis k limit d" "map_of (s_headers d) \<subseteq>\<^sub>m map_of (s_headers s)"
    "set (h_parents hdr) \<subseteq> blocks d" "hash hdr \<notin> blocks d" "add_block_result hash d hdr = Inl e" by (auto simp: refused_def)
  have "hash hdr = b" using dag_okD(4)[OF reachable_ok[OF assms(1)]] hdr by (auto simp: hash_keyed_def)
  moreover from ran_le[OF d(2)] have "stored_headers d \<union> stored_headers t \<subseteq> stored_headers s \<union> stored_headers t"
    by (auto simp: stored_headers_def)
  from inj_on_subset[OF inj this] have "inj_on hash (stored_headers d \<union> stored_headers t)" .
  ultimately show False using accepted_elsewhere[OF d(1) assms(1) _ hdr] d by auto
qed

text \<open>
  C18: Synchronisation converges. Take any reachable state and the DAG of any node with the same rules. Once
  every block of that DAG is held or has been sent, in any order, by any peers, in any batches and mixed with
  any other blocks, then provided the headers do not collide, the gate accepts what is sent and the pool had room
  for it, every block of that DAG is in this node's DAG, with the same header and the same GHOSTDAG data.
\<close>

theorem sync_catches_up:
  assumes "sync_reachable hash gate genesis k limit config s" and "dag_reachable hash genesis k limit t"
    and "inj_on hash (all_headers s \<union> stored_headers t \<union> set (headers_of batches))"
    and "\<forall>hdr \<in> set (headers_of batches). gate hdr = None"
    and "orphan_count s + length (headers_of batches) \<le> sc_max_orphans (y_config s)"
    and "\<forall>b \<in> blocks t. holds s b \<or> b \<in> hash ` set (headers_of batches)"
  shows "blocks t \<subseteq> blocks (y_dag (receive hash gate batches s)) \<and>
    (\<forall>b \<in> blocks t. dag_header (y_dag (receive hash gate batches s)) b = dag_header t b \<and>
       dag_data (y_dag (receive hash gate batches s)) b = dag_data t b)"
proof -
  let ?r = "receive hash gate batches s" and ?U = "all_headers s \<union> stored_headers t \<union> set (headers_of batches)"
  have r: "sync_ok hash genesis k limit ?r" "advances hash genesis k limit (length (headers_of batches)) (set (headers_of batches)) s ?r"
    using receive_ok[OF sync_reachable_ok[OF assms(1)] assms(4)] by simp_all
  note core = sync_coreD[OF r(1)]
  have U: "all_headers ?r \<subseteq> ?U" using r(2) by (auto simp: advances_def)
  then have "stored_headers (y_dag ?r) \<union> stored_headers t \<subseteq> ?U" by (auto simp: all_headers_def)
  from inj_on_subset[OF assms(3) this] have inj: "inj_on hash (stored_headers (y_dag ?r) \<union> stored_headers t)" .
  note dag = dag_okD[OF reachable_ok[OF core(1)]] dag_okD[OF reachable_ok[OF assms(2)]]
  have key: "hash hdr = b \<and> hdr \<in> stored_headers t" if "map_of (s_headers t) b = Some hdr" for b hdr
    using that dag(11) by (auto simp: hash_keyed_def stored_headers_def ran_def)
  note not_refused = not_refused_elsewhere[OF assms(2) inj]
  have "b \<in> blocks (y_dag ?r)" if "b \<in> blocks t" for b
    using that
  proof (induction "topological_height t b" arbitrary: b rule: less_induct)
    case less
    from header_of_block[OF less.prems] obtain hdr where hdr: "map_of (s_headers t) b = Some hdr" by blast
    have "holds ?r b \<or> (\<exists>hd \<in> all_headers s \<union> set (headers_of batches). hash hd = b \<and> refused hash genesis k limit (y_dag ?r) hd)"
      using r(2) assms(5,6) less.prems unfolding advances_def orphan_count_def by blast
    moreover have "hd = hdr" if "hd \<in> ?U" "hash hd = b" for hd
      using key[OF hdr] that by (intro inj_onD[OF assms(3)]) auto
    ultimately have "holds ?r b" using not_refused[OF hdr] by blast
    then show ?case
    proof (cases "b \<in> blocks (y_dag ?r)")
      case False
      with \<open>holds ?r b\<close> obtain orphan where o: "map_of (y_orphans ?r) b = Some orphan" by (auto simp: holds_def)
      then have "or_header orphan \<in> ?U" "hash (or_header orphan) = b"
        using U core(2) by (auto simp: all_headers_def ran_def pool_shape_def)
      with \<open>\<And>hd. hd \<in> ?U \<Longrightarrow> hash hd = b \<Longrightarrow> hd = hdr\<close> have "or_header orphan = hdr" by blast
      moreover have "p \<in> blocks (y_dag ?r)" if "p \<in> set (h_parents hdr)" for p
      proof -
        have "p \<in> set (parents_of t b)" using that hdr by (simp add: parents_of_def)
        from parent_height[OF dag(8) this] parents_in_blocks[OF dag(8) this] show ?thesis by (rule less.hyps)
      qed
      ultimately show ?thesis using waits_okD(3)[OF core(4) o] by (auto simp: lacks_def)
    qed
  qed
  then have sub: "blocks t \<subseteq> blocks (y_dag ?r)" by blast
  moreover have "dag_header (y_dag ?r) b = dag_header t b" if "b \<in> blocks t" for b
    using same_header[OF dag(4,11) inj _ that] that sub by (auto simp: dag_header_def)
  moreover have "dag_data (y_dag ?r) b = dag_data t b" if "b \<in> blocks t" for b
    using same_data[OF core(1) assms(2) inj] that sub by (auto simp: dag_data_def)
  ultimately show ?thesis by blast
qed

section \<open>A small network\<close>

text \<open>A node with one peer that sent a block whose parents it does not have.\<close>

definition ex_sync0 :: dag_sync where
  "ex_sync0 = new_sync (ex_dag 2 10 []) \<lparr>sc_max_orphans = 4, sc_request_timeout_ms = 2000, sc_genesis = 0\<rparr>"

abbreviation ex_payload :: "u64 \<Rightarrow> block_hash list \<Rightarrow> block_payload" where
  "ex_payload n ps \<equiv> empty_payload (ex_block n ps)"

definition ex_sync :: dag_sync where
  "ex_sync = snd (on_message ex_hash accept_all 7 (Blocks [ex_payload 3 [1, 2]]) 5 (snd (on_message ex_hash accept_all 7 Verack 5 (snd (on_connect 7 ex_sync0)))))"

abbreviation ex_sync_reachable :: "dag_sync \<Rightarrow> bool" where
  "ex_sync_reachable \<equiv> sync_reachable ex_hash accept_all (ex_block 0 []) 2 10 \<lparr>sc_max_orphans = 4, sc_request_timeout_ms = 2000, sc_genesis = 0\<rparr>"

lemma ex_sync0_reachable: "ex_sync_reachable ex_sync0"
  unfolding ex_sync0_def by (rule sync_reachable.start[OF ex_dag_reachable])

lemma ex_sync_reached: "ex_sync_reachable ex_sync"
  unfolding ex_sync_def
  by (rule sync_reachable.message[OF sync_reachable.message[OF sync_reachable.connect[OF ex_sync0_reachable
      surjective_pairing] surjective_pairing] surjective_pairing])

lemma ex_sync_fields:
  "y_orphans ex_sync = [(3, \<lparr>or_header = ex_block 3 [1, 2], or_from = 7\<rparr>)]" "s_headers (y_dag ex_sync) = [(0, ex_block 0 [])]"
  "y_orphans ex_sync0 = []" "s_headers (y_dag ex_sync0) = [(0, ex_block 0 [])]" "sc_max_orphans (y_config ex_sync0) = 4"
  by code_simp+

lemma ex_headers_inj: "inj_on ex_hash {ex_block 0 [], ex_block 1 [0], ex_block 2 [0], ex_block 3 [1, 2]}"
  by (intro inj_onI) (elim insertE emptyE; simp)

theorem sync_orphans_exact_witness:
  "ex_sync_reachable ex_sync \<and> 3 \<in> waiters ex_sync 1 \<and> 3 \<in> waiters ex_sync 2 \<and> 3 \<notin> waiters ex_sync 0 \<and> orphan_count ex_sync \<le> 4 \<and>
   y_orphan_order ex_sync = [3]"
proof -
  have "all_headers ex_sync \<subseteq> {ex_block 0 [], ex_block 1 [0], ex_block 2 [0], ex_block 3 [1, 2]}"
    by (auto simp: all_headers_def stored_headers_def ex_sync_fields)
  from inj_on_subset[OF ex_headers_inj this] have inj: "inj_on ex_hash (all_headers ex_sync)" .
  note exact = sync_orphans_exact[OF ex_sync_reached inj]
  have c: "sc_max_orphans (y_config ex_sync) = 4" "y_orphan_order ex_sync = [3]" by code_simp+
  have w: "h \<in> waiters ex_sync p \<longleftrightarrow> h = 3 \<and> p \<in> {1, 2}" for h p
  proof -
    have "\<not> contains (y_dag ex_sync) 1" "\<not> contains (y_dag ex_sync) 2" by (simp_all add: contains_def ex_sync_fields)
    moreover have "h \<in> waiters ex_sync p \<longleftrightarrow> (\<exists>orphan. map_of (y_orphans ex_sync) h = Some orphan \<and>
        p \<in> set (h_parents (or_header orphan)) \<and> \<not> contains (y_dag ex_sync) p)" using exact by blast
    ultimately show ?thesis by (auto simp: ex_sync_fields ex_block_def split: if_splits)
  qed
  have "orphan_count ex_sync \<le> 4" using exact c(1) by simp
  then show ?thesis using ex_sync_reached c(2) by (simp add: w)
qed

text \<open>Blocks 3, 2 and 1 arrive in this order, from two peers.\<close>

theorem sync_catches_up_witness:
  "{0, 1, 2, 3} \<subseteq> blocks (y_dag (receive ex_hash accept_all [(7, 0, [ex_payload 3 [1, 2]]), (8, 1, [ex_payload 2 [0], ex_payload 1 [0]])] ex_sync0)) \<and>
   dag_data (y_dag (receive ex_hash accept_all [(7, 0, [ex_payload 3 [1, 2]]), (8, 1, [ex_payload 2 [0], ex_payload 1 [0]])] ex_sync0)) 3 =
     dag_data example_dag 3"
proof -
  let ?bs = "[(7, 0, [ex_payload 3 [1, 2]]), (8, 1, [ex_payload 2 [0], ex_payload 1 [0]])] :: (peer_id \<times> u64 \<times> block_payload list) list"
  have hs: "headers_of ?bs = [ex_block 3 [1, 2], ex_block 2 [0], ex_block 1 [0]]" by (simp add: headers_of_def empty_payload_def)
  have "all_headers ex_sync0 = {ex_block 0 []}" by (simp add: all_headers_def stored_headers_def ex_sync_fields)
  moreover have "stored_headers example_dag \<subseteq> {ex_block 0 [], ex_block 1 [0], ex_block 2 [0], ex_block 3 [1, 2]}"
    using example_headers[of "[(1, [0]), (2, [0]), (3, [1, 2])]"] by (simp add: example_dag_def)
  ultimately have inj: "inj_on ex_hash (all_headers ex_sync0 \<union> stored_headers example_dag \<union> set (headers_of ?bs))"
    by (intro inj_on_subset[OF ex_headers_inj]) (auto simp: hs)
  have bl: "blocks example_dag = {0, 1, 2, 3}" by code_simp
  have "0 \<in> blocks (y_dag ex_sync0)" by (simp add: blocks_def ex_sync_fields)
  then have held: "\<forall>b \<in> blocks example_dag. holds ex_sync0 b \<or> b \<in> ex_hash ` set (headers_of ?bs)"
    by (auto simp: bl hs holds_def)
  have gate: "\<forall>hdr \<in> set (headers_of ?bs). accept_all hdr = None" by (simp add: accept_all_def)
  have room: "orphan_count ex_sync0 + length (headers_of ?bs) \<le> sc_max_orphans (y_config ex_sync0)"
    by (simp add: orphan_count_def ex_sync_fields hs)
  from sync_catches_up[OF ex_sync0_reachable example_reachable inj gate room held] show ?thesis by (simp add: bl)
qed

end
