(* ===== verification/Sync_Tick.thy ===== *)
theory Sync_Tick
  imports Sync_Props
begin

text \<open>
  Requests and the periodic work: every hash is in flight at most once, and a tick asks another peer, in turn,
  for every block whose request has timed out.
\<close>

section \<open>One request per hash\<close>

definition requests_ok :: "dag_sync \<Rightarrow> bool" where "requests_ok s \<longleftrightarrow> hmap_ok (y_requested s)"

lemma fold_request_get:
  "map_of (fold (\<lambda>h. AList.update h v) hs m) h = (if h \<in> set hs then Some v else map_of m h)"
  by (induction hs arbitrary: m) auto

lemma hmap_ok_fold_update: "hmap_ok m \<Longrightarrow> hmap_ok (fold (\<lambda>h. AList.update h v) hs m)"
  by (induction hs arbitrary: m) auto

lemma requests_request_from:
  "requests_ok s \<Longrightarrow> request_from p hs now s = (acts, t) \<Longrightarrow> requests_ok t"
  by (auto simp: requests_ok_def request_from_def Let_def hmap_ok_fold_update split: if_splits)

lemma announce_requested [simp]: "y_requested (snd (announce h ex s)) = y_requested s"
proof -
  have "y_requested (fold (\<lambda>peer. update_peer peer (note_known h)) ps s) = y_requested s" for ps
    by (induction ps arbitrary: s) simp_all
  then show ?thesis by (simp add: announce_def Let_def)
qed

lemma announce_requestedD: "announce h ex s = (sent, t) \<Longrightarrow> y_requested t = y_requested s"
  using announce_requested[of h ex s] by simp

lemma resolve_child_requested: "y_requested (snd (snd (resolve_child hash c r))) = y_requested (snd (snd r))"
  by (cases r) (auto simp: resolve_child_def Let_def split: option.split prod.split sum.split dest: announce_requestedD)

lemma resolve_children_requested: "y_requested (snd (snd (fold (resolve_child hash) cs r))) = y_requested (snd (snd r))"
  by (induction cs arbitrary: r) (simp_all add: resolve_child_requested)

lemma resolve_loop_requested: "y_requested (snd (resolve_loop hash q acts s)) = y_requested s"
proof (induction hash q acts s rule: resolve_loop.induct)
  case (2 hash parent queue acts s)
  then show ?case
    using resolve_children_requested[of hash _ "(queue, acts, s\<lparr>y_waiting_on := AList.delete parent (y_waiting_on s)\<rparr>)"]
    by (auto split: option.split prod.split) (metis snd_conv)
qed simp

lemma resolve_orphans_requestedD: "resolve_orphans_of hash h s = (acts, t) \<Longrightarrow> y_requested t = y_requested s"
  using resolve_loop_requested[of hash "[h]" "[]" s] by (simp add: resolve_orphans_of_def)

lemma evict_requested: "y_requested (evict_oldest order s) = y_requested s"
  by (induction order s rule: evict_oldest.induct) (auto simp: drop_orphan_def split: option.split)

lemma store_requested: "y_requested (store_orphan h hdr p s) = y_requested s"
  by (simp add: store_orphan_def Let_def evict_requested)

lemma admit_requests:
  assumes "requests_ok s" "admit hash hdr p now s = (acts, t)" shows "requests_ok t"
proof -
  obtain r dag where add: "add_block hash (y_dag s) hdr = (r, dag)" by fastforce
  consider "y_requested t = y_requested s"
    | hs u where "request_from p hs now u = (acts, t)" "y_requested u = y_requested s"
  proof (cases r)
    case (Inr b)
    obtain a1 s1 where ann: "announce (hash hdr) (Some p) (update_peer p (\<lambda>p. peer_reward 1 (p\<lparr>ps_blocks_delivered := ps_blocks_delivered p + 1\<rparr>))
        (s\<lparr>y_dag := dag, y_accepted := y_accepted s @ [hash hdr]\<rparr>)) = (a1, s1)" by fastforce
    obtain a2 where "resolve_orphans_of hash (hash hdr) s1 = (a2, t)"
      using assms(2) add Inr ann by (auto simp: admit_def Let_def split: prod.splits)
    from resolve_orphans_requestedD[OF this] announce_requestedD[OF ann] that(1) show ?thesis by simp
  next
    case (Inl e)
    show ?thesis
    proof (cases e)
      case (MissingParent x y)
      with assms(2) add Inl obtain hs where
        "request_from p hs now (store_orphan (hash hdr) hdr p (s\<lparr>y_dag := dag\<rparr>)) = (acts, t)"
        by (auto simp: admit_def Let_def)
      with that(2)[OF this] show ?thesis by (simp add: store_requested)
    qed (use assms(2) add Inl that(1) in \<open>auto simp: admit_def\<close>)
  qed
  then show ?thesis
  proof cases
    case (2 hs u)
    then have "requests_ok u" using assms(1) by (simp add: requests_ok_def)
    from requests_request_from[OF this 2(1)] show ?thesis .
  qed (use assms(1) in \<open>simp add: requests_ok_def\<close>)
qed

lemma on_blocks_requests:
  "requests_ok s \<Longrightarrow> on_blocks hash gate p now bs acts s = (acts', t) \<Longrightarrow> requests_ok t"
proof (induction bs arbitrary: acts s)
  case (Cons b bs)
  let ?h = "hash (bp_header b)"
  let ?s = "update_peer p (note_known ?h) (s\<lparr>y_requested := AList.delete ?h (y_requested s)\<rparr>)"
  have ok: "requests_ok ?s" using Cons.prems(1) by (simp add: requests_ok_def)
  have pen: "requests_ok s1" if "sync_penalise p m reason ?s = (a, s1)" for m reason a s1
    using that ok by (auto simp: sync_penalise_def requests_ok_def split: option.splits)
  have adm: "requests_ok s1" if "admit hash hdr p now (?s\<lparr>y_bodies := x\<rparr>) = (a, s1)" for hdr x a s1
    using admit_requests[OF _ that] ok by (simp add: requests_ok_def)
  from Cons.prems(2) show ?case
    using Cons.IH[OF ok] Cons.IH[OF pen] Cons.IH[OF adm] pen
    by (auto simp: Let_def split: if_splits option.splits prod.splits)
qed simp

lemma on_message_requests:
  assumes "requests_ok s" "on_message hash gate p msg now s = (acts, t)" shows "requests_ok t"
proof -
  have unk: "requests_ok t'" if "request_unknown p hs now u = (a, t')" "y_requested u = y_requested s" for hs u a t'
    using requests_request_from[of u] that assms(1) by (simp add: request_unknown_def requests_ok_def)
  consider "y_requested t = y_requested s" | hs u a where "request_unknown p hs now u = (a, t)" "y_requested u = y_requested s"
    | bs where "on_blocks hash gate p now bs [] s = (acts, t)"
    using assms(2)
    by (cases msg) (auto simp: on_message_def on_version_def on_inv_blocks_def on_get_blocks_def sync_penalise_def Let_def
        split: if_splits option.splits prod.splits)
  then show ?thesis using assms(1) unk on_blocks_requests by cases (auto simp: requests_ok_def)
qed

lemma on_local_block_requests:
  "requests_ok s \<Longrightarrow> on_local_block hash b s = (acts, t) \<Longrightarrow> requests_ok t"
  by (auto simp: on_local_block_def requests_ok_def Let_def split: prod.splits sum.splits
      dest!: announce_requestedD resolve_orphans_requestedD)

section \<open>Buckets\<close>

lemma fill_buckets_nth:
  assumes "0 < n"
  shows "length (fill_buckets start n stale) = n \<and>
    (\<forall>j < n. fill_buckets start n stale ! j = map ((!) stale) (filter (\<lambda>i. (start + i) mod n = j) [0 ..< length stale]))"
proof (induction stale rule: rev_induct)
  case (snoc h stale)
  let ?j = "(start + length stale) mod n"
  have eq: "fill_buckets start n (stale @ [h]) = (fill_buckets start n stale)[?j := fill_buckets start n stale ! ?j @ [h]]"
    by (simp add: fill_buckets_def enumerate_append_eq)
  have old: "map ((!) (stale @ [h])) (filter P [0 ..< length stale]) = map ((!) stale) (filter P [0 ..< length stale])" for P
    by (auto simp: nth_append)
  have "?j < n" using assms by simp
  with snoc old show ?case by (auto simp: eq nth_list_update)
qed (simp add: fill_buckets_def)

text \<open>Requests to several peers of disjoint batches within the limit all go out.\<close>

definition bucket_requests :: "(peer_id \<times> block_hash list) list \<Rightarrow> action list" where
  "bucket_requests pbs = map (\<lambda>(p, b). Send p (GetBlocks b)) (filter (\<lambda>(p, b). b \<noteq> []) pbs)"

lemma request_from_fresh:
  assumes "length b \<le> 512" "\<forall>h \<in> set b. map_of (y_requested s) h = None" "b \<noteq> []"
  shows "request_from p b now s = ([Send p (GetBlocks b)], s\<lparr>y_requested := fold (\<lambda>h. AList.update h (p, now)) b (y_requested s)\<rparr>)"
proof -
  have "filter (\<lambda>h. map_of (y_requested s) h = None) b = b" using assms(2) by (simp add: filter_id_conv)
  with assms show ?thesis by (simp add: request_from_def Let_def MAX_INV_ENTRIES_def)
qed

lemma retry_fold:
  assumes "\<forall>(p, b) \<in> set pbs. length b \<le> 512 \<and> (\<forall>h \<in> set b. map_of (y_requested s) h = None)"
    and "distinct (concat (map snd pbs))"
    and "fold (\<lambda>(peer, bucket) (actions, s). if bucket = [] then (actions, s)
      else case request_from peer bucket now s of (acts, s) \<Rightarrow> (actions @ acts, s)) pbs (acts, s) = (acts', t)"
  shows "acts' = acts @ bucket_requests pbs \<and> (\<exists>rq. t = s\<lparr>y_requested := rq\<rparr>) \<and>
    (\<forall>h. map_of (y_requested t) h =
       (case find (\<lambda>(p, b). h \<in> set b) pbs of None \<Rightarrow> map_of (y_requested s) h | Some (p, _) \<Rightarrow> Some (p, now)))"
  using assms
proof (induction pbs arbitrary: acts s)
  case Nil
  then show ?case by (auto simp: bucket_requests_def intro: exI[of _ "y_requested s"])
next
  case (Cons pb pbs)
  obtain p b where pb: "pb = (p, b)" by fastforce
  show ?case
  proof (cases "b = []")
    case True
    with Cons.prems Cons.IH[of s acts] show ?thesis by (simp add: pb bucket_requests_def)
  next
    case False
    let ?s = "s\<lparr>y_requested := fold (\<lambda>h. AList.update h (p, now)) b (y_requested s)\<rparr>"
    have r: "request_from p b now s = ([Send p (GetBlocks b)], ?s)"
      using Cons.prems(1) False by (intro request_from_fresh) (auto simp: pb)
    have disj: "set b \<inter> (\<Union>(p, b) \<in> set pbs. set b) = {}" using Cons.prems(2) by (force simp: pb)
    have get: "map_of (y_requested ?s) h = (if h \<in> set b then Some (p, now) else map_of (y_requested s) h)" for h
      by (simp add: fold_request_get)
    have "\<forall>(p, b) \<in> set pbs. length b \<le> 512 \<and> (\<forall>h \<in> set b. map_of (y_requested ?s) h = None)"
      using Cons.prems(1) disj unfolding get by (fastforce simp: pb)
    moreover have "distinct (concat (map snd pbs))" using Cons.prems(2) by simp
    ultimately have IH: "acts' = (acts @ [Send p (GetBlocks b)]) @ bucket_requests pbs \<and> (\<exists>rq. t = ?s\<lparr>y_requested := rq\<rparr>) \<and>
        (\<forall>h. map_of (y_requested t) h =
          (case find (\<lambda>(p, b). h \<in> set b) pbs of None \<Rightarrow> map_of (y_requested ?s) h | Some (p, _) \<Rightarrow> Some (p, now)))"
      using Cons.prems(3) False by (intro Cons.IH) (simp_all add: pb r)
    moreover have "find (\<lambda>(p, b). h \<in> set b) pbs = None" if "h \<in> set b" for h
      using disj that by (auto simp: find_None_iff)
    ultimately show ?thesis using False by (auto simp: pb bucket_requests_def fold_request_get split: option.split)
  qed
qed

section \<open>The tick\<close>

lemma on_tick_requests: "requests_ok s \<Longrightarrow> on_tick now s = (acts, t) \<Longrightarrow> requests_ok t"
proof -
  assume ok: "requests_ok s" and run: "on_tick now s = (acts, t)"
  have del: "hmap_ok (fold AList.delete hs m)" if "hmap_ok m" for hs and m :: "(block_hash, peer_id \<times> u64) hmap"
    using that by (induction hs arbitrary: m) auto
  have retry: "requests_ok (snd (retry_buckets ready buckets now a u))" if "requests_ok u" for ready buckets a u
  proof -
    have "requests_ok (snd (fold (\<lambda>(peer, bucket) (actions, s). if bucket = [] then (actions, s)
      else case request_from peer bucket now s of (acts, s) \<Rightarrow> (actions @ acts, s)) pbs (a, u)))" for pbs
      using that
    proof (induction pbs arbitrary: a u)
      case (Cons pb pbs)
      obtain p b where pb: "pb = (p, b)" by fastforce
      obtain a1 u1 where r: "request_from p b now u = (a1, u1)" by fastforce
      from Cons.IH[OF Cons.prems] Cons.IH[OF requests_request_from[OF Cons.prems r]] show ?case by (simp add: pb r)
    qed simp
    then show ?thesis by (simp add: retry_buckets_def)
  qed
  let ?u = "s\<lparr>y_requested := fold AList.delete (stale_requests now s) (y_requested s)\<rparr>"
  have u: "requests_ok ?u" "requests_ok (?u\<lparr>y_retry_cursor := c\<rparr>)" for c using ok del by (simp_all add: requests_ok_def)
  show ?thesis
    using run retry[OF u(2)] u(1) by (auto simp: on_tick_def Let_def split: if_splits prod.splits) (metis snd_conv)
qed

lemma reachable_requests: "sync_reachable hash gate genesis k limit config s \<Longrightarrow> requests_ok s"
proof (induction rule: sync_reachable.induct)
  case (disconnect s p)
  then show ?case by (simp add: requests_ok_def on_disconnect_def hmap_ok_def distinct_map_filter)
qed (auto simp: new_sync_def on_connect_def drain_accepted_def requests_ok_def[of "new_sync _ _"] requests_ok_def[of "_\<lparr>y_peers := _\<rparr>"]
    requests_ok_def[of "_\<lparr>y_accepted := _\<rparr>"] dest: on_message_requests on_local_block_requests on_tick_requests, auto simp: requests_ok_def)

text \<open>A request is stale when it has waited longer than the timeout.\<close>

definition is_stale :: "u64 \<Rightarrow> dag_sync \<Rightarrow> block_hash \<Rightarrow> bool" where
  "is_stale now s h \<longleftrightarrow>
     (case map_of (y_requested s) h of None \<Rightarrow> False | Some (_, asked_at) \<Rightarrow> saturating_sub now asked_at > sc_request_timeout_ms (y_config s))"

lemma stale_requests_exact:
  assumes "requests_ok s"
  shows "set (stale_requests now s) = {h. is_stale now s h}" "sorted (stale_requests now s)" "distinct (stale_requests now s)"
proof -
  have d: "distinct (map fst (y_requested s))" using assms by (simp add: requests_ok_def hmap_ok_def)
  show "set (stale_requests now s) = {h. is_stale now s h}"
    using map_of_mem[OF d] by (force simp: stale_requests_def is_stale_def split: option.splits)
  show "sorted (stale_requests now s)" "distinct (stale_requests now s)"
    using d by (simp_all add: stale_requests_def distinct_map_filter)
qed

definition ready_peers :: "dag_sync \<Rightarrow> peer_id list" where
  "ready_peers s = map ps_id (filter is_ready (map snd (y_peers s)))"

lemma fold_delete_get: "map_of (fold AList.delete hs m) h = (if h \<in> set hs then None else map_of m h)"
  by (induction hs arbitrary: m) auto

lemma bucket_of_unique:
  assumes "0 < n" "i < length stale" "distinct stale" "length ready = n"
  shows "find (\<lambda>(p, b). stale ! i \<in> set b) (zip ready (fill_buckets start n stale)) =
    Some (ready ! ((start + i) mod n), fill_buckets start n stale ! ((start + i) mod n))"
proof -
  let ?bs = "fill_buckets start n stale" and ?j = "(start + i) mod n"
  note nth = fill_buckets_nth[OF assms(1), of start stale]
  have mem: "stale ! i \<in> set (?bs ! j) \<longleftrightarrow> j = ?j" if "j < n" for j
    using nth that assms(2,3) by (auto simp: nth_eq_iff_index_eq)
  have "?j < n" using assms(1) by simp
  then show ?thesis
    using nth mem assms(4) by (intro find_Some_iff[THEN iffD2] exI[of _ ?j]) auto
qed

lemma distinct_concat_nth:
  "(\<And>i. i < length xss \<Longrightarrow> distinct (xss ! i)) \<Longrightarrow> (\<And>i j. i < j \<Longrightarrow> j < length xss \<Longrightarrow> set (xss ! i) \<inter> set (xss ! j) = {}) \<Longrightarrow>
   distinct (concat xss)"
proof (induction xss)
  case (Cons xs xss)
  have "distinct (concat xss)"
    using Cons.prems(1)[of "Suc _"] Cons.prems(2)[of "Suc _" "Suc _"] by (intro Cons.IH) auto
  moreover have "set xs \<inter> set (concat xss) = {}"
    using Cons.prems(2)[of 0 "Suc _"] by (fastforce simp: in_set_conv_nth)
  ultimately show ?case using Cons.prems(1)[of 0] by simp
qed simp

lemma buckets_distinct:
  assumes "0 < n" "distinct stale" "length ready = n"
  shows "distinct (concat (map snd (zip ready (fill_buckets start n stale))))"
proof -
  let ?bs = "fill_buckets start n stale"
  note nth = fill_buckets_nth[OF assms(1), of start stale]
  have "map snd (zip ready ?bs) = ?bs" using nth assms(3) by simp
  moreover have "distinct (?bs ! j)" if "j < n" for j
    using nth that assms(2) by (auto simp: distinct_map inj_on_def nth_eq_iff_index_eq)
  moreover have "set (?bs ! i) \<inter> set (?bs ! j) = {}" if "i < n" "j < n" "i \<noteq> j" for i j
    using nth that assms(2) by (auto simp: nth_eq_iff_index_eq)
  moreover have "length ?bs = n" using nth by simp
  ultimately show ?thesis by (simp only:) (rule distinct_concat_nth; simp)
qed

lemma ready_peers_asked:
  assumes "sync_reachable hash gate genesis k limit config s"
    and "acts = a @ map (\<lambda>peer. Send peer GetTips) (ready_peers s)"
    and "set (map (\<lambda>peer. Send peer (version_message s)) (map ps_id (filter (\<lambda>p. \<not> is_ready p) (map snd (y_peers s))))) \<subseteq> set a"
  shows "\<forall>(p, st) \<in> set (y_peers s). (if is_ready st then Send p GetTips else Send p (version_message s)) \<in> set acts"
proof -
  have "ps_id st = p" if "(p, st) \<in> set (y_peers s)" for p st
    using sync_coreD(3)[OF sync_reachable_ok[OF assms(1)]] that by (auto simp: peers_ok_def)
  then show ?thesis using assms(2,3) by (force simp: ready_peers_def)
qed

text \<open>The requests after the stale ones are forgotten and asked again, from the start the cursor gives.\<close>

lemma retry_round:
  assumes "sync_reachable hash gate genesis k limit config s" and "length (stale_requests now s) \<le> 512" and "ready_peers s \<noteq> []"
    and c: "c = s\<lparr>y_requested := fold AList.delete (stale_requests now s) (y_requested s), y_retry_cursor := cursor\<rparr>"
    and run: "retry_buckets (ready_peers s) (fill_buckets start (length (ready_peers s)) (stale_requests now s)) now hello c = (a, u)"
  shows "\<exists>rq. u = c\<lparr>y_requested := rq\<rparr>" "set hello \<subseteq> set a"
    "\<not> is_stale now s h \<Longrightarrow> map_of (y_requested u) h = map_of (y_requested s) h"
    "i < length (stale_requests now s) \<Longrightarrow>
       map_of (y_requested u) (stale_requests now s ! i) = Some (ready_peers s ! ((start + i) mod length (ready_peers s)), now)"
    "\<not> is_stale now u h"
proof -
  let ?stale = "stale_requests now s" and ?ready = "ready_peers s" and ?n = "length (ready_peers s)"
  let ?pbs = "zip ?ready (fill_buckets start ?n ?stale)"
  have n: "0 < ?n" using assms(3) by simp
  note stale = stale_requests_exact[OF reachable_requests[OF assms(1)], of now] and nth = fill_buckets_nth[OF n, of start ?stale]
  have cget: "map_of (y_requested c) h = (if is_stale now s h then None else map_of (y_requested s) h)" for h
    using stale(1) by (auto simp: c fold_delete_get)
  have sub: "length b \<le> 512 \<and> set b \<subseteq> set ?stale" if "(p, b) \<in> set ?pbs" for p b
  proof -
    from that obtain j where "j < ?n" "b = fill_buckets start ?n ?stale ! j" using nth by (auto simp: set_zip)
    then obtain P where b: "b = map ((!) ?stale) (filter P [0 ..< length ?stale])" using nth by blast
    have "length b \<le> length [0 ..< length ?stale]" unfolding b length_map by (rule length_filter_le)
    with assms(2) show ?thesis by (auto simp: b)
  qed
  have "\<forall>(p, b) \<in> set ?pbs. length b \<le> 512 \<and> (\<forall>h \<in> set b. map_of (y_requested c) h = None)"
    using sub stale(1) cget by fastforce
  from retry_fold[OF this buckets_distinct[OF n stale(3) refl] run[unfolded retry_buckets_def]]
  have r: "a = hello @ bucket_requests ?pbs" "\<exists>rq. u = c\<lparr>y_requested := rq\<rparr>"
    "\<And>h. map_of (y_requested u) h = (case find (\<lambda>(p, b). h \<in> set b) ?pbs of None \<Rightarrow> map_of (y_requested c) h | Some (p, _) \<Rightarrow> Some (p, now))"
    by simp_all
  show "\<exists>rq. u = c\<lparr>y_requested := rq\<rparr>" "set hello \<subseteq> set a" using r(1,2) by simp_all
  have other: "map_of (y_requested u) h = map_of (y_requested s) h" if "\<not> is_stale now s h" for h
  proof -
    have "find (\<lambda>(p, b). h \<in> set b) ?pbs = None" using sub stale(1) that by (fastforce simp: find_None_iff)
    with r(3)[of h] cget[of h] that show ?thesis by simp
  qed
  then show "\<not> is_stale now s h \<Longrightarrow> map_of (y_requested u) h = map_of (y_requested s) h" .
  have again: "map_of (y_requested u) (?stale ! i) = Some (?ready ! ((start + i) mod ?n), now)" if "i < length ?stale" for i
    using r(3)[of "?stale ! i"] bucket_of_unique[OF n that stale(3) refl, of start] by simp
  then show "i < length ?stale \<Longrightarrow> map_of (y_requested u) (?stale ! i) = Some (?ready ! ((start + i) mod ?n), now)" .
  have cfg: "y_config u = y_config s" using r(2) by (auto simp: c)
  show "\<not> is_stale now u h"
  proof (cases "is_stale now s h")
    case True
    then obtain i where "i < length ?stale" "h = ?stale ! i" using stale(1) by (auto simp: set_conv_nth)
    from again[OF this(1)] this(2) show ?thesis by (simp add: is_stale_def saturating_sub_def)
  next
    case False
    with other[OF this] cfg show ?thesis by (auto simp: is_stale_def split: option.splits)
  qed
qed



end
