(* ===== verification/Sync_Peers.thy ===== *)
theory Sync_Peers
  imports Sync_Tick
begin

text \<open>
  Who the state machine knows and asks: no handler but connecting and disconnecting changes the set of peers, and a
  request is only ever addressed to one of them.
\<close>

definition peer_ids :: "dag_sync \<Rightarrow> peer_id list" where "peer_ids s = map fst (y_peers s)"

definition asked :: "dag_sync \<Rightarrow> peer_id set" where "asked s = (\<lambda>(_, owner, _). owner) ` set (y_requested s)"

definition peers_kept :: "dag_sync \<Rightarrow> dag_sync \<Rightarrow> bool" where
  "peers_kept s t \<longleftrightarrow> peer_ids t = peer_ids s \<and> asked t \<subseteq> asked s \<union> set (peer_ids s)"

lemma peers_kept_refl [simp]: "peers_kept s s"
  by (simp add: peers_kept_def)

lemma peers_kept_trans: "peers_kept s t \<Longrightarrow> peers_kept t u \<Longrightarrow> peers_kept s u"
  by (auto simp: peers_kept_def)

lemma peers_kept_frame:
  "y_peers t = y_peers s \<Longrightarrow> y_requested t = y_requested s \<Longrightarrow> peers_kept s t"
  by (simp add: peers_kept_def peer_ids_def asked_def)

lemma peers_kept_requests:
  assumes "y_peers t = y_peers s" "\<And>x. x \<in> set (y_requested t) \<Longrightarrow> x \<in> set (y_requested s) \<or> fst (snd x) \<in> set (peer_ids s)"
  shows "peers_kept s t"
proof -
  have "o' \<in> asked s \<union> set (peer_ids s)" if "o' \<in> asked t" for o'
    using that assms(2) by (force simp: asked_def)
  with assms(1) show ?thesis by (auto simp: peers_kept_def peer_ids_def)
qed

lemma peers_kept_update_peer: "peers_kept s (update_peer p f s)"
proof -
  have "map fst (y_peers (update_peer p f s)) = map fst (y_peers s)" by (simp add: update_peer_def case_prod_unfold)
  then show ?thesis by (simp add: peers_kept_def peer_ids_def asked_def)
qed

lemma peers_kept_announce: "announce h ex s = (acts, t) \<Longrightarrow> peers_kept s t"
proof -
  have "peers_kept s (fold (\<lambda>peer. update_peer peer (note_known h)) ps s)" for ps
    by (induction ps arbitrary: s) (auto intro: peers_kept_trans peers_kept_update_peer)
  then show "announce h ex s = (acts, t) \<Longrightarrow> peers_kept s t" by (auto simp: announce_def Let_def)
qed

lemma peers_kept_request_from:
  assumes "request_from p hs now s = (acts, t)" "p \<in> set (peer_ids s)"
  shows "peers_kept s t"
proof (rule peers_kept_requests)
  have upd: "x \<in> set (fold (\<lambda>h. AList.update h (p, now)) ws m) \<Longrightarrow> x \<in> set m \<or> fst (snd x) = p" for x ws and m :: "(block_hash, peer_id \<times> u64) hmap"
  proof (induction ws arbitrary: m)
    case (Cons w ws)
    have "x \<in> set (AList.update w (p, now) m) \<Longrightarrow> x \<in> set m \<or> fst (snd x) = p" by (induction m) (auto split: if_splits)
    with Cons.IH Cons.prems show ?case by auto
  qed simp
  show "y_peers t = y_peers s" using assms(1) by (auto simp: request_from_def Let_def split: if_splits)
  show "x \<in> set (y_requested s) \<or> fst (snd x) \<in> set (peer_ids s)" if "x \<in> set (y_requested t)" for x
    using that assms by (auto simp: request_from_def Let_def split: if_splits dest!: upd)
qed

lemma resolve_child_kept: "peers_kept (snd (snd r)) (snd (snd (resolve_child hash child r)))"
proof -
  obtain q acts s where r: "r = (q, acts, s)" by (cases r)
  have joined: "peers_kept s t" if "announce child ex (s\<lparr>y_orphans := o1, y_orphan_order := o2, y_dag := d, y_accepted := a\<rparr>) = (sent, t)"
    for ex o1 o2 d a sent t
    by (rule peers_kept_trans[OF peers_kept_frame peers_kept_announce[OF that]]) simp_all
  have left: "peers_kept s (s\<lparr>y_orphans := o1, y_orphan_order := o2, y_dag := d\<rparr>)" for o1 o2 d
    by (rule peers_kept_frame) simp_all
  show ?thesis unfolding r resolve_child_def by (auto simp: Let_def left split: option.split prod.split sum.split intro: joined)
qed

lemma resolve_children_kept: "peers_kept (snd (snd r)) (snd (snd (fold (resolve_child hash) cs r)))"
proof (induction cs arbitrary: r)
  case (Cons c cs)
  from peers_kept_trans[OF resolve_child_kept Cons.IH] show ?case by simp
qed simp

lemma resolve_loop_kept: "peers_kept s (snd (resolve_loop hash q acts s))"
proof (induction hash q acts s rule: resolve_loop.induct)
  case (2 hash parent queue acts s)
  let ?s = "s\<lparr>y_waiting_on := AList.delete parent (y_waiting_on s)\<rparr>"
  have "peers_kept s ?s" by (rule peers_kept_frame) simp_all
  have children: "peers_kept s s'" if "fold (resolve_child hash) cs (queue, acts, ?s) = (q', acts', s')" for cs q' acts' s'
    using peers_kept_trans[OF \<open>peers_kept s ?s\<close>] resolve_children_kept[of "(queue, acts, ?s)" hash cs] that by simp
  show ?case
  proof (cases "map_of (y_waiting_on s) parent")
    case None
    with 2(1) show ?thesis by simp
  next
    case (Some cs)
    obtain q' acts' s' where f: "fold (resolve_child hash) cs (queue, acts, ?s) = (q', acts', s')" by (metis prod_cases3)
    from 2(2)[OF Some f[symmetric] refl] children[OF f] show ?thesis by (auto simp: Some f intro: peers_kept_trans)
  qed
qed simp

lemma resolve_orphans_kept: "resolve_orphans_of hash h s = (acts, t) \<Longrightarrow> peers_kept s t"
  using resolve_loop_kept[of s hash "[h]" "[]"] by (simp add: resolve_orphans_of_def)

lemma evict_kept: "peers_kept s (evict_oldest order s)"
proof -
  have "y_peers (evict_oldest order s) = y_peers s"
    by (induction order s rule: evict_oldest.induct) (auto simp: drop_orphan_def split: option.split)
  then show ?thesis by (rule peers_kept_frame) (rule evict_requested)
qed

lemma store_kept: "peers_kept s (store_orphan h hdr p s)"
  by (rule peers_kept_trans[OF evict_kept[of s "y_orphan_order s"]]) (auto simp: store_orphan_def Let_def intro: peers_kept_frame)

lemma penalise_kept: "sync_penalise p m reason s = (acts, t) \<Longrightarrow> peers_kept s t"
  by (auto simp: sync_penalise_def peers_kept_update_peer split: option.splits)

lemma request_from_kept:
  "request_from p hs now u = (acts, t) \<Longrightarrow> p \<in> set (peer_ids s) \<Longrightarrow> peers_kept s u \<Longrightarrow> peers_kept s t"
  by (metis peers_kept_request_from peers_kept_trans peers_kept_def)

lemma admit_kept:
  assumes "admit hash hdr p now s = (acts, t)" "p \<in> set (peer_ids s)"
  shows "peers_kept s t"
proof -
  obtain r dag where add: "add_block hash (y_dag s) hdr = (r, dag)" by fastforce
  have dag: "peers_kept s (s\<lparr>y_dag := dag, y_accepted := a\<rparr>)" "peers_kept s (s\<lparr>y_dag := dag\<rparr>)" for a
    by (rule peers_kept_frame; simp)+
  show ?thesis
  proof (cases r)
    case (Inr b)
    define u where "u = update_peer p (\<lambda>p. peer_reward 1 (p\<lparr>ps_blocks_delivered := ps_blocks_delivered p + 1\<rparr>))
        (s\<lparr>y_dag := dag, y_accepted := y_accepted s @ [hash hdr]\<rparr>)"
    have u: "peers_kept s u" unfolding u_def by (rule peers_kept_trans[OF dag(1) peers_kept_update_peer])
    obtain a1 s1 where ann: "announce (hash hdr) (Some p) u = (a1, s1)" by fastforce
    obtain a2 where "resolve_orphans_of hash (hash hdr) s1 = (a2, t)"
      using assms(1) add Inr ann by (auto simp: admit_def Let_def u_def split: prod.splits)
    from resolve_orphans_kept[OF this] peers_kept_announce[OF ann] u show ?thesis by (metis peers_kept_trans)
  next
    case (Inl e)
    show ?thesis
    proof (cases e)
      case (MissingParent x y)
      with assms(1) add Inl obtain hs where
        "request_from p hs now (store_orphan (hash hdr) hdr p (s\<lparr>y_dag := dag\<rparr>)) = (acts, t)"
        by (auto simp: admit_def Let_def)
      from request_from_kept[OF this assms(2) peers_kept_trans[OF dag(2) store_kept]] show ?thesis .
    qed (use assms(1) add Inl dag(2) in \<open>auto simp: admit_def\<close>)
  qed
qed

lemma on_blocks_kept:
  "on_blocks hash gate p now bs acts s = (acts', t) \<Longrightarrow> p \<in> set (peer_ids s) \<Longrightarrow> peers_kept s t"
proof (induction bs arbitrary: acts s)
  case (Cons b bs)
  let ?h = "hash (bp_header b)"
  define u where "u = update_peer p (note_known ?h) (s\<lparr>y_requested := AList.delete ?h (y_requested s)\<rparr>)"
  have "set (AList.delete ?h (y_requested s)) \<subseteq> set (y_requested s)" by (auto simp: AList.delete_eq)
  then have "peers_kept s (s\<lparr>y_requested := AList.delete ?h (y_requested s)\<rparr>)" by (intro peers_kept_requests) auto
  from peers_kept_trans[OF this peers_kept_update_peer] have u: "peers_kept s u" by (simp add: u_def)
  have ids: "p \<in> set (peer_ids v)" if "peers_kept s v" for v using that Cons.prems(2) by (simp add: peers_kept_def)
  have pen: "peers_kept s v" if "sync_penalise p m reason u = (a, v)" for m reason a v
    using peers_kept_trans[OF u penalise_kept[OF that]] .
  have bod: "peers_kept s (u\<lparr>y_bodies := x\<rparr>)" for x by (rule peers_kept_trans[OF u]) (rule peers_kept_frame; simp)
  have adm: "peers_kept s v" if "admit hash hdr p now (u\<lparr>y_bodies := x\<rparr>) = (a, v)" for hdr x a v
    using peers_kept_trans[OF bod admit_kept[OF that ids[OF bod]]] .
  have rest: "peers_kept s t" if "on_blocks hash gate p now bs a v = (acts', t)" "peers_kept s v" for a v
    using peers_kept_trans[OF that(2) Cons.IH[OF that(1) ids[OF that(2)]]] .
  from Cons.prems(1) show ?case
    unfolding on_blocks.simps Let_def u_def[symmetric]
    using rest u pen adm by (auto split: if_splits option.splits prod.splits)
qed simp

lemma on_message_kept:
  assumes "on_message hash gate p msg now s = (acts, t)" shows "peers_kept s t"
proof (cases "map_of (y_peers s) p")
  case None
  with assms show ?thesis by (simp add: on_message_def)
next
  case (Some st)
  then have p: "p \<in> set (peer_ids s)" by (force simp: peer_ids_def dest: map_of_SomeD)
  have unk: "peers_kept s t'" if "request_unknown p hs now u = (a, t')" "peers_kept s u" for hs u a t'
    using request_from_kept[OF that(1)[unfolded request_unknown_def] p that(2)] .
  consider "t = s" | f where "t = update_peer p f s" | m reason where "sync_penalise p m reason s = (acts, t)"
    | hs where "request_unknown p hs now s = (acts, t)" | hs f a where "request_unknown p hs now (update_peer p f s) = (a, t)"
    | bs where "on_blocks hash gate p now bs [] s = (acts, t)"
    using assms Some
    by (cases msg) (auto simp: on_message_def on_version_def on_inv_blocks_def on_get_blocks_def Let_def
        split: if_splits option.splits prod.splits)
  then show ?thesis
    by cases (auto intro: unk peers_kept_update_peer on_blocks_kept[OF _ p] penalise_kept)
qed

lemma on_local_block_kept: "on_local_block hash b s = (acts, t) \<Longrightarrow> peers_kept s t"
proof -
  assume run: "on_local_block hash b s = (acts, t)"
  define u where "u = s\<lparr>y_bodies := AList.update (payload_hash hash b) (bp_transactions b) (y_bodies s)\<rparr>"
  have u: "peers_kept s (u\<lparr>y_dag := d, y_accepted := a\<rparr>)" "peers_kept s (u\<lparr>y_dag := d\<rparr>)" for d a
    unfolding u_def by (rule peers_kept_frame; simp)+
  obtain r d where add: "add_block hash (y_dag s) (bp_header b) = (r, d)" by fastforce
  show ?thesis
  proof (cases r)
    case (Inl e)
    with run add u(2)[of d] show ?thesis by (simp add: on_local_block_def Let_def u_def)
  next
    case (Inr x)
    define v where "v = u\<lparr>y_dag := d, y_accepted := y_accepted u @ [payload_hash hash b]\<rparr>"
    obtain a1 s1 where ann: "announce (payload_hash hash b) None v = (a1, s1)" by fastforce
    obtain a2 where "resolve_orphans_of hash (payload_hash hash b) s1 = (a2, t)"
      using run add Inr ann by (auto simp: on_local_block_def Let_def v_def u_def split: prod.splits)
    from resolve_orphans_kept[OF this] have "peers_kept s1 t" .
    with peers_kept_announce[OF ann] have "peers_kept v t" by (rule peers_kept_trans)
    moreover have "peers_kept s v" unfolding v_def by (rule u(1))
    ultimately show ?thesis by (rule peers_kept_trans[rotated])
  qed
qed

text \<open>A tick asks ready peers only, which are known.\<close>

lemma retry_buckets_kept:
  assumes "set ready \<subseteq> set (peer_ids s)" "peers_kept s u"
  shows "peers_kept s (snd (retry_buckets ready buckets now a u))"
proof -
  have "peers_kept s (snd (fold (\<lambda>(peer, bucket) (actions, s). if bucket = [] then (actions, s)
      else case request_from peer bucket now s of (acts, s) \<Rightarrow> (actions @ acts, s)) pbs (a, u)))"
    if "fst ` set pbs \<subseteq> set (peer_ids s)" for pbs
    using that assms(2)
  proof (induction pbs arbitrary: a u)
    case (Cons pb pbs)
    obtain p b where pb: "pb = (p, b)" by fastforce
    obtain a1 u1 where r: "request_from p b now u = (a1, u1)" by fastforce
    have "peers_kept s u1" using request_from_kept[OF r _ Cons.prems(2)] Cons.prems(1) by (simp add: pb)
    with Cons show ?case by (simp add: pb r)
  qed simp
  moreover have "fst ` set (zip ready buckets) \<subseteq> set (peer_ids s)" using assms(1) by (auto dest: set_zip_leftD)
  ultimately show ?thesis by (simp add: retry_buckets_def)
qed

lemma on_tick_kept:
  assumes "peers_ok s" "on_tick now s = (acts, t)" shows "peers_kept s t"
proof -
  have del: "set (fold AList.delete hs m) \<subseteq> set m" for hs and m :: "(block_hash, peer_id \<times> u64) hmap"
  proof (induction hs arbitrary: m)
    case (Cons h hs)
    have "set (AList.delete h m) \<subseteq> set m" by (auto simp: AList.delete_eq)
    with Cons.IH[of "AList.delete h m"] show ?case by simp
  qed simp
  let ?u = "s\<lparr>y_requested := fold AList.delete (stale_requests now s) (y_requested s)\<rparr>"
  let ?c = "?u\<lparr>y_retry_cursor := y_retry_cursor s + 1\<rparr>"
  have u: "peers_kept s ?u" "peers_kept s ?c" by (rule peers_kept_requests; use del in force)+
  have "set (ready_peers s) \<subseteq> set (peer_ids s)" using assms(1) by (force simp: ready_peers_def peer_ids_def peers_ok_def)
  from retry_buckets_kept[OF this u(2)] u(1) assms(2) show ?thesis
    by (auto simp: on_tick_def Let_def ready_peers_def split: if_splits prod.splits) (metis snd_conv)
qed

end
