(* ===== verification/P2p_Inv.thy ===== *)
theory P2p_Inv
  imports P2p Sync_Peers
begin

text \<open>
  The invariant of the runtime: how the tasks, the registry of channels and the peers of the state machine
  stay in step, whatever the interleaving.
\<close>

section \<open>Connections\<close>

lemma update_conn_get:
  "map_of (pn_conns (update_conn p f n)) q = (if q = p then map_option f (map_of (pn_conns n) p) else map_of (pn_conns n) q)"
proof -
  have "map_of (map (\<lambda>(q, c). (q, if q = p then f c else c)) m) q = (if q = p then map_option f (map_of m p) else map_of m q)" for m
    by (induction m) auto
  then show ?thesis by (simp add: update_conn_def)
qed

lemma update_conn_fields [simp]:
  "map fst (pn_conns (update_conn p f n)) = map fst (pn_conns n)" "pn_sync (update_conn p f n) = pn_sync n"
  "pn_registry (update_conn p f n) = pn_registry n" "pn_next_peer_id (update_conn p f n) = pn_next_peer_id n"
  "pn_diallers (update_conn p f n) = pn_diallers n" "pn_ticker (update_conn p f n) = pn_ticker n"
  "pn_calls (update_conn p f n) = pn_calls n"
  by (simp_all add: update_conn_def case_prod_unfold)

definition phase_of :: "'w p2p_node \<Rightarrow> peer_id \<Rightarrow> phase option" where
  "phase_of n p = map_option cn_phase (map_of (pn_conns n) p)"

lemma phase_of_update [simp]:
  "phase_of (n\<lparr>pn_sync := s\<rparr>) p = phase_of n p" "phase_of (n\<lparr>pn_registry := rs\<rparr>) p = phase_of n p"
  "phase_of (n\<lparr>pn_ticker := j\<rparr>) p = phase_of n p" "phase_of (n\<lparr>pn_calls := cs\<rparr>) p = phase_of n p"
  "phase_of (n\<lparr>pn_diallers := ds\<rparr>) p = phase_of n p"
  by (simp_all add: phase_of_def)

text \<open>The phases in which the task has an entry in the registry to lose, and in which the state machine knows the peer.\<close>

fun registered :: "phase \<Rightarrow> bool" where
  "registered Greeting = True"
| "registered (Serving _) = True"
| "registered Leaving = True"
| "registered _ = False"

fun served :: "phase \<Rightarrow> bool" where
  "served (Serving _) = True"
| "served Leaving = True"
| "served Releasing = True"
| "served _ = False"

definition conns_ok :: "'w p2p_node \<Rightarrow> bool" where
  "conns_ok n \<longleftrightarrow> hmap_ok (pn_conns n) \<and> (\<forall>p \<in> fst ` set (pn_conns n). p < pn_next_peer_id n) \<and>
     (\<forall>p c. map_of (pn_conns n) p = Some c \<longrightarrow> length (cn_queue c) \<le> PEER_SEND_QUEUE)"

definition registry_ok :: "'w p2p_node \<Rightarrow> bool" where
  "registry_ok n \<longleftrightarrow> (\<forall>p \<in> set (pn_registry n). \<exists>ph. phase_of n p = Some ph \<and> registered ph)"

definition known_ok :: "'w p2p_node \<Rightarrow> bool" where
  "known_ok n \<longleftrightarrow> (\<forall>p. p \<in> set (peer_ids (pn_sync n)) \<longleftrightarrow> (\<exists>ph. phase_of n p = Some ph \<and> served ph)) \<and>
     asked (pn_sync n) \<subseteq> set (peer_ids (pn_sync n))"

definition p2p_ok :: "'w p2p_node \<Rightarrow> bool" where
  "p2p_ok n \<longleftrightarrow> conns_ok n \<and> registry_ok n \<and> known_ok n"

lemma p2p_okD:
  assumes "p2p_ok n"
  shows "conns_ok n" "registry_ok n" "known_ok n"
  using assms by (simp_all add: p2p_ok_def)

text \<open>Changes that keep every phase.\<close>

definition same_tasks :: "'w p2p_node \<Rightarrow> 'w p2p_node \<Rightarrow> bool" where
  "same_tasks n n' \<longleftrightarrow> map fst (pn_conns n') = map fst (pn_conns n) \<and> phase_of n' = phase_of n \<and>
     pn_next_peer_id n' = pn_next_peer_id n \<and>
     (\<forall>p. map_option cn_reader (map_of (pn_conns n') p) = map_option cn_reader (map_of (pn_conns n) p)) \<and>
     (\<forall>p c. map_of (pn_conns n') p = Some c \<longrightarrow>
        length (cn_queue c) \<le> PEER_SEND_QUEUE \<or> (\<exists>c0. map_of (pn_conns n) p = Some c0 \<and> length (cn_queue c) \<le> length (cn_queue c0)))"

lemma same_tasks_refl [simp]: "same_tasks n n"
  by (simp add: same_tasks_def)

lemma same_tasks_trans:
  assumes "same_tasks n n'" "same_tasks n' n''"
  shows "same_tasks n n''"
proof -
  have "length (cn_queue c) \<le> PEER_SEND_QUEUE \<or> (\<exists>c0. map_of (pn_conns n) p = Some c0 \<and> length (cn_queue c) \<le> length (cn_queue c0))"
    if "map_of (pn_conns n'') p = Some c" for p c
    using assms that unfolding same_tasks_def by (meson order_trans)
  with assms show ?thesis unfolding same_tasks_def by simp
qed

lemma same_tasks_fields:
  "pn_conns n' = pn_conns n \<Longrightarrow> pn_next_peer_id n' = pn_next_peer_id n \<Longrightarrow> same_tasks n n'"
  by (simp add: same_tasks_def phase_of_def fun_eq_iff)

lemma same_tasks_conn:
  assumes "map_of (pn_conns n) p = Some c" "cn_phase (f c) = cn_phase c" "cn_reader (f c) = cn_reader c"
    "length (cn_queue (f c)) \<le> PEER_SEND_QUEUE \<or> length (cn_queue (f c)) \<le> length (cn_queue c)"
  shows "same_tasks n (update_conn p f n)"
  using assms by (auto simp: same_tasks_def phase_of_def fun_eq_iff update_conn_get)

lemma same_tasks_ok:
  assumes "same_tasks n n'" "p2p_ok n" "set (pn_registry n') \<subseteq> set (pn_registry n)" "peers_kept (pn_sync n) (pn_sync n')"
  shows "p2p_ok n'"
proof -
  note st = assms(1)[unfolded same_tasks_def]
  have "fst ` set (pn_conns n') = fst ` set (pn_conns n)" using arg_cong[OF conjunct1[OF st], of set] by simp
  moreover have "hmap_ok (pn_conns n') = hmap_ok (pn_conns n)" using st by (simp add: hmap_ok_def)
  moreover have "length (cn_queue c) \<le> PEER_SEND_QUEUE" if "map_of (pn_conns n') p = Some c" for p c
    using st that p2p_okD(1)[OF assms(2)] unfolding conns_ok_def by (meson order_trans)
  ultimately have "conns_ok n'" using st p2p_okD(1)[OF assms(2)] by (simp add: conns_ok_def)
  moreover have "registry_ok n'" using st p2p_okD(2)[OF assms(2)] assms(3) by (auto simp: registry_ok_def)
  moreover have "known_ok n'" using st p2p_okD(3)[OF assms(2)] assms(4) by (auto simp: known_ok_def peers_kept_def)
  ultimately show ?thesis by (simp add: p2p_ok_def)
qed

section \<open>Dispatch\<close>

text \<open>Dispatching never ends a connection: it fills queues and it empties the registry.\<close>

lemma dispatch_actions_tasks:
  "dispatch_actions acts stuck n = (stuck', n') \<Longrightarrow> same_tasks n n' \<and> pn_registry n' = pn_registry n \<and> pn_sync n' = pn_sync n"
proof (induction acts stuck n rule: dispatch_actions.induct)
  case (3 peer m acts stuck n)
  show ?case
  proof (cases "if peer \<in> set (pn_registry n) then map_of (pn_conns n) peer else None")
    case None
    then show ?thesis using 3 by (simp split: if_splits)
  next
    case (Some c)
    then have c: "peer \<in> set (pn_registry n)" "map_of (pn_conns n) peer = Some c" by (simp_all split: if_splits)
    show ?thesis
    proof (cases "try_send m c")
      case None
      then show ?thesis using 3 c by simp
    next
      case (Some c')
      then have "cn_phase c' = cn_phase c \<and> cn_reader c' = cn_reader c \<and> length (cn_queue c') \<le> PEER_SEND_QUEUE"
        by (auto simp: try_send_def split: if_splits)
      then have "same_tasks n (update_conn peer (\<lambda>_. c') n)" using c by (intro same_tasks_conn) auto
      with 3 c Some show ?thesis by (auto intro: same_tasks_trans)
    qed
  qed
qed simp_all

lemma run_job_tasks:
  assumes "run_job job n = (job', n')"
  shows "same_tasks n n'" "set (pn_registry n') \<subseteq> set (pn_registry n)" "pn_sync n' = pn_sync n"
  using assms
  by (auto simp: run_job_def split: job.splits prod.splits dest!: dispatch_actions_tasks intro: same_tasks_fields)

lemma run_job_ok: "run_job job n = (job', n') \<Longrightarrow> p2p_ok n \<Longrightarrow> p2p_ok n'"
  using same_tasks_ok[OF run_job_tasks(1), of job n job' n'] run_job_tasks[of job n job' n'] by simp

section \<open>Every event keeps the invariant\<close>

lemma phase_of_set [simp]:
  "phase_of (update_conn p f n) q = (if q = p then map_option (\<lambda>c. cn_phase (f c)) (map_of (pn_conns n) p) else phase_of n q)"
  by (simp add: phase_of_def update_conn_get option.map_comp o_def)

lemma conns_ok_update:
  assumes "conns_ok n" "\<And>c. map_of (pn_conns n) p = Some c \<Longrightarrow> length (cn_queue (f c)) \<le> length (cn_queue c)"
    "pn_conns n' = pn_conns n" "pn_next_peer_id n' = pn_next_peer_id n"
  shows "conns_ok (update_conn p f n')"
proof -
  have m: "map fst (pn_conns (update_conn p f n')) = map fst (pn_conns n)" using assms(3) by simp
  have "fst ` set (pn_conns (update_conn p f n')) = fst ` set (pn_conns n)" by (metis list.set_map m)
  moreover have "hmap_ok (pn_conns (update_conn p f n')) = hmap_ok (pn_conns n)" by (simp only: hmap_ok_def m)
  ultimately show ?thesis
    using assms(1,3,4) order_trans[OF assms(2)] by (auto simp: conns_ok_def update_conn_get split: if_splits)
qed

lemma spawn_ok:
  assumes "p2p_ok n" "spawn_connection r w n = (p, n')" "unat (pn_next_peer_id n) + 1 < 2 ^ 64"
  shows "p2p_ok n' \<and> p = pn_next_peer_id n \<and> p \<notin> fst ` set (pn_conns n)"
proof -
  have p: "p = pn_next_peer_id n" using assms(2) by (simp add: spawn_connection_def Let_def)
  have new: "p \<notin> fst ` set (pn_conns n)" using p2p_okD(1)[OF assms(1)] by (auto simp: conns_ok_def p)
  then have none: "map_of (pn_conns n) p = None" by (simp add: map_of_eq_None_iff)
  have "unat (p + 1) = unat p + 1" using assms(3) by (simp add: p unat_word_ariths)
  then have lt: "q < p + 1" if "q \<le> p" for q using that by (simp add: word_less_nat_alt word_le_nat_alt)
  let ?c = "\<lparr>cn_reader = r, cn_writer = w, cn_queue = [], cn_receiving = True, cn_phase = Joining\<rparr>"
  have n': "n' = n\<lparr>pn_next_peer_id := p + 1, pn_conns := AList.update p ?c (pn_conns n)\<rparr>"
    using assms(2) by (simp add: spawn_connection_def Let_def p)
  have "fst ` set (AList.update p ?c (pn_conns n)) = insert p (fst ` set (pn_conns n))"
    using new by (auto simp: AList.dom_update)
  then have "conns_ok n'"
    using p2p_okD(1)[OF assms(1)] lt by (auto simp: conns_ok_def n' p less_imp_le split: if_splits)
  moreover have ph: "phase_of n' q = (if q = p then Some Joining else phase_of n q)" for q by (simp add: phase_of_def n')
  have "phase_of n p = None" by (simp add: phase_of_def none)
  then have "registry_ok n'" "known_ok n'"
    using p2p_okD(2,3)[OF assms(1)] by (auto simp: registry_ok_def known_ok_def ph) (auto simp: n')
  ultimately show ?thesis using p new by (simp add: p2p_ok_def)
qed

text \<open>A task that moves on, with what it does to the registry and to the peers of the state machine.\<close>

lemma advance_ok:
  assumes "p2p_ok n" "map_of (pn_conns n) p = Some c"
    and "cn_phase (f c) = ph" "length (cn_queue (f c)) \<le> length (cn_queue c)"
    and "set rs \<subseteq> set (pn_registry n) \<union> (if registered ph then {p} else {})" "p \<in> set rs \<Longrightarrow> registered ph"
    and "set (peer_ids s) = (if served ph then insert p (set (peer_ids (pn_sync n))) else set (peer_ids (pn_sync n)) - {p})"
    and "asked s \<subseteq> set (peer_ids s)"
  shows "p2p_ok (update_conn p f (n\<lparr>pn_sync := s, pn_registry := rs\<rparr>))"
proof -
  let ?n = "update_conn p f (n\<lparr>pn_sync := s, pn_registry := rs\<rparr>)"
  have ph: "phase_of ?n q = (if q = p then Some ph else phase_of n q)" for q using assms(2,3) by simp
  have "conns_ok ?n" using p2p_okD(1)[OF assms(1)] assms(2,4) by (intro conns_ok_update) auto
  moreover have "registry_ok ?n"
    using p2p_okD(2)[OF assms(1)] assms(5,6) by (auto simp: registry_ok_def ph simp del: phase_of_set split: if_splits)
  moreover have "known_ok ?n" using p2p_okD(3)[OF assms(1)] assms(7,8) by (auto simp: known_ok_def ph simp del: phase_of_set)
  ultimately show ?thesis by (simp add: p2p_ok_def)
qed

lemma on_connect_ids: "on_connect p s = (acts, t) \<Longrightarrow> set (peer_ids t) = insert p (set (peer_ids s)) \<and> asked t = asked s"
proof -
  have "fst ` set (bmap_insert p (new_peer p) m) = insert p (fst ` set m)" for m by (force simp: bmap_insert_def)
  moreover assume "on_connect p s = (acts, t)"
  then have "t = s\<lparr>y_peers := bmap_insert p (new_peer p) (y_peers s)\<rparr>" by (simp add: on_connect_def)
  ultimately show "set (peer_ids t) = insert p (set (peer_ids s)) \<and> asked t = asked s" by (simp add: peer_ids_def asked_def)
qed

lemma on_disconnect_ids: "set (peer_ids (on_disconnect p s)) = set (peer_ids s) - {p}" "asked (on_disconnect p s) \<subseteq> asked s - {p}"
  by (force simp: on_disconnect_def peer_ids_def asked_def AList.delete_eq)+

lemma conn_turn_ok:
  assumes "p2p_ok n" "conn_turn hash gate R p now n = Some n'"
  shows "p2p_ok n'"
proof -
  obtain c where c: "map_of (pn_conns n) p = Some c" using assms(2) by (auto simp: conn_turn_def split: option.splits)
  note ok = p2p_okD[OF assms(1)]
  have ph: "phase_of n p = Some (cn_phase c)" by (simp add: phase_of_def c)
  have asked: "asked (pn_sync n) \<subseteq> set (peer_ids (pn_sync n))" using ok(3) by (simp add: known_ok_def)
  have mem: "p \<in> set (peer_ids (pn_sync n)) \<longleftrightarrow> served (cn_phase c)" using ok(3) ph by (auto simp: known_ok_def)
  have reg: "p \<in> set (pn_registry n) \<Longrightarrow> registered (cn_phase c)" using ok(2) ph by (auto simp: registry_ok_def)
  note step = advance_ok[OF assms(1) c]
  show ?thesis
  proof (cases "cn_phase c")
    case Joining
    then have n': "n' = update_conn p (\<lambda>c. c\<lparr>cn_phase := Greeting\<rparr>) (n\<lparr>pn_sync := pn_sync n, pn_registry := List.insert p (pn_registry n)\<rparr>)"
      using assms(2) c by (simp add: conn_turn_def)
    show ?thesis unfolding n' by (rule step) (use Joining mem asked in auto)
  next
    case Greeting
    obtain acts s where con: "on_connect p (pn_sync n) = (acts, s)" by fastforce
    then have n': "n' = update_conn p (\<lambda>c. c\<lparr>cn_phase := Serving (Act acts)\<rparr>) (n\<lparr>pn_sync := s, pn_registry := pn_registry n\<rparr>)"
      using assms(2) c Greeting by (simp add: conn_turn_def)
    show ?thesis unfolding n' by (rule step) (use Greeting on_connect_ids[OF con] asked in auto)
  next
    case (Serving job)
    show ?thesis
    proof (cases "job = Idle")
      case True
      then have n': "n' = read_turn hash gate R p now c n" using assms(2) c Serving by (simp add: conn_turn_def)
      have stay: "p2p_ok (update_conn p f n)" if "cn_phase (f c) = Leaving \<and> cn_queue (f c) = cn_queue c" for f
        using step[of f Leaving "pn_registry n" "pn_sync n"] that mem asked Serving by (auto simp: insert_absorb)
      have heard: "p2p_ok (update_conn p f (n\<lparr>pn_sync := s\<rparr>))"
        if "on_message hash gate p m now (pn_sync n) = (acts, s)" "cn_phase (f c) = Serving j \<and> cn_queue (f c) = cn_queue c" for f m acts s j
        using step[of f "Serving j" "pn_registry n" s] that mem asked Serving on_message_kept[OF that(1)]
        by (auto simp: insert_absorb peers_kept_def)
      show ?thesis unfolding n' read_turn_def by (auto intro: stay heard split: prod.split sum.split option.split)
    next
      case False
      obtain job' n1 where run: "run_job job n = (job', n1)" by fastforce
      then have n': "n' = update_conn p (\<lambda>c. c\<lparr>cn_phase := Serving job'\<rparr>) n1"
        using assms(2) c Serving False by (simp add: conn_turn_def)
      have "phase_of n1 p = Some (Serving job)" using run_job_tasks(1)[OF run] ph Serving by (simp add: same_tasks_def)
      then obtain c1 where c1: "map_of (pn_conns n1) p = Some c1" "cn_phase c1 = Serving job" by (auto simp: phase_of_def)
      note ok1 = p2p_okD[OF run_job_ok[OF run assms(1)]]
      have "p \<in> set (peer_ids (pn_sync n1))" using ok1(3) c1 by (auto simp: known_ok_def phase_of_def)
      then show ?thesis
        using advance_ok[OF run_job_ok[OF run assms(1)] c1(1), of "\<lambda>c. c\<lparr>cn_phase := Serving job'\<rparr>" "Serving job'" "pn_registry n1" "pn_sync n1"]
          ok1(3) by (auto simp: n' insert_absorb known_ok_def)
    qed
  next
    case Leaving
    then have n': "n' = update_conn p (\<lambda>c. c\<lparr>cn_phase := Releasing\<rparr>)
        (n\<lparr>pn_sync := pn_sync n, pn_registry := filter (\<lambda>q. q \<noteq> p) (pn_registry n)\<rparr>)"
      using assms(2) c by (simp add: conn_turn_def)
    show ?thesis unfolding n' by (rule step) (use Leaving mem asked in auto)
  next
    case Releasing
    then have n': "n' = update_conn p (\<lambda>c. c\<lparr>cn_phase := Closed\<rparr>) (n\<lparr>pn_sync := on_disconnect p (pn_sync n), pn_registry := pn_registry n\<rparr>)"
      using assms(2) c by (simp add: conn_turn_def)
    show ?thesis unfolding n' by (rule step) (use Releasing reg asked on_disconnect_ids[of p "pn_sync n"] in auto)
  next
    case Closed
    with assms(2) c show ?thesis by (simp add: conn_turn_def)
  qed
qed

lemma write_turn_tasks:
  assumes "write_turn R S p n = Some n'"
  shows "same_tasks n n' \<and> pn_registry n' = pn_registry n \<and> pn_sync n' = pn_sync n"
proof -
  obtain c where c: "map_of (pn_conns n) p = Some c" using assms by (auto simp: write_turn_def split: option.splits)
  have "\<exists>f. n' = update_conn p f n \<and> cn_phase (f c) = cn_phase c \<and> cn_reader (f c) = cn_reader c \<and> length (cn_queue (f c)) \<le> length (cn_queue c)"
    using assms c by (auto simp: write_turn_def split: if_splits list.splits prod.splits sum.splits intro!: exI)
  then show ?thesis using same_tasks_conn[OF c] by auto
qed

lemma p2p_step_ok:
  assumes "p2p_ok n" "peers_ok (pn_sync n)" "unat (pn_next_peer_id n) + 1 < 2 ^ 64" "p2p_step hash gate R S ev n = Some n'"
  shows "p2p_ok n'"
proof -
  have job: "p2p_ok (n1\<lparr>pn_ticker := t\<rparr>)" "p2p_ok (n1\<lparr>pn_calls := cs\<rparr>)" "p2p_ok (n1\<lparr>pn_diallers := ds\<rparr>)" if "p2p_ok n1" for n1 :: "'a p2p_node" and t cs ds
    by (rule same_tasks_ok[OF same_tasks_fields that]; simp)+
  have kept: "p2p_ok (n\<lparr>pn_sync := s\<rparr>)" if "peers_kept (pn_sync n) s" for s
    by (rule same_tasks_ok[OF same_tasks_fields assms(1)]) (simp_all add: that)
  show ?thesis
  proof (cases ev)
    case (Accepts r w)
    then show ?thesis using assms spawn_ok[OF assms(1) surjective_pairing assms(3), of r w] by (simp add: p2p_step_def)
  next
    case (Dials i r w)
    obtain p n1 where sp: "spawn_connection r w n = (p, n1)" by fastforce
    then have "n' = n1\<lparr>pn_diallers := (pn_diallers n1)[i := (fst (pn_diallers n1 ! i), Some p)]\<rparr>"
      using assms(4) Dials by (simp add: p2p_step_def dial_turn_def split: if_splits)
    with job(3) spawn_ok[OF assms(1) sp assms(3)] show ?thesis by simp
  next
    case (Redials i)
    then obtain ds where "n' = n\<lparr>pn_diallers := ds\<rparr>"
      using assms(4) by (auto simp: p2p_step_def redial_turn_def split: if_splits option.splits)
    with job(3)[OF assms(1)] show ?thesis by simp
  next
    case (Turns p now)
    with assms conn_turn_ok show ?thesis by (auto simp: p2p_step_def)
  next
    case (Writes p)
    then have w: "write_turn R S p n = Some n'" using assms(4) by (simp add: p2p_step_def)
    from write_turn_tasks[OF w] have "peers_kept (pn_sync n) (pn_sync n')" "set (pn_registry n') \<subseteq> set (pn_registry n)" by simp_all
    with same_tasks_ok[OF _ assms(1)] write_turn_tasks[OF w] show ?thesis by blast
  next
    case (Ticks now)
    show ?thesis
    proof (cases "pn_ticker n = Idle")
      case True
      obtain acts s where t: "on_tick now (pn_sync n) = (acts, s)" by fastforce
      from True t Ticks assms(4) have "n' = (n\<lparr>pn_sync := s\<rparr>)\<lparr>pn_ticker := Act acts\<rparr>" by (simp add: p2p_step_def ticker_turn_def)
      with job(1)[OF kept[OF on_tick_kept[OF assms(2) t]]] show ?thesis by simp
    next
      case False
      obtain j n1 where r: "run_job (pn_ticker n) n = (j, n1)" by fastforce
      from False r Ticks assms(4) have "n' = n1\<lparr>pn_ticker := j\<rparr>" by (simp add: p2p_step_def ticker_turn_def)
      with job(1)[OF run_job_ok[OF r assms(1)]] show ?thesis by simp
    qed
  next
    case (Announces b)
    obtain acts s where t: "on_local_block hash b (pn_sync n) = (acts, s)" by fastforce
    with Announces assms(4) have "n' = (n\<lparr>pn_sync := s\<rparr>)\<lparr>pn_calls := pn_calls n @ [Act acts]\<rparr>"
      by (simp add: p2p_step_def announce_local_block_def)
    with job(2)[OF kept[OF on_local_block_kept[OF t]]] show ?thesis by simp
  next
    case (Calls i)
    obtain j n1 where r: "run_job (pn_calls n ! i) n = (j, n1)" by fastforce
    with Calls assms(4) have "n' = n1\<lparr>pn_calls := (pn_calls n1)[i := j]\<rparr>" by (simp add: p2p_step_def call_turn_def split: if_splits)
    with job(2)[OF run_job_ok[OF r assms(1)]] show ?thesis by simp
  qed
qed

end
