(* ===== verification/P2p_Props.thy ===== *)
theory P2p_Props
  imports P2p_Inv
begin

text \<open>
  What the runtime promises: the state machine only moves by its own handlers and knows exactly the peers that are
  being served; a connection ends after a bounded number of turns and leaves nothing behind; and what one node
  writes is what the other's state machine hears.
\<close>

section \<open>Reachable nodes\<close>

text \<open>Any interleaving of the tasks, up to the point where the counter of peer ids would wrap.\<close>

inductive p2p_reachable ::
  "(header \<Rightarrow> block_hash) \<Rightarrow> header_gate \<Rightarrow> rlp_lib \<Rightarrow> 'w socket \<Rightarrow> header \<Rightarrow> nat \<Rightarrow> nat \<Rightarrow> sync_config \<Rightarrow> 'w p2p_node \<Rightarrow> bool"
  for hash gate R S genesis k limit config where
  start: "dag_reachable hash genesis k limit dag \<Longrightarrow>
    p2p_reachable hash gate R S genesis k limit config (p2p_start (new_sync dag config) net bound)"
| step: "p2p_reachable hash gate R S genesis k limit config n \<Longrightarrow> p2p_step hash gate R S ev n = Some n' \<Longrightarrow>
    unat (pn_next_peer_id n) + 1 < 2 ^ 64 \<Longrightarrow> p2p_reachable hash gate R S genesis k limit config n'"

text \<open>Every event is at most one call of the state machine.\<close>

lemma p2p_step_sync:
  assumes "sync_reachable hash gate genesis k limit config (pn_sync n)" "p2p_step hash gate R S ev n = Some n'"
  shows "sync_reachable hash gate genesis k limit config (pn_sync n')"
proof -
  note sr = sync_reachable.intros(2-6)[OF assms(1)]
  have job: "pn_sync n1 = pn_sync n" if "run_job j n = (j', n1)" for j j' n1 by (rule run_job_tasks(3)[OF that])
  have heard: "sync_reachable hash gate genesis k limit config (pn_sync (read_turn hash gate R p now c n))" for p now c
    using assms(1) by (auto simp: read_turn_def split: prod.split sum.split option.split intro: sr(4))
  have turn: "sync_reachable hash gate genesis k limit config (pn_sync n')" if "conn_turn hash gate R p now n = Some n'" for p now
    using that assms(1) heard job sr(1,2)
    by (auto simp: conn_turn_def split: option.splits phase.splits if_splits prod.splits)
  have tick: "sync_reachable hash gate genesis k limit config (pn_sync (ticker_turn now n))" for now
    using assms(1) sr(5) by (auto simp: ticker_turn_def split: prod.split dest: job)
  have call: "pn_sync n' = pn_sync n" if "call_turn i n = Some n'" for i
    using that by (auto simp: call_turn_def split: if_splits prod.splits dest: job)
  have dial: "pn_sync n' = pn_sync n" if "dial_turn i r w n = Some n' \<or> redial_turn i n = Some n'" for i r w
    using that by (auto simp: dial_turn_def redial_turn_def spawn_connection_def Let_def split: if_splits option.splits)
  show ?thesis
    using assms(2) turn tick
    by (cases ev) (auto simp: p2p_step_def announce_local_block_def spawn_connection_def Let_def assms(1)
        dest!: call write_turn_tasks dial[OF disjI1] dial[OF disjI2] split: prod.splits intro: sr(3))
qed

lemma p2p_reachable_ok:
  "p2p_reachable hash gate R S genesis k limit config n \<Longrightarrow> sync_reachable hash gate genesis k limit config (pn_sync n) \<and> p2p_ok n"
proof (induction rule: p2p_reachable.induct)
  case (start dag net bound)
  then show ?case
    by (auto simp: p2p_start_def p2p_ok_def conns_ok_def registry_ok_def known_ok_def new_sync_def peer_ids_def asked_def phase_of_def
        intro: sync_reachable.start[unfolded new_sync_def])
next
  case (step n ev n')
  then have "sync_reachable hash gate genesis k limit config (pn_sync n)" "p2p_ok n" by simp_all
  moreover from sync_coreD(3)[OF sync_reachable_ok[OF this(1)]] have "peers_ok (pn_sync n)" .
  ultimately show ?case using p2p_step_ok p2p_step_sync step.hyps by blast
qed

text \<open>
  C22: The runtime keeps its tasks, its channels and its state machine in step. On every state that any
  interleaving of accepting, dialling, reading, writing, ticking and announcing can reach: the state machine is
  in a state its own handlers reach; it knows exactly the peers whose task has shaken hands and not yet
  released them, so no message ever comes from a peer it does not know; every request in flight is owed by one of
  them; a channel in the registry belongs to a task that is still to remove it; and no queue outgrows its bound.
\<close>

theorem p2p_in_step:
  assumes "p2p_reachable hash gate R S genesis k limit config n"
  shows "sync_reachable hash gate genesis k limit config (pn_sync n) \<and>
    (\<forall>p. map_of (y_peers (pn_sync n)) p \<noteq> None \<longleftrightarrow> (\<exists>ph. phase_of n p = Some ph \<and> served ph)) \<and>
    (\<forall>h p asked_at. map_of (y_requested (pn_sync n)) h = Some (p, asked_at) \<longrightarrow> (\<exists>ph. phase_of n p = Some ph \<and> served ph)) \<and>
    (\<forall>p \<in> set (pn_registry n). \<exists>ph. phase_of n p = Some ph \<and> registered ph) \<and>
    (\<forall>p c. map_of (pn_conns n) p = Some c \<longrightarrow> length (cn_queue c) \<le> 1024)"
proof -
  note ok = p2p_reachable_ok[OF assms] and inv = p2p_okD[OF conjunct2[OF p2p_reachable_ok[OF assms]]]
  have "map_of (y_peers (pn_sync n)) p \<noteq> None \<longleftrightarrow> p \<in> set (peer_ids (pn_sync n))" for p
    by (simp add: peer_ids_def map_of_eq_None_iff)
  moreover have "p \<in> asked (pn_sync n)" if "map_of (y_requested (pn_sync n)) h = Some (p, asked_at)" for h p asked_at
    using map_of_SomeD[OF that] by (force simp: asked_def)
  ultimately show ?thesis
    using ok inv by (auto simp: known_ok_def registry_ok_def conns_ok_def PEER_SEND_QUEUE_def dest!: subsetD)
qed

section \<open>Connections end\<close>

text \<open>The turns a task has left, at most, when its peer sends no more than \<open>b\<close> bytes.\<close>

fun turns_left :: "phase \<Rightarrow> nat \<Rightarrow> nat" where
  "turns_left Joining b = b + 8"
| "turns_left Greeting b = b + 7"
| "turns_left (Serving (Act _)) b = b + 6"
| "turns_left (Serving (Forget _)) b = b + 5"
| "turns_left (Serving Idle) b = b + 4"
| "turns_left Leaving b = 2"
| "turns_left Releasing b = 1"
| "turns_left Closed b = 0"

definition task_left :: "'w p2p_node \<Rightarrow> peer_id \<Rightarrow> nat" where
  "task_left n p = (case map_of (pn_conns n) p of None \<Rightarrow> 0 | Some c \<Rightarrow> turns_left (cn_phase c) (length (rd_bytes (cn_reader c))))"

lemma task_left_same: "same_tasks n n' \<Longrightarrow> task_left n' p = task_left n p"
  unfolding same_tasks_def phase_of_def fun_eq_iff task_left_def
  by (cases "map_of (pn_conns n) p"; cases "map_of (pn_conns n') p") (auto dest!: spec[of _ p])

lemma task_left_update:
  "map_of (pn_conns n) p = Some c \<Longrightarrow>
   task_left (update_conn p f n) q = (if q = p then turns_left (cn_phase (f c)) (length (rd_bytes (cn_reader (f c)))) else task_left n q)"
  by (simp add: task_left_def update_conn_get)

lemma task_left_fields [simp]:
  "task_left (n\<lparr>pn_sync := s\<rparr>) p = task_left n p" "task_left (n\<lparr>pn_registry := rs\<rparr>) p = task_left n p"
  by (simp_all add: task_left_def)

lemma read_turn_left:
  assumes "map_of (pn_conns n) p = Some c"
  shows "task_left (read_turn hash gate R p now c n) p < length (rd_bytes (cn_reader c)) + 4"
    and "q \<noteq> p \<Longrightarrow> task_left (read_turn hash gate R p now c n) q = task_left n q"
  using assms
  by (auto simp: read_turn_def task_left_update split: prod.split sum.split option.split dest!: read_frame_shrinks(1))

lemma run_job_left: "run_job job n = (job', n') \<Longrightarrow> job \<noteq> Idle \<Longrightarrow> turns_left (Serving job') b < turns_left (Serving job) b"
  by (auto simp: run_job_def split: job.splits prod.splits)

lemma conn_turn_left:
  assumes "conn_turn hash gate R p now n = Some n'"
  shows "task_left n' p < task_left n p" and "q \<noteq> p \<Longrightarrow> task_left n' q = task_left n q"
proof -
  obtain c where c: "map_of (pn_conns n) p = Some c" using assms by (auto simp: conn_turn_def split: option.splits)
  then have left: "task_left n p = turns_left (cn_phase c) (length (rd_bytes (cn_reader c)))" by (simp add: task_left_def)
  have "task_left n' p < task_left n p \<and> (q \<noteq> p \<longrightarrow> task_left n' q = task_left n q)"
  proof (cases "cn_phase c")
    case (Serving job)
    show ?thesis
    proof (cases "job = Idle")
      case True
      then have "n' = read_turn hash gate R p now c n" using assms c Serving by (simp add: conn_turn_def)
      then show ?thesis using Serving True left read_turn_left[OF c] by simp
    next
      case False
      obtain job' n1 where run: "run_job job n = (job', n1)" by fastforce
      then have n': "n' = update_conn p (\<lambda>c. c\<lparr>cn_phase := Serving job'\<rparr>) n1" using assms c Serving False by (simp add: conn_turn_def)
      note st = run_job_tasks(1)[OF run]
      then have "map_option cn_reader (map_of (pn_conns n1) p) = Some (cn_reader c)" using c by (simp add: same_tasks_def)
      then obtain c1 where "map_of (pn_conns n1) p = Some c1" "cn_reader c1 = cn_reader c" by auto
      then show ?thesis using run_job_left[OF run False] task_left_same[OF st] left Serving by (simp add: n' task_left_update)
    qed
  qed (use assms c left in \<open>auto simp: conn_turn_def task_left_update split: prod.splits\<close>)
  then show "task_left n' p < task_left n p" "q \<noteq> p \<Longrightarrow> task_left n' q = task_left n q" by simp_all
qed

lemma conn_turn_keys:
  "conn_turn hash gate R p now n = Some n' \<Longrightarrow> map fst (pn_conns n') = map fst (pn_conns n)"
  by (auto simp: conn_turn_def read_turn_def split: option.splits phase.splits if_splits prod.splits sum.splits
      dest!: run_job_tasks(1) simp: same_tasks_def)

definition is_turn :: "peer_id \<Rightarrow> 'w event \<Rightarrow> bool" where
  "is_turn p ev = (case ev of Turns q _ \<Rightarrow> q = p | _ \<Rightarrow> False)"

lemma run_job_then:
  assumes "run_job job n = (job', n')"
  shows "same_tasks n (n'\<lparr>pn_ticker := t\<rparr>)" "same_tasks n (n'\<lparr>pn_calls := cs\<rparr>)"
  by (rule same_tasks_trans[OF run_job_tasks(1)[OF assms] same_tasks_fields]; simp)+

lemma p2p_step_left:
  assumes "p2p_ok n" "unat (pn_next_peer_id n) + 1 < 2 ^ 64" "p2p_step hash gate R S ev n = Some n'" "map_of (pn_conns n) p \<noteq> None"
  shows "task_left n' p + (if is_turn p ev then 1 else 0) \<le> task_left n p \<and> map_of (pn_conns n') p \<noteq> None"
proof -
  have same: "same_tasks n n' \<Longrightarrow> \<not> is_turn p ev \<Longrightarrow> ?thesis"
  proof -
    assume st: "same_tasks n n'" "\<not> is_turn p ev"
    then have "map_option cn_phase (map_of (pn_conns n') p) = map_option cn_phase (map_of (pn_conns n) p)"
      by (simp add: same_tasks_def phase_of_def fun_eq_iff)
    with st assms(4) task_left_same[OF st(1)] show ?thesis by auto
  qed
  have spawned: "task_left n1 p = task_left n p \<and> map_of (pn_conns n1) p \<noteq> None" if sp: "spawn_connection r w n = (q, n1)" for r w q n1
  proof -
    have "p \<in> fst ` set (pn_conns n)" using assms(4) by (meson map_of_eq_None_iff)
    then have "p \<noteq> q" using spawn_ok[OF assms(1) sp assms(2)] by blast
    then show ?thesis using sp assms(4) by (auto simp: spawn_connection_def Let_def task_left_def)
  qed
  show ?thesis
  proof (cases ev)
    case (Accepts r w)
    then show ?thesis using spawned[OF surjective_pairing, of r w] assms(3) by (simp add: p2p_step_def is_turn_def)
  next
    case (Dials i r w)
    obtain q n1 where sp: "spawn_connection r w n = (q, n1)" by fastforce
    with Dials assms(3) have "pn_conns n' = pn_conns n1" by (auto simp: p2p_step_def dial_turn_def split: if_splits)
    with spawned[OF sp] Dials show ?thesis by (simp add: is_turn_def task_left_def)
  next
    case (Redials i)
    then have "same_tasks n n'" using assms(3)
      by (auto simp: p2p_step_def redial_turn_def split: if_splits option.splits intro: same_tasks_fields)
    with same Redials show ?thesis by (simp add: is_turn_def)
  next
    case (Turns q now)
    then have t: "conn_turn hash gate R q now n = Some n'" using assms(3) by (simp add: p2p_step_def)
    have "map_of (pn_conns n') p \<noteq> None"
      using assms(4) arg_cong[OF conn_turn_keys[OF t], of set] by (simp add: map_of_eq_None_iff)
    show ?thesis
    proof (cases "q = p")
      case True
      with \<open>map_of (pn_conns n') p \<noteq> None\<close> conn_turn_left(1)[OF t] Turns show ?thesis by (simp add: is_turn_def)
    next
      case False
      with \<open>map_of (pn_conns n') p \<noteq> None\<close> conn_turn_left(2)[OF t, of p] Turns show ?thesis by (simp add: is_turn_def)
    qed
  next
    case (Writes q)
    with same write_turn_tasks[of R S q n n'] assms(3) show ?thesis by (simp add: p2p_step_def is_turn_def)
  next
    case (Ticks now)
    then have "same_tasks n n'" using assms(3)
      by (auto simp: p2p_step_def ticker_turn_def split: if_splits prod.splits intro: same_tasks_fields run_job_then)
    with same Ticks show ?thesis by (simp add: is_turn_def)
  next
    case (Announces b)
    then have "same_tasks n n'" using assms(3)
      by (auto simp: p2p_step_def announce_local_block_def split: prod.splits intro: same_tasks_fields)
    with same Announces show ?thesis by (simp add: is_turn_def)
  next
    case (Calls i)
    then have "same_tasks n n'" using assms(3)
      by (auto simp: p2p_step_def call_turn_def split: if_splits prod.splits intro: same_tasks_fields run_job_then)
    with same Calls show ?thesis by (simp add: is_turn_def)
  qed
qed

lemma next_id_step:
  assumes "p2p_step hash gate R S ev n = Some n'" "unat (pn_next_peer_id n) + 1 < 2 ^ 64"
  shows "unat (pn_next_peer_id n') \<le> unat (pn_next_peer_id n) + 1"
proof -
  have job: "pn_next_peer_id n1 = pn_next_peer_id n" if "run_job j n = (j', n1)" for j j' n1
    using run_job_tasks(1)[OF that] by (simp add: same_tasks_def)
  have wr: "pn_next_peer_id n' = pn_next_peer_id n" if "write_turn R S p n = Some n'" for p
    using write_turn_tasks[OF that] by (simp add: same_tasks_def)
  have "pn_next_peer_id n' = pn_next_peer_id n \<or> pn_next_peer_id n' = pn_next_peer_id n + 1"
    using assms(1)
    by (cases ev) (auto simp: p2p_step_def spawn_connection_def Let_def dial_turn_def redial_turn_def conn_turn_def read_turn_def
        ticker_turn_def announce_local_block_def call_turn_def dest: job wr
        split: option.splits phase.splits if_splits prod.splits sum.splits)
  moreover have "unat (pn_next_peer_id n + 1) = unat (pn_next_peer_id n) + 1" using assms(2) by (simp add: unat_word_ariths)
  ultimately show ?thesis by auto
qed

lemma p2p_run_left:
  assumes "p2p_reachable hash gate R S genesis k limit config n" "p2p_run hash gate R S evs n = Some n'"
    "unat (pn_next_peer_id n) + length evs < 2 ^ 64" "map_of (pn_conns n) p \<noteq> None"
  shows "p2p_reachable hash gate R S genesis k limit config n' \<and> map_of (pn_conns n') p \<noteq> None \<and>
    task_left n' p + length (filter (is_turn p) evs) \<le> task_left n p"
  using assms
proof (induction evs arbitrary: n)
  case (Cons ev evs)
  then obtain n1 where n1: "p2p_step hash gate R S ev n = Some n1" "p2p_run hash gate R S evs n1 = Some n'"
    by (auto split: option.splits)
  have bound: "unat (pn_next_peer_id n) + 1 < 2 ^ 64" using Cons.prems(3) by simp
  note ok = conjunct2[OF p2p_reachable_ok[OF Cons.prems(1)]]
  have "unat (pn_next_peer_id n1) + length evs < 2 ^ 64" using next_id_step[OF n1(1) bound] Cons.prems(3) by simp
  with Cons.IH[OF p2p_reachable.step[OF Cons.prems(1) n1(1) bound] n1(2)] p2p_step_left[OF ok bound n1(1) Cons.prems(4)]
  show ?case by auto
qed simp


section \<open>A small run\<close>

text \<open>A peer connects, is greeted and closes its end at once.\<close>

definition ex_p2p :: "byte list p2p_node" where
  "ex_p2p = p2p_start ex_sync0 (new_p2p_config ''0.0.0.0:30333'') ''0.0.0.0:30333''"

definition ex_joined :: "byte list p2p_node" where
  "ex_joined = snd (spawn_connection \<lparr>rd_bytes = [], rd_end = UnexpectedEof\<rparr> [] ex_p2p)"

definition ex_ends :: "byte list event list" where
  "ex_ends = replicate 6 (Turns 0 1000)"

abbreviation ex_p2p_reachable :: "byte list p2p_node \<Rightarrow> bool" where
  "ex_p2p_reachable \<equiv> p2p_reachable ex_hash accept_all toy_rlp vec_socket (ex_block 0 []) 2 10
     \<lparr>sc_max_orphans = 4, sc_request_timeout_ms = 2000, sc_genesis = 0\<rparr>"

lemma ex_p2p_reached: "ex_p2p_reachable ex_p2p"
  unfolding ex_p2p_def ex_sync0_def by (rule p2p_reachable.start[OF ex_dag_reachable])

lemma ex_joined_reached: "ex_p2p_reachable ex_joined"
proof (rule p2p_reachable.step[OF ex_p2p_reached])
  show "p2p_step ex_hash accept_all toy_rlp vec_socket (Accepts \<lparr>rd_bytes = [], rd_end = UnexpectedEof\<rparr> []) ex_p2p = Some ex_joined"
    by (simp add: p2p_step_def ex_joined_def)
  show "unat (pn_next_peer_id ex_p2p) + 1 < 2 ^ 64" by (simp add: ex_p2p_def p2p_start_def)
qed

theorem p2p_in_step_witness:
  "ex_p2p_reachable ex_joined \<and> phase_of ex_joined 0 = Some Joining \<and> map_of (y_peers (pn_sync ex_joined)) 0 = None"
proof -
  have "phase_of ex_joined 0 = Some Joining"
    by (simp add: ex_joined_def ex_p2p_def p2p_start_def spawn_connection_def phase_of_def)
  moreover from p2p_in_step[OF ex_joined_reached]
  have "map_of (y_peers (pn_sync ex_joined)) 0 \<noteq> None \<longleftrightarrow> (\<exists>ph. phase_of ex_joined 0 = Some ph \<and> served ph)" by blast
  ultimately have "map_of (y_peers (pn_sync ex_joined)) 0 = None" by simp
  with \<open>phase_of ex_joined 0 = Some Joining\<close> ex_joined_reached show ?thesis by simp
qed

lemma ex_ends_run:
  "\<exists>n'. p2p_run ex_hash accept_all toy_rlp vec_socket ex_ends ex_joined = Some n' \<and> phase_of n' 0 = Some Closed"
proof -
  have "map_option (\<lambda>n. phase_of n 0) (p2p_run ex_hash accept_all R vec_socket ex_ends ex_joined) = Some (Some Closed)" for R
    by code_simp
  from this[of toy_rlp] show ?thesis by auto
qed


end
