(* ===== verification/P2p_Wire.thy ===== *)
theory P2p_Wire
  imports P2p_Props
begin

text \<open>
  From one node's queue to the other node's state machine: the codec, the framing and the two loops composed.
\<close>

definition frame_of :: "rlp_lib \<Rightarrow> message \<Rightarrow> byte list" where
  "frame_of R m = to_be_bytes (of_nat (length (encode_to_vec R m))) @ encode_to_vec R m"

definition frames :: "rlp_lib \<Rightarrow> message list \<Rightarrow> byte list" where
  "frames R ms = concat (map (frame_of R) ms)"

text \<open>A message that the protocol carries: within its limits, and within a frame when encoded.\<close>

definition carried :: "rlp_lib \<Rightarrow> message \<Rightarrow> bool" where
  "carried R m \<longleftrightarrow> limit_error m = None \<and> length (encode_to_vec R m) \<le> 16777216"

text \<open>What the state machine does with a list of messages from one peer.\<close>

definition hears :: "(header \<Rightarrow> block_hash) \<Rightarrow> header_gate \<Rightarrow> peer_id \<Rightarrow> u64 \<Rightarrow> message list \<Rightarrow> dag_sync \<Rightarrow> dag_sync" where
  "hears hash gate p now = fold (\<lambda>m s. snd (on_message hash gate p m now s))"

lemma carried_frame: "carried R m \<Longrightarrow> frame_ok (encode_to_vec R m)"
  by (simp add: carried_def frame_ok_def encode_to_vec_def)

section \<open>Writing\<close>

lemma update_conn_const:
  "update_conn p (\<lambda>_. c') (update_conn p (\<lambda>_. c) n) = update_conn p (\<lambda>_. c') n"
  by (simp add: update_conn_def case_prod_unfold)

lemma write_turn_vec:
  assumes "map_of (pn_conns n) p = Some c" "cn_receiving c" "cn_queue c = m # ms"
  shows "write_turn R vec_socket p n =
    (if length (encode_to_vec R m) \<le> 16777216
     then Some (update_conn p (\<lambda>_. c\<lparr>cn_writer := cn_writer c @ frame_of R m, cn_queue := ms\<rparr>) n)
     else Some (update_conn p (\<lambda>_. c\<lparr>cn_queue := [], cn_receiving := False\<rparr>) n))"
  using assms by (simp add: write_turn_def write_frame_vec frame_of_def)

lemma write_all_vec:
  assumes "map_of (pn_conns n) p = Some c" "cn_receiving c" "cn_queue c = ms @ rest"
    and "\<forall>m \<in> set ms. length (encode_to_vec R m) \<le> 16777216"
  shows "p2p_run hash gate R vec_socket (replicate (length ms) (Writes p)) n =
    Some (if ms = [] then n else update_conn p (\<lambda>_. c\<lparr>cn_writer := cn_writer c @ frames R ms, cn_queue := rest\<rparr>) n)"
  using assms
proof (induction ms arbitrary: n c)
  case (Cons m ms)
  let ?c = "c\<lparr>cn_writer := cn_writer c @ frame_of R m, cn_queue := ms @ rest\<rparr>"
  let ?n = "update_conn p (\<lambda>_. ?c) n"
  have w: "p2p_step hash gate R vec_socket (Writes p) n = Some ?n"
    using write_turn_vec[OF Cons.prems(1,2), of m "ms @ rest" R] Cons.prems(3,4) by (simp add: p2p_step_def)
  have "map_of (pn_conns ?n) p = Some ?c" using Cons.prems(1) by (simp add: update_conn_get)
  from Cons.IH[OF this] Cons.prems(2,4) show ?case
    by (cases ms) (simp_all add: w update_conn_const frames_def)
qed simp

section \<open>Reading\<close>

lemma read_turn_hears:
  assumes "rlp_law R" "carried R m" "cn_reader c = \<lparr>rd_bytes = frame_of R m @ later, rd_end = e\<rparr>"
    and "on_message hash gate p m now (pn_sync n) = (acts, s)"
  shows "read_turn hash gate R p now c n =
    update_conn p (\<lambda>c. c\<lparr>cn_reader := \<lparr>rd_bytes = later, rd_end = e\<rparr>, cn_phase := Serving (Act acts)\<rparr>) (n\<lparr>pn_sync := s\<rparr>)"
proof -
  have "read_frame (cn_reader c) = (Inr (Some (encode_to_vec R m)), \<lparr>rd_bytes = later, rd_end = e\<rparr>)"
    using read_frame_prefix[OF carried_frame[OF assms(2)]] assms(3) by (simp add: frame_of_def)
  moreover have "decode_from_slice R (encode_to_vec R m) = Inr m"
    using decode_encoded[OF assms(1), of m "[]"] assms(2) by (simp add: carried_def)
  ultimately show ?thesis by (simp add: read_turn_def assms(4))
qed

text \<open>The task dispatches what it was answered and reads on.\<close>

lemma dispatch_turns:
  assumes "map_of (pn_conns n) p = Some c" "cn_phase c = Serving job"
  shows "\<exists>k n' c'. k \<le> 2 \<and> p2p_run hash gate R S (replicate k (Turns p now)) n = Some n' \<and> pn_sync n' = pn_sync n \<and>
    map_of (pn_conns n') p = Some c' \<and> cn_phase c' = Serving Idle \<and> cn_reader c' = cn_reader c"
proof -
  have turn: "\<exists>n' c'. p2p_step hash gate R S (Turns p now) n = Some n' \<and> pn_sync n' = pn_sync n \<and>
      map_of (pn_conns n') p = Some c' \<and> cn_phase c' = Serving (fst (run_job job n)) \<and> cn_reader c' = cn_reader c"
    if job: "map_of (pn_conns n) p = Some c" "cn_phase c = Serving job" "job \<noteq> Idle" for n c job
  proof -
    obtain job' n1 where run: "run_job job n = (job', n1)" by fastforce
    have "map_option cn_reader (map_of (pn_conns n1) p) = Some (cn_reader c)"
      using run_job_tasks(1)[OF run] job by (simp add: same_tasks_def)
    then obtain c1 where "map_of (pn_conns n1) p = Some c1" "cn_reader c1 = cn_reader c" by auto
    with job run run_job_tasks(3)[OF run] show ?thesis by (simp add: p2p_step_def conn_turn_def update_conn_get)
  qed
  show ?thesis
  proof (cases "job = Idle")
    case True
    with assms show ?thesis by (intro exI[of _ 0] exI[of _ n] exI[of _ c]) simp
  next
    case False
    from turn[OF assms False] obtain n1 c1 where 1: "p2p_step hash gate R S (Turns p now) n = Some n1" "pn_sync n1 = pn_sync n"
      "map_of (pn_conns n1) p = Some c1" "cn_phase c1 = Serving (fst (run_job job n))" "cn_reader c1 = cn_reader c" by blast
    show ?thesis
    proof (cases "fst (run_job job n) = Idle")
      case True
      with 1 show ?thesis by (intro exI[of _ "Suc 0"] exI[of _ n1] exI[of _ c1]) simp
    next
      case again: False
      from turn[OF 1(3,4) again] obtain n2 c2 where 2: "p2p_step hash gate R S (Turns p now) n1 = Some n2" "pn_sync n2 = pn_sync n1"
        "map_of (pn_conns n2) p = Some c2" "cn_phase c2 = Serving (fst (run_job (fst (run_job job n)) n1))" "cn_reader c2 = cn_reader c1" by blast
      have "fst (run_job (fst (run_job job n)) n1) = Idle"
        using again False by (auto simp: run_job_def split: job.splits prod.splits if_splits)
      with 1 2 show ?thesis by (intro exI[of _ "Suc (Suc 0)"] exI[of _ n2] exI[of _ c2]) simp
    qed
  qed
qed

lemma p2p_run_append:
  "p2p_run hash gate R S evs n = Some n' \<Longrightarrow> p2p_run hash gate R S (evs @ evs') n = p2p_run hash gate R S evs' n'"
  by (induction evs arbitrary: n) (auto split: option.splits)

lemma p2p_run_more:
  assumes "p2p_run hash gate R S (replicate k ev) n = Some n1" "p2p_run hash gate R S (replicate k' ev) n1 = Some n2"
  shows "p2p_run hash gate R S (replicate (k + k') ev) n = Some n2"
  using p2p_run_append[OF assms(1), of "replicate k' ev"] assms(2) by (simp add: replicate_add)

lemma reads_all:
  assumes "rlp_law R" "\<forall>m \<in> set ms. carried R m"
    and "map_of (pn_conns n) p = Some c" "cn_phase c = Serving Idle" "cn_reader c = \<lparr>rd_bytes = frames R ms @ later, rd_end = e\<rparr>"
  shows "\<exists>k n' c'. k \<le> 3 * length ms \<and> p2p_run hash gate R S (replicate k (Turns p now)) n = Some n' \<and>
    pn_sync n' = hears hash gate p now ms (pn_sync n) \<and>
    map_of (pn_conns n') p = Some c' \<and> cn_phase c' = Serving Idle \<and> cn_reader c' = \<lparr>rd_bytes = later, rd_end = e\<rparr>"
  using assms(2-5)
proof (induction ms arbitrary: n c)
  case Nil
  then show ?case by (intro exI[of _ 0] exI[of _ n] exI[of _ c]) (simp add: hears_def frames_def)
next
  case (Cons m ms)
  obtain acts s where msg: "on_message hash gate p m now (pn_sync n) = (acts, s)" by fastforce
  let ?r = "\<lparr>rd_bytes = frames R ms @ later, rd_end = e\<rparr>"
  let ?n = "update_conn p (\<lambda>c. c\<lparr>cn_reader := ?r, cn_phase := Serving (Act acts)\<rparr>) (n\<lparr>pn_sync := s\<rparr>)"
  have "cn_reader c = \<lparr>rd_bytes = frame_of R m @ frames R ms @ later, rd_end = e\<rparr>" using Cons.prems(4) by (simp add: frames_def)
  from read_turn_hears[OF assms(1) _ this msg] have "p2p_step hash gate R S (Turns p now) n = Some ?n"
    using Cons.prems(1-3) by (simp add: p2p_step_def conn_turn_def)
  then have read: "p2p_run hash gate R S (replicate 1 (Turns p now)) n = Some ?n" by simp
  have "map_of (pn_conns ?n) p = Some (c\<lparr>cn_reader := ?r, cn_phase := Serving (Act acts)\<rparr>)"
    using Cons.prems(2) by (simp add: update_conn_get)
  from dispatch_turns[OF this, of "Act acts" hash gate R S now] obtain k n1 c1 where
    1: "k \<le> 2" "p2p_run hash gate R S (replicate k (Turns p now)) ?n = Some n1" "pn_sync n1 = s"
    "map_of (pn_conns n1) p = Some c1" "cn_phase c1 = Serving Idle" "cn_reader c1 = ?r" by auto
  have "\<forall>m \<in> set ms. carried R m" using Cons.prems(1) by simp
  from Cons.IH[OF this 1(4-6)] obtain k' n2 c2 where 2: "k' \<le> 3 * length ms"
    "p2p_run hash gate R S (replicate k' (Turns p now)) n1 = Some n2" "pn_sync n2 = hears hash gate p now ms (pn_sync n1)"
    "map_of (pn_conns n2) p = Some c2" "cn_phase c2 = Serving Idle" "cn_reader c2 = \<lparr>rd_bytes = later, rd_end = e\<rparr>" by blast
  have "p2p_run hash gate R S (replicate (1 + k + k') (Turns p now)) n = Some n2"
    by (rule p2p_run_more[OF p2p_run_more[OF read 1(2)] 2(2)])
  with 1 2 msg show ?case by (intro exI[of _ "1 + k + k'"] exI[of _ n2] exI[of _ c2]) (simp add: hears_def)
qed

text \<open>A clean end of the stream: the task leaves the registry, releases its peer and is closed.\<close>

lemma closes:
  assumes "map_of (pn_conns n) p = Some c" "cn_phase c = Serving Idle" "cn_reader c = \<lparr>rd_bytes = [], rd_end = UnexpectedEof\<rparr>"
  shows "\<exists>n'. p2p_run hash gate R S (replicate 3 (Turns p now)) n = Some n' \<and> phase_of n' p = Some Closed \<and>
    pn_sync n' = on_disconnect p (pn_sync n)"
proof -
  let ?n1 = "update_conn p (\<lambda>d. d\<lparr>cn_reader := cn_reader c, cn_phase := Leaving\<rparr>) n"
  have 1: "p2p_step hash gate R S (Turns p now) n = Some ?n1"
    using assms by (simp add: p2p_step_def conn_turn_def read_turn_def read_frame_end)
  have c1: "map_of (pn_conns ?n1) p = Some (c\<lparr>cn_phase := Leaving\<rparr>)" using assms(1) by (simp add: update_conn_get)
  let ?n2 = "set_phase p Releasing (?n1\<lparr>pn_registry := filter (\<lambda>q. q \<noteq> p) (pn_registry ?n1)\<rparr>)"
  have 2: "p2p_step hash gate R S (Turns p now) ?n1 = Some ?n2"
    unfolding p2p_step_def conn_turn_def event.case c1 option.case by simp
  have c2: "map_of (pn_conns ?n2) p = Some (c\<lparr>cn_phase := Releasing\<rparr>)" using assms(1) by (simp add: update_conn_get)
  let ?n3 = "set_phase p Closed (?n2\<lparr>pn_sync := on_disconnect p (pn_sync ?n2)\<rparr>)"
  have 3: "p2p_step hash gate R S (Turns p now) ?n2 = Some ?n3"
    unfolding p2p_step_def conn_turn_def event.case c2 option.case by simp
  have "p2p_run hash gate R S (replicate 3 (Turns p now)) n = Some ?n3"
    unfolding numeral_3_eq_3 replicate.simps p2p_run.simps 1 2 3 option.case ..
  moreover have "phase_of ?n3 p = Some Closed" using assms(1) by (simp add: update_conn_get)
  ultimately show ?thesis by (intro exI[of _ ?n3]) simp
qed

text \<open>
  C24: What one node writes, the other hears. Take any queue of messages within the protocol limits and a frame's
  size, on a socket that delivers the bytes written to it and then ends. The write loop writes them all, and
  the read task at the other end hands its state machine exactly these messages, in order and nothing else,
  then releases the peer and closes.
\<close>

theorem wire_exact:
  assumes "rlp_law R" and "\<forall>m \<in> set ms. carried R m"
    and "map_of (pn_conns a) p = Some c" and "cn_receiving c" and "cn_queue c = ms" and "cn_writer c = []" and "ms \<noteq> []"
    and "map_of (pn_conns b) q = Some d" and "cn_phase d = Serving Idle"
  shows "\<exists>a' c'. p2p_run hash gate R vec_socket (replicate (length ms) (Writes p)) a = Some a' \<and>
    map_of (pn_conns a') p = Some c' \<and> cn_queue c' = [] \<and> pn_sync a' = pn_sync a \<and>
    (cn_reader d = \<lparr>rd_bytes = cn_writer c', rd_end = UnexpectedEof\<rparr> \<longrightarrow>
       (\<exists>k b'. k \<le> 3 * length ms + 3 \<and> p2p_run hash gate R S (replicate k (Turns q now)) b = Some b' \<and>
          phase_of b' q = Some Closed \<and> pn_sync b' = on_disconnect q (hears hash gate q now ms (pn_sync b))))"
proof -
  let ?c = "c\<lparr>cn_writer := frames R ms, cn_queue := []\<rparr>"
  let ?a = "update_conn p (\<lambda>_. ?c) a"
  have "\<forall>m \<in> set ms. length (encode_to_vec R m) \<le> 16777216" using assms(2) by (simp add: carried_def)
  from write_all_vec[OF assms(3,4), of ms "[]", OF _ this, of hash gate]
  have "p2p_run hash gate R vec_socket (replicate (length ms) (Writes p)) a = Some ?a" using assms(5-7) by simp
  moreover have "map_of (pn_conns ?a) p = Some ?c" using assms(3) by (simp add: update_conn_get)
  moreover have "\<exists>k b'. k \<le> 3 * length ms + 3 \<and> p2p_run hash gate R S (replicate k (Turns q now)) b = Some b' \<and>
          phase_of b' q = Some Closed \<and> pn_sync b' = on_disconnect q (hears hash gate q now ms (pn_sync b))"
    if "cn_reader d = \<lparr>rd_bytes = frames R ms, rd_end = UnexpectedEof\<rparr>"
  proof -
    from that have "cn_reader d = \<lparr>rd_bytes = frames R ms @ [], rd_end = UnexpectedEof\<rparr>" by simp
    from reads_all[OF assms(1,2,8,9) this, of hash gate S now] obtain k b1 d1 where
      1: "k \<le> 3 * length ms" "p2p_run hash gate R S (replicate k (Turns q now)) b = Some b1"
      "pn_sync b1 = hears hash gate q now ms (pn_sync b)" "map_of (pn_conns b1) q = Some d1" "cn_phase d1 = Serving Idle"
      "cn_reader d1 = \<lparr>rd_bytes = [], rd_end = UnexpectedEof\<rparr>" by blast
    from closes[OF 1(4-6), of hash gate R S now] obtain b2 where
      2: "p2p_run hash gate R S (replicate 3 (Turns q now)) b1 = Some b2" "phase_of b2 q = Some Closed"
      "pn_sync b2 = on_disconnect q (pn_sync b1)" by blast
    from p2p_run_more[OF 1(2) 2(1)] 1 2 show ?thesis by (intro exI[of _ "k + 3"] exI[of _ b2]) simp
  qed
  ultimately show ?thesis by (intro exI[of _ ?a] exI[of _ ?c]) simp
qed

text \<open>
  A message too large for a frame ends the writing for good: what is queued behind it is lost, and the next send
  finds the peer stuck. A batch of blocks within the limit of 128 can be that large.
\<close>

lemma oversized_ends_writing:
  assumes "map_of (pn_conns n) p = Some c" "cn_receiving c" "cn_queue c = m # ms" "length (encode_to_vec R m) > 16777216"
  shows "\<exists>n' c'. write_turn R vec_socket p n = Some n' \<and> map_of (pn_conns n') p = Some c' \<and> cn_queue c' = [] \<and>
    try_send m' c' = None \<and> write_turn R vec_socket p n' = None"
proof -
  let ?c = "c\<lparr>cn_queue := [], cn_receiving := False\<rparr>"
  let ?n = "update_conn p (\<lambda>_. ?c) n"
  have c: "map_of (pn_conns ?n) p = Some ?c" using assms(1) by (simp add: update_conn_get)
  moreover have "write_turn R vec_socket p n = Some ?n" using write_turn_vec[OF assms(1-3), of R] assms(4) by simp
  moreover have "try_send m' ?c = None" by (simp add: try_send_def)
  moreover from c have "write_turn R vec_socket p ?n = None" by (simp add: write_turn_def)
  ultimately show ?thesis by (intro exI[of _ ?n] exI[of _ ?c]) simp
qed

text \<open>
  Removing a peer from the registry, which is all that a disconnection does, does not stop its task from reading:
  the state machine still hears it.
\<close>

lemma disconnected_peer_still_heard:
  assumes "run_job (Forget [p]) n = (job, n1)" "map_of (pn_conns n) p = Some c" "cn_phase c = Serving Idle"
    and "rlp_law R" "carried R m" "cn_reader c = \<lparr>rd_bytes = frame_of R m @ later, rd_end = e\<rparr>"
  shows "p \<notin> set (pn_registry n1) \<and>
    (\<exists>n2. p2p_step hash gate R S (Turns p now) n1 = Some n2 \<and> pn_sync n2 = snd (on_message hash gate p m now (pn_sync n)))"
proof -
  have n1: "n1 = n\<lparr>pn_registry := filter (\<lambda>q. q \<noteq> p) (pn_registry n)\<rparr>" using assms(1) by (simp add: run_job_def)
  obtain acts s where msg: "on_message hash gate p m now (pn_sync n1) = (acts, s)" by fastforce
  show ?thesis using read_turn_hears[OF assms(4-6) msg] assms(2,3) msg by (simp add: p2p_step_def conn_turn_def n1)
qed

section \<open>Two messages cross\<close>

definition ex_conn :: "message list \<Rightarrow> byte list \<Rightarrow> byte list conn" where
  "ex_conn ms bytes = \<lparr>cn_reader = \<lparr>rd_bytes = bytes, rd_end = UnexpectedEof\<rparr>, cn_writer = [], cn_queue = ms, cn_receiving = True,
     cn_phase = Serving Idle\<rparr>"

theorem wire_exact_witness:
  "\<exists>k b'. p2p_run ex_hash accept_all toy_rlp vec_socket (replicate k (Turns 0 9)) (ex_p2p\<lparr>pn_conns := [(0, ex_conn [] [0, 0, 0, 1, 2, 0, 0, 0, 1, 5])]\<rparr>) = Some b' \<and>
     phase_of b' 0 = Some Closed \<and> pn_sync b' = on_disconnect 0 (hears ex_hash accept_all 0 9 [Verack, GetTips] ex_sync0)"
proof -
  let ?a = "ex_p2p\<lparr>pn_conns := [(0, ex_conn [Verack, GetTips] [])]\<rparr>"
  let ?b = "ex_p2p\<lparr>pn_conns := [(0, ex_conn [] [0, 0, 0, 1, 2, 0, 0, 0, 1, 5])]\<rparr>"
  let ?c' = "(ex_conn [Verack, GetTips] [])\<lparr>cn_writer := [0, 0, 0, 1, 2, 0, 0, 0, 1, 5], cn_queue := []\<rparr>"
  have fr: "frames toy_rlp [Verack, GetTips] = [0, 0, 0, 1, 2, 0, 0, 0, 1, 5]"
    by (simp add: frames_def frame_of_def encode_to_vec_def to_be_bytes_def)
  have carried: "\<forall>m \<in> set [Verack, GetTips]. carried toy_rlp m" by (simp add: carried_def encode_to_vec_def)
  have a: "map_of (pn_conns ?a) 0 = Some (ex_conn [Verack, GetTips] [])" and b: "map_of (pn_conns ?b) 0 = Some (ex_conn [] [0, 0, 0, 1, 2, 0, 0, 0, 1, 5])"
    by simp_all
  have "pn_sync ?b = ex_sync0" by (simp add: ex_p2p_def p2p_start_def)
  have "p2p_run ex_hash accept_all toy_rlp vec_socket (replicate (length [Verack, GetTips]) (Writes 0)) ?a = Some (update_conn 0 (\<lambda>_. ?c') ?a)"
    using write_all_vec[OF a, of "[Verack, GetTips]" "[]" toy_rlp ex_hash accept_all] carried fr by (simp add: ex_conn_def carried_def)
  with wire_exact[OF toy_rlp_law carried a, of ?b 0 "ex_conn [] [0, 0, 0, 1, 2, 0, 0, 0, 1, 5]" ex_hash accept_all vec_socket 9]
  show ?thesis using b \<open>pn_sync ?b = ex_sync0\<close> by (auto simp: ex_conn_def update_conn_get)
qed

end
