(* ===== verification/Sim_Sync.thy ===== *)
theory Sim_Sync
  imports Sync_Peers
begin

text \<open>
  What the simulation relies on about the synchronisation handlers: the blocks a handler adds to its DAG are exactly
  those it lists as accepted, each was absent before, and the DAG before agrees with the DAG after.
\<close>

section \<open>Additions to a DAG\<close>

inductive dag_joins ::
  "(header \<Rightarrow> block_hash) \<Rightarrow> header set \<Rightarrow> dag_store \<times> block_hash list \<Rightarrow> dag_store \<times> block_hash list \<Rightarrow> bool"
  for hash H start where
  stay: "dag_joins hash H start start"
| refused: "dag_joins hash H start (d, a) \<Longrightarrow> h \<in> H \<Longrightarrow> add_block hash d h = (Inl e, d') \<Longrightarrow> dag_joins hash H start (d', a)"
| accepted: "dag_joins hash H start (d, a) \<Longrightarrow> h \<in> H \<Longrightarrow> add_block hash d h = (Inr b, d') \<Longrightarrow>
    dag_joins hash H start (d', a @ [hash h])"

lemma dag_joins_trans: "dag_joins hash H y z \<Longrightarrow> dag_joins hash H x y \<Longrightarrow> dag_joins hash H x z"
  by (induction rule: dag_joins.induct) (auto intro: dag_joins.intros)

lemma agree_trans: "agree X s t \<Longrightarrow> agree Y t u \<Longrightarrow> X \<subseteq> Y \<Longrightarrow> agree X s u"
  unfolding agree_def by (metis subset_iff)

lemma dag_joins_result:
  assumes "dag_joins hash H start (d', a')" "dag_reachable hash genesis k limit (fst start)"
  shows "dag_reachable hash genesis k limit d' \<and> stored_headers d' \<subseteq> stored_headers (fst start) \<union> H \<and>
    (\<exists>xs. a' = snd start @ xs \<and> blocks d' = blocks (fst start) \<union> set xs \<and> set xs \<inter> blocks (fst start) = {} \<and> distinct xs \<and>
       agree (blocks (fst start)) (fst start) d')"
  using assms
proof (induction "(d', a')" arbitrary: d' a' rule: dag_joins.induct)
  case stay
  have "same_graph (fst start) (fst start)" by (simp add: same_graph_def)
  from stay same_graph_agree[OF this dag_okD(1)[OF reachable_ok[OF stay(2)]]] show ?case
    by (cases start) auto
next
  case (refused d a h e d')
  from refused(2)[OF refused(5)] obtain xs where IH: "dag_reachable hash genesis k limit d" "a = snd start @ xs"
    "blocks d = blocks (fst start) \<union> set xs" "set xs \<inter> blocks (fst start) = {}" "agree (blocks (fst start)) (fst start) d"
    "stored_headers d \<subseteq> stored_headers (fst start) \<union> H" "distinct xs" by blast
  from add_block_cases[OF reachable_ok[OF IH(1)] refused(4)] obtain c where d': "d' = d\<lparr>s_reachability := c\<rparr>" by auto
  then have "same_graph d d'" by (simp add: same_graph_def)
  from same_graph_agree[OF this dag_okD(1)[OF reachable_ok[OF IH(1)]]] same_graph_simps(1)[OF this]
  have "agree (blocks d) d d'" and bl: "blocks d' = blocks d" by simp_all
  from agree_trans[OF IH(5) this(1)] IH(3) have "agree (blocks (fst start)) (fst start) d'" by simp
  moreover have "stored_headers d' = stored_headers d" by (simp add: stored_headers_def d')
  ultimately show ?case using dag_reachable.add[OF IH(1), of h] refused(4) IH(2-4,6,7) bl by auto
next
  case (accepted d a h b d')
  from accepted(2)[OF accepted(5)] obtain xs where IH: "dag_reachable hash genesis k limit d" "a = snd start @ xs"
    "blocks d = blocks (fst start) \<union> set xs" "set xs \<inter> blocks (fst start) = {}" "agree (blocks (fst start)) (fst start) d"
    "stored_headers d \<subseteq> stored_headers (fst start) \<union> H" "distinct xs" by blast
  from add_block_cases[OF reachable_ok[OF IH(1)] accepted(4)] have ins: "b = hash h" "b \<notin> blocks d" "inserted d b h d'" by auto
  note agr = inserted_agree[OF ins(3,2) dag_okD(1)[OF reachable_ok[OF IH(1)]]] and bl = inserted_basic(1)[OF ins(3,2)]
  have "agree (blocks (fst start)) (fst start) d'" using agree_trans[OF IH(5) agr] IH(3) by simp
  moreover have "stored_headers d' \<subseteq> insert h (stored_headers d)"
    using ins(3) by (auto simp: stored_headers_def inserted_def ran_def split: if_splits)
  ultimately show ?case using dag_reachable.add[OF IH(1), of h] accepted(3,4) IH(2-4,6,7) bl ins
    by (intro conjI exI[of _ "xs @ [hash h]"]) auto
qed

section \<open>Additions by the handlers\<close>

text \<open>Orphans are kept under their hashes, and their headers come from \<open>H\<close>.\<close>

definition keyed :: "(header \<Rightarrow> block_hash) \<Rightarrow> header set \<Rightarrow> dag_sync \<Rightarrow> bool" where
  "keyed hash H s \<longleftrightarrow> (\<forall>h orphan. map_of (y_orphans s) h = Some orphan \<longrightarrow> hash (or_header orphan) = h \<and> or_header orphan \<in> H)"

definition joins :: "(header \<Rightarrow> block_hash) \<Rightarrow> header set \<Rightarrow> dag_sync \<Rightarrow> dag_sync \<Rightarrow> bool" where
  "joins hash H s t \<longleftrightarrow> (keyed hash H s \<longrightarrow> keyed hash H t \<and> dag_joins hash H (y_dag s, y_accepted s) (y_dag t, y_accepted t))"

lemma joins_trans: "joins hash H s t \<Longrightarrow> joins hash H t u \<Longrightarrow> joins hash H s u"
  by (auto simp: joins_def intro: dag_joins_trans)

lemma joins_idle: "y_dag t = y_dag s \<Longrightarrow> y_accepted t = y_accepted s \<Longrightarrow> y_orphans t = y_orphans s \<Longrightarrow> joins hash H s t"
  by (simp add: joins_def keyed_def dag_joins.stay)

text \<open>The fields that joins reads, through the helpers that do not touch them.\<close>

definition same_fields :: "dag_sync \<Rightarrow> dag_sync \<Rightarrow> bool" where
  "same_fields s t \<longleftrightarrow> y_dag t = y_dag s \<and> y_accepted t = y_accepted s \<and> y_orphans t = y_orphans s \<and> y_bodies t = y_bodies s"

lemma same_fields_trans: "same_fields s t \<Longrightarrow> same_fields t u \<Longrightarrow> same_fields s u"
  by (simp add: same_fields_def)

lemma same_joins: "same_fields s t \<Longrightarrow> joins hash H s t"
  by (simp add: same_fields_def joins_idle)

lemma update_peer_same: "same_fields s (update_peer p f s)"
  by (simp add: same_fields_def update_peer_def)

lemma announce_same:
  assumes "announce h ex s = (acts, t)" shows "same_fields s t"
proof -
  have "same_fields s (fold (\<lambda>peer. update_peer peer (note_known h)) ps s)" for ps
    by (induction ps arbitrary: s) (use same_fields_trans update_peer_same in \<open>force simp: same_fields_def\<close>)+
  then show ?thesis using assms by (auto simp: announce_def Let_def)
qed

lemma request_from_same: "request_from p hs now s = (acts, t) \<Longrightarrow> same_fields s t"
  by (auto simp: request_from_def Let_def same_fields_def split: if_splits)

lemma request_unknown_same: "request_unknown p hs now s = (acts, t) \<Longrightarrow> same_fields s t"
  by (auto simp: request_unknown_def dest: request_from_same)

lemma penalise_same: "sync_penalise p what reason s = (acts, t) \<Longrightarrow> same_fields s t"
  by (auto simp: sync_penalise_def same_fields_def update_peer_def split: option.splits)

lemma on_tick_same: "on_tick now s = (acts, t) \<Longrightarrow> same_fields s t"
  using on_tick_frame[of now s acts t] by (auto simp: same_fields_def)

lemma joins_add:
  assumes "add_block hash (y_dag s) h = (r, dag)" "keyed hash H s \<Longrightarrow> h \<in> H"
    and "map_of (y_orphans t) \<subseteq>\<^sub>m map_of (y_orphans s)" "y_dag t = dag"
    and "y_accepted t = (case r of Inl _ \<Rightarrow> y_accepted s | Inr _ \<Rightarrow> y_accepted s @ [hash h])"
  shows "joins hash H s t"
  unfolding joins_def
proof (intro impI conjI)
  assume "keyed hash H s"
  then have "h \<in> H" by (rule assms(2))
  from \<open>keyed hash H s\<close> show "keyed hash H t" using map_leD[OF assms(3)] unfolding keyed_def by blast
  show "dag_joins hash H (y_dag s, y_accepted s) (y_dag t, y_accepted t)"
    using assms(1,4,5) \<open>h \<in> H\<close> by (cases r) (auto intro: dag_joins.intros)
qed

lemma resolve_child_joins:
  assumes "resolve_child hash child (queue, acts, s) = (queue', acts', t)"
  shows "joins hash H s t"
proof (cases "map_of (y_orphans s) child")
  case None
  with assms show ?thesis by (simp add: resolve_child_def joins_idle)
next
  case (Some orphan)
  show ?thesis
  proof (cases "list_all (contains (y_dag s)) (h_parents (or_header orphan))")
    case False
    with Some assms show ?thesis by (simp add: resolve_child_def joins_idle)
  next
    case True
    obtain r dag where run: "add_block hash (y_dag s) (or_header orphan) = (r, dag)" by fastforce
    have key: "hash (or_header orphan) = child" "or_header orphan \<in> H" if "keyed hash H s" using that Some by (simp_all add: keyed_def)
    have le: "map_of (AList.delete child (y_orphans s)) \<subseteq>\<^sub>m map_of (y_orphans s)" by (auto simp: map_le_def split: if_splits)
    show ?thesis
    proof (cases r)
      case (Inl e)
      then show ?thesis using assms Some True run le key
        by (intro joins_add[OF run]) (auto simp: resolve_child_def Let_def)
    next
      case (Inr b)
      let ?s = "s\<lparr>y_orphans := AList.delete child (y_orphans s), y_orphan_order := filter (\<lambda>h. h \<noteq> child) (y_orphan_order s),
          y_dag := dag, y_accepted := y_accepted s @ [child]\<rparr>"
      obtain sent u where an: "announce child (Some (or_from orphan)) ?s = (sent, u)" by fastforce
      have "t = u" using assms Some True run Inr an by (simp add: resolve_child_def Let_def)
      moreover have "joins hash H ?s u" by (rule same_joins[OF announce_same[OF an]])
      moreover have "joins hash H s ?s" if "keyed hash H s"
        by (rule joins_add[OF run]) (use Inr le key[OF that] in auto)
      ultimately show ?thesis using joins_trans joins_def by blast
    qed
  qed
qed

lemma resolve_children_joins:
  "fold (resolve_child hash) cs (queue, acts, s) = (queue', acts', t) \<Longrightarrow> joins hash H s t"
proof (induction cs arbitrary: queue acts s)
  case (Cons c cs)
  obtain q a u where c: "resolve_child hash c (queue, acts, s) = (q, a, u)" by (cases "resolve_child hash c (queue, acts, s)")
  with Cons.prems Cons.IH[of q a u] resolve_child_joins[OF c] show ?case by (auto intro: joins_trans)
qed (simp add: joins_idle)

lemma resolve_loop_joins: "resolve_loop hash queue acts s = (acts', t) \<Longrightarrow> joins hash H s t"
proof (induction hash queue acts s rule: resolve_loop.induct)
  case (2 hash parent queue acts s)
  show ?case
  proof (cases "map_of (y_waiting_on s) parent")
    case (Some children)
    let ?s = "s\<lparr>y_waiting_on := AList.delete parent (y_waiting_on s)\<rparr>"
    obtain q a u where c: "fold (resolve_child hash) children (queue, acts, ?s) = (q, a, u)" by (metis prod_cases3)
    have "joins hash H s ?s" "joins hash H ?s u" "joins hash H u t"
      using 2 Some c resolve_children_joins[OF c] by (simp_all add: joins_idle)
    then show ?thesis using joins_trans by blast
  qed (use 2 in simp)
qed (simp add: joins_idle)

lemma resolve_orphans_joins: "resolve_orphans_of hash h s = (acts, t) \<Longrightarrow> joins hash H s t"
  unfolding resolve_orphans_of_def by (rule resolve_loop_joins)

lemma on_local_block_joins:
  assumes "on_local_block hash b s = (acts, t)" "bp_header b \<in> H"
  shows "joins hash H s t"
proof -
  let ?s = "s\<lparr>y_bodies := AList.update (payload_hash hash b) (bp_transactions b) (y_bodies s)\<rparr>"
  obtain r dag where run: "add_block hash (y_dag ?s) (bp_header b) = (r, dag)" by fastforce
  show ?thesis
  proof (cases r)
    case (Inl e)
    with assms run show ?thesis
      by (intro joins_add[of hash s "bp_header b" r dag]) (auto simp: on_local_block_def Let_def)
  next
    case (Inr x)
    let ?u = "?s\<lparr>y_dag := dag, y_accepted := y_accepted s @ [payload_hash hash b]\<rparr>"
    obtain a v where an: "announce (payload_hash hash b) None ?u = (a, v)" by fastforce
    obtain a' w where re: "resolve_orphans_of hash (payload_hash hash b) v = (a', w)" by fastforce
    have "t = w" using assms run Inr an re by (simp add: on_local_block_def Let_def)
    moreover have "joins hash H s ?u" using run Inr assms(2) by (intro joins_add[of hash s "bp_header b" r dag]) (simp_all add: payload_hash_def)
    ultimately show ?thesis
      using joins_trans[OF joins_trans[OF _ same_joins[OF announce_same[OF an]]] resolve_orphans_joins[OF re]] by simp
  qed
qed

lemma evict_oldest_fields: "y_dag (evict_oldest order s) = y_dag s \<and> y_accepted (evict_oldest order s) = y_accepted s \<and>
    map_of (y_orphans (evict_oldest order s)) \<subseteq>\<^sub>m map_of (y_orphans s)"
proof (induction order arbitrary: s)
  case (Cons x order)
  have "y_dag (drop_orphan x s) = y_dag s \<and> y_accepted (drop_orphan x s) = y_accepted s \<and>
      map_of (y_orphans (drop_orphan x s)) \<subseteq>\<^sub>m map_of (y_orphans s)"
    by (auto simp: drop_orphan_def map_le_def split: option.splits if_splits)
  with Cons.IH[of "drop_orphan x s"] map_le_trans[of _ "map_of (y_orphans (drop_orphan x s))" "map_of (y_orphans s)"]
  show ?case by simp
qed simp

lemma store_orphan_joins: "hdr \<in> H \<Longrightarrow> joins hash H s (store_orphan (hash hdr) hdr p s)"
proof -
  assume hdr: "hdr \<in> H"
  let ?e = "evict_oldest (y_orphan_order s) s"
  note f = evict_oldest_fields[of "y_orphan_order s" s]
  have "keyed hash H (store_orphan (hash hdr) hdr p s)" if "keyed hash H s"
    using that f hdr map_leD[of "map_of (y_orphans ?e)" "map_of (y_orphans s)"] by (auto simp: keyed_def store_orphan_def Let_def)
  moreover have "y_dag (store_orphan (hash hdr) hdr p s) = y_dag s" "y_accepted (store_orphan (hash hdr) hdr p s) = y_accepted s"
    using f by (simp_all add: store_orphan_def Let_def)
  ultimately show ?thesis by (simp add: joins_def dag_joins.stay)
qed

lemma admit_joins:
  assumes "admit hash hdr p now s = (acts, t)" "hdr \<in> H"
  shows "joins hash H s t"
proof -
  obtain r dag where run: "add_block hash (y_dag s) hdr = (r, dag)" by fastforce
  show ?thesis
  proof (cases r)
    case (Inr x)
    let ?u = "s\<lparr>y_dag := dag, y_accepted := y_accepted s @ [hash hdr]\<rparr>"
    let ?u' = "update_peer p (\<lambda>p. peer_reward 1 (p\<lparr>ps_blocks_delivered := ps_blocks_delivered p + 1\<rparr>)) ?u"
    obtain a v where an: "announce (hash hdr) (Some p) ?u' = (a, v)" by fastforce
    obtain a' w where re: "resolve_orphans_of hash (hash hdr) v = (a', w)" by fastforce
    have "t = w" using assms run Inr an re by (simp add: admit_def Let_def)
    moreover have "joins hash H s ?u" using run Inr assms(2) by (intro joins_add[of hash s hdr r dag]) simp_all
    ultimately show ?thesis
      using joins_trans[OF joins_trans[OF joins_trans[OF _ same_joins[OF update_peer_same]] same_joins[OF announce_same[OF an]]]
          resolve_orphans_joins[OF re]] by simp
  next
    case (Inl e)
    let ?s = "s\<lparr>y_dag := dag\<rparr>"
    have u: "joins hash H s ?s" using run Inl assms(2) by (intro joins_add[of hash s hdr r dag]) simp_all
    show ?thesis
    proof (cases "\<exists>b m. e = MissingParent b m")
      case True
      then obtain missing where "request_from p missing now (store_orphan (hash hdr) hdr p ?s) = (acts, t)"
        using assms run Inl by (auto simp: admit_def Let_def)
      from joins_trans[OF joins_trans[OF u store_orphan_joins[OF assms(2)]] same_joins[OF request_from_same[OF this]]]
      show ?thesis .
    next
      case False
      then have "t = ?s" using assms run Inl by (cases e) (auto simp: admit_def Let_def)
      then show ?thesis using u by simp
    qed
  qed
qed

lemma on_blocks_joins: "on_blocks hash gate p now bs acts s = (acts', t) \<Longrightarrow> bp_header ` set bs \<subseteq> H \<Longrightarrow> joins hash H s t"
proof (induction bs arbitrary: acts s)
  case Nil
  then show ?case by (simp add: joins_idle)
next
  case (Cons b bs)
  let ?h = "hash (bp_header b)"
  let ?s = "update_peer p (note_known ?h) (s\<lparr>y_requested := AList.delete ?h (y_requested s)\<rparr>)"
  let ?b = "?s\<lparr>y_bodies := AList.update ?h (bp_transactions b) (y_bodies ?s)\<rparr>"
  have s: "joins hash H s ?s" "joins hash H ?s ?b" by (simp_all add: joins_idle update_peer_def)
  consider (known) "contains (y_dag ?s) ?h \<or> is_orphan ?s ?h"
    | (bad) reason where "\<not> (contains (y_dag ?s) ?h \<or> is_orphan ?s ?h)" "gate (bp_header b) = Some reason"
    | (good) "\<not> (contains (y_dag ?s) ?h \<or> is_orphan ?s ?h)" "gate (bp_header b) = None" by (cases "gate (bp_header b)") auto
  then show ?case
  proof cases
    case known
    then show ?thesis using Cons joins_trans[OF s(1)] by (simp add: Let_def)
  next
    case bad
    obtain a u where pen: "sync_penalise p InvalidBlock ''invalid block'' ?s = (a, u)" by fastforce
    note u = same_joins[OF penalise_same[OF pen]]
    show ?thesis
    proof (cases "list_ex is_disconnect (acts @ a)")
      case True
      then have "t = u" using Cons.prems bad pen by (simp add: Let_def)
      then show ?thesis using joins_trans[OF s(1) u] by simp
    next
      case False
      then have "on_blocks hash gate p now bs (acts @ a) u = (acts', t)" using Cons.prems bad pen by (simp add: Let_def)
      from Cons.IH[OF this] Cons.prems(2) show ?thesis
        using joins_trans[OF joins_trans[OF s(1) u]] by simp
    qed
  next
    case good
    obtain a u where ad: "admit hash (bp_header b) p now ?b = (a, u)" by fastforce
    have "on_blocks hash gate p now bs (acts @ a) u = (acts', t)" using Cons.prems good ad by (simp add: Let_def)
    from Cons.IH[OF this] Cons.prems(2) show ?thesis
      using joins_trans[OF joins_trans[OF joins_trans[OF s(1) s(2)] admit_joins[OF ad]]] by simp
  qed
qed

lemma on_message_joins:
  assumes "on_message hash gate p msg now s = (acts, t)" "\<And>bs. msg = Blocks bs \<Longrightarrow> bp_header ` set bs \<subseteq> H"
  shows "joins hash H s t"
proof -
  have get: "joins hash H s u" if "on_get_blocks hash p hs s = (a, u)" for hs a u
    using that by (auto simp: on_get_blocks_def Let_def joins_idle update_peer_def split: if_splits)
  have inv: "joins hash H s u" if "on_inv_blocks p hs now s = (a, u)" for hs a u
    using that same_joins[OF same_fields_trans[OF update_peer_same request_unknown_same]] by (auto simp: on_inv_blocks_def)
  have ver: "joins hash H s u" if "on_version p v g tips now s = (a, u)" for v g tips a u
    using that by (auto simp: on_version_def Let_def joins_idle split: if_splits option.splits prod.splits
        dest: same_joins[OF penalise_same] request_unknown_same
        intro: same_joins[OF same_fields_trans[OF update_peer_same]])
  note simple = joins_idle same_joins[OF update_peer_same] same_joins[OF request_unknown_same]
  show ?thesis
    using assms
    by (auto simp: on_message_def joins_idle split: option.splits if_splits message.splits
        dest: ver inv get on_blocks_joins same_joins[OF request_unknown_same] intro: same_joins[OF update_peer_same])
qed

section \<open>Bodies\<close>

text \<open>
  Only \<open>on_local_block\<close> and \<open>on_blocks\<close> touch the bodies, and they store one before they admit its header.
  \<open>sane\<close>: every stored body is the one \<open>B\<close> gives its block, and every header held, genesis apart, comes from \<open>G\<close> and has a body.
\<close>

definition bodied :: "(header \<Rightarrow> block_hash) \<Rightarrow> header set \<Rightarrow> dag_sync \<Rightarrow> header set" where
  "bodied hash G s = {hdr \<in> G. map_of (y_bodies s) (hash hdr) \<noteq> None}"

definition sane ::
  "(header \<Rightarrow> block_hash) \<Rightarrow> header \<Rightarrow> nat \<Rightarrow> nat \<Rightarrow> header set \<Rightarrow> (block_hash \<Rightarrow> octet list list) \<Rightarrow> dag_sync \<Rightarrow> bool" where
  "sane hash genesis k limit G B s \<longleftrightarrow>
     dag_reachable hash genesis k limit (y_dag s) \<and> keyed hash (bodied hash G s) s \<and>
     stored_headers (y_dag s) \<subseteq> insert genesis (bodied hash G s) \<and>
     (\<forall>h txs. map_of (y_bodies s) h = Some txs \<longrightarrow> h \<in> hash ` G \<and> txs = B h)"

definition payload_ok :: "(header \<Rightarrow> block_hash) \<Rightarrow> header set \<Rightarrow> (block_hash \<Rightarrow> octet list list) \<Rightarrow> block_payload \<Rightarrow> bool" where
  "payload_ok hash G B p \<longleftrightarrow> bp_header p \<in> G \<and> bp_transactions p = B (hash (bp_header p))"

definition message_ok :: "(header \<Rightarrow> block_hash) \<Rightarrow> header set \<Rightarrow> (block_hash \<Rightarrow> octet list list) \<Rightarrow> message \<Rightarrow> bool" where
  "message_ok hash G B msg \<longleftrightarrow> (\<forall>bs. msg = Blocks bs \<longrightarrow> (\<forall>p \<in> set bs. payload_ok hash G B p))"

abbreviation sends_ok :: "(header \<Rightarrow> block_hash) \<Rightarrow> header set \<Rightarrow> (block_hash \<Rightarrow> octet list list) \<Rightarrow> action list \<Rightarrow> bool" where
  "sends_ok hash G B acts \<equiv> \<forall>to msg. Send to msg \<in> set acts \<longrightarrow> message_ok hash G B msg"

text \<open>A sane node's DAG is no larger than the set of headers its blocks come from.\<close>

lemma reachable_headers_distinct: "dag_reachable hash genesis k limit s \<Longrightarrow> distinct (map fst (s_headers s))"
proof (induction rule: dag_reachable.induct)
  case (add s h)
  obtain r t where r: "add_block hash s h = (r, t)" by fastforce
  from add_block_cases[OF reachable_ok[OF add(1)] r]
  have "s_headers t = s_headers s \<or> s_headers t = AList.update (hash h) h (s_headers s)" by (auto simp: inserted_def split: sum.splits)
  with distinct_update[OF add.IH] add.IH r show ?case by auto
qed (simp_all add: new_dag_def Let_def)

lemma sane_small:
  assumes "sane hash genesis k limit G B s" "finite G" "genesis \<in> G"
  shows "dag_len (y_dag s) \<le> card G"
proof -
  have dr: "dag_reachable hash genesis k limit (y_dag s)" using assms(1) by (simp add: sane_def)
  have "dag_len (y_dag s) = card (blocks (y_dag s))"
    using distinct_card[OF reachable_headers_distinct[OF dr]] by (simp add: dag_len_def blocks_def)
  also have "blocks (y_dag s) \<subseteq> hash ` G"
  proof
    fix h assume "h \<in> blocks (y_dag s)"
    from header_of_block[OF this] obtain hdr where hdr: "map_of (s_headers (y_dag s)) h = Some hdr" by blast
    have "hash hdr = h" using dag_okD(4)[OF reachable_ok[OF dr]] hdr by (simp add: hash_keyed_def)
    moreover have "hdr \<in> G" using assms(1,3) hdr by (fastforce simp: sane_def bodied_def stored_headers_def ran_def)
    ultimately show "h \<in> hash ` G" by blast
  qed
  then have "card (blocks (y_dag s)) \<le> card G" using assms(2) by (meson card_image_le card_mono finite_imageI le_trans)
  finally show ?thesis .
qed

lemma sane_joins:
  assumes "sane hash genesis k limit G B s" "joins hash (bodied hash G s) s t" "y_bodies t = y_bodies s"
  shows "sane hash genesis k limit G B t"
proof -
  have b: "bodied hash G t = bodied hash G s" by (simp add: bodied_def assms(3))
  from assms(1,2) have "dag_joins hash (bodied hash G s) (y_dag s, y_accepted s) (y_dag t, y_accepted t)" "keyed hash (bodied hash G s) t"
    by (simp_all add: sane_def joins_def)
  with dag_joins_result[OF this(1), of genesis k limit] assms show ?thesis by (auto simp: sane_def b)
qed

lemma sane_same: "sane hash genesis k limit G B s \<Longrightarrow> same_fields s t \<Longrightarrow> sane hash genesis k limit G B t"
  by (rule sane_joins[OF _ same_joins]) (simp_all add: same_fields_def)

lemma sane_store:
  assumes "sane hash genesis k limit G B s" "payload_ok hash G B b"
  shows "sane hash genesis k limit G B (s\<lparr>y_bodies := AList.update (hash (bp_header b)) (bp_transactions b) (y_bodies s)\<rparr>)"
    and "bp_header b \<in> bodied hash G (s\<lparr>y_bodies := AList.update (hash (bp_header b)) (bp_transactions b) (y_bodies s)\<rparr>)"
proof -
  let ?s = "s\<lparr>y_bodies := AList.update (hash (bp_header b)) (bp_transactions b) (y_bodies s)\<rparr>"
  have "bodied hash G s \<subseteq> bodied hash G ?s" by (auto simp: bodied_def)
  then show "sane hash genesis k limit G B ?s" using assms
    by (auto simp: sane_def keyed_def payload_ok_def)
  show "bp_header b \<in> bodied hash G ?s" using assms(2) by (auto simp: bodied_def payload_ok_def)
qed

text \<open>The handlers that only change peers, requests, orphans and the DAG leave the bodies alone.\<close>

lemma resolve_child_bodies: "y_bodies (snd (snd (resolve_child hash child r))) = y_bodies (snd (snd r))"
proof -
  obtain queue acts s where r: "r = (queue, acts, s)" by (cases r)
  have "y_bodies u = y_bodies v" if "announce h ex v = (a, u)" for h ex v a u
    using announce_same[OF that] by (simp add: same_fields_def)
  then show ?thesis by (force simp: r resolve_child_def Let_def split: option.split sum.split prod.split)
qed

lemma resolve_loop_bodies: "resolve_loop hash queue acts s = (acts', t) \<Longrightarrow> y_bodies t = y_bodies s"
proof (induction hash queue acts s rule: resolve_loop.induct)
  case (2 hash parent queue acts s)
  have f: "y_bodies (snd (snd (fold (resolve_child hash) cs r))) = y_bodies (snd (snd r))" for cs r
    by (induction cs arbitrary: r) (simp_all add: resolve_child_bodies)
  show ?case
  proof (cases "map_of (y_waiting_on s) parent")
    case (Some children)
    let ?s = "s\<lparr>y_waiting_on := AList.delete parent (y_waiting_on s)\<rparr>"
    obtain q a u where c: "fold (resolve_child hash) children (queue, acts, ?s) = (q, a, u)" by (metis prod_cases3)
    with f[of children "(queue, acts, ?s)"] have "y_bodies u = y_bodies s" by simp
    with 2 Some c show ?thesis by simp
  qed (use 2 in simp)
qed simp

lemma announce_resolve_bodies:
  "announce h ex s = (a, v) \<Longrightarrow> resolve_orphans_of hash h v = (a', w) \<Longrightarrow> y_bodies w = y_bodies s"
  using announce_same[of h ex s a v] resolve_loop_bodies[of hash "[h]" "[]" v a' w]
  by (simp add: same_fields_def resolve_orphans_of_def)

lemma evict_oldest_bodies: "y_bodies (evict_oldest order s) = y_bodies s"
proof (induction order arbitrary: s)
  case (Cons x order)
  have "y_bodies (drop_orphan x s) = y_bodies s" by (simp add: drop_orphan_def split: option.split)
  with Cons show ?case by simp
qed simp

lemma on_local_block_bodies:
  "on_local_block hash b s = (acts, t) \<Longrightarrow> y_bodies t = AList.update (payload_hash hash b) (bp_transactions b) (y_bodies s)"
  by (auto simp: on_local_block_def Let_def split: prod.splits sum.splits dest!: announce_resolve_bodies)

lemma admit_bodies: "admit hash hdr p now s = (acts, t) \<Longrightarrow> y_bodies t = y_bodies s"
proof -
  assume run: "admit hash hdr p now s = (acts, t)"
  have req: "y_bodies u = y_bodies v" if "request_from p hs now v = (a, u)" for hs v a u
    using request_from_same[OF that] by (simp add: same_fields_def)
  have "y_bodies (store_orphan h hdr p v) = y_bodies v" for h v by (simp add: store_orphan_def Let_def evict_oldest_bodies)
  with run show ?thesis
    by (auto simp: admit_def Let_def split: prod.splits sum.splits dag_error.splits dest!: announce_resolve_bodies req)
qed

section \<open>Blocks sent\<close>

text \<open>Blocks are only ever sent in answer to \<open>GetBlocks\<close>.\<close>

abbreviation no_blocks :: "action list \<Rightarrow> bool" where
  "no_blocks acts \<equiv> \<forall>to bs. Send to (Blocks bs) \<notin> set acts"

lemma announce_no_blocks: "announce h ex s = (acts, t) \<Longrightarrow> no_blocks acts"
  by (auto simp: announce_def Let_def)

lemma request_from_no_blocks: "request_from p hs now s = (acts, t) \<Longrightarrow> no_blocks acts"
  by (auto simp: request_from_def Let_def split: if_splits)

lemma penalise_no_blocks: "sync_penalise p what reason s = (acts, t) \<Longrightarrow> no_blocks acts"
  by (auto simp: sync_penalise_def split: option.splits if_splits)

lemma resolve_child_no_blocks: "no_blocks (fst (snd r)) \<Longrightarrow> no_blocks (fst (snd (resolve_child hash child r)))"
proof -
  assume a: "no_blocks (fst (snd r))"
  obtain queue acts s where r: "r = (queue, acts, s)" by (cases r)
  show ?thesis using a
    by (auto simp: r resolve_child_def Let_def split: option.splits sum.splits prod.splits dest: announce_no_blocks)
qed

lemma resolve_loop_no_blocks: "resolve_loop hash queue acts s = (acts', t) \<Longrightarrow> no_blocks acts \<Longrightarrow> no_blocks acts'"
proof (induction hash queue acts s rule: resolve_loop.induct)
  case (2 hash parent queue acts s)
  have f: "no_blocks (fst (snd r)) \<Longrightarrow> no_blocks (fst (snd (fold (resolve_child hash) cs r)))" for cs r
    by (rule fold_invariant[where P = "\<lambda>r. no_blocks (fst (snd r))" and Q = "\<lambda>_. True"]) (simp_all add: resolve_child_no_blocks)
  show ?case
  proof (cases "map_of (y_waiting_on s) parent")
    case (Some children)
    let ?s = "s\<lparr>y_waiting_on := AList.delete parent (y_waiting_on s)\<rparr>"
    obtain q a u where c: "fold (resolve_child hash) children (queue, acts, ?s) = (q, a, u)" by (metis prod_cases3)
    from f[of "(queue, acts, ?s)" children] 2(4) have "no_blocks a" by (simp add: c)
    with 2(2)[OF Some c[symmetric] refl] 2(3) Some c show ?thesis by simp
  qed (use 2 in simp)
qed simp

lemma announce_resolve_no_blocks:
  "announce h ex s = (a, v) \<Longrightarrow> resolve_orphans_of hash h v = (a', w) \<Longrightarrow> no_blocks (a @ a')"
  using announce_no_blocks[of h ex s a v] resolve_loop_no_blocks[of hash "[h]" "[]" v a' w]
  by (simp add: resolve_orphans_of_def)

lemma on_local_block_no_blocks: "on_local_block hash b s = (acts, t) \<Longrightarrow> no_blocks acts"
  by (auto simp: on_local_block_def Let_def split: prod.splits sum.splits dest: announce_resolve_no_blocks)

lemma admit_no_blocks: "admit hash hdr p now s = (acts, t) \<Longrightarrow> no_blocks acts"
  by (auto simp: admit_def Let_def split: prod.splits sum.splits dag_error.splits dest: announce_resolve_no_blocks request_from_no_blocks)

lemma retry_buckets_no_blocks:
  assumes "no_blocks as" "retry_buckets ready buckets now as s = (acts, t)"
  shows "no_blocks acts"
proof -
  have all: "no_blocks (fst (fold (\<lambda>(peer, bucket) (actions, s). if bucket = [] then (actions, s)
      else case request_from peer bucket now s of (acts, s) \<Rightarrow> (actions @ acts, s)) pbs (as, s)))" for pbs
    using assms(1)
  proof (induction pbs arbitrary: as s)
    case (Cons pb pbs)
    obtain peer bucket where pb: "pb = (peer, bucket)" by (cases pb)
    obtain a u where r: "request_from peer bucket now s = (a, u)" by fastforce
    have "no_blocks (as @ a)" using request_from_no_blocks[OF r] Cons.prems by auto
    with Cons pb r show ?case by simp
  qed simp
  from all[of "zip ready buckets"] show ?thesis unfolding assms(2)[unfolded retry_buckets_def] fst_conv .
qed

lemma on_tick_no_blocks:
  assumes "on_tick now s = (acts, t)" shows "no_blocks acts"
proof -
  let ?s = "s\<lparr>y_requested := fold AList.delete (stale_requests now s) (y_requested s)\<rparr>"
  let ?ready = "map ps_id (filter is_ready (map snd (y_peers ?s)))"
  let ?first = "map (\<lambda>peer. Send peer (version_message ?s)) (map ps_id (filter (\<lambda>p. \<not> is_ready p) (map snd (y_peers ?s))))"
  have first: "no_blocks ?first" by (auto simp: version_message_def)
  have "\<exists>as. no_blocks as \<and> acts = as @ map (\<lambda>peer. Send peer GetTips) ?ready"
  proof (cases "stale_requests now s \<noteq> [] \<and> ?ready \<noteq> []")
    case True
    let ?v = "?s\<lparr>y_retry_cursor := y_retry_cursor ?s + 1\<rparr>"
    let ?r = "retry_buckets ?ready (fill_buckets (unat (y_retry_cursor ?v mod of_nat (length ?ready))) (length ?ready) (stale_requests now s)) now ?first ?v"
    have "on_tick now s = (fst ?r @ map (\<lambda>peer. Send peer GetTips) ?ready, snd ?r)"
      unfolding on_tick_def Let_def by (simp only: True simp_thms if_True case_prod_unfold)
    then have "acts = fst ?r @ map (\<lambda>peer. Send peer GetTips) ?ready" using assms by (simp only: prod.inject)
    moreover have "no_blocks (fst ?r)" by (rule retry_buckets_no_blocks[OF first surjective_pairing])
    ultimately show ?thesis by blast
  next
    case False
    with assms first show ?thesis by (intro exI[of _ ?first]) (auto simp: on_tick_def Let_def)
  qed
  then show ?thesis by auto
qed

lemma no_blocks_sends_ok: "no_blocks acts \<Longrightarrow> sends_ok hash G B acts"
  by (auto simp: message_ok_def)

section \<open>Sanity through the handlers\<close>

lemma on_local_block_sane:
  assumes "sane hash genesis k limit G B s" "payload_ok hash G B b" "on_local_block hash b s = (acts, t)"
  shows "sane hash genesis k limit G B t"
proof -
  let ?s = "s\<lparr>y_bodies := AList.update (hash (bp_header b)) (bp_transactions b) (y_bodies s)\<rparr>"
  have same: "y_dag ?s = y_dag s" "y_accepted ?s = y_accepted s" "y_orphans ?s = y_orphans s" by simp_all
  have "joins hash (bodied hash G ?s) ?s t"
    using on_local_block_joins[OF assms(3) sane_store(2)[OF assms(1,2)]] unfolding joins_def keyed_def same .
  moreover have "y_bodies t = y_bodies ?s" using on_local_block_bodies[OF assms(3)] by (simp add: payload_hash_def)
  ultimately show ?thesis by (rule sane_joins[OF sane_store(1)[OF assms(1,2)]])
qed

lemma on_blocks_sane:
  "sane hash genesis k limit G B s \<Longrightarrow> \<forall>b \<in> set bs. payload_ok hash G B b \<Longrightarrow> on_blocks hash gate p now bs acts s = (acts', t) \<Longrightarrow> no_blocks acts \<Longrightarrow>
   sane hash genesis k limit G B t \<and> no_blocks acts'"
proof (induction bs arbitrary: acts s)
  case (Cons b bs)
  let ?h = "hash (bp_header b)"
  let ?s = "update_peer p (note_known ?h) (s\<lparr>y_requested := AList.delete ?h (y_requested s)\<rparr>)"
  let ?b = "?s\<lparr>y_bodies := AList.update ?h (bp_transactions b) (y_bodies ?s)\<rparr>"
  have s: "sane hash genesis k limit G B ?s"
    using sane_same[OF Cons.prems(1), of ?s] by (simp add: same_fields_def update_peer_def)
  consider (known) "contains (y_dag ?s) ?h \<or> is_orphan ?s ?h"
    | (bad) reason where "\<not> (contains (y_dag ?s) ?h \<or> is_orphan ?s ?h)" "gate (bp_header b) = Some reason"
    | (good) "\<not> (contains (y_dag ?s) ?h \<or> is_orphan ?s ?h)" "gate (bp_header b) = None" by (cases "gate (bp_header b)") auto
  then show ?case
  proof cases
    case known
    then show ?thesis using Cons.IH[OF s] Cons.prems by (simp add: Let_def)
  next
    case bad
    obtain a u where pen: "sync_penalise p InvalidBlock ''invalid block'' ?s = (a, u)" by fastforce
    note u = sane_same[OF s penalise_same[OF pen]]
    have a: "no_blocks (acts @ a)" using penalise_no_blocks[OF pen] Cons.prems(4) by auto
    show ?thesis
    proof (cases "list_ex is_disconnect (acts @ a)")
      case True
      then have "t = u" "acts' = acts @ a" using Cons.prems(3) bad pen by (simp_all add: Let_def)
      then show ?thesis using u a by simp
    next
      case False
      then have "on_blocks hash gate p now bs (acts @ a) u = (acts', t)" using Cons.prems(3) bad pen by (simp add: Let_def)
      from Cons.IH[OF u _ this a] Cons.prems(2) show ?thesis by simp
    qed
  next
    case good
    obtain a u where ad: "admit hash (bp_header b) p now ?b = (a, u)" by fastforce
    have run: "on_blocks hash gate p now bs (acts @ a) u = (acts', t)" using Cons.prems(3) good ad by (simp add: Let_def)
    have ok: "payload_ok hash G B b" using Cons.prems(2) by simp
    have u: "sane hash genesis k limit G B u"
      by (rule sane_joins[OF sane_store(1)[OF s ok] admit_joins[OF ad sane_store(2)[OF s ok]] admit_bodies[OF ad]])
    have a: "no_blocks (acts @ a)" using admit_no_blocks[OF ad] Cons.prems(4) by auto
    from Cons.IH[OF u _ run a] Cons.prems(2) show ?thesis by simp
  qed
qed simp

lemma sane_body:
  assumes "sane hash genesis k limit G B s" "B (hash genesis) = []" "dag_header (y_dag s) h = Some hdr"
  shows "sync_body s h = B h" "hash hdr = h" "hdr \<in> insert genesis G"
proof -
  have "dag_reachable hash genesis k limit (y_dag s)" using assms(1) by (simp add: sane_def)
  then show key: "hash hdr = h" using assms(3) dag_okD(4)[OF reachable_ok] by (fastforce simp: hash_keyed_def dag_header_def)
  have hdr: "hdr = genesis \<or> hdr \<in> bodied hash G s"
    using assms(1,3) by (fastforce simp: sane_def stored_headers_def dag_header_def ran_def)
  then show "hdr \<in> insert genesis G" by (auto simp: bodied_def)
  show "sync_body s h = B h"
  proof (cases "map_of (y_bodies s) h")
    case None
    with hdr key have "hdr = genesis" by (auto simp: bodied_def)
    with None key assms(2) show ?thesis by (simp add: sync_body_def)
  qed (use assms(1) in \<open>simp add: sane_def sync_body_def\<close>)
qed

text \<open>New headers with new hashes do not disturb what is there.\<close>

lemma payload_ok_mono: "payload_ok hash G B p \<Longrightarrow> G \<subseteq> G' \<Longrightarrow> \<forall>h \<in> hash ` G. B' h = B h \<Longrightarrow> payload_ok hash G' B' p"
  by (auto simp: payload_ok_def)

lemma message_ok_mono: "message_ok hash G B msg \<Longrightarrow> G \<subseteq> G' \<Longrightarrow> \<forall>h \<in> hash ` G. B' h = B h \<Longrightarrow> message_ok hash G' B' msg"
proof -
  assume a: "message_ok hash G B msg" and G: "G \<subseteq> G'" and B: "\<forall>h \<in> hash ` G. B' h = B h"
  have "payload_ok hash G' B' p" if "msg = Blocks bs" "p \<in> set bs" for bs p
    using a that payload_ok_mono[OF _ G B] by (simp add: message_ok_def)
  then show ?thesis by (simp add: message_ok_def)
qed

lemma sane_mono:
  assumes "sane hash genesis k limit G B s" "G \<subseteq> G'" "\<forall>h \<in> hash ` G. B' h = B h"
  shows "sane hash genesis k limit G' B' s"
proof -
  have "bodied hash G s \<subseteq> bodied hash G' s" using assms(2) by (auto simp: bodied_def)
  moreover have "h \<in> hash ` G' \<and> txs = B' h" if "map_of (y_bodies s) h = Some txs" for h txs
  proof -
    have "h \<in> hash ` G" "txs = B h" using assms(1) that unfolding sane_def by blast+
    moreover have "B' h = B h" by (rule bspec[OF assms(3)]) (rule \<open>h \<in> hash ` G\<close>)
    ultimately show ?thesis using image_mono[OF assms(2), of hash] by auto
  qed
  ultimately show ?thesis using assms(1) unfolding sane_def keyed_def by blast
qed

text \<open>An answered block is the stored one with its body, genesis with the empty body.\<close>

lemma on_get_blocks_sends:
  assumes "sane hash genesis k limit G B s" "on_get_blocks hash p hs s = (acts, t)" "B (hash genesis) = []" "genesis \<in> G"
  shows "sends_ok hash G B acts" "same_fields s t"
proof -
  show "same_fields s t" using assms(2) by (auto simp: on_get_blocks_def Let_def same_fields_def update_peer_def split: if_splits)
  have "payload_ok hash G B \<lparr>bp_header = hdr, bp_transactions = sync_body s h\<rparr>" if "dag_header (y_dag s) h = Some hdr" for h hdr
    using sane_body[OF assms(1,3) that] assms(4) by (auto simp: payload_ok_def)
  then show "sends_ok hash G B acts"
    using assms(2) by (auto simp: on_get_blocks_def Let_def message_ok_def List.map_filter_def split: if_splits)
qed

lemma on_message_sane:
  assumes "sane hash genesis k limit G B s" "message_ok hash G B msg" "B (hash genesis) = []" "genesis \<in> G"
    and "on_message hash gate p msg now s = (acts, t)"
  shows "sane hash genesis k limit G B t \<and> sends_ok hash G B acts"
proof (cases "map_of (y_peers s) p")
  case None
  with assms show ?thesis by (auto simp: on_message_def)
next
  case (Some st)
  note same = sane_same[OF assms(1)] and quiet = no_blocks_sends_ok[of _ hash G B]
  have upd: "sane hash genesis k limit G B (update_peer p f s)" for f by (rule same[OF update_peer_same])
  have req: "sane hash genesis k limit G B t \<and> sends_ok hash G B as"
    if "request_unknown p hs now (update_peer p f s) = (as, t)" for hs f as
    using sane_same[OF upd request_unknown_same[OF that]] that request_from_no_blocks quiet by (fastforce simp: request_unknown_def)
  consider (quiet) "same_fields s t" "no_blocks acts" | (ver) v g tips where "on_version p v g tips now s = (acts, t)"
    | (tips) hs where "request_unknown p hs now s = (acts, t)"
    | (inv) hs where "on_inv_blocks p hs now s = (acts, t)" | (get) hs where "on_get_blocks hash p hs s = (acts, t)"
    | (blocks) bs where "msg = Blocks bs" "on_blocks hash gate p now bs [] s = (acts, t)"
    using assms(5) Some by (cases msg) (auto simp: on_message_def same_fields_def version_message_def update_peer_def split: if_splits)
  then show ?thesis
  proof cases
    case quiet
    then show ?thesis using same no_blocks_sends_ok by blast
  next
    case (ver v g tips)
    then consider "\<exists>what reason. sync_penalise p what reason s = (acts, t)"
      | f as where "request_unknown p tips now (update_peer p f s) = (as, t)" "acts = Send p Verack # as"
      by (auto simp: on_version_def Some Let_def split: if_splits prod.splits)
    then show ?thesis
    proof cases
      case 1
      then obtain what reason where pen: "sync_penalise p what reason s = (acts, t)" by blast
      show ?thesis using same[OF penalise_same[OF pen]] quiet[OF penalise_no_blocks[OF pen]] by simp
    next
      case 2
      with req[OF 2(1)] show ?thesis by (auto simp: message_ok_def)
    qed
  next
    case (tips hs)
    then show ?thesis using same[OF request_unknown_same[OF tips]] request_from_no_blocks quiet by (fastforce simp: request_unknown_def)
  next
    case (inv hs)
    then show ?thesis using req by (simp add: on_inv_blocks_def)
  next
    case (get hs)
    then show ?thesis using on_get_blocks_sends[OF assms(1) get assms(3,4)] same by blast
  next
    case (blocks bs)
    with assms(2) have "\<forall>b \<in> set bs. payload_ok hash G B b" by (simp add: message_ok_def)
    from on_blocks_sane[OF assms(1) this blocks(2)] have "sane hash genesis k limit G B t" "no_blocks acts" by simp_all
    with no_blocks_sends_ok[of acts hash G B] show ?thesis by blast
  qed
qed

end
