(* ===== verification/Rng.thy ===== *)
theory Rng
  imports Chain_Prelude
begin

text \<open>
  The simulation's generator (\<open>crates/testkit/src/rng.rs\<close>): a 64-bit linear congruential generator whose
  state is passed along, with the draws made from it.
\<close>

section \<open>The generator\<close>

record lcg =
  g_state :: u64

definition MULTIPLIER :: u64 where "MULTIPLIER = 6364136223846793005"
definition INCREMENT :: u64 where "INCREMENT = 1442695040888963407"

definition new_lcg :: "u64 \<Rightarrow> lcg" where "new_lcg seed = \<lparr>g_state = seed XOR 0x9E3779B97F4A7C15\<rparr>"

definition next_u64 :: "lcg \<Rightarrow> u64 \<times> lcg" where
  "next_u64 g = (let s = g_state g * MULTIPLIER + INCREMENT in (drop_bit 16 s, g\<lparr>g_state := s\<rparr>))"

definition below :: "u64 \<Rightarrow> lcg \<Rightarrow> u64 \<times> lcg" where
  "below bound g = (if bound = 0 then (0, g) else case next_u64 g of (v, g) \<Rightarrow> (v mod bound, g))"

definition between :: "u64 \<Rightarrow> u64 \<Rightarrow> lcg \<Rightarrow> u64 \<times> lcg" where
  "between low high g =
     (if high \<le> low then (low, g) else case below (high - low + 1) g of (v, g) \<Rightarrow> (low + v, g))"

definition chance_permille :: "u64 \<Rightarrow> lcg \<Rightarrow> bool \<times> lcg" where
  "chance_permille permille g = (case below 1000 g of (v, g) \<Rightarrow> (v < permille, g))"

section \<open>Ranges\<close>

lemma next_u64_small: "next_u64 g = (v, g') \<Longrightarrow> unat v < 2 ^ 48"
proof -
  assume "next_u64 g = (v, g')"
  then have "v = drop_bit 16 (g_state g * MULTIPLIER + INCREMENT)" by (simp add: next_u64_def Let_def)
  moreover have "unat (drop_bit 16 w) < 2 ^ 48" for w :: u64
  proof -
    have "unat w < 2 ^ 64" using unsigned_less[of w, where 'a = nat] by simp
    then have "unat w div 2 ^ 16 < 2 ^ 48" by (simp add: div_less_iff_less_mult)
    then show ?thesis by (simp add: unsigned_drop_bit_eq drop_bit_eq_div unat_div)
  qed
  ultimately show ?thesis by simp
qed

lemma below_less: "below bound g = (v, g') \<Longrightarrow> 0 < bound \<Longrightarrow> v < bound"
  by (auto simp: below_def word_less_nat_alt unat_mod word_gt_0 unat_eq_0 split: prod.splits if_splits)

lemma between_range:
  assumes "between low high g = (v, g')"
  shows "low \<le> v" "v \<le> max low high"
proof -
  have "low \<le> v \<and> v \<le> max low high"
  proof (cases "high \<le> low")
    case True
    then show ?thesis using assms by (simp add: between_def)
  next
    case False
    obtain d where d: "below (high - low + 1) g = (d, g')" "v = low + d" using assms False by (auto simp: between_def split: prod.splits)
    have le: "low < high" using False by simp
    have sub: "unat (high - low) = unat high - unat low" using le by (simp add: unat_sub)
    have "unat d \<le> unat high - unat low"
    proof (cases "high - low + 1 = 0")
      case True
      then have "d = 0" using d(1) by (simp add: below_def)
      then show ?thesis by simp
    next
      case nz: False
      then have "d < high - low + 1" using below_less[OF d(1)] by (simp add: word_gt_0)
      then have "unat d < unat (high - low + 1)" by (simp add: word_less_nat_alt)
      also have "\<dots> = unat (high - low) + 1" using nz unatSuc[of "high - low"] by (simp add: add.commute)
      finally show ?thesis using sub by simp
    qed
    then have "unat low + unat d \<le> unat high" using le by (simp add: word_less_nat_alt)
    moreover have "unat high < 2 ^ 64" using unsigned_less[of high, where 'a = nat] by simp
    ultimately have "unat v = unat low + unat d" "unat low + unat d \<le> unat high" using d(2) by (simp_all add: unat_word_ariths)
    then show ?thesis by (simp add: word_le_nat_alt max_def)
  qed
  then show "low \<le> v" "v \<le> max low high" by blast+
qed

end
