(* ===== verification/Sim.thy ===== *)
theory Sim
  imports Sync Dev_Node Reorg Rng
begin

text \<open>
  The network simulation (\<open>crates/testkit/src/sim.rs\<close>, \<open>wallet.rs\<close>): an event queue over virtual time drives nodes
  that each run the synchronisation state machine, a body store and the chain executor. A panic is \<open>None\<close>. Signing, hashing, decoding and the EVM are
  third-party: the records \<open>wallet_lib\<close>, \<open>raw_lib\<close> and \<open>chain_lib\<close>, gathered in \<open>sim_lib\<close>.
\<close>

section \<open>Wallets\<close>

record tx_eip1559 =
  te_chain_id :: u64
  te_nonce :: u64
  te_gas_limit :: u64
  te_max_fee_per_gas :: "128 word"
  te_max_priority_fee_per_gas :: "128 word"
  te_to :: address
  te_value :: u256

record ('signer, 'sig) wallet_lib =
  wl_keccak256 :: "octet list \<Rightarrow> u256"
  wl_from_bytes :: "u256 \<Rightarrow> 'signer option"
  wl_address :: "'signer \<Rightarrow> address"
  wl_signature_hash :: "tx_eip1559 \<Rightarrow> u256"
  wl_sign_hash :: "'signer \<Rightarrow> u256 \<Rightarrow> 'sig option"
  wl_encoded_2718 :: "tx_eip1559 \<Rightarrow> 'sig \<Rightarrow> octet list"

record 'signer wallet =
  wa_signer :: 'signer
  wa_address :: address

definition u64_be_bytes :: "u64 \<Rightarrow> octet list" where
  "u64_be_bytes n = map (\<lambda>i. ucast (drop_bit (8 * i) n)) (rev [0..<8])"

definition wallet_key :: "('signer, 'sig) wallet_lib \<Rightarrow> u64 \<Rightarrow> u256" where
  "wallet_key W index = wl_keccak256 W (u64_be_bytes index)"

definition from_index :: "('signer, 'sig) wallet_lib \<Rightarrow> u64 \<Rightarrow> 'signer wallet option" where
  "from_index W index =
     map_option (\<lambda>signer. \<lparr>wa_signer = signer, wa_address = wl_address W signer\<rparr>) (wl_from_bytes W (wallet_key W index))"

definition signed_transfer ::
  "('signer, 'sig) wallet_lib \<Rightarrow> u64 \<Rightarrow> u64 \<Rightarrow> address \<Rightarrow> u64 \<Rightarrow> 128 word \<Rightarrow> 128 word \<Rightarrow> 'signer wallet \<Rightarrow> octet list option" where
  "signed_transfer W chain nonce_value recipient value max_fee max_priority_fee w =
     (let tx = \<lparr>te_chain_id = chain, te_nonce = nonce_value, te_gas_limit = 100000, te_max_fee_per_gas = max_fee,
                te_max_priority_fee_per_gas = max_priority_fee, te_to = recipient, te_value = ucast value\<rparr>
      in map_option (wl_encoded_2718 W tx) (wl_sign_hash W (wa_signer w) (wl_signature_hash W tx)))"

section \<open>Configuration\<close>

definition GENESIS_MS :: u64 where "GENESIS_MS = 1700000000000"
definition WALLETS_PER_NODE :: u64 where "WALLETS_PER_NODE = 4"
definition WALLET_BALANCE_WEI :: u256 where "WALLET_BALANCE_WEI = 1000000000000000000000"

definition sim_target :: u256 where "sim_target = drop_bit 4 (- 1)"
definition sim_bits :: compact_target where "sim_bits = from_target sim_target"

record link_quality =
  lq_min_latency_ms :: u64
  lq_max_latency_ms :: u64
  lq_loss_permille :: u64

definition default_link :: link_quality where
  "default_link = \<lparr>lq_min_latency_ms = 50, lq_max_latency_ms = 250, lq_loss_permille = 20\<rparr>"

record sim_config =
  sk_nodes :: nat
  sk_seed :: u64
  sk_k :: nat
  sk_mergeset_limit :: nat
  sk_block_interval_ms :: u64
  sk_link :: link_quality
  sk_tick_interval_ms :: u64
  sk_txs_per_block :: nat

definition default_sim_config :: sim_config where
  "default_sim_config =
     \<lparr>sk_nodes = 5, sk_seed = 1, sk_k = 18, sk_mergeset_limit = 180, sk_block_interval_ms = 1000,
      sk_link = default_link, sk_tick_interval_ms = 500, sk_txs_per_block = 2\<rparr>"

definition config_of_params :: "chain_params \<Rightarrow> nat \<Rightarrow> u64 \<Rightarrow> sim_config" where
  "config_of_params p nodes seed =
     default_sim_config\<lparr>sk_nodes := nodes, sk_seed := seed, sk_k := ghostdag_k p, sk_mergeset_limit := mergeset_size_limit p,
       sk_block_interval_ms := of_nat (target_block_interval_ms p)\<rparr>"

definition at_one_bps :: "nat \<Rightarrow> u64 \<Rightarrow> sim_config" where "at_one_bps = config_of_params testnet_1bps"
definition at_ten_bps :: "nat \<Rightarrow> u64 \<Rightarrow> sim_config" where "at_ten_bps = config_of_params testnet_10bps"

section \<open>Events\<close>

datatype event_kind =
    Deliver nat nat message
  | Mine nat
  | Tick nat

record sim_event =
  ev_at_ms :: u64
  ev_sequence :: u64
  ev_kind :: event_kind

text \<open>\<open>Ord for Event\<close>, reversed so that the greatest event of the heap is the earliest one.\<close>

definition event_cmp :: "sim_event \<Rightarrow> sim_event \<Rightarrow> ordering" where
  "event_cmp a b = then_with (cmp (ev_at_ms b) (ev_at_ms a)) (cmp (ev_sequence b) (ev_sequence a))"

text \<open>The binary heap as the list of its events in the order they pop.\<close>

fun heap_push :: "sim_event \<Rightarrow> sim_event list \<Rightarrow> sim_event list" where
  "heap_push e [] = [e]"
| "heap_push e (x # q) = (if event_cmp x e = Greater then x # heap_push e q else e # x # q)"

section \<open>State\<close>

record ('tx, 'log, 'code, 'signer) sim_node =
  x_sync :: dag_sync
  x_miner :: address
  x_executor :: "('log, 'code) executor"
  x_bodies :: "'tx body_store"
  x_nonces :: "(address, u64) bmap"
  x_wallets :: "'signer wallet list"

record ('tx, 'log, 'code, 'signer) simulation =
  m_config :: sim_config
  m_nodes :: "('tx, 'log, 'code, 'signer) sim_node list"
  m_queue :: "sim_event list"
  m_rng :: lcg
  m_now_ms :: u64
  m_sequence :: u64
  m_dropped :: u64
  m_delivered :: u64
  m_mined :: u64
  m_reorgs :: u64
  m_deepest_reorg :: nat
  m_mining_enabled :: bool
  m_last_change_ms :: u64
  m_propagation :: "(block_hash, u64 \<times> nat \<times> u64) bmap"
  m_delays :: "u64 list"

record ('env, 'tx, 'res, 'log, 'code, 'signer, 'sig) sim_lib =
  sl_hash :: "header \<Rightarrow> block_hash"
  sl_pow :: "header \<Rightarrow> u256"
  sl_chain :: "('tx, 'res, 'log, 'code) chain_lib"
  sl_raw :: "('env, 'tx) raw_lib"
  sl_wallet :: "('signer, 'sig) wallet_lib"
  sl_new_raw :: "8 word list \<Rightarrow> 'code"
  sl_hash_slow :: "'code \<Rightarrow> u256"

text \<open>The header gate \<open>StructureAndPow\<close>; the error strings are those of the code's own errors only in kind.\<close>

definition structure_and_pow :: "(header \<Rightarrow> u256) \<Rightarrow> header_gate" where
  "structure_and_pow pow h =
     (case validate_structure h of Inl _ \<Rightarrow> Some ''structure''
      | Inr _ \<Rightarrow>
          (case to_target (h_bits h) of Inl _ \<Rightarrow> Some ''bits''
           | Inr target \<Rightarrow> if pow h > target then Some ''insufficient work'' else None))"

definition node_index :: "peer_id \<Rightarrow> nat \<Rightarrow> nat option" where
  "node_index peer node_count = (if unat peer < node_count then Some (unat peer) else None)"

definition sim_header :: "u256 \<Rightarrow> block_hash list \<Rightarrow> u64 \<Rightarrow> address \<Rightarrow> header" where
  "sim_header empty_trie parents timestamp miner =
     \<lparr>h_version = HEADER_VERSION, h_parents = parents, h_timestamp_ms = timestamp, h_bits = sim_bits, h_nonce = 0,
      h_miner = miner, h_txs_root = empty_trie, h_deferred_height = 0, h_deferred_state_root = 0,
      h_deferred_receipts_root = empty_trie, h_deferred_gas_used = 0\<rparr>"

definition sim_genesis :: "u256 \<Rightarrow> header" where
  "sim_genesis empty_trie = sim_header empty_trie [] GENESIS_MS 0"

section \<open>Scheduling\<close>

definition set_sync :: "nat \<Rightarrow> dag_sync \<Rightarrow> ('tx, 'log, 'code, 'signer) simulation \<Rightarrow> ('tx, 'log, 'code, 'signer) simulation" where
  "set_sync i s m = m\<lparr>m_nodes := (m_nodes m)[i := (m_nodes m ! i)\<lparr>x_sync := s\<rparr>]\<rparr>"

abbreviation node_sync :: "('tx, 'log, 'code, 'signer) simulation \<Rightarrow> nat \<Rightarrow> dag_sync" where
  "node_sync m i \<equiv> x_sync (m_nodes m ! i)"

definition sim_push :: "u64 \<Rightarrow> event_kind \<Rightarrow> ('tx, 'log, 'code, 'signer) simulation \<Rightarrow> ('tx, 'log, 'code, 'signer) simulation" where
  "sim_push at_ms kind m =
     (let m = m\<lparr>m_sequence := m_sequence m + 1\<rparr>
      in m\<lparr>m_queue := heap_push \<lparr>ev_at_ms = at_ms, ev_sequence = m_sequence m, ev_kind = kind\<rparr> (m_queue m)\<rparr>)"

definition schedule_next_mine :: "nat \<Rightarrow> ('tx, 'log, 'code, 'signer) simulation \<Rightarrow> ('tx, 'log, 'code, 'signer) simulation" where
  "schedule_next_mine node m =
     (let mean = sk_block_interval_ms (m_config m) * of_nat (length (m_nodes m)) in
      case between (mean div 5) (mean * 2) (m_rng m) of
        (delay, g) \<Rightarrow> sim_push (m_now_ms m + max delay 1) (Mine node) (m\<lparr>m_rng := g\<rparr>))"

definition schedule_tick :: "nat \<Rightarrow> ('tx, 'log, 'code, 'signer) simulation \<Rightarrow> ('tx, 'log, 'code, 'signer) simulation" where
  "schedule_tick node m = sim_push (m_now_ms m + sk_tick_interval_ms (m_config m)) (Tick node) m"

definition schedule_initial_events :: "('tx, 'log, 'code, 'signer) simulation \<Rightarrow> ('tx, 'log, 'code, 'signer) simulation" where
  "schedule_initial_events m = fold (\<lambda>node m. schedule_tick node (schedule_next_mine node m)) [0..<length (m_nodes m)] m"

text \<open>A node's actions: deliveries with loss and latency, and symmetric disconnections.\<close>

definition dispatch_one ::
  "nat \<Rightarrow> action \<Rightarrow> ('tx, 'log, 'code, 'signer) simulation \<Rightarrow> ('tx, 'log, 'code, 'signer) simulation" where
  "dispatch_one from action m =
     (case action of
        Send to msg \<Rightarrow>
          (case node_index to (length (m_nodes m)) of None \<Rightarrow> m
           | Some to \<Rightarrow>
               (case chance_permille (lq_loss_permille (sk_link (m_config m))) (m_rng m) of
                  (lost, g) \<Rightarrow>
                    if lost then m\<lparr>m_rng := g, m_dropped := m_dropped m + 1\<rparr>
                    else case between (lq_min_latency_ms (sk_link (m_config m))) (lq_max_latency_ms (sk_link (m_config m))) g of
                        (latency, g) \<Rightarrow> sim_push (m_now_ms m + latency) (Deliver to from msg) (m\<lparr>m_rng := g\<rparr>)))
      | Disconnect to reason \<Rightarrow>
          (let m = set_sync from (on_disconnect to (node_sync m from)) m in
           case node_index to (length (m_nodes m)) of None \<Rightarrow> m
           | Some to \<Rightarrow> set_sync to (on_disconnect (of_nat from) (node_sync m to)) m))"

definition dispatch ::
  "nat \<Rightarrow> action list \<Rightarrow> ('tx, 'log, 'code, 'signer) simulation \<Rightarrow> ('tx, 'log, 'code, 'signer) simulation" where
  "dispatch from actions m = fold (dispatch_one from) actions m"

text \<open>A node's handler runs and its actions are dispatched.\<close>

definition act_on ::
  "nat \<Rightarrow> (dag_sync \<Rightarrow> action list \<times> dag_sync) \<Rightarrow> ('tx, 'log, 'code, 'signer) simulation \<Rightarrow> ('tx, 'log, 'code, 'signer) simulation" where
  "act_on i handler m = (case handler (node_sync m i) of (actions, s) \<Rightarrow> dispatch i actions (set_sync i s m))"

definition connect_all :: "('tx, 'log, 'code, 'signer) simulation \<Rightarrow> ('tx, 'log, 'code, 'signer) simulation" where
  "connect_all m =
     fold (\<lambda>(i, j) m. if i = j then m else act_on i (on_connect (of_nat j)) m)
       (List.product [0..<length (m_nodes m)] [0..<length (m_nodes m)]) m"

section \<open>Setting up\<close>

definition repeat_byte :: "8 word \<Rightarrow> address" where
  "repeat_byte b = foldl (\<lambda>a b. push_bit 8 a OR ucast b) 0 (replicate 20 b)"

text \<open>Distinct for the first 255 nodes only.\<close>

definition miner_address :: "nat \<Rightarrow> address" where
  "miner_address i = repeat_byte (of_nat (i mod 255) + 1)"

definition genesis_alloc :: "('signer, 'sig) wallet_lib \<Rightarrow> nat \<Rightarrow> (address, genesis_account) bmap option" where
  "genesis_alloc W nodes =
     map_option (\<lambda>ws. fold (\<lambda>w. bmap_insert (wa_address w)
           \<lparr>ga_balance = WALLET_BALANCE_WEI, ga_nonce = None, ga_code = None, ga_storage = None\<rparr>) ws [])
       (those (map (\<lambda>i. from_index W (of_nat i)) [0..<nodes * 4]))"

definition new_sim_node ::
  "('env, 'tx, 'res, 'log, 'code, 'signer, 'sig) sim_lib \<Rightarrow> sim_config \<Rightarrow> (address, genesis_account) bmap \<Rightarrow> nat \<Rightarrow>
   ('tx, 'log, 'code, 'signer) sim_node option" where
  "new_sim_node S config alloc i =
     (let L = sl_chain S; genesis = sim_genesis (empty_root L); genesis_hash = sl_hash S genesis in
      case those (map (\<lambda>j. from_index (sl_wallet S) (of_nat j)) [i * 4..<i * 4 + 4]) of None \<Rightarrow> None
      | Some wallets \<Rightarrow>
          (case load_genesis (sl_new_raw S) (sl_hash_slow S) alloc of Inl _ \<Rightarrow> None
           | Inr state \<Rightarrow>
               Some \<lparr>x_sync = new_sync (new_dag (sl_hash S) genesis (sk_k config) (sk_mergeset_limit config)) (new_config genesis_hash),
                     x_miner = miner_address i,
                     x_executor = new_executor L testnet_1bps state genesis_hash,
                     x_bodies = [], x_nonces = [], x_wallets = wallets\<rparr>))"

definition new_simulation ::
  "('env, 'tx, 'res, 'log, 'code, 'signer, 'sig) sim_lib \<Rightarrow> sim_config \<Rightarrow> ('tx, 'log, 'code, 'signer) simulation option" where
  "new_simulation S config =
     (case genesis_alloc (sl_wallet S) (sk_nodes config) of None \<Rightarrow> None
      | Some alloc \<Rightarrow>
          map_option (\<lambda>nodes. schedule_initial_events (connect_all
              \<lparr>m_config = config, m_nodes = nodes, m_queue = [], m_rng = new_lcg (sk_seed config), m_now_ms = GENESIS_MS,
               m_sequence = 0, m_dropped = 0, m_delivered = 0, m_mined = 0, m_reorgs = 0, m_deepest_reorg = 0,
               m_mining_enabled = True, m_last_change_ms = GENESIS_MS, m_propagation = [], m_delays = []\<rparr>))
            (those (map (new_sim_node S config alloc) [0..<sk_nodes config])))"

section \<open>Execution\<close>

text \<open>The panic on a failed reorganisation, and the executor's own, are \<open>None\<close>.\<close>

definition advance_execution ::
  "('tx, 'res, 'log, 'code) chain_lib \<Rightarrow> nat \<Rightarrow> ('tx, 'log, 'code, 'signer) simulation \<Rightarrow> ('tx, 'log, 'code, 'signer) simulation option" where
  "advance_execution L node m =
     (let n = m_nodes m ! node; dag = y_dag (x_sync n); new_tip = virtual_selected_parent dag; old_tip = e_tip (x_executor n) in
      if new_tip = old_tip then Some m
      else
        let reorg = compute_reorg dag old_tip new_tip in
        case apply_reorg L dag (x_bodies n) (removed reorg) (added reorg) (x_executor n) of
          Some (Inr _, e) \<Rightarrow>
            let m = m\<lparr>m_nodes := (m_nodes m)[node := n\<lparr>x_executor := e\<rparr>]\<rparr> in
            Some (if depth reorg > 0 then m\<lparr>m_reorgs := m_reorgs m + 1, m_deepest_reorg := max (m_deepest_reorg m) (depth reorg)\<rparr> else m)
        | _ \<Rightarrow> None)"

definition record_propagation :: "block_hash \<Rightarrow> ('tx, 'log, 'code, 'signer) simulation \<Rightarrow> ('tx, 'log, 'code, 'signer) simulation" where
  "record_propagation h m =
     (let now = m_now_ms m in
      case (case map_of (m_propagation m) h of None \<Rightarrow> (now, 0, 0) | Some entry \<Rightarrow> entry) of
        (created, holders, d) \<Rightarrow>
          let holders = holders + 1 in
          if holders = length (m_nodes m) then
            let delay = saturating_sub now created in
            m\<lparr>m_propagation := bmap_insert h (created, holders, delay) (m_propagation m), m_delays := m_delays m @ [delay]\<rparr>
          else m\<lparr>m_propagation := bmap_insert h (created, holders, d) (m_propagation m)\<rparr>)"

text \<open>What will not decode, or whose signer cannot be recovered, is left out.\<close>

definition decode_body_txs :: "('env, 'tx) raw_lib \<Rightarrow> octet list list \<Rightarrow> 'tx list" where
  "decode_body_txs R encoded =
     List.map_filter (\<lambda>bytes. case decode_2718 R bytes of Inl _ \<Rightarrow> None
        | Inr envelope \<Rightarrow> (case recover_signer R envelope of Inl _ \<Rightarrow> None | Inr signer \<Rightarrow> Some (new_recovered R envelope signer))) encoded"

definition sim_absorb ::
  "('env, 'tx) raw_lib \<Rightarrow> nat \<Rightarrow> block_hash \<Rightarrow> ('tx, 'log, 'code, 'signer) simulation \<Rightarrow> ('tx, 'log, 'code, 'signer) simulation" where
  "sim_absorb R node h m =
     (let m = record_propagation h m; n = m_nodes m ! node in
      m\<lparr>m_nodes := (m_nodes m)[node := n\<lparr>x_bodies := body_insert h (decode_body_txs R (sync_body (x_sync n) h)) (x_bodies n)\<rparr>]\<rparr>)"

definition note_changes ::
  "('env, 'tx, 'res, 'log, 'code, 'signer, 'sig) sim_lib \<Rightarrow> nat \<Rightarrow> ('tx, 'log, 'code, 'signer) simulation \<Rightarrow>
   ('tx, 'log, 'code, 'signer) simulation option" where
  "note_changes S node m =
     (case drain_accepted (node_sync m node) of
        (accepted, s) \<Rightarrow>
          let m = set_sync node s m in
          if accepted = [] then Some m
          else advance_execution (sl_chain S) node (fold (sim_absorb (sl_raw S) node) accepted (m\<lparr>m_last_change_ms := m_now_ms m\<rparr>)))"

section \<open>Mining\<close>

fun find_nonce :: "(header \<Rightarrow> u256) \<Rightarrow> header \<Rightarrow> nat \<Rightarrow> nat \<Rightarrow> header option" where
  "find_nonce pow h nonce_value 0 = None"
| "find_nonce pow h nonce_value (Suc left) =
     (let h = h\<lparr>h_nonce := of_nat nonce_value\<rparr> in
      if pow h \<le> sim_target then Some h else find_nonce pow h (nonce_value + 1) left)"

text \<open>One transaction of a block: the three draws, the nonce taken, the signature.\<close>

definition make_transaction ::
  "('signer, 'sig) wallet_lib \<Rightarrow> nat \<Rightarrow> ('tx, 'log, 'code, 'signer) simulation \<Rightarrow> (octet list \<times> ('tx, 'log, 'code, 'signer) simulation) option" where
  "make_transaction W node m =
     (case below WALLETS_PER_NODE (m_rng m) of (wallet_index, g) \<Rightarrow>
      case below (of_nat (length (m_nodes m)) * WALLETS_PER_NODE) g of (recipient, g) \<Rightarrow>
      (case from_index W recipient of None \<Rightarrow> None
       | Some recipient \<Rightarrow>
          (case between 1 1000 g of (value, g) \<Rightarrow>
           let n = m_nodes m ! node; wallet = x_wallets n ! unat wallet_index;
               this_nonce = (case map_of (x_nonces n) (wa_address wallet) of None \<Rightarrow> 0 | Some v \<Rightarrow> v);
               m = m\<lparr>m_rng := g,
                     m_nodes := (m_nodes m)[node := n\<lparr>x_nonces := bmap_insert (wa_address wallet) (this_nonce + 1) (x_nonces n)\<rparr>]\<rparr>
           in map_option (\<lambda>tx. (tx, m))
                (signed_transfer W (of_nat (chain_id testnet_1bps)) this_nonce (wa_address recipient) value 100000000000 1 wallet))))"

fun make_transactions ::
  "('signer, 'sig) wallet_lib \<Rightarrow> nat \<Rightarrow> nat \<Rightarrow> ('tx, 'log, 'code, 'signer) simulation \<Rightarrow>
   (octet list list \<times> ('tx, 'log, 'code, 'signer) simulation) option" where
  "make_transactions W node 0 m = Some ([], m)"
| "make_transactions W node (Suc left) m =
     (case make_transaction W node m of None \<Rightarrow> None
      | Some (tx, m) \<Rightarrow>
          (case make_transactions W node left m of None \<Rightarrow> None | Some (txs, m) \<Rightarrow> Some (tx # txs, m)))"

text \<open>The header found on the node's tips, if any.\<close>

definition mined_header ::
  "('env, 'tx, 'res, 'log, 'code, 'signer, 'sig) sim_lib \<Rightarrow> nat \<Rightarrow> ('tx, 'log, 'code, 'signer) simulation \<Rightarrow> header option" where
  "mined_header S node m =
     (let parents = remdups_adj (sort (take 16 (dag_tips (y_dag (node_sync m node))))) in
      if parents = [] then None
      else find_nonce (sl_pow S) (sim_header (empty_root (sl_chain S)) parents (m_now_ms m) (x_miner (m_nodes m ! node))) 0 100000)"

definition mine_one ::
  "('env, 'tx, 'res, 'log, 'code, 'signer, 'sig) sim_lib \<Rightarrow> nat \<Rightarrow> ('tx, 'log, 'code, 'signer) simulation \<Rightarrow>
   ('tx, 'log, 'code, 'signer) simulation option" where
  "mine_one S node m =
     (case mined_header S node m of None \<Rightarrow> Some m
      | Some header \<Rightarrow>
          (case make_transactions (sl_wallet S) node (sk_txs_per_block (m_config m)) m of None \<Rightarrow> None
           | Some (transactions, m) \<Rightarrow>
               note_changes S node
                 (act_on node (on_local_block (sl_hash S) \<lparr>bp_header = header, bp_transactions = transactions\<rparr>)
                    (m\<lparr>m_mined := m_mined m + 1\<rparr>))))"

section \<open>Events handled and runs\<close>

definition sim_handle ::
  "('env, 'tx, 'res, 'log, 'code, 'signer, 'sig) sim_lib \<Rightarrow> event_kind \<Rightarrow> ('tx, 'log, 'code, 'signer) simulation \<Rightarrow>
   ('tx, 'log, 'code, 'signer) simulation option" where
  "sim_handle S kind m =
     (case kind of
        Deliver to from msg \<Rightarrow>
          note_changes S to
            (act_on to (on_message (sl_hash S) (structure_and_pow (sl_pow S)) (of_nat from) msg (m_now_ms m))
               (m\<lparr>m_delivered := m_delivered m + 1\<rparr>))
      | Mine node \<Rightarrow> map_option (schedule_next_mine node) (if m_mining_enabled m then mine_one S node m else Some m)
      | Tick node \<Rightarrow> Some (schedule_tick node (act_on node (on_tick (m_now_ms m)) m)))"

text \<open>
  The event loop may run for ever when nothing forces time to move; not returning is the outer \<open>None\<close>, a panic
  \<open>Some None\<close>.
\<close>

partial_function (option) run_loop ::
  "('env, 'tx, 'res, 'log, 'code, 'signer, 'sig) sim_lib \<Rightarrow> u64 \<Rightarrow> ('tx, 'log, 'code, 'signer) simulation \<Rightarrow>
   ('tx, 'log, 'code, 'signer) simulation option option" where
  "run_loop S deadline m =
     (case m_queue m of [] \<Rightarrow> Some (Some m)
      | e # q \<Rightarrow>
          if ev_at_ms e > deadline then Some (Some (m\<lparr>m_queue := heap_push e q\<rparr>))
          else case sim_handle S (ev_kind e) (m\<lparr>m_queue := q, m_now_ms := ev_at_ms e\<rparr>) of
              None \<Rightarrow> Some None
            | Some m \<Rightarrow> run_loop S deadline m)"

definition run_for ::
  "('env, 'tx, 'res, 'log, 'code, 'signer, 'sig) sim_lib \<Rightarrow> u64 \<Rightarrow> ('tx, 'log, 'code, 'signer) simulation \<Rightarrow>
   ('tx, 'log, 'code, 'signer) simulation option option" where
  "run_for S duration_ms m =
     (let deadline = m_now_ms m + duration_ms in
      map_option (map_option (\<lambda>m. m\<lparr>m_now_ms := deadline\<rparr>)) (run_loop S deadline m))"

definition settle_window_ms :: "sim_config \<Rightarrow> u64" where
  "settle_window_ms c = sk_tick_interval_ms c + 3 * lq_max_latency_ms (sk_link c)"

definition settled :: "('tx, 'log, 'code, 'signer) simulation \<Rightarrow> bool" where
  "settled m \<longleftrightarrow>
     \<not> list_ex (\<lambda>n. orphan_count (x_sync n) > 0 \<or> pending_request_count (x_sync n) > 0) (m_nodes m) \<and>
     saturating_sub (m_now_ms m) (m_last_change_ms m) \<ge> settle_window_ms (m_config m)"

partial_function (option) quiesce_loop ::
  "('env, 'tx, 'res, 'log, 'code, 'signer, 'sig) sim_lib \<Rightarrow> u64 \<Rightarrow> ('tx, 'log, 'code, 'signer) simulation \<Rightarrow>
   ('tx, 'log, 'code, 'signer) simulation option option" where
  "quiesce_loop S deadline m =
     (if m_now_ms m < deadline \<and> \<not> settled m then
        (case m_queue m of [] \<Rightarrow> Some (Some m)
         | e # q \<Rightarrow>
             if ev_at_ms e > deadline then Some (Some (m\<lparr>m_queue := heap_push e q\<rparr>))
             else case sim_handle S (ev_kind e) (m\<lparr>m_queue := q, m_now_ms := ev_at_ms e\<rparr>) of
                 None \<Rightarrow> Some None
               | Some m \<Rightarrow> quiesce_loop S deadline m)
      else Some (Some m))"

definition quiesce ::
  "('env, 'tx, 'res, 'log, 'code, 'signer, 'sig) sim_lib \<Rightarrow> u64 \<Rightarrow> ('tx, 'log, 'code, 'signer) simulation \<Rightarrow>
   (bool \<times> ('tx, 'log, 'code, 'signer) simulation) option option" where
  "quiesce S max_ms m =
     map_option (map_option (\<lambda>m. (settled m, m\<lparr>m_mining_enabled := True\<rparr>)))
       (quiesce_loop S (m_now_ms m + max_ms) (m\<lparr>m_mining_enabled := False\<rparr>))"

section \<open>Measurements\<close>

definition propagation_delays :: "('tx, 'log, 'code, 'signer) simulation \<Rightarrow> u64 list" where
  "propagation_delays m = sort (m_delays m)"

definition propagation_delay_percentile :: "('tx, 'log, 'code, 'signer) simulation \<Rightarrow> nat \<Rightarrow> u64" where
  "propagation_delay_percentile m percentile =
     (let delays = propagation_delays m in
      if delays = [] then 0
      else delays ! min ((length delays - 1) * min percentile 1000 div 1000) (length delays - 1))"

record memory_proxies =
  mp_dag_blocks :: nat
  mp_orphans :: nat
  mp_pending_requests :: nat
  mp_journal_records :: nat
  mp_journal_entries :: nat
  mp_bodies :: nat

definition sim_memory_proxies :: "('tx, 'log, 'code, 'signer) sim_node \<Rightarrow> memory_proxies" where
  "sim_memory_proxies n =
     \<lparr>mp_dag_blocks = dag_len (y_dag (x_sync n)), mp_orphans = orphan_count (x_sync n),
      mp_pending_requests = pending_request_count (x_sync n), mp_journal_records = journal_len (x_executor n),
      mp_journal_entries = journal_entries (x_executor n), mp_bodies = body_len (x_bodies n)\<rparr>"

text \<open>The blocks below the tips, by a depth-first walk; a hash the DAG has no header of is kept and not followed.\<close>

function block_walk :: "dag_store \<Rightarrow> block_hash list \<Rightarrow> block_hash list \<Rightarrow> block_hash list" where
  "block_walk dag [] seen = seen"
| "block_walk dag (h # stack) seen =
     (if h \<in> set seen then block_walk dag stack seen
      else case dag_header dag h of
          None \<Rightarrow> block_walk dag stack (h # seen)
        | Some hdr \<Rightarrow> block_walk dag (rev (h_parents hdr) @ stack) (h # seen))"
  by pat_completeness auto
termination
proof (relation "measures [\<lambda>(dag, stack, seen). card (blocks dag - set seen), \<lambda>(dag, stack, seen). length stack]", goal_cases)
  case (3 dag h stack seen)
  then show ?case by (cases "h \<in> blocks dag") (auto simp: dag_header_def blocks_def map_of_eq_None_iff Diff_insert[symmetric])
next
  case (4 dag h stack seen hdr)
  then have "h \<in> blocks dag" using map_of_SomeD[of "s_headers dag" h hdr] by (force simp: dag_header_def blocks_def)
  with 4 have "card (blocks dag - set (h # seen)) < card (blocks dag - set seen)"
    by (intro psubset_card_mono) (auto simp: blocks_def)
  then show ?case by simp
qed simp_all

definition block_set :: "dag_store \<Rightarrow> block_hash list" where
  "block_set dag = block_walk dag (rev (dag_tips dag)) []"

datatype divergence_report =
    BlockSetDiffers nat nat nat nat nat
  | TipDiffers nat block_hash block_hash
  | ChainDiffers nat

definition check_dag :: "dag_store \<Rightarrow> dag_store \<Rightarrow> nat \<Rightarrow> divergence_report option" where
  "check_dag reference dag node =
     (let reference_blocks = block_set reference; bs = block_set dag; reference_tip = virtual_selected_parent reference;
          tip = virtual_selected_parent dag in
      if set bs \<noteq> set reference_blocks then
        Some (BlockSetDiffers node (card (set reference_blocks - set bs)) (card (set bs - set reference_blocks))
                (card (set reference_blocks)) (card (set bs)))
      else if tip \<noteq> reference_tip then Some (TipDiffers node tip reference_tip)
      else if selected_parent_chain dag tip \<noteq> selected_parent_chain reference reference_tip then Some (ChainDiffers node)
      else None)"

text \<open>The first report of the nodes from 1 on.\<close>

fun first_report :: "(nat \<Rightarrow> 'r option) \<Rightarrow> nat list \<Rightarrow> 'r option" where
  "first_report f [] = None"
| "first_report f (i # is) = (case f i of None \<Rightarrow> first_report f is | Some r \<Rightarrow> Some r)"

text \<open>No node to compare with is a panic.\<close>

definition divergence :: "('tx, 'log, 'code, 'signer) simulation \<Rightarrow> divergence_report option option" where
  "divergence m =
     (case m_nodes m of [] \<Rightarrow> None
      | reference # _ \<Rightarrow>
          Some (first_report (\<lambda>i. check_dag (y_dag (x_sync reference)) (y_dag (node_sync m i)) i) [1..<length (m_nodes m)]))"

datatype state_report =
    StateRootDiffers nat nat "u256 option" "u256 option"
  | HeightDiffers nat u64 u64

definition state_root_at :: "('log, 'code) executor \<Rightarrow> nat \<Rightarrow> u256 option" where
  "state_root_at e h = map_option o_state_root (result_at e (of_nat h))"

definition check_state :: "('log, 'code) executor \<Rightarrow> ('log, 'code) executor \<Rightarrow> nat \<Rightarrow> state_report option" where
  "check_state reference e node =
     (case first_report (\<lambda>h. if state_root_at reference h \<noteq> state_root_at e h
             then Some (StateRootDiffers node h (state_root_at reference h) (state_root_at e h)) else None)
           [0..<unat (min (e_height reference) (e_height e)) + 1] of
        Some r \<Rightarrow> Some r
      | None \<Rightarrow> if e_height reference \<noteq> e_height e then Some (HeightDiffers node (e_height e) (e_height reference)) else None)"

definition state_divergence :: "('tx, 'log, 'code, 'signer) simulation \<Rightarrow> state_report option" where
  "state_divergence m =
     first_report (\<lambda>i. check_state (x_executor (m_nodes m ! 0)) (x_executor (m_nodes m ! i)) i) [1..<length (m_nodes m)]"

end
