(* ===== verification/Sim_Events.thy ===== *)
theory Sim_Events
  imports Sim
begin

text \<open>
  What handling an event does to the event queue, and with it the termination of the event loops: every event pushed
  lies in the future, no further than the horizon of the configuration.
\<close>

section \<open>Pushed events\<close>

definition horizon :: "sim_config \<Rightarrow> nat" where
  "horizon c = unat (sk_tick_interval_ms c) + unat (max (lq_min_latency_ms (sk_link c)) (lq_max_latency_ms (sk_link c)))
     + 2 * (unat (sk_block_interval_ms c) * sk_nodes c) + 1"

definition ahead :: "sim_config \<Rightarrow> u64 \<Rightarrow> sim_event \<Rightarrow> bool" where
  "ahead c now e \<longleftrightarrow> unat now < unat (ev_at_ms e) \<and> unat (ev_at_ms e) \<le> unat now + horizon c"

text \<open>The clock, the configuration and the number of nodes stay; the queue grows by events satisfying \<open>P\<close>.\<close>

definition pushes :: "(sim_event \<Rightarrow> bool) \<Rightarrow> ('tx, 'log, 'code, 'signer) simulation \<Rightarrow> ('tx, 'log, 'code, 'signer) simulation \<Rightarrow> bool" where
  "pushes P m m' \<longleftrightarrow> m_now_ms m' = m_now_ms m \<and> m_config m' = m_config m \<and> length (m_nodes m') = length (m_nodes m) \<and>
     m_mining_enabled m' = m_mining_enabled m \<and>
     (\<exists>new. mset (m_queue m') = mset (m_queue m) + new \<and> (\<forall>e \<in># new. P e))"

lemma pushes_refl [simp]: "pushes P m m" by (simp add: pushes_def)

lemma pushes_trans: "pushes P m m' \<Longrightarrow> pushes P m' m'' \<Longrightarrow> pushes P m m''"
proof -
  assume a: "pushes P m m'" "pushes P m' m''"
  from a(1) obtain n1 where 1: "mset (m_queue m') = mset (m_queue m) + n1" "\<forall>e \<in># n1. P e" by (auto simp: pushes_def)
  from a(2) obtain n2 where 2: "mset (m_queue m'') = mset (m_queue m') + n2" "\<forall>e \<in># n2. P e" by (auto simp: pushes_def)
  have "mset (m_queue m'') = mset (m_queue m) + (n1 + n2)" "\<forall>e \<in># n1 + n2. P e" using 1 2 by (auto simp: add.assoc)
  with a show ?thesis unfolding pushes_def by (intro conjI exI[of _ "n1 + n2"]) simp_all
qed

lemma pushes_mono: "pushes P m m' \<Longrightarrow> (\<And>e. P e \<Longrightarrow> Q e) \<Longrightarrow> pushes Q m m'"
  unfolding pushes_def by blast

lemma pushes_quiet:
  "m_now_ms m' = m_now_ms m \<Longrightarrow> m_config m' = m_config m \<Longrightarrow> length (m_nodes m') = length (m_nodes m) \<Longrightarrow>
   m_mining_enabled m' = m_mining_enabled m \<Longrightarrow> m_queue m' = m_queue m \<Longrightarrow> pushes P m m'"
  by (simp add: pushes_def)

lemma pushes_fold: "(\<And>x m. x \<in> set xs \<Longrightarrow> pushes P m (f x m)) \<Longrightarrow> pushes P m (fold f xs m)"
  by (induction xs arbitrary: m) (auto intro: pushes_trans)

lemma mset_heap_push: "mset (heap_push e q) = add_mset e (mset q)"
  by (induction q) auto

lemma pushes_push:
  "P \<lparr>ev_at_ms = t, ev_sequence = m_sequence m + 1, ev_kind = k\<rparr> \<Longrightarrow> pushes P m (sim_push t k m)"
  by (auto simp: pushes_def sim_push_def Let_def mset_heap_push intro!: exI[of _ "{#_#}"])

lemma pushes_set_sync: "pushes P m (set_sync i s m)"
  by (simp add: pushes_def set_sync_def)

text \<open>An event the handling of a message or a tick may push, or of a mining turn.\<close>

definition timed :: "sim_config \<Rightarrow> bool" where
  "timed c \<longleftrightarrow> 0 < sk_tick_interval_ms c \<and> 0 < lq_min_latency_ms (sk_link c)"

definition in_time :: "('tx, 'log, 'code, 'signer) simulation \<Rightarrow> bool" where
  "in_time m \<longleftrightarrow> timed (m_config m) \<and> length (m_nodes m) = sk_nodes (m_config m) \<and> unat (m_now_ms m) + horizon (m_config m) < 2 ^ 64"

definition delivery :: "nat \<Rightarrow> nat \<Rightarrow> message set \<Rightarrow> event_kind \<Rightarrow> bool" where
  "delivery n from msgs k \<longleftrightarrow> (\<exists>to msg. k = Deliver to from msg \<and> to < n \<and> msg \<in> msgs)"

abbreviation sent :: "action list \<Rightarrow> message set" where
  "sent acts \<equiv> {msg. \<exists>to. Send to msg \<in> set acts}"

lemma ahead_add:
  assumes "0 < d" "unat d \<le> horizon c" "unat now + horizon c < 2 ^ 64" "ev_at_ms e = now + d"
  shows "ahead c now e"
proof -
  have "unat (now + d) = unat now + unat d" using assms(2,3) by (simp add: unat_word_ariths)
  moreover have "0 < unat d" using assms(1) by (simp add: word_less_nat_alt)
  ultimately show ?thesis using assms(2,4) by (simp add: ahead_def)
qed

lemma dispatch_pushes:
  assumes "in_time m"
  shows "pushes (\<lambda>e. ahead (m_config m) (m_now_ms m) e \<and> delivery (length (m_nodes m)) from (sent acts) (ev_kind e)) m (dispatch from acts m)"
  unfolding dispatch_def
proof -
  let ?P = "\<lambda>e. ahead (m_config m) (m_now_ms m) e \<and> delivery (length (m_nodes m)) from (sent acts) (ev_kind e)"
  let ?c = "m_config m"
  have one: "pushes ?P n (dispatch_one from a n)"
    if a: "a \<in> set acts" and n: "m_now_ms n = m_now_ms m" "m_config n = ?c" "length (m_nodes n) = length (m_nodes m)" for a n
  proof (cases a)
    case (Disconnect to reason)
    then show ?thesis
      by (auto simp: dispatch_one_def Let_def split: option.split intro: pushes_set_sync pushes_trans[OF pushes_set_sync pushes_set_sync])
  next
    case (Send p msg)
    obtain lost g where c: "chance_permille (lq_loss_permille (sk_link ?c)) (m_rng n) = (lost, g)" by fastforce
    obtain latency g' where l: "between (lq_min_latency_ms (sk_link ?c)) (lq_max_latency_ms (sk_link ?c)) g = (latency, g')" by fastforce
    have "0 < latency" "unat latency \<le> horizon ?c"
    proof -
      have "0 < lq_min_latency_ms (sk_link ?c)" using assms by (simp add: in_time_def timed_def)
      then show "0 < latency" using between_range(1)[OF l] by (rule less_le_trans)
      show "unat latency \<le> horizon ?c"
        using between_range(2)[OF l] by (simp add: word_le_nat_alt horizon_def)
    qed
    then have "?P \<lparr>ev_at_ms = m_now_ms n + latency, ev_sequence = sq, ev_kind = Deliver t from msg\<rparr>" if "t < length (m_nodes m)" for t sq
      using that a Send assms n ahead_add[of latency ?c "m_now_ms m"] by (auto simp: in_time_def delivery_def)
    then have "pushes ?P n (sim_push (m_now_ms n + latency) (Deliver t from msg) (n\<lparr>m_rng := g'\<rparr>))" if "t < length (m_nodes m)" for t
      using that by (intro pushes_trans[OF pushes_quiet pushes_push]) simp_all
    then show ?thesis
      using Send c l n by (auto simp: dispatch_one_def node_index_def split: option.split intro: pushes_quiet)
  qed
  have "pushes ?P n (fold (dispatch_one from) as n)"
    if "set as \<subseteq> set acts" "m_now_ms n = m_now_ms m" "m_config n = ?c" "length (m_nodes n) = length (m_nodes m)" for as n
    using that
  proof (induction as arbitrary: n)
    case (Cons a as)
    have p: "pushes ?P n (dispatch_one from a n)" by (rule one) (use Cons.prems in auto)
    then have "pushes ?P (dispatch_one from a n) (fold (dispatch_one from) as (dispatch_one from a n))"
      using Cons.prems by (intro Cons.IH) (auto simp: pushes_def)
    then show ?case using pushes_trans[OF p] by simp
  qed simp
  from this[of acts m] show "pushes ?P m (fold (dispatch_one from) acts m)" by simp
qed

text \<open>A handler's effect; the message part of the queue comes from its actions.\<close>

lemma act_on_pushes:
  assumes "in_time m" "handler (node_sync m i) = (acts, s)"
  shows "pushes (\<lambda>e. ahead (m_config m) (m_now_ms m) e \<and> delivery (length (m_nodes m)) i (sent acts) (ev_kind e)) m (act_on i handler m)"
proof -
  let ?m = "set_sync i s m"
  have "in_time ?m" "m_config ?m = m_config m" "m_now_ms ?m = m_now_ms m" "length (m_nodes ?m) = length (m_nodes m)" using assms(1) by (simp_all add: in_time_def set_sync_def)
  with dispatch_pushes[of ?m i acts] pushes_trans[OF pushes_set_sync] show ?thesis by (simp add: act_on_def assms(2))
qed

lemma pushes_in_time: "pushes P m m' \<Longrightarrow> in_time m \<Longrightarrow> in_time m'"
  by (simp add: pushes_def in_time_def)

lemma schedule_next_mine_pushes:
  assumes "in_time m"
  shows "pushes (\<lambda>e. ahead (m_config m) (m_now_ms m) e \<and> ev_kind e = Mine node) m (schedule_next_mine node m)"
proof -
  let ?c = "m_config m" let ?mean = "sk_block_interval_ms ?c * of_nat (length (m_nodes m))"
  obtain delay g where d: "between (?mean div 5) (?mean * 2) (m_rng m) = (delay, g)" by fastforce
  have "unat ?mean \<le> unat (sk_block_interval_ms ?c) * sk_nodes ?c"
  proof -
    have "unat ?mean \<le> unat (sk_block_interval_ms ?c) * unat (of_nat (length (m_nodes m)) :: u64)"
      unfolding unat_word_ariths by (rule mod_less_eq_dividend)
    also have "\<dots> \<le> unat (sk_block_interval_ms ?c) * length (m_nodes m)"
      by (rule mult_le_mono2) (simp add: unat_of_nat take_bit_eq_mod)
    finally show ?thesis using assms by (simp add: in_time_def)
  qed
  moreover have "unat (?mean * 2) \<le> unat ?mean * 2"
  proof -
    have "unat (?mean * 2) = unat ?mean * unat (2 :: u64) mod 2 ^ 64" unfolding unat_word_ariths by simp
    also have "\<dots> \<le> unat ?mean * 2" by simp
    finally show ?thesis .
  qed
  moreover have "unat (?mean div 5) \<le> unat ?mean" by (simp add: unat_div)
  moreover have "unat delay \<le> max (unat (?mean div 5)) (unat (?mean * 2))"
    using between_range(2)[OF d] by (simp add: word_le_nat_alt max_def split: if_splits)
  ultimately have "unat delay \<le> 2 * (unat (sk_block_interval_ms ?c) * sk_nodes ?c)" by linarith
  moreover have "unat (max delay 1) \<le> unat delay + 1" by (simp add: max_def)
  ultimately have "unat (max delay 1) \<le> horizon ?c" unfolding horizon_def by linarith
  moreover have "0 < max delay 1" by (auto simp: max_def word_gt_0)
  ultimately have "ahead ?c (m_now_ms m) \<lparr>ev_at_ms = m_now_ms m + max delay 1, ev_sequence = sq, ev_kind = Mine node\<rparr>" for sq
    using assms by (intro ahead_add[of "max delay 1"]) (simp_all add: in_time_def)
  then show ?thesis
    unfolding schedule_next_mine_def Let_def d prod.case by (intro pushes_trans[OF pushes_quiet pushes_push]) simp_all
qed

lemma schedule_tick_pushes:
  assumes "in_time m"
  shows "pushes (\<lambda>e. ahead (m_config m) (m_now_ms m) e \<and> ev_kind e = Tick node) m (schedule_tick node m)"
  unfolding schedule_tick_def using assms
  by (intro pushes_push conjI ahead_add[of "sk_tick_interval_ms (m_config m)"]) (simp_all add: in_time_def timed_def horizon_def)

lemma record_propagation_quiet: "\<exists>p d. record_propagation h m = m\<lparr>m_propagation := p, m_delays := d\<rparr>"
proof -
  have "\<exists>p d. m\<lparr>m_propagation := x\<rparr> = m\<lparr>m_propagation := p, m_delays := d\<rparr>" for x
    by (intro exI[of _ x] exI[of _ "m_delays m"]) simp
  then show ?thesis by (simp add: record_propagation_def Let_def split: prod.split) blast
qed

lemma absorb_nodes:
  "m_nodes (sim_absorb R node h m) = (m_nodes m)[node := (m_nodes m ! node)\<lparr>x_bodies :=
      body_insert h (decode_body_txs R (sync_body (node_sync m node) h)) (x_bodies (m_nodes m ! node))\<rparr>]"
  "pushes P m (sim_absorb R node h m)"
  using record_propagation_quiet[of h m] by (auto simp: sim_absorb_def Let_def pushes_def)

lemma advance_execution_pushes: "advance_execution L node m = Some m' \<Longrightarrow> pushes P m m'"
  by (auto simp: advance_execution_def Let_def pushes_def split: if_splits option.splits sum.splits prod.splits)

lemma note_changes_pushes: "note_changes S node m = Some m' \<Longrightarrow> pushes P m m'"
proof -
  assume a: "note_changes S node m = Some m'"
  obtain accepted s where d: "drain_accepted (node_sync m node) = (accepted, s)" by fastforce
  have f: "pushes P n (fold (sim_absorb (sl_raw S) node) accepted n)" for n by (rule pushes_fold) (rule absorb_nodes)
  have set: "pushes P m (set_sync node s m)" by (rule pushes_set_sync)
  show ?thesis
  proof (cases "accepted = []")
    case True
    with a set show ?thesis by (simp add: note_changes_def d Let_def)
  next
    case False
    let ?m = "(set_sync node s m)\<lparr>m_last_change_ms := m_now_ms (set_sync node s m)\<rparr>"
    have "pushes P (set_sync node s m) ?m" by (rule pushes_quiet) simp_all
    moreover have "advance_execution (sl_chain S) node (fold (sim_absorb (sl_raw S) node) accepted ?m) = Some m'"
      using a False by (simp add: note_changes_def d Let_def)
    ultimately show ?thesis using set f[of ?m] advance_execution_pushes pushes_trans by blast
  qed
qed

lemma update_keeps: "f y = f (xs ! j) \<Longrightarrow> f (xs[j := y] ! i) = f (xs ! i)"
  by (cases "j < length xs"; cases "i = j") (simp_all add: list_update_beyond)

lemma make_transactions_quiet:
  "make_transactions W node left m = Some (txs, m') \<Longrightarrow>
   pushes P m m' \<and> m_queue m' = m_queue m \<and> (\<forall>i. node_sync m' i = node_sync m i \<and> x_bodies (m_nodes m' ! i) = x_bodies (m_nodes m ! i) \<and>
     x_executor (m_nodes m' ! i) = x_executor (m_nodes m ! i) \<and> x_miner (m_nodes m' ! i) = x_miner (m_nodes m ! i))"
proof (induction left arbitrary: m txs)
  case (Suc left)
  from Suc.prems obtain tx m1 txs' where 1: "make_transaction W node m = Some (tx, m1)" "make_transactions W node left m1 = Some (txs', m')"
    by (auto split: option.splits)
  from 1(1) have "pushes P m m1 \<and> m_queue m1 = m_queue m \<and> (\<forall>i. node_sync m1 i = node_sync m i \<and> x_bodies (m_nodes m1 ! i) = x_bodies (m_nodes m ! i) \<and>
     x_executor (m_nodes m1 ! i) = x_executor (m_nodes m ! i) \<and> x_miner (m_nodes m1 ! i) = x_miner (m_nodes m ! i))"
    by (cases "node < length (m_nodes m)") (auto simp: make_transaction_def Let_def pushes_def list_update_beyond update_keeps split: prod.splits option.splits)
  with Suc.IH[OF 1(2)] pushes_trans[of P m m1 m'] show ?case by simp
qed simp

lemma mine_one_pushes:
  assumes "in_time m" "mine_one S node m = Some m'"
  shows "pushes (\<lambda>e. ahead (m_config m) (m_now_ms m) e \<and> delivery (length (m_nodes m)) node UNIV (ev_kind e)) m m'"
proof (cases "mined_header S node m")
  case None
  with assms(2) show ?thesis by (simp add: mine_one_def)
next
  case (Some hdr)
  with assms(2) obtain txs m1 where 1: "make_transactions (sl_wallet S) node (sk_txs_per_block (m_config m)) m = Some (txs, m1)"
    "note_changes S node (act_on node (on_local_block (sl_hash S) \<lparr>bp_header = hdr, bp_transactions = txs\<rparr>) (m1\<lparr>m_mined := m_mined m1 + 1\<rparr>)) = Some m'"
    by (auto simp: mine_one_def split: option.splits)
  let ?m1 = "m1\<lparr>m_mined := m_mined m1 + 1\<rparr>" let ?P = "\<lambda>e. ahead (m_config m) (m_now_ms m) e \<and> delivery (length (m_nodes m)) node UNIV (ev_kind e)"
  have quiet: "pushes ?P m m1" "pushes ?P m1 ?m1" using make_transactions_quiet[OF 1(1)] by (simp_all add: pushes_quiet)
  then have q: "pushes ?P m ?m1" by (rule pushes_trans)
  let ?h = "on_local_block (sl_hash S) \<lparr>bp_header = hdr, bp_transactions = txs\<rparr>"
  obtain acts s where "?h (node_sync ?m1 node) = (acts, s)" by fastforce
  note act = act_on_pushes[of ?m1 ?h, OF pushes_in_time[OF q assms(1)] this]
  have same: "m_config ?m1 = m_config m" "m_now_ms ?m1 = m_now_ms m" "length (m_nodes ?m1) = length (m_nodes m)" using quiet(1) by (simp_all add: pushes_def)
  have "pushes ?P ?m1 (act_on node ?h ?m1)" by (rule pushes_mono[OF act[unfolded same]]) (auto simp: delivery_def)
  with q note_changes_pushes[OF 1(2)] show ?thesis using pushes_trans by blast
qed

text \<open>The events a handled event leaves: later deliveries, and the node's own next turn.\<close>

lemma handle_pushes:
  assumes "in_time m" "sim_handle S kind m = Some m'"
  shows "pushes (\<lambda>e. ahead (m_config m) (m_now_ms m) e \<and>
      ((\<exists>from. delivery (length (m_nodes m)) from UNIV (ev_kind e)) \<or> ev_kind e = kind \<and> (\<exists>i. kind = Mine i \<or> kind = Tick i))) m m'"
    (is "pushes ?P m m'")
proof (cases kind)
  case (Deliver to sender msg)
  let ?m = "m\<lparr>m_delivered := m_delivered m + 1\<rparr>"
  let ?h = "on_message (sl_hash S) (structure_and_pow (sl_pow S)) (of_nat sender) msg (m_now_ms m)"
  have n: "note_changes S to (act_on to ?h ?m) = Some m'" using assms(2) by (simp add: sim_handle_def Deliver)
  have "in_time ?m" using assms(1) by (simp add: in_time_def)
  moreover obtain acts s where "?h (node_sync ?m to) = (acts, s)" by fastforce
  ultimately have "pushes ?P ?m (act_on to ?h ?m)" using act_on_pushes[of ?m ?h to acts s] by (auto elim!: pushes_mono simp: delivery_def)
  moreover have "pushes ?P m ?m" by (simp add: pushes_quiet)
  ultimately show ?thesis using note_changes_pushes[OF n] pushes_trans by blast
next
  case (Tick node)
  obtain acts s where "on_tick (m_now_ms m) (node_sync m node) = (acts, s)" by fastforce
  from act_on_pushes[of m "on_tick (m_now_ms m)", OF assms(1) this]
  have a: "pushes ?P m (act_on node (on_tick (m_now_ms m)) m)" by (auto elim!: pushes_mono simp: delivery_def)
  let ?m = "act_on node (on_tick (m_now_ms m)) m"
  have "pushes ?P ?m (schedule_tick node ?m)"
    using schedule_tick_pushes[OF pushes_in_time[OF a assms(1)], of node] a Tick by (auto elim!: pushes_mono simp: pushes_def)
  with a show ?thesis using assms(2) pushes_trans by (fastforce simp: sim_handle_def Tick)
next
  case (Mine node)
  then obtain m1 where m1: "m' = schedule_next_mine node m1" "(if m_mining_enabled m then mine_one S node m else Some m) = Some m1"
    using assms(2) by (auto simp: sim_handle_def)
  have a: "pushes ?P m m1"
  proof (cases "m_mining_enabled m")
    case True
    with m1(2) have "mine_one S node m = Some m1" by simp
    from mine_one_pushes[OF assms(1) this] show ?thesis by (rule pushes_mono) (auto simp: delivery_def)
  next
    case False
    with m1(2) show ?thesis by simp
  qed
  have "pushes ?P m1 m'"
    using schedule_next_mine_pushes[OF pushes_in_time[OF a assms(1)], of node] a Mine m1(1) by (auto elim!: pushes_mono simp: pushes_def)
  with a show ?thesis by (rule pushes_trans)
qed

section \<open>Termination of the event loops\<close>

text \<open>How far each pending event is from the deadline; an event past it weighs nothing.\<close>

definition pending_weights :: "u64 \<Rightarrow> ('tx, 'log, 'code, 'signer) simulation \<Rightarrow> nat multiset" where
  "pending_weights deadline m = image_mset (\<lambda>e. Suc (unat deadline) - unat (ev_at_ms e)) (mset (m_queue m))"

definition runnable :: "u64 \<Rightarrow> ('tx, 'log, 'code, 'signer) simulation \<Rightarrow> bool" where
  "runnable deadline m \<longleftrightarrow> timed (m_config m) \<and> length (m_nodes m) = sk_nodes (m_config m) \<and>
     unat deadline + horizon (m_config m) < 2 ^ 64"

lemma step_decreases:
  assumes "runnable deadline m" "m_queue m = e # q" "ev_at_ms e \<le> deadline"
    and "sim_handle S (ev_kind e) (m\<lparr>m_queue := q, m_now_ms := ev_at_ms e\<rparr>) = Some m'"
  shows "runnable deadline m'" "(pending_weights deadline m', pending_weights deadline m) \<in> mult less_than"
proof -
  let ?m = "m\<lparr>m_queue := q, m_now_ms := ev_at_ms e\<rparr>"
  have t: "in_time ?m" using assms(1,3) by (simp add: runnable_def in_time_def word_le_nat_alt)
  note p = handle_pushes[OF t assms(4), unfolded pushes_def]
  show "runnable deadline m'" using assms(1) p by (simp add: runnable_def)
  from p obtain new where new: "mset (m_queue m') = mset q + new" "\<forall>x \<in># new. ahead (m_config m) (ev_at_ms e) x" by auto
  let ?w = "\<lambda>e. Suc (unat deadline) - unat (ev_at_ms e)"
  have "?w x < ?w e" if "x \<in># new" for x using new(2) that assms(3) by (auto simp: ahead_def word_le_nat_alt)
  then have "(image_mset ?w (mset q) + image_mset ?w new, image_mset ?w (mset q) + {#?w e#}) \<in> mult less_than"
    by (intro one_step_implies_mult) auto
  then show "(pending_weights deadline m', pending_weights deadline m) \<in> mult less_than"
    by (simp add: pending_weights_def new(1) assms(2))
qed

lemma run_loop_returns: "runnable deadline m \<Longrightarrow> run_loop S deadline m \<noteq> None"
proof (induction "pending_weights deadline m" arbitrary: m rule: wf_induct_rule[OF wf_mult[OF wf_less_than]])
  case 1
  show ?case
  proof (cases "m_queue m")
    case Nil
    then show ?thesis by (subst run_loop.simps) simp
  next
    case (Cons e q)
    let ?r = "sim_handle S (ev_kind e) (m\<lparr>m_queue := q, m_now_ms := ev_at_ms e\<rparr>)"
    have "run_loop S deadline m' \<noteq> None" if "ev_at_ms e \<le> deadline" "?r = Some m'" for m'
      using step_decreases[OF 1(2) Cons that] 1(1) by blast
    then show ?thesis by (subst run_loop.simps) (auto simp: Cons split: option.split)
  qed
qed

lemma quiesce_loop_returns: "runnable deadline m \<Longrightarrow> quiesce_loop S deadline m \<noteq> None"
proof (induction "pending_weights deadline m" arbitrary: m rule: wf_induct_rule[OF wf_mult[OF wf_less_than]])
  case 1
  show ?case
  proof (cases "m_queue m")
    case Nil
    then show ?thesis by (subst quiesce_loop.simps) simp
  next
    case (Cons e q)
    let ?r = "sim_handle S (ev_kind e) (m\<lparr>m_queue := q, m_now_ms := ev_at_ms e\<rparr>)"
    have "quiesce_loop S deadline m' \<noteq> None" if "ev_at_ms e \<le> deadline" "?r = Some m'" for m'
      using step_decreases[OF 1(2) Cons that] 1(1) by blast
    then show ?thesis by (subst quiesce_loop.simps) (auto simp: Cons split: option.split)
  qed
qed

end
