(* ===== verification/Sim_Exec.thy ===== *)
theory Sim_Exec
  imports Sim_Sync Sim_Events Node_Props
begin

text \<open>
  One simulated node: its executor follows the DAG its synchroniser built, with the bodies it absorbed. While a
  handler's new blocks wait to be absorbed the node is \<open>pending\<close>; after \<open>note_changes\<close> it is \<open>caught_up\<close>.
\<close>

section \<open>The journal of a chain shorter than the window\<close>

lemma undo_all_journal:
  "undo_all bs e = (Inr (), e') \<Longrightarrow> length (e_journal e') + length bs = length (e_journal e) \<and> e_params e' = e_params e"
proof (induction bs arbitrary: e)
  case (Cons b bs)
  from Cons.prems obtain e1 where u: "undo_one b e = (Inr (), e1)" "undo_all bs e1 = (Inr (), e')"
    by (auto split: prod.splits sum.splits)
  then have "length (e_journal e1) + 1 = length (e_journal e) \<and> e_params e1 = e_params e"
    by (cases "e_journal e" rule: rev_cases) (auto simp: undo_one_def Let_def split: if_splits prod.splits)
  with Cons.IH[OF u(2)] show ?case by simp
qed simp

lemma execute_one_journal:
  assumes "execute_chain_block L dag bodies b e = Some (Inr out, e')" "pruning_window_blocks (e_params e) = Some window"
    and "unat (e_height e) + 1 \<le> window" "window < 2 ^ 64"
  shows "length (e_journal e') = length (e_journal e) + 1" "unat (e_height e') = unat (e_height e) + 1" "e_params e' = e_params e"
proof -
  have h: "unat (e_height e + 1) = unat (e_height e) + 1" using assms(3,4) by (simp add: unat_word_ariths)
  then have "\<not> e_height e + 1 > (of_nat window :: u64)"
    using assms(3,4) by (simp add: word_less_nat_alt unat_of_nat take_bit_eq_mod del: of_nat_add)
  with assms(1,2) h show "length (e_journal e') = length (e_journal e) + 1" "unat (e_height e') = unat (e_height e) + 1"
    "e_params e' = e_params e"
    by (auto simp: execute_chain_block_def Let_def split: option.splits prod.splits)
qed

lemma execute_all_journal:
  assumes "execute_all L dag bodies bs acc e = Some (Inr outs, e')" "pruning_window_blocks (e_params e) = Some window"
    and "unat (e_height e) + length bs \<le> window" "window < 2 ^ 64"
  shows "length (e_journal e') = length (e_journal e) + length bs \<and> e_params e' = e_params e"
  using assms
proof (induction bs arbitrary: acc e)
  case (Cons b bs)
  from Cons.prems(1) obtain out e1 where x: "execute_chain_block L dag bodies b e = Some (Inr out, e1)"
    "execute_all L dag bodies bs (acc @ [out]) e1 = Some (Inr outs, e')" by (auto split: option.splits prod.splits sum.splits)
  have "unat (e_height e) + 1 \<le> window" using Cons.prems(3) by simp
  note one = execute_one_journal[OF x(1) Cons.prems(2) this Cons.prems(4)]
  have "length (e_journal e') = length (e_journal e1) + length bs \<and> e_params e' = e_params e1"
    by (rule Cons.IH[OF x(2)]) (use Cons.prems one in auto)
  with one show ?case by simp
qed simp

section \<open>The genesis state\<close>

lemma plain_load:
  assumes "\<forall>(a, acc) \<in> set alloc. ga_code acc = None"
  shows "fold (load_account nr hs) alloc s = fold (load_account nr' hs') alloc s"
    "coded D s \<Longrightarrow> coded D (fold (load_account nr hs) alloc s)"
proof -
  have "load_account nr hs (a, acc) v = load_account nr' hs' (a, acc) v"
    "coded D v \<Longrightarrow> coded D (load_account nr hs (a, acc) v)" if "ga_code acc = None" for a acc v
    using that by (auto simp: load_account_def insert_account_def coded_def)
  then show "fold (load_account nr hs) alloc s = fold (load_account nr' hs') alloc s"
    "coded D s \<Longrightarrow> coded D (fold (load_account nr hs) alloc s)"
    using assms by (induction alloc arbitrary: s) auto
qed

lemma bmap_insert_set: "set (bmap_insert k v m) \<subseteq> insert (k, v) (set m)"
  by (auto simp: bmap_insert_def)

lemma genesis_alloc_plain:
  fixes W :: "('signer, 'sig) wallet_lib"
  assumes "genesis_alloc W n = Some alloc"
  shows "\<forall>(a, acc) \<in> set alloc. ga_code acc = None"
proof -
  let ?acc = "\<lparr>ga_balance = WALLET_BALANCE_WEI, ga_nonce = None, ga_code = None, ga_storage = None\<rparr>"
  have "\<forall>(a, acc) \<in> set m. ga_code acc = None \<Longrightarrow> \<forall>(a, acc) \<in> set (fold (\<lambda>w. bmap_insert (wa_address w) ?acc) ws m). ga_code acc = None"
    for ws :: "'signer wallet list" and m
  proof (induction ws arbitrary: m)
    case (Cons w ws)
    have "\<forall>(a, acc) \<in> set (bmap_insert (wa_address w) ?acc m). ga_code acc = None"
      using Cons.prems bmap_insert_set[of "wa_address w" ?acc m] by fastforce
    with Cons.IH show ?case by simp
  qed simp
  from this[of "[]"] assms show ?thesis by (auto simp: genesis_alloc_def)
qed

section \<open>A node catches up\<close>

definition full_journal :: "('log, 'code) executor \<Rightarrow> bool" where
  "full_journal e \<longleftrightarrow> length (e_journal e) = unat (e_height e) \<and> e_params e = testnet_1bps"

text \<open>Execution of \<open>x\<close> has followed \<open>dag\<close> with the bodies \<open>B\<close> gives.\<close>

definition executed ::
  "('env, 'tx, 'res, 'log, 'code, 'signer, 'sig) sim_lib \<Rightarrow> ('log, 'code) executor \<Rightarrow> (u256 \<Rightarrow> 'code) \<Rightarrow> nat \<Rightarrow>
   (block_hash \<Rightarrow> octet list list) \<Rightarrow> dag_store \<Rightarrow> ('tx, 'log, 'code, 'signer) sim_node \<Rightarrow> bool" where
  "executed S e0 D window B dag x \<longleftrightarrow>
     chain_followed (sl_chain S) e0 D window dag (x_bodies x) (x_executor x) \<and> full_journal (x_executor x) \<and>
     e_tip (x_executor x) = virtual_selected_parent dag \<and>
     (\<forall>h \<in> blocks dag. body_get (x_bodies x) h = decode_body_txs (sl_raw S) (B h))"

definition caught_up where
  "caught_up S e0 D window genesis k limit G B x \<longleftrightarrow>
     sane (sl_hash S) genesis k limit G B (x_sync x) \<and> y_accepted (x_sync x) = [] \<and> executed S e0 D window B (y_dag (x_sync x)) x"

definition pending where
  "pending S e0 D window genesis k limit G B x \<longleftrightarrow>
     sane (sl_hash S) genesis k limit G B (x_sync x) \<and>
     (\<exists>dag. dag_reachable (sl_hash S) genesis k limit dag \<and> executed S e0 D window B dag x \<and>
        dag_joins (sl_hash S) UNIV (dag, []) (y_dag (x_sync x), y_accepted (x_sync x)))"

lemma caught_up_pending:
  assumes "caught_up S e0 D window genesis k limit G B x" "joins (sl_hash S) UNIV (x_sync x) t" "sane (sl_hash S) genesis k limit G B t"
  shows "pending S e0 D window genesis k limit G B (x\<lparr>x_sync := t\<rparr>)"
proof -
  have "keyed (sl_hash S) UNIV (x_sync x)" using assms(1) by (auto simp: caught_up_def sane_def keyed_def)
  with assms show ?thesis
    by (auto simp: pending_def caught_up_def executed_def joins_def sane_def intro!: exI[of _ "y_dag (x_sync x)"])
qed

lemma fold_body_insert:
  "body_get (fold (\<lambda>h. body_insert h (f h)) hs bodies) x = (if x \<in> set hs then f x else body_get bodies x)"
  by (induction hs arbitrary: bodies) (auto simp: body_get_def body_insert_def update_conv')

text \<open>The executor, taken to the DAG's selected tip.\<close>

lemma executor_catches_up:
  assumes base: "base_ok L D window e0" and ok: "dag_ok hash dag" and tip0: "e_tip e0 = s_genesis dag" and p0: "e_params e0 = testnet_1bps"
    and fol: "chain_followed L e0 D window dag bodies e" and full: "full_journal e"
    and len: "dag_len dag \<le> window"
  obtains outs e' where
    "apply_reorg L dag bodies (removed (compute_reorg dag (e_tip e) (virtual_selected_parent dag)))
       (added (compute_reorg dag (e_tip e) (virtual_selected_parent dag))) e = Some (Inr outs, e')"
    "chain_followed L e0 D window dag bodies e'" "full_journal e'" "e_tip e' = virtual_selected_parent dag"
proof -
  let ?r = "compute_reorg dag (e_tip e) (virtual_selected_parent dag)" and ?new = "virtual_selected_parent dag"
  note new = virtual_selected_parent_in[OF ok]
  have w: "pruning_window_blocks testnet_1bps = Some window" "window < 2 ^ 64" using base_okD(7,9)[OF base] p0 by simp_all
  have window: "window = 86400" using w(1) by (simp add: testnet_1bps_def derived_defs param_consts)
  have bound: "2 * dag_len dag \<le> MAX_REORG_WALK" using len window by (simp add: MAX_REORG_WALK_def)
  have cov: "journal_covers e (length (removed ?r))" using full by (simp add: journal_covers_def full_journal_def)
  from reorg_follows[OF base ok tip0 fol new bound cov] obtain common eS eS1 e1 eS2 e2 outs where
    ch: "chain_above dag (e_tip e) = removed ?r @ common" "chain_above dag ?new = rev (added ?r) @ common"
      "length (chain_above dag (e_tip e)) < 2 ^ 64" "length (chain_above dag ?new) < 2 ^ 64" and
    tr: "tracked L dag bodies e0 D window (chain_above dag (e_tip e)) eS e"
      "undo_all (removed ?r) e = (Inr (), e1)" "tracked L dag bodies e0 D window common eS1 e1"
      "execute_all L dag bodies (added ?r) [] e1 = Some (Inr outs, e2)"
      "tracked L dag bodies e0 D window (chain_above dag ?new) eS2 e2" and
    x: "e_tip e2 = ?new" "chain_followed L e0 D window dag bodies e2" by metis
  note u = undo_all_journal[OF tr(2)]
  have heights: "unat (e_height e) = length (removed ?r @ common)" "unat (e_height e1) = length common"
    "unat (e_height e2) = length (rev (added ?r) @ common)"
    using tracked_tip(2)[OF base tr(1)] tracked_tip(2)[OF base tr(3)] tracked_tip(2)[OF base tr(5)] ch by simp_all
  have "length (chain_above dag ?new) \<le> window" using chain_length[OF ok new] len by simp
  then have "unat (e_height e1) + length (added ?r) \<le> window" using heights(2) ch(2) by simp
  from execute_all_journal[OF tr(4) _ this w(2)] u full w(1)
  have "length (e_journal e2) = length (e_journal e1) + length (added ?r)" "e_params e2 = testnet_1bps" by (auto simp: full_journal_def)
  then have "full_journal e2" using u full heights by (simp add: full_journal_def)
  then show ?thesis
    by (intro that[of outs e2] x) (simp_all add: apply_reorg_def tr(2,4))
qed

lemma absorb_all_nodes:
  assumes "i < length (m_nodes m)"
  shows "m_nodes (fold (sim_absorb R i) hs m) = (m_nodes m)[i := (m_nodes m ! i)\<lparr>x_bodies :=
      fold (\<lambda>h. body_insert h (decode_body_txs R (sync_body (node_sync m i) h))) hs (x_bodies (m_nodes m ! i))\<rparr>]"
  using assms
proof (induction hs arbitrary: m)
  case (Cons h hs)
  have "i < length (m_nodes (sim_absorb R i h m))" using Cons.prems by (simp add: absorb_nodes(1))
  from Cons.IH[OF this] Cons.prems show ?case by (simp add: absorb_nodes(1))
qed simp

lemma note_changes_nodes:
  assumes "note_changes S i m = Some m'" "i < length (m_nodes m)" "x = m_nodes m ! i" "y = x\<lparr>x_sync := (x_sync x)\<lparr>y_accepted := []\<rparr>\<rparr>"
    and "bodies = fold (\<lambda>h. body_insert h (decode_body_txs (sl_raw S) (sync_body (x_sync x) h))) (y_accepted (x_sync x)) (x_bodies x)"
    and "dag = y_dag (x_sync x)" "tip = virtual_selected_parent dag"
  shows "\<exists>e. m_nodes m' = (m_nodes m)[i := y\<lparr>x_bodies := bodies, x_executor := e\<rparr>] \<and>
    (if y_accepted (x_sync x) = [] \<or> tip = e_tip (x_executor x) then e = x_executor x
     else \<exists>outs. apply_reorg (sl_chain S) dag bodies (removed (compute_reorg dag (e_tip (x_executor x)) tip))
        (added (compute_reorg dag (e_tip (x_executor x)) tip)) (x_executor x) = Some (Inr outs, e))"
proof -
  let ?s = "(x_sync x)\<lparr>y_accepted := []\<rparr>" let ?hs = "y_accepted (x_sync x)"
  have d: "drain_accepted (node_sync m i) = (?hs, ?s)" by (simp add: drain_accepted_def assms(3))
  show ?thesis
  proof (cases "?hs = []")
    case True
    then have "m' = set_sync i ?s m" using assms(1) by (simp add: note_changes_def d Let_def)
    then show ?thesis using True assms(3,4,5) by (intro exI[of _ "x_executor x"]) (simp add: set_sync_def)
  next
    case False
    let ?m = "(set_sync i ?s m)\<lparr>m_last_change_ms := m_now_ms (set_sync i ?s m)\<rparr>"
    let ?f = "fold (sim_absorb (sl_raw S) i) ?hs ?m"
    have run: "advance_execution (sl_chain S) i ?f = Some m'" using assms(1) False by (simp add: note_changes_def d Let_def)
    have i: "i < length (m_nodes ?m)" using assms(2) by (simp add: set_sync_def)
    have "m_nodes ?f = (m_nodes m)[i := y\<lparr>x_bodies := bodies\<rparr>]"
      unfolding absorb_all_nodes[OF i] using assms(2-5) by (simp add: set_sync_def sync_body_def)
    then have n: "m_nodes ?f = (m_nodes m)[i := y\<lparr>x_bodies := bodies\<rparr>]" "m_nodes ?f ! i = y\<lparr>x_bodies := bodies\<rparr>" using assms(2) by simp_all
    have tip: "virtual_selected_parent (y_dag (x_sync (m_nodes ?f ! i))) = tip" "e_tip (x_executor (m_nodes ?f ! i)) = e_tip (x_executor x)"
      "y_dag (x_sync (m_nodes ?f ! i)) = dag" "x_bodies (m_nodes ?f ! i) = bodies" "x_executor (m_nodes ?f ! i) = x_executor x"
      using assms(4,6,7) by (simp_all add: n(2))
    note tip = tip assms(7)[symmetric]
    show ?thesis
    proof (cases "tip = e_tip (x_executor x)")
      case True
      then have "m' = ?f" using run by (simp add: advance_execution_def Let_def tip)
      then show ?thesis using n(1) True assms(4) by (intro exI[of _ "x_executor x"]) simp
    next
      case ne: False
      let ?r = "compute_reorg dag (e_tip (x_executor x)) tip"
      obtain outs e where "apply_reorg (sl_chain S) dag bodies (removed ?r) (added ?r) (x_executor x) = Some (Inr outs, e)"
        "m_nodes m' = (m_nodes ?f)[i := (m_nodes ?f ! i)\<lparr>x_executor := e\<rparr>]"
        using run ne by (auto simp: advance_execution_def Let_def tip split: option.splits prod.splits sum.splits if_splits)
      then show ?thesis using ne False assms(2) by (auto simp: n)
    qed
  qed
qed

lemma sane_drained:
  assumes "sane hash genesis k limit G B s" shows "sane hash genesis k limit G B (s\<lparr>y_accepted := []\<rparr>)"
proof -
  let ?s = "s\<lparr>y_accepted := []\<rparr>"
  have same: "y_dag ?s = y_dag s" "y_orphans ?s = y_orphans s" "y_bodies ?s = y_bodies s" by simp_all
  show ?thesis using assms unfolding sane_def keyed_def bodied_def same .
qed

text \<open>With the bodies of the blocks that joined, the executor follows the DAG as it is now.\<close>

lemma pending_followed:
  assumes e0: "e0 = new_executor (sl_chain S) testnet_1bps s0 (sl_hash S genesis)" and B: "B (sl_hash S genesis) = []"
    and pend: "pending S e0 D window genesis k limit G B x"
    and bodies: "bodies = fold (\<lambda>h. body_insert h (decode_body_txs (sl_raw S) (sync_body (x_sync x) h))) (y_accepted (x_sync x)) (x_bodies x)"
  shows "dag_ok (sl_hash S) (y_dag (x_sync x))" "e_tip e0 = s_genesis (y_dag (x_sync x))" "e_params e0 = testnet_1bps"
    "chain_followed (sl_chain S) e0 D window (y_dag (x_sync x)) bodies (x_executor x)" "full_journal (x_executor x)"
    "h \<in> blocks (y_dag (x_sync x)) \<Longrightarrow> body_get bodies h = decode_body_txs (sl_raw S) (B h)"
    "y_accepted (x_sync x) = [] \<Longrightarrow> e_tip (x_executor x) = virtual_selected_parent (y_dag (x_sync x))"
proof -
  let ?s = "x_sync x" let ?t = "y_dag ?s" let ?hash = "sl_hash S"
  from pend obtain dag where sane: "sane ?hash genesis k limit G B ?s" and dr: "dag_reachable ?hash genesis k limit dag"
    and ex: "executed S e0 D window B dag x" and joins: "dag_joins ?hash UNIV (dag, []) (?t, y_accepted ?s)" by (auto simp: pending_def)
  have dr': "dag_reachable ?hash genesis k limit ?t" using sane by (simp add: sane_def)
  note ok = reachable_ok[OF dr] and ok' = reachable_ok[OF dr']
  from dag_joins_result[OF joins, of genesis k limit] dr have new: "blocks ?t = blocks dag \<union> set (y_accepted ?s)"
    "set (y_accepted ?s) \<inter> blocks dag = {}" "agree (blocks dag) dag ?t" by auto
  have get: "body_get bodies h = decode_body_txs (sl_raw S) (B h)" if "h \<in> blocks ?t" for h
  proof (cases "h \<in> set (y_accepted ?s)")
    case True
    from header_of_block[OF that] obtain hdr where "dag_header ?t h = Some hdr" by (auto simp: dag_header_def)
    from sane_body(1)[OF sane B this] True show ?thesis by (simp add: bodies fold_body_insert)
  next
    case False
    with that new(1) have "h \<in> blocks dag" by simp
    with ex False show ?thesis by (simp add: bodies fold_body_insert executed_def)
  qed
  then show "h \<in> blocks ?t \<Longrightarrow> body_get bodies h = decode_body_txs (sl_raw S) (B h)" .
  have same: "body_get (x_bodies x) h = body_get bodies h" if "h \<in> blocks dag" for h
    using ex that get[of h] new(1) by (simp add: executed_def)
  show "chain_followed (sl_chain S) e0 D window ?t bodies (x_executor x)"
    by (rule followed_grows(1)[OF ok ok' new(3) same]) (use ex in \<open>simp_all add: executed_def\<close>)
  show "dag_ok ?hash ?t" by (rule ok')
  show "e_tip e0 = s_genesis ?t" "e_params e0 = testnet_1bps" using reachable_limits[OF dr'] by (simp_all add: e0 new_executor_def)
  show "full_journal (x_executor x)" using ex by (simp add: executed_def)
  show "e_tip (x_executor x) = virtual_selected_parent ?t" if "y_accepted ?s = []"
    using same_tip[OF ok ok' new(3)] new(1) that ex by (simp add: executed_def)
qed

lemma note_changes_catches_up:
  assumes base: "base_ok (sl_chain S) D window e0" and e0: "e0 = new_executor (sl_chain S) testnet_1bps s0 (sl_hash S genesis)"
    and run: "note_changes S i m = Some m'" and i: "i < length (m_nodes m)" and B: "B (sl_hash S genesis) = []"
    and pend: "pending S e0 D window genesis k limit G B (m_nodes m ! i)" and len: "dag_len (y_dag (node_sync m i)) \<le> window"
  shows "caught_up S e0 D window genesis k limit G B (m_nodes m' ! i)" "x_miner (m_nodes m' ! i) = x_miner (m_nodes m ! i)"
    "length (m_nodes m') = length (m_nodes m)" "j \<noteq> i \<Longrightarrow> m_nodes m' ! j = m_nodes m ! j"
proof -
  let ?x = "m_nodes m ! i" let ?s = "x_sync ?x" let ?t = "y_dag ?s" let ?L = "sl_chain S"
  define bodies where "bodies = fold (\<lambda>h. body_insert h (decode_body_txs (sl_raw S) (sync_body ?s h))) (y_accepted ?s) (x_bodies ?x)"
  from note_changes_nodes[OF run i refl refl bodies_def refl refl] obtain e where
    nodes: "m_nodes m' = (m_nodes m)[i := ?x\<lparr>x_sync := ?s\<lparr>y_accepted := []\<rparr>, x_bodies := bodies, x_executor := e\<rparr>]" and
    e: "if y_accepted ?s = [] \<or> virtual_selected_parent ?t = e_tip (x_executor ?x) then e = x_executor ?x
      else \<exists>outs. apply_reorg ?L ?t bodies (removed (compute_reorg ?t (e_tip (x_executor ?x)) (virtual_selected_parent ?t)))
        (added (compute_reorg ?t (e_tip (x_executor ?x)) (virtual_selected_parent ?t))) (x_executor ?x) = Some (Inr outs, e)" by auto
  from nodes i show "x_miner (m_nodes m' ! i) = x_miner ?x" "length (m_nodes m') = length (m_nodes m)"
    "j \<noteq> i \<Longrightarrow> m_nodes m' ! j = m_nodes m ! j" by simp_all
  note F = pending_followed[OF e0 B pend bodies_def]
  have "chain_followed ?L e0 D window ?t bodies e \<and> full_journal e \<and> e_tip e = virtual_selected_parent ?t"
  proof (cases "virtual_selected_parent ?t = e_tip (x_executor ?x)")
    case True
    with e F(4,5) show ?thesis by simp
  next
    case False
    with F(7) have "y_accepted ?s \<noteq> []" by auto
    with e False obtain outs where r: "apply_reorg ?L ?t bodies (removed (compute_reorg ?t (e_tip (x_executor ?x)) (virtual_selected_parent ?t)))
        (added (compute_reorg ?t (e_tip (x_executor ?x)) (virtual_selected_parent ?t))) (x_executor ?x) = Some (Inr outs, e)" by auto
    from executor_catches_up[OF base F(1-5) len] r show ?thesis by (metis Pair_inject option.inject)
  qed
  moreover have "sane (sl_hash S) genesis k limit G B (?s\<lparr>y_accepted := []\<rparr>)" by (rule sane_drained) (use pend in \<open>simp add: pending_def\<close>)
  ultimately show "caught_up S e0 D window genesis k limit G B (m_nodes m' ! i)"
    using nodes i F(6) by (simp add: caught_up_def executed_def)
qed

text \<open>And it does not panic on the way.\<close>

lemma note_changes_total:
  assumes base: "base_ok (sl_chain S) D window e0" and e0: "e0 = new_executor (sl_chain S) testnet_1bps s0 (sl_hash S genesis)"
    and i: "i < length (m_nodes m)" and B: "B (sl_hash S genesis) = []"
    and pend: "pending S e0 D window genesis k limit G B (m_nodes m ! i)" and len: "dag_len (y_dag (node_sync m i)) \<le> window"
  shows "note_changes S i m \<noteq> None"
proof -
  let ?x = "m_nodes m ! i" let ?s = "x_sync ?x" let ?t = "y_dag ?s" let ?hs = "y_accepted ?s"
  define bodies where "bodies = fold (\<lambda>h. body_insert h (decode_body_txs (sl_raw S) (sync_body ?s h))) ?hs (x_bodies ?x)"
  note F = pending_followed[OF e0 B pend bodies_def]
  have d: "drain_accepted ?s = (?hs, ?s\<lparr>y_accepted := []\<rparr>)" by (simp add: drain_accepted_def)
  let ?m = "set_sync i (?s\<lparr>y_accepted := []\<rparr>) m"
  let ?f = "fold (sim_absorb (sl_raw S) i) ?hs (?m\<lparr>m_last_change_ms := m_now_ms ?m\<rparr>)"
  have i': "i < length (m_nodes (?m\<lparr>m_last_change_ms := m_now_ms ?m\<rparr>))" using i by (simp add: set_sync_def)
  have "m_nodes ?f ! i = ?x\<lparr>x_sync := ?s\<lparr>y_accepted := []\<rparr>, x_bodies := bodies\<rparr>"
    unfolding absorb_all_nodes[OF i'] using i by (simp add: set_sync_def sync_body_def bodies_def)
  then have x: "y_dag (x_sync (m_nodes ?f ! i)) = ?t" "x_bodies (m_nodes ?f ! i) = bodies" "x_executor (m_nodes ?f ! i) = x_executor ?x" by simp_all
  obtain outs e' where "apply_reorg (sl_chain S) ?t bodies (removed (compute_reorg ?t (e_tip (x_executor ?x)) (virtual_selected_parent ?t)))
      (added (compute_reorg ?t (e_tip (x_executor ?x)) (virtual_selected_parent ?t))) (x_executor ?x) = Some (Inr outs, e')"
    by (rule executor_catches_up[OF base F(1-5) len])
  then have "advance_execution (sl_chain S) i ?f \<noteq> None" by (simp add: advance_execution_def Let_def x)
  then show ?thesis by (simp add: note_changes_def d Let_def)
qed

end
