(* ===== verification/Sim_Run.thy ===== *)
theory Sim_Run
  imports Sim_Exec
begin

text \<open>
  Runs of the simulation as an inductive relation between states and the headers mined so far, and their invariant:
  every node is caught up, blocks travel with the bodies they were mined with, no header is mined twice.
\<close>

section \<open>Runs\<close>

definition mined_by ::
  "('env, 'tx, 'res, 'log, 'code, 'signer, 'sig) sim_lib \<Rightarrow> event_kind \<Rightarrow> ('tx, 'log, 'code, 'signer) simulation \<Rightarrow> header list" where
  "mined_by S kind m =
     (case kind of Mine i \<Rightarrow> if m_mining_enabled m then (case mined_header S i m of None \<Rightarrow> [] | Some h \<Rightarrow> [h]) else [] | _ \<Rightarrow> [])"

text \<open>The clock stays clear of \<open>2 ^ 64\<close>.\<close>

definition clear_of_wrap :: "sim_config \<Rightarrow> u64 \<Rightarrow> bool" where
  "clear_of_wrap c t \<longleftrightarrow> timed c \<and> unat t + horizon c < 2 ^ 64"

text \<open>
  The events of the heap may be handled in any order, not only in that of their times; mining may be switched and the
  clock set, as \<open>quiesce\<close> and \<open>run_for\<close> do.
\<close>

inductive sim_reaches ::
  "('env, 'tx, 'res, 'log, 'code, 'signer, 'sig) sim_lib \<Rightarrow> sim_config \<Rightarrow> ('tx, 'log, 'code, 'signer) simulation \<Rightarrow> header list \<Rightarrow> bool"
  for S config where
  start: "new_simulation S config = Some m \<Longrightarrow> clear_of_wrap config GENESIS_MS \<Longrightarrow> sim_reaches S config m []"
| event: "sim_reaches S config m H \<Longrightarrow> m_queue m = e # q \<Longrightarrow> clear_of_wrap config (ev_at_ms e) \<Longrightarrow>
    sim_handle S (ev_kind e) (m\<lparr>m_queue := q, m_now_ms := ev_at_ms e\<rparr>) = Some m' \<Longrightarrow>
    sim_reaches S config m' (mined_by S (ev_kind e) (m\<lparr>m_queue := q, m_now_ms := ev_at_ms e\<rparr>) @ H)"
| reorder: "sim_reaches S config m H \<Longrightarrow> mset q = mset (m_queue m) \<Longrightarrow> sim_reaches S config (m\<lparr>m_queue := q\<rparr>) H"
| mining: "sim_reaches S config m H \<Longrightarrow> sim_reaches S config (m\<lparr>m_mining_enabled := b\<rparr>) H"
| clock: "sim_reaches S config m H \<Longrightarrow> sim_reaches S config (m\<lparr>m_now_ms := t\<rparr>) H"

section \<open>Nodes that differ only in peers and requests\<close>

definition kept :: "('tx, 'log, 'code, 'signer) sim_node \<Rightarrow> ('tx, 'log, 'code, 'signer) sim_node \<Rightarrow> bool" where
  "kept x y \<longleftrightarrow> same_fields (x_sync x) (x_sync y) \<and> x_executor y = x_executor x \<and> x_bodies y = x_bodies x \<and> x_miner y = x_miner x"

lemma kept_refl [simp]: "kept x x" by (simp add: kept_def same_fields_def)

lemma kept_trans: "kept x y \<Longrightarrow> kept y z \<Longrightarrow> kept x z"
  by (auto simp: kept_def intro: same_fields_trans)

definition all_kept :: "('tx, 'log, 'code, 'signer) sim_node list \<Rightarrow> ('tx, 'log, 'code, 'signer) sim_node list \<Rightarrow> bool" where
  "all_kept xs ys \<longleftrightarrow> list_all2 kept xs ys"

lemma all_kept_refl [simp]: "all_kept xs xs" by (simp add: all_kept_def list_all2_refl)

lemma all_kept_trans: "all_kept xs ys \<Longrightarrow> all_kept ys zs \<Longrightarrow> all_kept xs zs"
  unfolding all_kept_def by (rule list_all2_trans[of kept kept kept]) (rule kept_trans)

lemma all_kept_nth: "all_kept xs ys \<Longrightarrow> length ys = length xs \<and> (i < length xs \<longrightarrow> kept (xs ! i) (ys ! i))"
  by (auto simp: all_kept_def list_all2_conv_all_nth)

lemma all_kept_update: "all_kept xs ys \<Longrightarrow> kept x y \<Longrightarrow> all_kept (xs[i := x]) (ys[i := y])"
  by (simp add: all_kept_def list_all2_update_cong)

lemma all_kept_set: "i < length xs \<Longrightarrow> kept (xs ! i) y \<Longrightarrow> all_kept xs (xs[i := y])"
  using all_kept_update[OF all_kept_refl, of "xs ! i" y xs i] by simp

lemma disconnect_kept: "all_kept (m_nodes m) (m_nodes (set_sync i (on_disconnect p (node_sync m i)) m))"
  by (cases "i < length (m_nodes m)")
    (auto simp: set_sync_def list_update_beyond kept_def same_fields_def on_disconnect_def intro: all_kept_set)

lemma dispatch_kept: "all_kept (m_nodes m) (m_nodes (dispatch from acts m))"
proof -
  have one: "all_kept (m_nodes m) (m_nodes (dispatch_one from a m))" for a and m :: "('a, 'b, 'c, 'd) simulation"
  proof (cases a)
    case (Send p msg)
    then show ?thesis by (auto simp: dispatch_one_def sim_push_def Let_def split: option.split prod.split)
  next
    case (Disconnect p r)
    then show ?thesis
      using disconnect_kept all_kept_trans[OF disconnect_kept disconnect_kept]
      by (auto simp: dispatch_one_def Let_def split: option.split)
  qed
  show ?thesis unfolding dispatch_def
    by (induction acts arbitrary: m) (auto intro: all_kept_trans[OF one])
qed

lemma act_on_kept:
  assumes "handler (node_sync m i) = (acts, s)"
  shows "all_kept ((m_nodes m)[i := (m_nodes m ! i)\<lparr>x_sync := s\<rparr>]) (m_nodes (act_on i handler m))"
  using dispatch_kept[of "set_sync i s m" i acts] by (simp add: act_on_def assms set_sync_def)

lemma executed_kept: "executed S e0 D window B dag x \<Longrightarrow> kept x y \<Longrightarrow> executed S e0 D window B dag y"
  by (simp add: executed_def kept_def)

lemma caught_up_kept: "caught_up S e0 D window genesis k limit G B x \<Longrightarrow> kept x y \<Longrightarrow> caught_up S e0 D window genesis k limit G B y"
  unfolding caught_up_def using executed_kept[of S e0 D window B "y_dag (x_sync x)" x y] sane_same[of "sl_hash S" genesis k limit G B "x_sync x" "x_sync y"]
  by (auto simp: kept_def same_fields_def)

lemma pending_kept: "pending S e0 D window genesis k limit G B x \<Longrightarrow> kept x y \<Longrightarrow> pending S e0 D window genesis k limit G B y"
proof -
  assume p: "pending S e0 D window genesis k limit G B x" and q: "kept x y"
  from p obtain dag where d: "dag_reachable (sl_hash S) genesis k limit dag" "executed S e0 D window B dag x"
    "dag_joins (sl_hash S) UNIV (dag, []) (y_dag (x_sync x), y_accepted (x_sync x))" by (auto simp: pending_def)
  have same: "same_fields (x_sync x) (x_sync y)" using q by (simp add: kept_def)
  have "sane (sl_hash S) genesis k limit G B (x_sync y)" using p same sane_same by (auto simp: pending_def)
  moreover have "y_dag (x_sync y) = y_dag (x_sync x)" "y_accepted (x_sync y) = y_accepted (x_sync x)" using same by (simp_all add: same_fields_def)
  ultimately show ?thesis using d executed_kept[OF d(2) q] by (auto simp: pending_def)
qed

text \<open>New headers with new hashes do not disturb a caught-up node.\<close>

lemma caught_up_mono:
  assumes "caught_up S e0 D window genesis k limit G B x" "G \<subseteq> G'" "\<forall>h \<in> sl_hash S ` G. B' h = B h" "genesis \<in> G"
  shows "caught_up S e0 D window genesis k limit G' B' x"
proof -
  have s: "sane (sl_hash S) genesis k limit G B (x_sync x)" using assms(1) by (simp add: caught_up_def)
  have "B' h = B h" if h: "h \<in> blocks (y_dag (x_sync x))" for h
  proof -
    from header_of_block[OF h] obtain hdr where hdr: "map_of (s_headers (y_dag (x_sync x))) h = Some hdr" by blast
    have "sl_hash S hdr = h" using s dag_okD(4)[OF reachable_ok] hdr by (fastforce simp: sane_def hash_keyed_def)
    moreover have "hdr \<in> G" using s hdr assms(4) by (fastforce simp: sane_def bodied_def stored_headers_def ran_def)
    ultimately show ?thesis using assms(3) by blast
  qed
  with assms(1) sane_mono[OF s assms(2,3)] show ?thesis by (simp add: caught_up_def executed_def)
qed

section \<open>Distinct miners\<close>

lemma repeat_byte_low: "(ucast (repeat_byte b) :: 8 word) = b"
proof -
  have "replicate 20 b = replicate 19 b @ [b]" by (simp add: replicate_append_same[symmetric] numeral_eq_Suc)
  then obtain a where a: "repeat_byte b = push_bit 8 a OR ucast b" by (auto simp: repeat_byte_def)
  show ?thesis unfolding a by (rule bit_word_eqI) (simp add: bit_simps)
qed

lemma miner_address_inj: "i < 255 \<Longrightarrow> j < 255 \<Longrightarrow> miner_address i = miner_address j \<Longrightarrow> i = j"
proof -
  assume ij: "i < 255" "j < 255" "miner_address i = miner_address j"
  then have "(of_nat i + 1 :: 8 word) = of_nat j + 1" using repeat_byte_low by (metis miner_address_def mod_less)
  then have "(of_nat i :: 8 word) = of_nat j" by simp
  then have "unat (of_nat i :: 8 word) = unat (of_nat j :: 8 word)" by simp
  with ij(1,2) show ?thesis by (simp add: unat_of_nat take_bit_eq_mod)
qed

lemma find_nonce_fields:
  "find_nonce pow h v left = Some h' \<Longrightarrow> h_parents h' = h_parents h \<and> h_timestamp_ms h' = h_timestamp_ms h \<and> h_miner h' = h_miner h"
  by (induction left arbitrary: v h) (auto simp: Let_def split: if_splits)

lemma mined_header_fields:
  "mined_header S i m = Some h \<Longrightarrow> h_parents h \<noteq> [] \<and> h_timestamp_ms h = m_now_ms m \<and> h_miner h = x_miner (m_nodes m ! i)"
  using find_nonce_fields by (fastforce simp: mined_header_def Let_def sim_header_def split: if_splits)

section \<open>The invariant of a run\<close>

definition queue_ok ::
  "(header \<Rightarrow> block_hash) \<Rightarrow> nat \<Rightarrow> header set \<Rightarrow> (block_hash \<Rightarrow> octet list list) \<Rightarrow> header list \<Rightarrow> sim_event multiset \<Rightarrow> bool" where
  "queue_ok hash n G B H q \<longleftrightarrow>
     (\<forall>e \<in># q. (\<forall>to from msg. ev_kind e = Deliver to from msg \<longrightarrow> to < n \<and> message_ok hash G B msg) \<and>
        (\<forall>i. ev_kind e = Mine i \<or> ev_kind e = Tick i \<longrightarrow> i < n)) \<and>
     (\<forall>i. size (filter_mset (\<lambda>e. ev_kind e = Mine i) q) \<le> 1) \<and>
     (\<forall>h \<in> set H. h_parents h \<noteq> [] \<and>
        (\<exists>i < n. h_miner h = miner_address i \<and> (\<forall>e \<in># q. ev_kind e = Mine i \<longrightarrow> unat (h_timestamp_ms h) < unat (ev_at_ms e))))"

definition nodes_ok where
  "nodes_ok S e0 D window genesis k limit G B xs \<longleftrightarrow>
     (\<forall>i < length xs. x_miner (xs ! i) = miner_address i \<and> caught_up S e0 D window genesis k limit G B (xs ! i))"

text \<open>The queue keeps its shape when a turn is taken and events are added.\<close>

lemma queue_okD:
  assumes "queue_ok hash n G B H q"
  shows "e \<in># q \<Longrightarrow> ev_kind e = Deliver to from msg \<Longrightarrow> to < n \<and> message_ok hash G B msg"
    "e \<in># q \<Longrightarrow> ev_kind e = Mine i \<or> ev_kind e = Tick i \<Longrightarrow> i < n"
    "size (filter_mset (\<lambda>e. ev_kind e = Mine i) q) \<le> 1"
    "h \<in> set H \<Longrightarrow> h_parents h \<noteq> []"
    "h \<in> set H \<Longrightarrow> \<exists>i < n. h_miner h = miner_address i \<and> (\<forall>e \<in># q. ev_kind e = Mine i \<longrightarrow> unat (h_timestamp_ms h) < unat (ev_at_ms e))"
  using assms unfolding queue_ok_def by blast+

lemma queue_okI:
  assumes "\<And>e to from msg. e \<in># q \<Longrightarrow> ev_kind e = Deliver to from msg \<Longrightarrow> to < n \<and> message_ok hash G B msg"
    and "\<And>e i. e \<in># q \<Longrightarrow> ev_kind e = Mine i \<or> ev_kind e = Tick i \<Longrightarrow> i < n"
    and "\<And>i. size (filter_mset (\<lambda>e. ev_kind e = Mine i) q) \<le> 1"
    and "\<And>h. h \<in> set H \<Longrightarrow> h_parents h \<noteq> []"
    and "\<And>h. h \<in> set H \<Longrightarrow> \<exists>i < n. h_miner h = miner_address i \<and> (\<forall>e \<in># q. ev_kind e = Mine i \<longrightarrow> unat (h_timestamp_ms h) < unat (ev_at_ms e))"
  shows "queue_ok hash n G B H q"
  using assms unfolding queue_ok_def by blast

definition deliveries :: "(header \<Rightarrow> block_hash) \<Rightarrow> nat \<Rightarrow> header set \<Rightarrow> (block_hash \<Rightarrow> octet list list) \<Rightarrow> sim_event multiset \<Rightarrow> bool" where
  "deliveries hash n G B new \<longleftrightarrow> (\<forall>e \<in># new. \<exists>to from msg. ev_kind e = Deliver to from msg \<and> to < n \<and> message_ok hash G B msg)"

lemma deliveriesD: "deliveries hash n G B new \<Longrightarrow> e \<in># new \<Longrightarrow> \<exists>to from msg. ev_kind e = Deliver to from msg \<and> to < n \<and> message_ok hash G B msg"
  by (simp add: deliveries_def)

lemma queue_ok_more:
  assumes "queue_ok hash n G B H q" "deliveries hash n G B new"
  shows "queue_ok hash n G B H (q + new)"
proof (rule queue_okI)
  note D = deliveriesD[OF assms(2)] and Q = queue_okD[OF assms(1)]
  have other: "ev_kind e \<noteq> Mine i \<and> ev_kind e \<noteq> Tick i" if "e \<in># new" for e i using D[OF that] by auto
  show "to < n \<and> message_ok hash G B msg" if "e \<in># q + new" "ev_kind e = Deliver to from msg" for e to "from" msg
    using that Q(1) D[of e] by (auto split: if_splits)
  show "i < n" if "e \<in># q + new" "ev_kind e = Mine i \<or> ev_kind e = Tick i" for e i using that Q(2) other by auto
  have no: "filter_mset (\<lambda>e. ev_kind e = Mine i) new = {#}" for i using other by simp
  show "size (filter_mset (\<lambda>e. ev_kind e = Mine i) (q + new)) \<le> 1" for i
    using Q(3)[of i] unfolding filter_union_mset no by (simp only: add_0_right)
  show "h_parents h \<noteq> []" if "h \<in> set H" for h using Q(4) that .
  show "\<exists>i < n. h_miner h = miner_address i \<and> (\<forall>e \<in># q + new. ev_kind e = Mine i \<longrightarrow> unat (h_timestamp_ms h) < unat (ev_at_ms e))"
    if "h \<in> set H" for h
  proof -
    from Q(5)[OF that] obtain i where "i < n" "h_miner h = miner_address i"
      "\<forall>e \<in># q. ev_kind e = Mine i \<longrightarrow> unat (h_timestamp_ms h) < unat (ev_at_ms e)" by blast
    with other show ?thesis by (intro exI[of _ i]) auto
  qed
qed

lemma queue_ok_mono:
  assumes "queue_ok hash n G B H q" "G \<subseteq> G'" "\<forall>h \<in> hash ` G. B' h = B h"
  shows "queue_ok hash n G' B' H q"
proof (rule queue_okI)
  note Q = queue_okD[OF assms(1)]
  show "to < n \<and> message_ok hash G' B' msg" if "e \<in># q" "ev_kind e = Deliver to from msg" for e to "from" msg
    using Q(1)[OF that] message_ok_mono[OF _ assms(2,3)] by blast
qed (rule queue_okD[OF assms(1)]; assumption)+

lemma queue_ok_less:
  assumes "queue_ok hash n G B H (add_mset e q)"
  shows "queue_ok hash n G B H q" "ev_kind e = Mine i \<Longrightarrow> filter_mset (\<lambda>e. ev_kind e = Mine i) q = {#}"
proof -
  note Q = queue_okD[OF assms]
  have size: "size (filter_mset (\<lambda>e. ev_kind e = Mine i) q) \<le> 1" for i
  proof -
    have "size (filter_mset (\<lambda>e. ev_kind e = Mine i) q) \<le> size (filter_mset (\<lambda>e. ev_kind e = Mine i) (add_mset e q))"
      by (intro size_mset_mono multiset_filter_mono) simp
    with Q(3)[of i] show ?thesis by linarith
  qed
  show "queue_ok hash n G B H q"
  proof (rule queue_okI)
    have sub: "x \<in># add_mset e q" if "x \<in># q" for x using that by simp
    show "to < n \<and> message_ok hash G B msg" if "x \<in># q" "ev_kind x = Deliver to from msg" for x to "from" msg
      by (rule Q(1)[OF sub[OF that(1)] that(2)])
    show "i < n" if "x \<in># q" "ev_kind x = Mine i \<or> ev_kind x = Tick i" for x i by (rule Q(2)[OF sub[OF that(1)] that(2)])
    show "\<exists>i < n. h_miner h = miner_address i \<and> (\<forall>e \<in># q. ev_kind e = Mine i \<longrightarrow> unat (h_timestamp_ms h) < unat (ev_at_ms e))"
      if "h \<in> set H" for h using Q(5)[OF that] sub by blast
  qed (use Q(4) size in auto)
  show "filter_mset (\<lambda>e. ev_kind e = Mine i) q = {#}" if "ev_kind e = Mine i" using Q(3)[of i] that by simp
qed

lemma nodes_ok_kept:
  assumes "nodes_ok S e0 D window genesis k limit G B xs" "all_kept xs ys"
  shows "nodes_ok S e0 D window genesis k limit G B ys"
  using assms(1) all_kept_nth[OF assms(2)] caught_up_kept unfolding nodes_ok_def by (metis kept_def)

text \<open>A handler has run on node \<open>i\<close> and its blocks are absorbed: the node is caught up again.\<close>

lemma handler_pending:
  assumes nodes: "nodes_ok S e0 D window genesis k limit G B (m_nodes m)" and i: "i < length (m_nodes m)"
    and run: "handler (node_sync m i) = (acts, s)"
    and sane: "sane (sl_hash S) genesis k limit G B s" and joins: "joins (sl_hash S) UNIV (node_sync m i) s"
    and small: "finite G" "genesis \<in> G" "card G \<le> window"
  shows "i < length (m_nodes (act_on i handler m))" "pending S e0 D window genesis k limit G B (m_nodes (act_on i handler m) ! i)"
    "dag_len (y_dag (node_sync (act_on i handler m) i)) \<le> window"
proof -
  let ?a = "act_on i handler m"
  note kept = act_on_kept[of handler m i acts s, OF run]
  show "i < length (m_nodes ?a)" using all_kept_nth[OF kept] i by simp
  have "caught_up S e0 D window genesis k limit G B (m_nodes m ! i)" using nodes i by (simp add: nodes_ok_def)
  from caught_up_pending[OF this joins sane] have "pending S e0 D window genesis k limit G B ((m_nodes m ! i)\<lparr>x_sync := s\<rparr>)" .
  moreover have "kept ((m_nodes m ! i)\<lparr>x_sync := s\<rparr>) (m_nodes ?a ! i)" using all_kept_nth[OF kept, of i] i by simp
  ultimately show pend: "pending S e0 D window genesis k limit G B (m_nodes ?a ! i)" by (rule pending_kept)
  then show "dag_len (y_dag (node_sync ?a i)) \<le> window" using sane_small[OF _ small(1,2)] small(3) by (fastforce simp: pending_def)
qed

lemma handler_step:
  assumes base: "base_ok (sl_chain S) D window e0" and e0: "e0 = new_executor (sl_chain S) testnet_1bps s0 (sl_hash S genesis)"
    and B: "B (sl_hash S genesis) = []"
    and nodes: "nodes_ok S e0 D window genesis k limit G B (m_nodes m)" and i: "i < length (m_nodes m)"
    and run: "handler (node_sync m i) = (acts, s)"
    and sane: "sane (sl_hash S) genesis k limit G B s" and joins: "joins (sl_hash S) UNIV (node_sync m i) s"
    and small: "finite G" "genesis \<in> G" "card G \<le> window"
  shows "note_changes S i (act_on i handler m) \<noteq> None"
    "note_changes S i (act_on i handler m) = Some m' \<Longrightarrow> nodes_ok S e0 D window genesis k limit G B (m_nodes m')"
    "note_changes S i (act_on i handler m) = Some m' \<Longrightarrow> length (m_nodes m') = length (m_nodes m)"
proof -
  let ?a = "act_on i handler m"
  note pend = handler_pending[where handler = handler, OF nodes i run sane joins small]
  show "note_changes S i ?a \<noteq> None" by (rule note_changes_total[OF base e0 pend(1) B pend(2,3)])
  note kept = act_on_kept[of handler m i acts s, OF run]
  have len: "length (m_nodes ?a) = length (m_nodes m)" using all_kept_nth[OF kept] by simp
  assume noted: "note_changes S i ?a = Some m'"
  note up = note_changes_catches_up[OF base e0 noted pend(1) B pend(2,3)]
  from up(3) len show "length (m_nodes m') = length (m_nodes m)" by simp
  show "nodes_ok S e0 D window genesis k limit G B (m_nodes m')"
    unfolding nodes_ok_def
  proof (intro allI impI)
    fix j assume j: "j < length (m_nodes m')"
    show "x_miner (m_nodes m' ! j) = miner_address j \<and> caught_up S e0 D window genesis k limit G B (m_nodes m' ! j)"
    proof (cases "j = i")
      case True
      have "x_miner (m_nodes ?a ! i) = x_miner (m_nodes m ! i)" using all_kept_nth[OF kept, of i] i by (simp add: kept_def)
      with up(1,2) nodes i True show ?thesis by (simp add: nodes_ok_def)
    next
      case False
      have "kept (m_nodes m ! j) (m_nodes ?a ! j)" using all_kept_nth[OF kept, of j] j up(3) len False by simp
      moreover have "x_miner (m_nodes m ! j) = miner_address j \<and> caught_up S e0 D window genesis k limit G B (m_nodes m ! j)"
        using nodes j up(3) len by (simp add: nodes_ok_def)
      ultimately show ?thesis using up(4)[OF False] caught_up_kept by (metis kept_def)
    qed
  qed
qed

lemma queue_ok_tick:
  assumes "queue_ok hash n G B H q" "ev_kind e = Tick i" "i < n"
  shows "queue_ok hash n G B H (add_mset e q)"
proof (rule queue_okI)
  note Q = queue_okD[OF assms(1)]
  show "size (filter_mset (\<lambda>x. ev_kind x = Mine j) (add_mset e q)) \<le> 1" for j using Q(3)[of j] assms(2) by simp
  show "\<exists>i < n. h_miner h = miner_address i \<and> (\<forall>x \<in># add_mset e q. ev_kind x = Mine i \<longrightarrow> unat (h_timestamp_ms h) < unat (ev_at_ms x))"
    if "h \<in> set H" for h using Q(5)[OF that] assms(2) by auto
qed (use queue_okD[OF assms(1)] assms(2,3) in auto)

text \<open>A node's turn is over: its mining event \<open>e\<close> gives way to the later \<open>e'\<close>, and what it mined bears the time of \<open>e\<close>.\<close>

lemma queue_ok_turn:
  assumes "queue_ok hash n G B H (add_mset e q)" "ev_kind e = Mine i" "ev_kind e' = Mine i" "unat (ev_at_ms e) < unat (ev_at_ms e')"
    and "\<And>h. h \<in> set hs \<Longrightarrow> h_parents h \<noteq> [] \<and> h_miner h = miner_address i \<and> h_timestamp_ms h = ev_at_ms e"
  shows "queue_ok hash n G B (hs @ H) (add_mset e' q)"
proof (rule queue_okI)
  note Q = queue_okD[OF assms(1)] and less = queue_ok_less[OF assms(1)]
  note L = queue_okD[OF less(1)]
  have i: "i < n" using Q(2)[of e i] assms(2) by simp
  have none: "ev_kind x \<noteq> Mine i" if "x \<in># q" for x using less(2)[OF assms(2)] that by (auto simp: filter_mset_eq_conv)
  show "to < n \<and> message_ok hash G B msg" if "x \<in># add_mset e' q" "ev_kind x = Deliver to from msg" for x to "from" msg
    using that assms(3) L(1)[of x] by auto
  show "j < n" if "x \<in># add_mset e' q" "ev_kind x = Mine j \<or> ev_kind x = Tick j" for x j
    using that assms(3) i L(2)[of x j] by auto
  have "filter_mset (\<lambda>x. ev_kind x = Mine i) q = {#}" by (rule less(2)[OF assms(2)])
  then show "size (filter_mset (\<lambda>x. ev_kind x = Mine j) (add_mset e' q)) \<le> 1" for j
    using L(3)[of j] assms(3) by (cases "j = i") simp_all
  show "h_parents h \<noteq> []" if "h \<in> set (hs @ H)" for h using that Q(4) assms(5) by auto
  show "\<exists>j < n. h_miner h = miner_address j \<and> (\<forall>x \<in># add_mset e' q. ev_kind x = Mine j \<longrightarrow> unat (h_timestamp_ms h) < unat (ev_at_ms x))"
    if "h \<in> set (hs @ H)" for h
  proof (cases "h \<in> set hs")
    case True
    with assms(4) assms(5)[OF True] i none show ?thesis by (intro exI[of _ i]) auto
  next
    case False
    with that have "h \<in> set H" by simp
    from Q(5)[OF this] obtain j where j: "j < n" "h_miner h = miner_address j"
      "\<forall>x \<in># add_mset e q. ev_kind x = Mine j \<longrightarrow> unat (h_timestamp_ms h) < unat (ev_at_ms x)" by blast
    have "unat (h_timestamp_ms h) < unat (ev_at_ms e')" if "Mine j = Mine i" using j(3) assms(2,4) that by fastforce
    with j assms(3) show ?thesis by (intro exI[of _ j]) auto
  qed
qed

lemma schedule_next_mine_one:
  assumes "in_time m"
  shows "\<exists>e. mset (m_queue (schedule_next_mine i m)) = add_mset e (mset (m_queue m)) \<and> ev_kind e = Mine i \<and>
    unat (m_now_ms m) < unat (ev_at_ms e)"
proof -
  from schedule_next_mine_pushes[OF assms, of i] obtain new where new: "mset (m_queue (schedule_next_mine i m)) = mset (m_queue m) + new"
    "\<forall>e \<in># new. ahead (m_config m) (m_now_ms m) e \<and> ev_kind e = Mine i" by (auto simp: pushes_def)
  have "\<exists>e. mset (m_queue (schedule_next_mine i m)) = add_mset e (mset (m_queue m))"
    by (auto simp: schedule_next_mine_def Let_def sim_push_def mset_heap_push split: prod.split)
  then obtain e where "mset (m_queue (schedule_next_mine i m)) = add_mset e (mset (m_queue m))" by blast
  moreover from this new(1) have "e \<in># new" by auto
  ultimately show ?thesis using new(2) by (auto simp: ahead_def)
qed

lemma schedule_nodes [simp]: "m_nodes (schedule_next_mine i m) = m_nodes m" "m_nodes (schedule_tick i m) = m_nodes m"
  by (simp_all add: schedule_next_mine_def schedule_tick_def sim_push_def Let_def split: prod.split)

text \<open>What a handler and the absorption of its blocks add to the queue.\<close>

lemma handler_queue:
  assumes "in_time m" "handler (node_sync m i) = (acts, s)" "sends_ok hash G B acts" "note_changes S i (act_on i handler m) = Some m'"
  shows "\<exists>new. mset (m_queue m') = mset (m_queue m) + new \<and> deliveries hash (length (m_nodes m)) G B new" "in_time m'" "m_config m' = m_config m"
    "m_now_ms m' = m_now_ms m" "m_mining_enabled m' = m_mining_enabled m"
proof -
  let ?P = "\<lambda>e. ahead (m_config m) (m_now_ms m) e \<and> delivery (length (m_nodes m)) i (sent acts) (ev_kind e)"
  have p: "pushes ?P m m'"
    using act_on_pushes[of m handler i acts s, OF assms(1,2)] note_changes_pushes[OF assms(4)] by (rule pushes_trans)
  then show "in_time m'" "m_config m' = m_config m" "m_now_ms m' = m_now_ms m" "m_mining_enabled m' = m_mining_enabled m"
    using pushes_in_time[OF p assms(1)] by (simp_all add: pushes_def)
  from p obtain new where "mset (m_queue m') = mset (m_queue m) + new" "\<forall>e \<in># new. ?P e" by (auto simp: pushes_def)
  then show "\<exists>new. mset (m_queue m') = mset (m_queue m) + new \<and> deliveries hash (length (m_nodes m)) G B new"
    using assms(3) by (intro exI[of _ new]) (fastforce simp: deliveries_def delivery_def)
qed

section \<open>Steps keep the invariant\<close>

definition run_ok ::
  "('env, 'tx, 'res, 'log, 'code, 'signer, 'sig) sim_lib \<Rightarrow> sim_config \<Rightarrow> ('log, 'code) executor \<Rightarrow> (u256 \<Rightarrow> 'code) \<Rightarrow> header list \<Rightarrow>
   sim_event multiset \<Rightarrow> ('tx, 'log, 'code, 'signer) simulation \<Rightarrow> bool" where
  "run_ok S config e0 D H q m \<longleftrightarrow> m_config m = config \<and> length (m_nodes m) = sk_nodes config \<and>
     (let genesis = sim_genesis (empty_root (sl_chain S)); G = insert genesis (set H) in
      \<exists>B. B (sl_hash S genesis) = [] \<and>
        nodes_ok S e0 D PRUNING_WINDOW_SECONDS genesis (sk_k config) (sk_mergeset_limit config) G B (m_nodes m) \<and>
        queue_ok (sl_hash S) (sk_nodes config) G B H q)"

lemma mined_card:
  assumes "length H < window"
  shows "finite (insert genesis (set H))" "genesis \<in> insert genesis (set H)" "card (insert genesis (set H)) \<le> window"
proof -
  have "card (insert genesis (set H)) \<le> Suc (card (set H))" by (rule card_insert_le_m1) simp_all
  with assms card_length[of H] show "card (insert genesis (set H)) \<le> window" by linarith
qed simp_all

lemma deliver_keeps:
  assumes base: "base_ok (sl_chain S) D PRUNING_WINDOW_SECONDS e0"
    and e0: "e0 = new_executor (sl_chain S) testnet_1bps s0 (sl_hash S (sim_genesis (empty_root (sl_chain S))))"
    and ok: "run_ok S config e0 D H (add_mset e (mset (m_queue m))) m" and t: "in_time m" and kind: "ev_kind e = Deliver to from msg"
    and small: "length H < PRUNING_WINDOW_SECONDS"
  shows "sim_handle S (ev_kind e) m \<noteq> None" "sim_handle S (ev_kind e) m = Some m' \<Longrightarrow> run_ok S config e0 D H (mset (m_queue m')) m'"
proof -
  let ?genesis = "sim_genesis (empty_root (sl_chain S))" let ?G = "insert ?genesis (set H)"
  let ?h = "on_message (sl_hash S) (structure_and_pow (sl_pow S)) (of_nat from) msg (m_now_ms m)" let ?m = "m\<lparr>m_delivered := m_delivered m + 1\<rparr>"
  from ok obtain B where B: "B (sl_hash S ?genesis) = []"
    and nodes: "nodes_ok S e0 D PRUNING_WINDOW_SECONDS ?genesis (sk_k config) (sk_mergeset_limit config) ?G B (m_nodes m)"
    and queue: "queue_ok (sl_hash S) (sk_nodes config) ?G B H (add_mset e (mset (m_queue m)))" and c: "m_config m = config" "length (m_nodes m) = sk_nodes config"
    by (auto simp: run_ok_def Let_def)
  have to: "to < length (m_nodes ?m)" and msg: "message_ok (sl_hash S) ?G B msg" using queue_okD(1)[OF queue, of e to "from" msg] kind c by simp_all
  obtain acts s where h: "?h (node_sync ?m to) = (acts, s)" by fastforce
  have sane: "sane (sl_hash S) ?genesis (sk_k config) (sk_mergeset_limit config) ?G B (node_sync ?m to)"
    using nodes to by (simp add: nodes_ok_def caught_up_def)
  have after: "sane (sl_hash S) ?genesis (sk_k config) (sk_mergeset_limit config) ?G B s" "sends_ok (sl_hash S) ?G B acts"
    using on_message_sane[OF sane msg B _ h] by simp_all
  have joins: "joins (sl_hash S) UNIV (node_sync ?m to) s" by (rule on_message_joins[OF h]) simp
  have nodes': "nodes_ok S e0 D PRUNING_WINDOW_SECONDS ?genesis (sk_k config) (sk_mergeset_limit config) ?G B (m_nodes ?m)" using nodes by simp
  note step = handler_step[where handler = ?h, OF base e0 B nodes' to h after(1) joins mined_card[OF small]]
  from step(1) kind show "sim_handle S (ev_kind e) m \<noteq> None" by (simp add: sim_handle_def)
  assume "sim_handle S (ev_kind e) m = Some m'"
  then have noted: "note_changes S to (act_on to ?h ?m) = Some m'" using kind by (simp add: sim_handle_def)
  have "in_time ?m" using t by (simp add: in_time_def)
  note q = handler_queue[where handler = ?h, OF this h after(2) noted]
  from q(1) obtain new where "mset (m_queue m') = mset (m_queue m) + new" "deliveries (sl_hash S) (sk_nodes config) ?G B new" using c by auto
  then have "queue_ok (sl_hash S) (sk_nodes config) ?G B H (mset (m_queue m'))" using queue_ok_more[OF queue_ok_less(1)[OF queue]] by simp
  with step(2,3)[OF noted] q(3) c B show "run_ok S config e0 D H (mset (m_queue m')) m'" by (auto simp: run_ok_def Let_def)
qed

lemma tick_keeps:
  assumes ok: "run_ok S config e0 D H (add_mset e (mset (m_queue m))) m" and t: "in_time m" and kind: "ev_kind e = Tick i"
    and run: "sim_handle S (ev_kind e) m = Some m'"
  shows "run_ok S config e0 D H (mset (m_queue m')) m'"
proof -
  let ?genesis = "sim_genesis (empty_root (sl_chain S))" let ?G = "insert ?genesis (set H)" let ?h = "on_tick (m_now_ms m)"
  from ok obtain B where B: "B (sl_hash S ?genesis) = []"
    and nodes: "nodes_ok S e0 D PRUNING_WINDOW_SECONDS ?genesis (sk_k config) (sk_mergeset_limit config) ?G B (m_nodes m)"
    and queue: "queue_ok (sl_hash S) (sk_nodes config) ?G B H (add_mset e (mset (m_queue m)))" and c: "m_config m = config" "length (m_nodes m) = sk_nodes config"
    by (auto simp: run_ok_def Let_def)
  have i: "i < sk_nodes config" using queue_okD(2)[OF queue, of e i] kind by simp
  obtain acts s where h: "?h (node_sync m i) = (acts, s)" by fastforce
  let ?a = "act_on i ?h m"
  have m': "m' = schedule_tick i ?a" using run kind by (simp add: sim_handle_def)
  have "kept (m_nodes m ! i) ((m_nodes m ! i)\<lparr>x_sync := s\<rparr>)" using on_tick_same[OF h] by (simp add: kept_def)
  then have kept: "all_kept (m_nodes m) (m_nodes ?a)"
    using all_kept_trans[OF all_kept_set act_on_kept[where handler = ?h, OF h]] i c by simp
  let ?P = "\<lambda>e. ahead (m_config m) (m_now_ms m) e \<and> delivery (length (m_nodes m)) i (sent acts) (ev_kind e)"
  have p: "pushes ?P m ?a" by (rule act_on_pushes[where handler = ?h, OF t h])
  then obtain new where new: "mset (m_queue ?a) = mset (m_queue m) + new" "\<forall>e \<in># new. ?P e" by (auto simp: pushes_def)
  have "deliveries (sl_hash S) (sk_nodes config) ?G B new"
    using new(2) no_blocks_sends_ok[OF on_tick_no_blocks[OF h]] c by (fastforce simp: deliveries_def delivery_def)
  then have "queue_ok (sl_hash S) (sk_nodes config) ?G B H (mset (m_queue ?a))" using queue_ok_more[OF queue_ok_less(1)[OF queue]] new(1) by simp
  then have "queue_ok (sl_hash S) (sk_nodes config) ?G B H (mset (m_queue m'))"
    unfolding m' using queue_ok_tick[OF _ _ i] by (simp add: schedule_tick_def sim_push_def Let_def mset_heap_push)
  moreover have "m_config m' = config" "length (m_nodes m') = sk_nodes config"
    using p c m' by (simp_all add: pushes_def schedule_tick_def sim_push_def Let_def)
  moreover have "nodes_ok S e0 D PRUNING_WINDOW_SECONDS ?genesis (sk_k config) (sk_mergeset_limit config) ?G B (m_nodes m')"
    using nodes_ok_kept[OF nodes kept] m' by simp
  ultimately show ?thesis using B by (auto simp: run_ok_def Let_def)
qed

text \<open>A mined block is new: no header mined before has its miner and its time, so its hash is fresh.\<close>

lemma mined_fresh:
  assumes queue: "queue_ok hash n G B H (add_mset e q)" and kind: "ev_kind e = Mine i" and n: "n \<le> 255"
    and hdr: "h_miner hdr = miner_address i" "h_timestamp_ms hdr = ev_at_ms e"
  shows "hdr \<notin> set H"
proof
  assume "hdr \<in> set H"
  from queue_okD(5)[OF queue this] obtain j where j: "j < n" "h_miner hdr = miner_address j"
    "\<forall>x \<in># add_mset e q. ev_kind x = Mine j \<longrightarrow> unat (h_timestamp_ms hdr) < unat (ev_at_ms x)" by blast
  have "i < n" using queue_okD(2)[OF queue, of e i] kind by simp
  then have "j = i" using miner_address_inj[of j i] j(1,2) hdr(1) n by simp
  with j(3) kind hdr(2) show False by auto
qed

lemma mine_keeps:
  assumes base: "base_ok (sl_chain S) D PRUNING_WINDOW_SECONDS e0"
    and e0: "e0 = new_executor (sl_chain S) testnet_1bps s0 (sl_hash S (sim_genesis (empty_root (sl_chain S))))"
    and ok: "run_ok S config e0 D H (add_mset e (mset (m_queue m))) m" and t: "in_time m" "m_now_ms m = ev_at_ms e" and kind: "ev_kind e = Mine i"
    and mined: "mined_header S i m = Some hdr" and m1: "make_transactions (sl_wallet S) i (sk_txs_per_block (m_config m)) m = Some (txs, m1)"
    and small: "length (hdr # H) < PRUNING_WINDOW_SECONDS"
    and n: "sk_nodes config \<le> 255" and inj: "inj_on (sl_hash S) (insert (sim_genesis (empty_root (sl_chain S))) (set (hdr # H)))"
  shows "mine_one S i m \<noteq> None"
    "mine_one S i m = Some m' \<Longrightarrow> \<exists>B q. B (sl_hash S (sim_genesis (empty_root (sl_chain S)))) = [] \<and>
      nodes_ok S e0 D PRUNING_WINDOW_SECONDS (sim_genesis (empty_root (sl_chain S))) (sk_k config) (sk_mergeset_limit config)
        (insert (sim_genesis (empty_root (sl_chain S))) (set (hdr # H))) B (m_nodes m') \<and>
      mset (m_queue m') = q \<and> queue_ok (sl_hash S) (sk_nodes config) (insert (sim_genesis (empty_root (sl_chain S))) (set (hdr # H))) B H (add_mset e q)"
    "mine_one S i m = Some m' \<Longrightarrow> in_time m' \<and> m_config m' = config \<and> m_now_ms m' = m_now_ms m \<and> length (m_nodes m') = sk_nodes config"
proof -
  let ?genesis = "sim_genesis (empty_root (sl_chain S))" let ?G = "insert ?genesis (set H)" let ?G' = "insert ?genesis (set (hdr # H))"
  from ok obtain B where B: "B (sl_hash S ?genesis) = []"
    and nodes: "nodes_ok S e0 D PRUNING_WINDOW_SECONDS ?genesis (sk_k config) (sk_mergeset_limit config) ?G B (m_nodes m)"
    and queue: "queue_ok (sl_hash S) (sk_nodes config) ?G B H (add_mset e (mset (m_queue m)))" and c: "m_config m = config" "length (m_nodes m) = sk_nodes config"
    by (auto simp: run_ok_def Let_def)
  have i: "i < sk_nodes config" using queue_okD(2)[OF queue, of e i] kind by simp
  have "x_miner (m_nodes m ! i) = miner_address i" using nodes i c by (simp add: nodes_ok_def)
  then have fields: "h_parents hdr \<noteq> []" "h_timestamp_ms hdr = ev_at_ms e" "h_miner hdr = miner_address i"
    using mined_header_fields[OF mined] t(2) by simp_all
  have "hdr \<notin> set H" by (rule mined_fresh[OF queue kind n fields(3,2)])
  moreover have "hdr \<noteq> ?genesis" using fields(1) by (auto simp: sim_genesis_def sim_header_def)
  ultimately have "hdr \<notin> ?G" by simp
  then have fresh: "sl_hash S hdr \<notin> sl_hash S ` ?G" using inj by (auto simp: inj_on_def)
  let ?b = "\<lparr>bp_header = hdr, bp_transactions = txs\<rparr>" let ?h = "on_local_block (sl_hash S) ?b" let ?m = "m1\<lparr>m_mined := m_mined m1 + 1\<rparr>"
  define B' where "B' = B(sl_hash S hdr := txs)"
  have "B' h = B h" if "h \<in> sl_hash S ` ?G" for h using fresh that by (cases "h = sl_hash S hdr") (simp_all add: B'_def)
  then have B': "\<forall>h \<in> sl_hash S ` ?G. B' h = B h" "B' (sl_hash S ?genesis) = []" using B by simp_all
  have q1: "pushes P m ?m" "m_queue ?m = m_queue m" for P
    using make_transactions_quiet[OF m1, of P] pushes_trans[OF _ pushes_quiet, of P m m1 ?m] by simp_all
  have c1: "length (m_nodes ?m) = length (m_nodes m)" "m_config ?m = m_config m" "m_now_ms ?m = m_now_ms m"
    using q1(1)[of "\<lambda>_. True"] by (simp_all add: pushes_def)
  have kept: "all_kept (m_nodes m) (m_nodes ?m)"
    using make_transactions_quiet[OF m1] c1(1) by (auto simp: all_kept_def list_all2_conv_all_nth kept_def same_fields_def)
  have grown: "nodes_ok S e0 D PRUNING_WINDOW_SECONDS ?genesis (sk_k config) (sk_mergeset_limit config) ?G' B' (m_nodes m)"
    using nodes caught_up_mono[of S e0 D PRUNING_WINDOW_SECONDS ?genesis "sk_k config" "sk_mergeset_limit config" ?G B _ ?G' B'] B'(1)
    by (fastforce simp: nodes_ok_def)
  note nodes1 = nodes_ok_kept[OF grown kept]
  have i1: "i < length (m_nodes ?m)" using i c c1 by simp
  obtain acts s where h: "?h (node_sync ?m i) = (acts, s)" by fastforce
  have pay: "payload_ok (sl_hash S) ?G' B' ?b" by (simp add: payload_ok_def B'_def)
  have sane: "sane (sl_hash S) ?genesis (sk_k config) (sk_mergeset_limit config) ?G' B' (node_sync ?m i)"
    using nodes1 i1 by (simp add: nodes_ok_def caught_up_def)
  have joins: "joins (sl_hash S) UNIV (node_sync ?m i) s" by (rule on_local_block_joins[OF h]) simp
  have one: "mine_one S i m = note_changes S i (act_on i ?h ?m)" by (simp add: mine_one_def mined m1)
  note step = handler_step[where handler = ?h, OF base e0 B'(2) nodes1 i1 h on_local_block_sane[OF sane pay h] joins mined_card[OF small]]
  from step(1) one show "mine_one S i m \<noteq> None" by simp
  assume "mine_one S i m = Some m'"
  then have noted: "note_changes S i (act_on i ?h ?m) = Some m'" using one by simp
  note q = handler_queue[where handler = ?h and hash = "sl_hash S" and G = "?G'" and B = B', OF pushes_in_time[OF q1(1) t(1)] h
      no_blocks_sends_ok[OF on_local_block_no_blocks[OF h]] noted]
  from q(1) obtain new where new: "mset (m_queue m') = mset (m_queue m) + new" "deliveries (sl_hash S) (sk_nodes config) ?G' B' new"
    using c c1 q1(2) by auto
  have "queue_ok (sl_hash S) (sk_nodes config) ?G' B' H (add_mset e (mset (m_queue m)))"
    by (rule queue_ok_mono[OF queue _ B'(1)]) auto
  from queue_ok_more[OF this new(2)] new(1)
  have "queue_ok (sl_hash S) (sk_nodes config) ?G' B' H (add_mset e (mset (m_queue m')))" by simp
  with B'(2) step(2)[OF noted] show "\<exists>B q. B (sl_hash S ?genesis) = [] \<and>
      nodes_ok S e0 D PRUNING_WINDOW_SECONDS ?genesis (sk_k config) (sk_mergeset_limit config) ?G' B (m_nodes m') \<and>
      mset (m_queue m') = q \<and> queue_ok (sl_hash S) (sk_nodes config) ?G' B H (add_mset e q)" by blast
  show "in_time m' \<and> m_config m' = config \<and> m_now_ms m' = m_now_ms m \<and> length (m_nodes m') = sk_nodes config"
    using q(2-4) c c1 step(3)[OF noted] by simp
qed

lemma mine_turn_keeps:
  assumes base: "base_ok (sl_chain S) D PRUNING_WINDOW_SECONDS e0"
    and e0: "e0 = new_executor (sl_chain S) testnet_1bps s0 (sl_hash S (sim_genesis (empty_root (sl_chain S))))"
    and ok: "run_ok S config e0 D H (add_mset e (mset (m_queue m))) m" and t: "in_time m" "m_now_ms m = ev_at_ms e" and kind: "ev_kind e = Mine i"
    and run: "sim_handle S (ev_kind e) m = Some m'" and small: "length (mined_by S (ev_kind e) m @ H) < PRUNING_WINDOW_SECONDS" and n: "sk_nodes config \<le> 255"
    and inj: "inj_on (sl_hash S) (insert (sim_genesis (empty_root (sl_chain S))) (set (mined_by S (ev_kind e) m @ H)))"
  shows "run_ok S config e0 D (mined_by S (ev_kind e) m @ H) (mset (m_queue m')) m'"
proof -
  let ?genesis = "sim_genesis (empty_root (sl_chain S))" let ?hs = "mined_by S (ev_kind e) m" let ?G' = "insert ?genesis (set (?hs @ H))"
  from run kind obtain m1 where m1: "m' = schedule_next_mine i m1" "(if m_mining_enabled m then mine_one S i m else Some m) = Some m1"
    by (auto simp: sim_handle_def)
  have c: "m_config m = config" "length (m_nodes m) = sk_nodes config" using ok by (simp_all add: run_ok_def)
  obtain B where B: "B (sl_hash S ?genesis) = []"
      "nodes_ok S e0 D PRUNING_WINDOW_SECONDS ?genesis (sk_k config) (sk_mergeset_limit config) ?G' B (m_nodes m1)"
      "queue_ok (sl_hash S) (sk_nodes config) ?G' B H (add_mset e (mset (m_queue m1)))"
    and k: "in_time m1" "m_config m1 = config" "m_now_ms m1 = m_now_ms m" "length (m_nodes m1) = sk_nodes config"
  proof (cases "m_mining_enabled m \<and> mined_header S i m \<noteq> None")
    case True
    then obtain hdr where hdr: "mined_header S i m = Some hdr" by blast
    then have hs: "?hs = [hdr]" using True by (simp add: mined_by_def kind)
    have one: "mine_one S i m = Some m1" using m1(2) True by simp
    have inj': "inj_on (sl_hash S) (insert ?genesis (set (hdr # H)))" using inj by (simp add: hs)
    obtain txs m2 where txs: "make_transactions (sl_wallet S) i (sk_txs_per_block (m_config m)) m = Some (txs, m2)"
      using one hdr by (auto simp: mine_one_def split: option.splits)
    have small': "length (hdr # H) < PRUNING_WINDOW_SECONDS" using small by (simp add: hs)
    note k = mine_keeps(2,3)[OF base e0 ok t kind hdr txs small' n inj' one]
    from k(1) obtain B where "B (sl_hash S ?genesis) = []"
      "nodes_ok S e0 D PRUNING_WINDOW_SECONDS ?genesis (sk_k config) (sk_mergeset_limit config) (insert ?genesis (set (hdr # H))) B (m_nodes m1)"
      "queue_ok (sl_hash S) (sk_nodes config) (insert ?genesis (set (hdr # H))) B H (add_mset e (mset (m_queue m1)))" by blast
    with k(2) show ?thesis by (intro that[of B]) (simp_all add: hs)
  next
    case False
    then have "m1 = m" "?hs = []" using m1(2) by (auto simp: mined_by_def kind mine_one_def split: if_splits option.splits)
    moreover from ok obtain B where "B (sl_hash S ?genesis) = []"
      "nodes_ok S e0 D PRUNING_WINDOW_SECONDS ?genesis (sk_k config) (sk_mergeset_limit config) (insert ?genesis (set H)) B (m_nodes m)"
      "queue_ok (sl_hash S) (sk_nodes config) (insert ?genesis (set H)) B H (add_mset e (mset (m_queue m)))" by (auto simp: run_ok_def Let_def)
    ultimately show ?thesis using c t(1) by (intro that[of B]) simp_all
  qed
  have i: "i < sk_nodes config" using queue_okD(2)[OF B(3), of e i] kind by simp
  have miner: "x_miner (m_nodes m ! i) = miner_address i" using ok i c by (auto simp: run_ok_def Let_def nodes_ok_def)
  have fields: "h_parents h \<noteq> [] \<and> h_miner h = miner_address i \<and> h_timestamp_ms h = ev_at_ms e" if "h \<in> set ?hs" for h
  proof -
    have "mined_header S i m = Some h"
      using that unfolding mined_by_def kind event_kind.case by (cases "mined_header S i m"; cases "m_mining_enabled m") simp_all
    from mined_header_fields[OF this] t(2) miner show ?thesis by simp
  qed
  from schedule_next_mine_one[OF k(1), of i] obtain e' where e': "mset (m_queue m') = add_mset e' (mset (m_queue m1))" "ev_kind e' = Mine i"
    "unat (ev_at_ms e) < unat (ev_at_ms e')" using m1(1) k(3) t(2) by auto
  have "queue_ok (sl_hash S) (sk_nodes config) ?G' B (?hs @ H) (mset (m_queue m'))"
    using queue_ok_turn[OF B(3) kind e'(2,3) fields] e'(1) by simp
  moreover have "m_config m' = config" "m_nodes m' = m_nodes m1"
    using k(2) m1(1) by (simp_all add: schedule_next_mine_def sim_push_def Let_def split: prod.split)
  ultimately show ?thesis using B(1,2) k(4) by (auto simp: run_ok_def Let_def)
qed

end
