(* ===== verification/Sim_Start.thy ===== *)
theory Sim_Start
  imports Sim_Run
begin

text \<open>
  The invariant of a run holds from the start of a simulation on, handling an event never panics, and the event loops stay
  within the runs.
\<close>

section \<open>The start of a run\<close>

definition sim_base ::
  "('env, 'tx, 'res, 'log, 'code, 'signer, 'sig) sim_lib \<Rightarrow> (address, genesis_account) bmap \<Rightarrow> ('log, 'code) executor" where
  "sim_base S alloc = new_executor (sl_chain S) testnet_1bps (fold (load_account (sl_new_raw S) (sl_hash_slow S)) alloc new_state)
     (sl_hash S (sim_genesis (empty_root (sl_chain S))))"

lemma sim_base_ok:
  assumes "genesis_alloc W n = Some alloc" "evm_law D (sl_chain S)"
  shows "base_ok (sl_chain S) D PRUNING_WINDOW_SECONDS (sim_base S alloc)"
proof -
  have "coded D new_state" by (simp add: coded_def new_state_def)
  from plain_load(2)[OF genesis_alloc_plain[OF assms(1)] this] have "coded D (fold (load_account (sl_new_raw S) (sl_hash_slow S)) alloc new_state)" .
  from base_ok_new[OF presets_validate(1) assms(2) this] obtain window where b: "base_ok (sl_chain S) D window (sim_base S alloc)"
    unfolding sim_base_def by metis
  have "window = PRUNING_WINDOW_SECONDS" using base_okD(7)[OF b]
    by (simp add: sim_base_def new_executor_def testnet_1bps_def derived_defs param_consts)
  with b show ?thesis by simp
qed

lemma those_nth: "those xs = Some ys \<Longrightarrow> length ys = length xs \<and> (\<forall>i < length xs. xs ! i = Some (ys ! i))"
proof (induction xs arbitrary: ys)
  case (Cons x xs)
  then obtain y zs where "x = Some y" "those xs = Some zs" "ys = y # zs" by (auto split: option.splits)
  with Cons.IH[of zs] show ?case by (auto simp: nth_Cons split: nat.split)
qed simp

lemma new_node_caught_up:
  assumes base: "base_ok (sl_chain S) D PRUNING_WINDOW_SECONDS (sim_base S alloc)" and node: "new_sim_node S config alloc i = Some x"
    and B: "B (sl_hash S (sim_genesis (empty_root (sl_chain S)))) = []"
  shows "x_miner x = miner_address i"
    "caught_up S (sim_base S alloc) D PRUNING_WINDOW_SECONDS (sim_genesis (empty_root (sl_chain S))) (sk_k config) (sk_mergeset_limit config) G B x"
proof -
  let ?genesis = "sim_genesis (empty_root (sl_chain S))" let ?hash = "sl_hash S"
  let ?s = "new_dag ?hash ?genesis (sk_k config) (sk_mergeset_limit config)"
  have x: "x_sync x = new_sync ?s (new_config (?hash ?genesis))" "x_miner x = miner_address i" "x_bodies x = []" "x_executor x = sim_base S alloc"
    using node by (auto simp: new_sim_node_def Let_def load_genesis_def sim_base_def split: option.splits)
  then show "x_miner x = miner_address i" by simp
  have dr: "dag_reachable ?hash ?genesis (sk_k config) (sk_mergeset_limit config) ?s"
    by (rule dag_reachable.start) (simp add: sim_genesis_def sim_header_def)
  have g: "blocks ?s = {?hash ?genesis}" by (simp add: blocks_def)
  have tip: "e_tip (sim_base S alloc) = ?hash ?genesis" "virtual_selected_parent ?s = ?hash ?genesis"
    by (simp_all add: sim_base_def new_executor_def virtual_selected_parent_def dag_tips_def sort_by_def)
  have "selected_parent_chain ?s (?hash ?genesis) = [?hash ?genesis]"
    using selected_parent_chain_unfold[OF dag_okD(1,2)[OF reachable_ok[OF dr]], of "?hash ?genesis"] g by simp
  then have "chain_followed (sl_chain S) (sim_base S alloc) D PRUNING_WINDOW_SECONDS ?s [] (sim_base S alloc)"
    using g tracked_start[OF base] by (auto simp: chain_followed_def tip)
  moreover have "full_journal (sim_base S alloc)" by (simp add: full_journal_def sim_base_def new_executor_def)
  moreover have "sane ?hash ?genesis (sk_k config) (sk_mergeset_limit config) G B (new_sync ?s (new_config (?hash ?genesis)))"
    using dr by (simp add: sane_def new_sync_def keyed_def stored_headers_def new_dag_def Let_def)
  moreover have y: "y_dag (new_sync ?s c) = ?s" "y_accepted (new_sync ?s c) = []" for c by (simp_all add: new_sync_def)
  ultimately show "caught_up S (sim_base S alloc) D PRUNING_WINDOW_SECONDS ?genesis (sk_k config) (sk_mergeset_limit config) G B x"
    using B unfolding caught_up_def executed_def x
    by (simp add: tip g body_get_def decode_body_txs_def List.map_filter_def y)
qed

text \<open>The first turns: one mining event and one tick for each node.\<close>

lemma first_turns:
  assumes "distinct xs" "set xs \<subseteq> {..<n}" "in_time m" "queue_ok hash n G B [] (mset (m_queue m))"
    and "\<forall>i \<in> set xs. \<forall>e \<in># mset (m_queue m). ev_kind e \<noteq> Mine i"
  shows "let m' = fold (\<lambda>i m. schedule_tick i (schedule_next_mine i m)) xs m in
    queue_ok hash n G B [] (mset (m_queue m')) \<and> m_nodes m' = m_nodes m \<and> m_config m' = m_config m"
  using assms
proof (induction xs arbitrary: m)
  case (Cons i xs)
  let ?a = "schedule_next_mine i m" let ?b = "schedule_tick i ?a"
  have i: "i < n" using Cons.prems(2) by simp
  from schedule_next_mine_one[OF Cons.prems(3), of i] obtain e where e: "mset (m_queue ?a) = add_mset e (mset (m_queue m))" "ev_kind e = Mine i" by blast
  note Q = queue_okD[OF Cons.prems(4)]
  have none: "filter_mset (\<lambda>e. ev_kind e = Mine i) (mset (m_queue m)) = {#}" using Cons.prems(5) by (simp add: filter_mset_eq_conv)
  have "queue_ok hash n G B [] (mset (m_queue ?a))" unfolding e(1)
  proof (rule queue_okI)
    show "size (filter_mset (\<lambda>x. ev_kind x = Mine j) (add_mset e (mset (m_queue m)))) \<le> 1" for j
      using Q(3)[of j] none e(2) by (cases "j = i") simp_all
  qed (use Q(1,2) e(2) i in auto)
  moreover obtain t where t: "mset (m_queue ?b) = add_mset t (mset (m_queue ?a))" "ev_kind t = Tick i"
    by (simp add: schedule_tick_def sim_push_def Let_def mset_heap_push)
  ultimately have b: "queue_ok hash n G B [] (mset (m_queue ?b))" using queue_ok_tick[OF _ t(2) i] by simp
  have time: "in_time ?b" using pushes_in_time[OF schedule_next_mine_pushes[OF Cons.prems(3), of i] Cons.prems(3)]
      pushes_in_time[OF schedule_tick_pushes[of ?a i]] by simp
  have "\<forall>j \<in> set xs. \<forall>x \<in># mset (m_queue ?b). ev_kind x \<noteq> Mine j" using Cons.prems(1,5) e t by auto
  from Cons.IH[OF _ _ time b this] Cons.prems(1,2)
  have "let m' = fold (\<lambda>i m. schedule_tick i (schedule_next_mine i m)) xs ?b in
    queue_ok hash n G B [] (mset (m_queue m')) \<and> m_nodes m' = m_nodes ?b \<and> m_config m' = m_config ?b" by simp
  moreover have "m_config ?b = m_config m"
    by (simp add: schedule_tick_def schedule_next_mine_def sim_push_def Let_def split: prod.split)
  ultimately show ?case by (simp add: Let_def)
qed simp

lemma start_ok:
  assumes "new_simulation S config = Some m" "clear_of_wrap config GENESIS_MS" "evm_law D (sl_chain S)"
  obtains alloc where "genesis_alloc (sl_wallet S) (sk_nodes config) = Some alloc"
    "run_ok S config (sim_base S alloc) D [] (mset (m_queue m)) m"
proof -
  let ?genesis = "sim_genesis (empty_root (sl_chain S))" let ?n = "sk_nodes config" let ?G = "{?genesis}" and ?B = "\<lambda>_. [] :: octet list list"
  from assms(1) obtain alloc nodes where a: "genesis_alloc (sl_wallet S) ?n = Some alloc" "those (map (new_sim_node S config alloc) [0..<?n]) = Some nodes"
    by (auto simp: new_simulation_def split: option.splits)
  let ?m = "\<lparr>m_config = config, m_nodes = nodes, m_queue = [], m_rng = new_lcg (sk_seed config), m_now_ms = GENESIS_MS,
      m_sequence = 0, m_dropped = 0, m_delivered = 0, m_mined = 0, m_reorgs = 0, m_deepest_reorg = 0,
      m_mining_enabled = True, m_last_change_ms = GENESIS_MS, m_propagation = [], m_delays = []\<rparr>"
  have m: "m = schedule_initial_events (connect_all ?m)" using assms(1) a by (simp add: new_simulation_def)
  note those = those_nth[OF a(2)]
  let ?ok = "nodes_ok S (sim_base S alloc) D PRUNING_WINDOW_SECONDS ?genesis (sk_k config) (sk_mergeset_limit config) ?G ?B"
  have nodes: "?ok nodes" unfolding nodes_ok_def
  proof (intro allI impI)
    fix i assume "i < length nodes"
    then have "new_sim_node S config alloc i = Some (nodes ! i)" using those by simp
    from new_node_caught_up(1)[OF sim_base_ok[OF a(1) assms(3)] this refl] new_node_caught_up(2)[where B = ?B and G = ?G, OF sim_base_ok[OF a(1) assms(3)] this refl]
    show "x_miner (nodes ! i) = miner_address i \<and>
      caught_up S (sim_base S alloc) D PRUNING_WINDOW_SECONDS ?genesis (sk_k config) (sk_mergeset_limit config) ?G ?B (nodes ! i)" by simp
  qed
  let ?Q = "\<lambda>m. in_time m \<and> m_config m = config \<and> ?ok (m_nodes m) \<and> length (m_nodes m) = ?n \<and>
      queue_ok (sl_hash S) ?n ?G ?B [] (mset (m_queue m)) \<and> (\<forall>e \<in># mset (m_queue m). \<forall>i. ev_kind e \<noteq> Mine i)"
  have connect: "?Q (act_on i (on_connect p) m)" if q: "?Q m" and i: "i < ?n" for i p m
  proof -
    obtain acts s where h: "on_connect p (node_sync m i) = (acts, s)" by fastforce
    have "same_fields (node_sync m i) s" "sends_ok (sl_hash S) ?G ?B acts" using h by (auto simp: on_connect_def same_fields_def version_message_def message_ok_def)
    then have kept: "all_kept (m_nodes m) (m_nodes (act_on i (on_connect p) m))"
      using all_kept_trans[OF all_kept_set act_on_kept[where handler = "on_connect p", OF h]] i q by (simp add: kept_def)
    let ?P = "\<lambda>e. ahead (m_config m) (m_now_ms m) e \<and> delivery (length (m_nodes m)) i (sent acts) (ev_kind e)"
    have p: "pushes ?P m (act_on i (on_connect p) m)" using act_on_pushes[where handler = "on_connect p", OF _ h] q by blast
    then obtain new where new: "mset (m_queue (act_on i (on_connect p) m)) = mset (m_queue m) + new" "\<forall>e \<in># new. ?P e" by (auto simp: pushes_def)
    have "deliveries (sl_hash S) ?n ?G ?B new"
      using new(2) \<open>sends_ok (sl_hash S) ?G ?B acts\<close> q by (fastforce simp: deliveries_def delivery_def)
    with queue_ok_more q new(1) have "queue_ok (sl_hash S) ?n ?G ?B [] (mset (m_queue (act_on i (on_connect p) m)))" by metis
    moreover have "ev_kind e \<noteq> Mine j" if "e \<in># mset (m_queue (act_on i (on_connect p) m))" for e j
      using that q new by (auto simp: delivery_def)
    ultimately show ?thesis using q kept nodes_ok_kept pushes_in_time[OF p] p by (auto simp: pushes_def)
  qed
  have "?Q (fold (\<lambda>(i, j) m. if i = j then m else act_on i (on_connect (of_nat j)) m) (List.product [0..<length (m_nodes ?m)] [0..<length (m_nodes ?m)]) ?m)"
  proof (rule fold_invariant[where Q = "\<lambda>(i, j). i < ?n" and P = ?Q])
    show "?Q ?m" using nodes those assms(2) by (simp add: in_time_def clear_of_wrap_def queue_ok_def)
  qed (use connect those in \<open>auto split: prod.splits\<close>)
  then have q: "?Q (connect_all ?m)" by (simp add: connect_all_def)
  have "let m' = m in queue_ok (sl_hash S) ?n ?G ?B [] (mset (m_queue m')) \<and> m_nodes m' = m_nodes (connect_all ?m) \<and> m_config m' = m_config (connect_all ?m)"
    unfolding m schedule_initial_events_def by (rule first_turns) (use q in auto)
  with q have "run_ok S config (sim_base S alloc) D [] (mset (m_queue m)) m" by (auto simp: run_ok_def Let_def)
  with a(1) show ?thesis by (rule that)
qed

lemma sim_reaches_ok:
  assumes "evm_law D (sl_chain S)" "sk_nodes config \<le> 255" "genesis_alloc (sl_wallet S) (sk_nodes config) = Some alloc"
  shows "sim_reaches S config m H \<Longrightarrow> inj_on (sl_hash S) (insert (sim_genesis (empty_root (sl_chain S))) (set H)) \<Longrightarrow>
    length H < PRUNING_WINDOW_SECONDS \<Longrightarrow> run_ok S config (sim_base S alloc) D H (mset (m_queue m)) m"
proof (induction rule: sim_reaches.induct)
  case (start m)
  from start_ok[OF start(1,2) assms(1)] assms(3) show ?case by (metis option.inject)
next
  case (event m H e q m')
  let ?m = "m\<lparr>m_queue := q, m_now_ms := ev_at_ms e\<rparr>"
  have "inj_on (sl_hash S) (insert (sim_genesis (empty_root (sl_chain S))) (set H))" by (rule inj_on_subset[OF event.prems(1)]) auto
  moreover have len: "length H < PRUNING_WINDOW_SECONDS" using event.prems(2) by simp
  ultimately have "run_ok S config (sim_base S alloc) D H (mset (m_queue m)) m" by (rule event.IH)
  with event(2) have ok: "run_ok S config (sim_base S alloc) D H (add_mset e (mset (m_queue ?m))) ?m" by (simp add: run_ok_def)
  have t: "in_time ?m" "m_now_ms ?m = ev_at_ms e" using ok event(3) by (simp_all add: in_time_def run_ok_def clear_of_wrap_def)
  note base = sim_base_ok[OF assms(3,1)] and e0 = sim_base_def[of S alloc]
  show ?case
  proof (cases "ev_kind e")
    case (Deliver to sender msg)
    with deliver_keeps(2)[OF base e0 ok t(1) Deliver len event(4)] show ?thesis by (simp add: mined_by_def)
  next
    case (Tick i)
    with tick_keeps[OF ok t(1) Tick event(4)] show ?thesis by (simp add: mined_by_def)
  next
    case (Mine i)
    from mine_turn_keeps[OF base e0 ok t Mine event(4) event.prems(2) assms(2) event.prems(1)] show ?thesis .
  qed
qed (simp_all add: run_ok_def)

lemma sim_reaches_alloc: "sim_reaches S config m H \<Longrightarrow> \<exists>alloc. genesis_alloc (sl_wallet S) (sk_nodes config) = Some alloc"
  by (induction rule: sim_reaches.induct) (auto simp: new_simulation_def split: option.splits)

lemma run_is_ok:
  assumes "evm_law D (sl_chain S)" "sk_nodes config \<le> 255" "sim_reaches S config m H"
    and "inj_on (sl_hash S) (insert (sim_genesis (empty_root (sl_chain S))) (set H))" "length H < PRUNING_WINDOW_SECONDS"
  obtains alloc where "genesis_alloc (sl_wallet S) (sk_nodes config) = Some alloc"
    "run_ok S config (sim_base S alloc) D H (mset (m_queue m)) m" "base_ok (sl_chain S) D PRUNING_WINDOW_SECONDS (sim_base S alloc)"
proof -
  from sim_reaches_alloc[OF assms(3)] obtain alloc where alloc: "genesis_alloc (sl_wallet S) (sk_nodes config) = Some alloc" by blast
  show ?thesis by (rule that[OF alloc sim_reaches_ok[OF assms(1,2) alloc assms(3-5)] sim_base_ok[OF alloc assms(1)]])
qed

section \<open>No panics\<close>

lemma make_transaction_total:
  assumes sign: "\<And>signer h. wl_sign_hash W signer h \<noteq> None" and keys: "\<And>i. i < n * 4 \<Longrightarrow> from_index W (of_nat i) \<noteq> None"
    and n: "0 < n" "n \<le> 255" "length (m_nodes m) = n"
  shows "make_transaction W node m \<noteq> None"
proof -
  obtain w g where w: "below WALLETS_PER_NODE (m_rng m) = (w, g)" by fastforce
  let ?bound = "of_nat (length (m_nodes m)) * WALLETS_PER_NODE"
  obtain r g' where r: "below ?bound g = (r, g')" by fastforce
  obtain v g'' where v: "between 1 1000 g' = (v, g'')" by fastforce
  have "unat ?bound = n * 4" using n by (simp add: WALLETS_PER_NODE_def unat_word_ariths unat_of_nat take_bit_eq_mod)
  moreover have "0 < ?bound" using calculation n(1) by (simp add: word_gt_0) (metis mult_is_0 neq0_conv unsigned_0 zero_neq_numeral)
  ultimately have "unat r < n * 4" using below_less[OF r] by (simp add: word_less_nat_alt)
  from keys[OF this] obtain wallet where "from_index W r = Some wallet" by auto
  with sign show ?thesis by (auto simp: make_transaction_def w r v Let_def signed_transfer_def split: option.split)
qed

lemma make_transactions_total:
  assumes sign: "\<And>signer h. wl_sign_hash W signer h \<noteq> None" and keys: "\<And>i. i < n * 4 \<Longrightarrow> from_index W (of_nat i) \<noteq> None"
    and n: "0 < n" "n \<le> 255"
  shows "length (m_nodes m) = n \<Longrightarrow> make_transactions W node left m \<noteq> None"
proof (induction left arbitrary: m)
  case (Suc left)
  from make_transaction_total[OF sign keys n Suc.prems, of node] obtain tx m1 where 1: "make_transaction W node m = Some (tx, m1)" by auto
  have "length (m_nodes m1) = n"
    using make_transactions_quiet[of W node 1 m "[tx]" m1 "\<lambda>_. True"] 1 Suc.prems by (simp add: pushes_def)
  from Suc.IH[OF this] show ?case by (auto simp: 1 split: option.split)
qed simp

lemma genesis_alloc_keys: "genesis_alloc W n = Some alloc \<Longrightarrow> i < n * 4 \<Longrightarrow> from_index W (of_nat i) \<noteq> None"
  using those_nth[of "map (\<lambda>i. from_index W (of_nat i)) [0..<n * 4]"] by (auto simp: genesis_alloc_def)

lemma handle_total:
  assumes law: "evm_law D (sl_chain S)" and n: "sk_nodes config \<le> 255" and run: "sim_reaches S config m H"
    and step: "m_queue m = e # q" "clear_of_wrap config (ev_at_ms e)"
    and inj: "inj_on (sl_hash S) (insert (sim_genesis (empty_root (sl_chain S))) (set (mined_by S (ev_kind e) (m\<lparr>m_queue := q, m_now_ms := ev_at_ms e\<rparr>) @ H)))"
    and len: "length H + 1 < PRUNING_WINDOW_SECONDS" and sign: "\<And>signer h. wl_sign_hash (sl_wallet S) signer h \<noteq> None"
  shows "sim_handle S (ev_kind e) (m\<lparr>m_queue := q, m_now_ms := ev_at_ms e\<rparr>) \<noteq> None"
proof -
  let ?m = "m\<lparr>m_queue := q, m_now_ms := ev_at_ms e\<rparr>"
  have "inj_on (sl_hash S) (insert (sim_genesis (empty_root (sl_chain S))) (set H))" by (rule inj_on_subset[OF inj]) auto
  from run_is_ok[OF law n run this] len obtain alloc where alloc: "genesis_alloc (sl_wallet S) (sk_nodes config) = Some alloc"
    and run: "run_ok S config (sim_base S alloc) D H (mset (m_queue m)) m" and base: "base_ok (sl_chain S) D PRUNING_WINDOW_SECONDS (sim_base S alloc)"
    by auto
  from run step(1) have ok: "run_ok S config (sim_base S alloc) D H (add_mset e (mset (m_queue ?m))) ?m" by (simp add: run_ok_def)
  have t: "in_time ?m" "m_now_ms ?m = ev_at_ms e" using ok step(2) by (simp_all add: in_time_def run_ok_def clear_of_wrap_def)
  note e0 = sim_base_def[of S alloc]
  show ?thesis
  proof (cases "ev_kind e")
    case (Deliver to sender msg)
    from len have "length H < PRUNING_WINDOW_SECONDS" by simp
    from deliver_keeps(1)[OF base e0 ok t(1) Deliver this] show ?thesis .
  next
    case (Tick i)
    then show ?thesis by (simp add: sim_handle_def)
  next
    case (Mine i)
    have "mine_one S i ?m \<noteq> None" if on: "m_mining_enabled ?m"
    proof (cases "mined_header S i ?m")
      case (Some hdr)
      have c: "m_config ?m = config" "length (m_nodes ?m) = sk_nodes config" using ok by (simp_all add: run_ok_def)
      have "i < sk_nodes config" using ok queue_okD(2)[of _ _ _ _ _ "add_mset e (mset (m_queue ?m))" e i] Mine by (auto simp: run_ok_def Let_def)
      then have "0 < sk_nodes config" by simp
      from make_transactions_total[OF sign genesis_alloc_keys[OF alloc] this n c(2), of i] obtain txs m1
        where txs: "make_transactions (sl_wallet S) i (sk_txs_per_block (m_config ?m)) ?m = Some (txs, m1)" by fastforce
      have by_: "mined_by S (ev_kind e) ?m = [hdr]" using on Some by (simp add: mined_by_def Mine)
      have "inj_on (sl_hash S) (insert (sim_genesis (empty_root (sl_chain S))) (set (hdr # H)))" using inj by (simp add: by_)
      moreover have "length (hdr # H) < PRUNING_WINDOW_SECONDS" using len by simp
      ultimately show ?thesis using mine_keeps(1)[OF base e0 ok t Mine Some txs _ n] by blast
    qed (simp add: mine_one_def)
    with Mine show ?thesis by (simp add: sim_handle_def)
  qed
qed

section \<open>The event loops\<close>

lemma clear_earlier: "clear_of_wrap config t \<Longrightarrow> u \<le> t \<Longrightarrow> clear_of_wrap config u"
  by (auto simp: clear_of_wrap_def word_le_nat_alt)

lemma step_reaches:
  assumes "sim_reaches S config m H" "m_queue m = e # q" "clear_of_wrap config t" "ev_at_ms e \<le> t"
    and "sim_handle S (ev_kind e) (m\<lparr>m_queue := q, m_now_ms := ev_at_ms e\<rparr>) = Some m'"
  shows "\<exists>H'. sim_reaches S config m' (H' @ H)"
  using sim_reaches.event[OF assms(1,2) clear_earlier[OF assms(3,4)] assms(5)] by blast

lemma put_back_reaches:
  "sim_reaches S config m H \<Longrightarrow> m_queue m = e # q \<Longrightarrow> \<exists>H'. sim_reaches S config (m\<lparr>m_queue := heap_push e q\<rparr>) (H' @ H)"
  using sim_reaches.reorder[of S config m H "heap_push e q"] by (intro exI[of _ "[]"]) (simp add: mset_heap_push)

lemma run_loop_reaches:
  assumes "run_loop S deadline m = Some r" "sim_reaches S config m H" "clear_of_wrap config deadline" "r = Some m'"
  shows "\<exists>H'. sim_reaches S config m' (H' @ H)"
  using assms(2-4)
proof (induction S deadline m r arbitrary: H rule: run_loop.raw_induct)
  case (1 loop S deadline m r)
  show ?case
  proof (cases "m_queue m")
    case Nil
    with 1(2-5) show ?thesis by (intro exI[of _ "[]"]) simp
  next
    case (Cons e q)
    let ?r = "sim_handle S (ev_kind e) (m\<lparr>m_queue := q, m_now_ms := ev_at_ms e\<rparr>)"
    show ?thesis
    proof (cases "ev_at_ms e > deadline")
      case True
      with 1(2-5) Cons put_back_reaches[OF 1(3) Cons] show ?thesis by simp
    next
      case False
      then have le: "ev_at_ms e \<le> deadline" by simp
      from 1(2,5) False Cons obtain m1 where m1: "?r = Some m1" "loop S deadline m1 = Some (Some m')" by (auto split: option.splits)
      from step_reaches[OF 1(3) Cons 1(4) le m1(1)] obtain H1 where "sim_reaches S config m1 (H1 @ H)" by blast
      from 1(1)[OF m1(2) this 1(4) refl] show ?thesis by (metis append.assoc)
    qed
  qed
qed (rule assms(1))

lemma quiesce_loop_reaches:
  assumes "quiesce_loop S deadline m = Some r" "sim_reaches S config m H" "clear_of_wrap config deadline" "r = Some m'"
  shows "\<exists>H'. sim_reaches S config m' (H' @ H)"
  using assms(2-4)
proof (induction S deadline m r arbitrary: H rule: quiesce_loop.raw_induct)
  case (1 loop S deadline m r)
  show ?case
  proof (cases "m_now_ms m < deadline \<and> \<not> settled m \<and> m_queue m \<noteq> []")
    case False
    with 1(2-5) show ?thesis by (intro exI[of _ "[]"]) (auto split: if_splits list.splits)
  next
    case True
    then obtain e q where Cons: "m_queue m = e # q" by (cases "m_queue m") auto
    let ?r = "sim_handle S (ev_kind e) (m\<lparr>m_queue := q, m_now_ms := ev_at_ms e\<rparr>)"
    show ?thesis
    proof (cases "ev_at_ms e > deadline")
      case late: True
      with 1(2-5) Cons True put_back_reaches[OF 1(3) Cons] show ?thesis by simp
    next
      case False
      then have le: "ev_at_ms e \<le> deadline" by simp
      from 1(2,5) False True Cons obtain m1 where m1: "?r = Some m1" "loop S deadline m1 = Some (Some m')" by (auto split: option.splits)
      from step_reaches[OF 1(3) Cons 1(4) le m1(1)] obtain H1 where "sim_reaches S config m1 (H1 @ H)" by blast
      from 1(1)[OF m1(2) this 1(4) refl] show ?thesis by (metis append.assoc)
    qed
  qed
qed (rule assms(1))

end
