(* ===== verification/Sim_Props.thy ===== *)
theory Sim_Props
  imports Sim_Start
begin

text \<open>
  The simulation's own verdicts: the walk over a DAG finds exactly its blocks, \<open>divergence\<close> reports a difference
  in block sets, and nodes with the same blocks have executed to the same state, so \<open>state_divergence\<close> reports nothing.
\<close>

section \<open>The walk over a DAG\<close>

lemma stored_parents: "map_of (s_headers dag) h = Some hdr \<Longrightarrow> parents_of dag h = h_parents hdr"
  by (simp add: parents_of_def)

lemma block_walk_set:
  "topology_ok dag \<Longrightarrow> set stack \<subseteq> blocks dag \<Longrightarrow> set seen \<subseteq> blocks dag \<Longrightarrow> \<forall>h \<in> set seen. set (parents_of dag h) \<subseteq> set seen \<union> set stack \<Longrightarrow>
    (let r = set (block_walk dag stack seen) in r \<subseteq> blocks dag \<and> set seen \<union> set stack \<subseteq> r \<and> (\<forall>h \<in> r. set (parents_of dag h) \<subseteq> r))"
proof (induction dag stack seen rule: block_walk.induct)
  case (2 dag h stack seen)
  show ?case
  proof (cases "h \<in> set seen")
    case True
    have "let r = set (block_walk dag stack seen) in r \<subseteq> blocks dag \<and> set seen \<union> set stack \<subseteq> r \<and> (\<forall>h \<in> r. set (parents_of dag h) \<subseteq> r)"
    proof (rule 2(1)[OF True 2(4)])
      have "set (h # stack) \<union> set seen = set stack \<union> set seen" using True by auto
      with 2(5-7) show "set stack \<subseteq> blocks dag" "set seen \<subseteq> blocks dag" "\<forall>h \<in> set seen. set (parents_of dag h) \<subseteq> set seen \<union> set stack"
        by (simp_all add: Un_commute)
    qed
    with True show ?thesis by (auto simp: Let_def)
  next
    case False
    have h: "h \<in> blocks dag" using 2(5) by simp
    from header_of_block[OF h] obtain hdr where hdr: "dag_header dag h = Some hdr" by (auto simp: dag_header_def)
    have ps: "parents_of dag h = h_parents hdr" using hdr by (simp add: dag_header_def stored_parents)
    let ?stack = "rev (h_parents hdr) @ stack"
    have "set ?stack \<subseteq> blocks dag" using parents_in_blocks[OF 2(4), of _ h] ps 2(5) by auto
    moreover have "set (h # seen) \<subseteq> blocks dag" using h 2(6) by simp
    moreover have "\<forall>x \<in> set (h # seen). set (parents_of dag x) \<subseteq> set (h # seen) \<union> set ?stack" using 2(7) ps by auto
    ultimately have "let r = set (block_walk dag ?stack (h # seen)) in
        r \<subseteq> blocks dag \<and> set (h # seen) \<union> set ?stack \<subseteq> r \<and> (\<forall>h \<in> r. set (parents_of dag h) \<subseteq> r)"
      using 2(3)[OF False hdr 2(4)] by blast
    with False hdr show ?thesis by (auto simp: Let_def)
  qed
qed (auto simp: Let_def)

lemma block_set_blocks:
  assumes "dag_ok hash dag"
  shows "set (block_set dag) = blocks dag"
proof -
  note dag = dag_okD[OF assms]
  have tips: "set (dag_tips dag) = set (s_tips dag)" "set (s_tips dag) \<subseteq> blocks dag" using dag(5) by (auto simp: dag_tips_def tips_ok_def)
  let ?r = "set (block_set dag)"
  have r: "?r \<subseteq> blocks dag" "set (s_tips dag) \<subseteq> ?r" "\<forall>h \<in> ?r. set (parents_of dag h) \<subseteq> ?r"
    using block_walk_set[OF dag(1), of "rev (dag_tips dag)" "[]"] tips by (simp_all add: block_set_def Let_def)
  have down: "a \<in> ?r" if "(d, a) \<in> (parent_rel dag)\<^sup>*" "d \<in> ?r" for a d
    using that by (induction rule: rtrancl_induct) (use r(3) in \<open>auto simp: parent_rel_def\<close>)
  have "b \<in> ?r" if "b \<in> blocks dag" for b
    using below_a_tip[OF assms that] down r(2) by (auto simp: ancestor_def)
  with r(1) show ?thesis by blast
qed

lemma first_report_None: "first_report f is = None \<longleftrightarrow> (\<forall>i \<in> set is. f i = None)"
  by (induction "is") (auto split: option.split)

lemma first_report_cong: "(\<And>i. i \<in> set is \<Longrightarrow> f i = g i) \<Longrightarrow> first_report f is = first_report g is"
  by (induction "is") (auto split: option.split)

section \<open>Nodes with the same blocks\<close>

lemma divergence_cases:
  "divergence m = Some r \<longleftrightarrow> m_nodes m \<noteq> [] \<and>
     r = first_report (\<lambda>i. check_dag (y_dag (node_sync m 0)) (y_dag (node_sync m i)) i) [1..<length (m_nodes m)]"
  by (auto simp: divergence_def nth_Cons' split: list.splits)

text \<open>The report a node's blocks alone decide.\<close>

definition blocks_report :: "dag_store \<Rightarrow> dag_store \<Rightarrow> nat \<Rightarrow> divergence_report option" where
  "blocks_report s t i =
     (if blocks t = blocks s then None
      else Some (BlockSetDiffers i (card (blocks s - blocks t)) (card (blocks t - blocks s)) (card (blocks s)) (card (blocks t))))"

lemma check_dag_exact:
  assumes dr: "dag_reachable hash genesis k limit s" "dag_reachable hash genesis k limit t"
    and inj: "inj_on hash (stored_headers s \<union> stored_headers t)"
  shows "check_dag s t i = blocks_report s t i"
proof -
  note ok = reachable_ok[OF dr(1)] reachable_ok[OF dr(2)]
  have "virtual_selected_parent t = virtual_selected_parent s \<and>
      selected_parent_chain t (virtual_selected_parent t) = selected_parent_chain s (virtual_selected_parent s)" if bl: "blocks s = blocks t"
  proof -
    have agr: "agree (blocks s) s t" by (rule equal_blocks_agree[OF dr bl inj])
    have "virtual_selected_parent t = virtual_selected_parent s" using same_tip[OF ok agr bl] by simp
    with agree_chain[OF agr dag_okD(1,2)[OF ok(1)] dag_okD(1,2)[OF ok(2)] virtual_selected_parent_in[OF ok(1)]] show ?thesis by simp
  qed
  then show ?thesis by (auto simp: check_dag_def blocks_report_def Let_def block_set_blocks[OF ok(1)] block_set_blocks[OF ok(2)])
qed

lemma check_state_None:
  "e_height e = e_height e' \<Longrightarrow> e_results e = e_results e' \<Longrightarrow> check_state e e' i = None"
  by (auto simp: check_state_def first_report_None state_root_at_def result_at_def option.case_eq_if)

text \<open>Two nodes of a run, and what the invariant says of them.\<close>

lemma run_nodes:
  assumes "run_ok S config e0 D H q m" "i < length (m_nodes m)"
  shows "dag_reachable (sl_hash S) (sim_genesis (empty_root (sl_chain S))) (sk_k config) (sk_mergeset_limit config) (y_dag (node_sync m i))"
    "stored_headers (y_dag (node_sync m i)) \<subseteq> insert (sim_genesis (empty_root (sl_chain S))) (set H)"
    "e_tip (x_executor (m_nodes m ! i)) = virtual_selected_parent (y_dag (node_sync m i))"
    "chain_followed (sl_chain S) e0 D PRUNING_WINDOW_SECONDS (y_dag (node_sync m i)) (x_bodies (m_nodes m ! i)) (x_executor (m_nodes m ! i))"
  using assms by (auto simp: run_ok_def nodes_ok_def Let_def caught_up_def sane_def executed_def bodied_def)

lemma run_bodies:
  assumes "run_ok S config e0 D H q m" "i < length (m_nodes m)" "j < length (m_nodes m)"
    and "h \<in> blocks (y_dag (node_sync m i))" "h \<in> blocks (y_dag (node_sync m j))"
  shows "body_get (x_bodies (m_nodes m ! i)) h = body_get (x_bodies (m_nodes m ! j)) h"
  using assms by (fastforce simp: run_ok_def nodes_ok_def Let_def caught_up_def executed_def)

lemma same_blocks_agree:
  assumes run: "run_ok S config e0 D H q m" and base: "base_ok (sl_chain S) D PRUNING_WINDOW_SECONDS e0"
    and inj: "inj_on (sl_hash S) (insert (sim_genesis (empty_root (sl_chain S))) (set H))"
    and ij: "i < length (m_nodes m)" "j < length (m_nodes m)" "blocks (y_dag (node_sync m i)) = blocks (y_dag (node_sync m j))"
  shows "let a = x_executor (m_nodes m ! i); b = x_executor (m_nodes m ! j) in
    e_tip a = e_tip b \<and> e_height a = e_height b \<and> e_results a = e_results b \<and> w_accounts (e_state a) = w_accounts (e_state b)"
proof -
  note I = run_nodes[OF run ij(1)] and J = run_nodes[OF run ij(2)]
  have inj': "inj_on (sl_hash S) (stored_headers (y_dag (node_sync m i)) \<union> stored_headers (y_dag (node_sync m j)))"
    by (rule inj_on_subset[OF inj]) (use I(2) J(2) in blast)
  have bodies: "\<And>h. h \<in> blocks (y_dag (node_sync m i)) \<Longrightarrow> body_get (x_bodies (m_nodes m ! i)) h = body_get (x_bodies (m_nodes m ! j)) h"
    using run_bodies[OF run ij(1,2)] ij(3) by simp
  from followers_agree[OF I(1) J(1) ij(3) inj' I(4) J(4) I(3) J(3) bodies] show ?thesis by (simp add: Let_def)
qed

lemma run_inj:
  assumes "run_ok S config e0 D H q m" "i < length (m_nodes m)" "j < length (m_nodes m)"
    and "inj_on (sl_hash S) (insert (sim_genesis (empty_root (sl_chain S))) (set H))"
  shows "inj_on (sl_hash S) (stored_headers (y_dag (node_sync m i)) \<union> stored_headers (y_dag (node_sync m j)))"
  by (rule inj_on_subset[OF assms(4)]) (use run_nodes(2)[OF assms(1,2)] run_nodes(2)[OF assms(1,3)] in blast)

lemma divergence_reports:
  assumes run: "run_ok S config e0 D H q m" and inj: "inj_on (sl_hash S) (insert (sim_genesis (empty_root (sl_chain S))) (set H))"
    and some: "m_nodes m \<noteq> []"
  shows "divergence m = Some (first_report (\<lambda>i. blocks_report (y_dag (node_sync m 0)) (y_dag (node_sync m i)) i) [1..<length (m_nodes m)])"
proof -
  let ?d = "\<lambda>i. y_dag (node_sync m i)"
  have "check_dag (?d 0) (?d i) i = blocks_report (?d 0) (?d i) i" if "i \<in> set [1..<length (m_nodes m)]" for i
  proof -
    have "0 < length (m_nodes m)" "i < length (m_nodes m)" using that by auto
    from check_dag_exact[OF run_nodes(1)[OF run this(1)] run_nodes(1)[OF run this(2)] run_inj[OF run this inj]] show ?thesis .
  qed
  from first_report_cong[of "[1..<length (m_nodes m)]", OF this] some show ?thesis by (simp only: divergence_cases simp_thms)
qed

lemma divergence_none:
  assumes "run_ok S config e0 D H q m" "inj_on (sl_hash S) (insert (sim_genesis (empty_root (sl_chain S))) (set H))"
    and "divergence m = Some None" "i < length (m_nodes m)"
  shows "blocks (y_dag (node_sync m i)) = blocks (y_dag (node_sync m 0))"
proof (cases "i = 0")
  case False
  from assms(3) have "m_nodes m \<noteq> []" by (simp add: divergence_cases)
  from divergence_reports[OF assms(1,2) this] assms(3)
  have "\<forall>i \<in> set [1..<length (m_nodes m)]. blocks_report (y_dag (node_sync m 0)) (y_dag (node_sync m i)) i = None"
    unfolding first_report_None[symmetric] by simp
  with False assms(4) have "blocks_report (y_dag (node_sync m 0)) (y_dag (node_sync m i)) i = None" by auto
  then show ?thesis by (simp add: blocks_report_def split: if_splits)
qed simp

section \<open>Properties\<close>

text \<open>
  C1: The verdict on the block DAGs decides the verdict on the executed states. In every state a simulation of at most 255 nodes reaches, if
  \<open>divergence\<close> finds no difference between the nodes' DAGs then \<open>state_divergence\<close> finds none between their state
  roots and heights, and any two nodes have the same executed tip, height, results and accounts: messages lost, delayed and
  reordered, requests that time out, forks and reorganisations leave no trace. The hashes of the headers mined so far must not collide,
  and they are fewer than the pruning window keeps.
\<close>

theorem simulation_agrees:
  assumes "evm_law D (sl_chain S)" and "sk_nodes config \<le> 255" and "sim_reaches S config m H"
    and "length H < PRUNING_WINDOW_SECONDS" and "inj_on (sl_hash S) (insert (sim_genesis (empty_root (sl_chain S))) (set H))"
    and "divergence m = Some None"
  shows "state_divergence m = None \<and>
    (\<forall>a \<in> set (m_nodes m). \<forall>b \<in> set (m_nodes m). e_tip (x_executor a) = e_tip (x_executor b) \<and>
       e_height (x_executor a) = e_height (x_executor b) \<and> e_results (x_executor a) = e_results (x_executor b) \<and>
       w_accounts (e_state (x_executor a)) = w_accounts (e_state (x_executor b)))"
proof -
  from run_is_ok[OF assms(1-3,5,4)] obtain alloc where run: "run_ok S config (sim_base S alloc) D H (mset (m_queue m)) m"
    and base: "base_ok (sl_chain S) D PRUNING_WINDOW_SECONDS (sim_base S alloc)" .
  note same = divergence_none[OF run assms(5,6)]
  have agree: "let a = x_executor (m_nodes m ! i); b = x_executor (m_nodes m ! j) in
      e_tip a = e_tip b \<and> e_height a = e_height b \<and> e_results a = e_results b \<and> w_accounts (e_state a) = w_accounts (e_state b)"
    if "i < length (m_nodes m)" "j < length (m_nodes m)" for i j
    by (rule same_blocks_agree[OF run base assms(5) that]) (simp add: same that)
  have "check_state (x_executor (m_nodes m ! 0)) (x_executor (m_nodes m ! i)) i = None" if "i < length (m_nodes m)" for i
  proof -
    have "0 < length (m_nodes m)" using that by linarith
    from agree[OF this that] show ?thesis by (intro check_state_None) (simp_all add: Let_def)
  qed
  then have "state_divergence m = None" by (simp add: state_divergence_def first_report_None)
  with agree show ?thesis unfolding all_set_conv_all_nth Let_def by blast
qed

text \<open>
  C29: \<open>divergence\<close> is exact. The depth-first walk from the tips collects all the blocks of a DAG, and nodes with the
  same blocks select the same tip and the same chain, whatever order the blocks came in; so in every state a simulation
  reaches, the verdict is that of the block sets alone: it names the first node whose blocks differ from those of
  node 0, with the exact counts, and never a tip or a chain. Only a simulation without nodes panics.
\<close>

theorem divergence_exact:
  assumes "evm_law D (sl_chain S)" and "sk_nodes config \<le> 255" and "sim_reaches S config m H"
    and "length H < PRUNING_WINDOW_SECONDS" and "inj_on (sl_hash S) (insert (sim_genesis (empty_root (sl_chain S))) (set H))"
  shows "(\<forall>x \<in> set (m_nodes m). set (block_set (y_dag (x_sync x))) = blocks (y_dag (x_sync x))) \<and>
    divergence m = (if m_nodes m = [] then None
      else Some (first_report (\<lambda>i. blocks_report (y_dag (node_sync m 0)) (y_dag (node_sync m i)) i) [1..<length (m_nodes m)]))"
proof -
  from run_is_ok[OF assms(1-3,5,4)] obtain alloc where run: "run_ok S config (sim_base S alloc) D H (mset (m_queue m)) m" .
  have "set (block_set (y_dag (node_sync m i))) = blocks (y_dag (node_sync m i))" if "i < length (m_nodes m)" for i
    by (rule block_set_blocks[OF reachable_ok[OF run_nodes(1)[OF run that]]])
  moreover have "divergence m = None" if "m_nodes m = []" using that by (simp add: divergence_def)
  ultimately show ?thesis using divergence_reports[OF run assms(5)] by (auto simp: all_set_conv_all_nth)
qed

text \<open>
  C28: Runs return. With a positive tick interval and a positive least latency, and a deadline that the longest delay of the
  configuration does not push past \<open>2 ^ 64\<close>, the event loops of \<open>run_for\<close> and of \<open>quiesce\<close> end whatever
  is in the queue: every event a handler schedules lies in the future, mining turns included.
\<close>

theorem runs_return:
  assumes "timed (m_config m)" and "length (m_nodes m) = sk_nodes (m_config m)"
    and "unat (m_now_ms m + duration) + horizon (m_config m) < 2 ^ 64"
  shows "(\<exists>r. run_for S duration m = Some r) \<and> (\<exists>r. quiesce S duration m = Some r)"
proof -
  have "runnable (m_now_ms m + duration) m" "runnable (m_now_ms m + duration) (m\<lparr>m_mining_enabled := False\<rparr>)"
    using assms by (simp_all add: runnable_def)
  from run_loop_returns[OF this(1), of S] quiesce_loop_returns[OF this(2), of S] show ?thesis
    by (auto simp: run_for_def quiesce_def Let_def)
qed

text \<open>
  C30: Every event names nodes that exist. In every state a simulation reaches, the nodes are as many as configured and
  each still mines to its own address, a queued delivery goes to a node of the simulation, a mining turn or a tick is a
  node's own, and no node has two mining turns waiting; so no step indexes the nodes out of range and no node mines twice at
  one time.
\<close>

theorem events_well_formed:
  assumes "evm_law D (sl_chain S)" and "sk_nodes config \<le> 255" and "sim_reaches S config m H"
    and "length H < PRUNING_WINDOW_SECONDS" and "inj_on (sl_hash S) (insert (sim_genesis (empty_root (sl_chain S))) (set H))"
  shows "length (m_nodes m) = sk_nodes config \<and> map x_miner (m_nodes m) = map miner_address [0..<sk_nodes config] \<and>
    list_all (\<lambda>e. case ev_kind e of Deliver to from msg \<Rightarrow> to < sk_nodes config | Mine i \<Rightarrow> i < sk_nodes config | Tick i \<Rightarrow> i < sk_nodes config)
      (m_queue m) \<and>
    (\<forall>i. length (filter (\<lambda>e. ev_kind e = Mine i) (m_queue m)) \<le> 1)"
proof -
  from run_is_ok[OF assms(1-3,5,4)] obtain alloc where run: "run_ok S config (sim_base S alloc) D H (mset (m_queue m)) m" .
  then obtain G B where q: "queue_ok (sl_hash S) (sk_nodes config) G B H (mset (m_queue m))" and n: "length (m_nodes m) = sk_nodes config"
    and x: "\<forall>i < length (m_nodes m). x_miner (m_nodes m ! i) = miner_address i"
    by (auto simp: run_ok_def Let_def nodes_ok_def)
  note Q = queue_okD[OF q]
  have "list_all (\<lambda>e. case ev_kind e of Deliver to from msg \<Rightarrow> to < sk_nodes config | Mine i \<Rightarrow> i < sk_nodes config | Tick i \<Rightarrow> i < sk_nodes config)
      (m_queue m)"
    using Q(1,2) by (auto simp: list_all_iff split: event_kind.split)
  moreover have "length (filter (\<lambda>e. ev_kind e = Mine i) (m_queue m)) \<le> 1" for i
    using Q(3)[of i] by (metis mset_filter size_mset)
  moreover have "map x_miner (m_nodes m) = map miner_address [0..<sk_nodes config]" using n x by (auto intro: nth_equalityI)
  ultimately show ?thesis using n by blast
qed

text \<open>
  C26: Handling an event never panics. If signing never fails, then whatever event a simulation handles next, the handler
  returns: the reorganisation to the new tip always succeeds, with the journal deep enough to undo the
  blocks that left the chain and a body stored for every block that joined it, and every recipient drawn has a key.
\<close>

theorem events_never_panic:
  assumes "evm_law D (sl_chain S)" and "sk_nodes config \<le> 255" and "sim_reaches S config m H" and "length H + 1 < PRUNING_WINDOW_SECONDS"
    and "m_queue m = e # q" and "clear_of_wrap config (ev_at_ms e)"
    and "inj_on (sl_hash S) (insert (sim_genesis (empty_root (sl_chain S)))
      (set (mined_by S (ev_kind e) (m\<lparr>m_queue := q, m_now_ms := ev_at_ms e\<rparr>) @ H)))"
    and "\<And>signer h. wl_sign_hash (sl_wallet S) signer h \<noteq> None"
  shows "sim_handle S (ev_kind e) (m\<lparr>m_queue := q, m_now_ms := ev_at_ms e\<rparr>) \<noteq> None"
  by (rule handle_total[OF assms(1-3,5-7,4,8)])


section \<open>Witnesses\<close>

text \<open>Two nodes over toy libraries, at the start of a run.\<close>

definition toy_wallets :: "(u256, unit) wallet_lib" where
  "toy_wallets =
     \<lparr>wl_keccak256 = (\<lambda>bs. ucast (last bs) + 1), wl_from_bytes = Some, wl_address = ucast, wl_signature_hash = (\<lambda>_. 0),
      wl_sign_hash = (\<lambda>_ _. Some ()), wl_encoded_2718 = (\<lambda>tx _. u64_be_bytes (te_nonce tx))\<rparr>"

definition toy_sim :: "(8 word, toy_tx, u64, unit, nat, u256, unit) sim_lib" where
  "toy_sim =
     \<lparr>sl_hash = (\<lambda>h. ucast (h_timestamp_ms h)), sl_pow = (\<lambda>_. 0), sl_chain = toy_lib,
      sl_raw = \<lparr>decode_2718 = (\<lambda>bs. Inr (last bs)), recover_signer = (\<lambda>_. Inr 5), new_recovered = (\<lambda>b a. toy (ucast b + 1) 10 a None 7 0)\<rparr>,
      sl_wallet = toy_wallets, sl_new_raw = length, sl_hash_slow = (\<lambda>_. 0)\<rparr>"

definition toy_sim_config :: sim_config where
  "toy_sim_config = default_sim_config\<lparr>sk_nodes := 2\<rparr>"

lemma those_all: "(\<And>x. x \<in> set xs \<Longrightarrow> f x \<noteq> None) \<Longrightarrow> \<exists>ys. those (map f xs) = Some ys"
proof (induction xs)
  case (Cons x xs)
  then obtain y ys where "f x = Some y" "those (map f xs) = Some ys" by fastforce
  then show ?case by simp
qed simp

lemma toy_from_index: "from_index toy_wallets i \<noteq> None"
  by (simp add: from_index_def toy_wallets_def)

lemma toy_clear_start: "clear_of_wrap toy_sim_config GENESIS_MS"
  by (simp add: clear_of_wrap_def timed_def horizon_def toy_sim_config_def default_sim_config_def default_link_def GENESIS_MS_def)

lemma toy_sim_new:
  "\<exists>m m0. new_simulation toy_sim toy_sim_config = Some m \<and> m = schedule_initial_events (connect_all m0) \<and>
     m_now_ms m0 = GENESIS_MS \<and> m_config m0 = toy_sim_config"
proof -
  let ?n = "sk_nodes toy_sim_config"
  obtain ws where "those (map (\<lambda>i. from_index toy_wallets (of_nat i)) [0..<?n * 4]) = Some ws" using those_all toy_from_index by metis
  then obtain alloc where a: "genesis_alloc toy_wallets ?n = Some alloc" by (simp add: genesis_alloc_def)
  have "new_sim_node toy_sim toy_sim_config alloc i \<noteq> None" for i
  proof -
    obtain ws where "those (map (\<lambda>j. from_index toy_wallets (of_nat j)) [i * 4..<i * 4 + 4]) = Some ws" using those_all toy_from_index by metis
    then show ?thesis unfolding new_sim_node_def by (simp add: toy_sim_def Let_def load_genesis_def)
  qed
  then obtain nodes where "those (map (new_sim_node toy_sim toy_sim_config alloc) [0..<?n]) = Some nodes" using those_all by metis
  then show ?thesis using a unfolding new_simulation_def by (simp add: toy_sim_def) (intro exI conjI, rule refl, simp_all)
qed

lemma toy_sim_law: "evm_law (\<lambda>_. 0) (sl_chain toy_sim)" "sk_nodes toy_sim_config \<le> 255"
  by (simp_all add: toy_sim_def toy_evm_law toy_sim_config_def default_sim_config_def)

lemma no_headers: "length ([] :: header list) < PRUNING_WINDOW_SECONDS" "length ([] :: header list) + 1 < PRUNING_WINDOW_SECONDS"
  by (simp_all add: param_consts)

text \<open>Before anything is mined, every node holds genesis and nothing else.\<close>

lemma start_blocks:
  assumes "run_ok S config e0 D [] q m" "i < length (m_nodes m)"
  shows "blocks (y_dag (node_sync m i)) = {sl_hash S (sim_genesis (empty_root (sl_chain S)))}"
proof -
  note dag = run_nodes[OF assms]
  note ok = reachable_ok[OF dag(1)]
  have "h = sl_hash S (sim_genesis (empty_root (sl_chain S)))" if h: "h \<in> blocks (y_dag (node_sync m i))" for h
    using header_of_block[OF h] dag(2) dag_okD(4)[OF ok] by (fastforce simp: hash_keyed_def stored_headers_def ran_def)
  moreover have "blocks (y_dag (node_sync m i)) \<noteq> {}" using virtual_selected_parent_in[OF ok] by blast
  ultimately show ?thesis by blast
qed

lemma toy_sim_run:
  obtains m where "sim_reaches toy_sim toy_sim_config m []" "divergence m = Some None" "m_now_ms m = GENESIS_MS" "m_config m = toy_sim_config"
    "length (m_nodes m) = 2"
proof -
  from toy_sim_new obtain m where "new_simulation toy_sim toy_sim_config = Some m" by blast
  from sim_reaches.clock[OF sim_reaches.start[OF this toy_clear_start]]
  have m: "sim_reaches toy_sim toy_sim_config (m\<lparr>m_now_ms := GENESIS_MS\<rparr>) []" .
  let ?m = "m\<lparr>m_now_ms := GENESIS_MS\<rparr>"
  have inj: "inj_on (sl_hash toy_sim) (insert (sim_genesis (empty_root (sl_chain toy_sim))) (set []))" by simp
  from run_is_ok[OF toy_sim_law m inj no_headers(1)] obtain alloc where run: "run_ok toy_sim toy_sim_config (sim_base toy_sim alloc) (\<lambda>_. 0) [] (mset (m_queue ?m)) ?m" .
  have n: "length (m_nodes ?m) = 2" "m_config ?m = toy_sim_config" using run by (simp_all add: run_ok_def toy_sim_config_def default_sim_config_def)
  then have some: "m_nodes ?m \<noteq> []" by auto
  have "blocks_report (y_dag (node_sync ?m 0)) (y_dag (node_sync ?m i)) i = None" if "i \<in> set [1..<length (m_nodes ?m)]" for i
  proof -
    have "0 < length (m_nodes ?m)" "i < length (m_nodes ?m)" using that n by auto
    from start_blocks[OF run this(1)] start_blocks[OF run this(2)] show ?thesis by (simp add: blocks_report_def)
  qed
  then have "first_report (\<lambda>i. blocks_report (y_dag (node_sync ?m 0)) (y_dag (node_sync ?m i)) i) [1..<length (m_nodes ?m)] = None"
    unfolding first_report_None by blast
  with divergence_reports[OF run inj some] m n show ?thesis by (intro that[of ?m]) simp_all
qed

theorem simulation_agrees_witness:
  "\<exists>m. sim_reaches toy_sim toy_sim_config m [] \<and> length (m_nodes m) = 2 \<and> state_divergence m = None"
proof -
  from toy_sim_run obtain m where m: "sim_reaches toy_sim toy_sim_config m []" "divergence m = Some None" "length (m_nodes m) = 2" by metis
  from simulation_agrees[OF toy_sim_law m(1) no_headers(1) _ m(2)] m show ?thesis by auto
qed

theorem divergence_exact_witness:
  "\<exists>m. sim_reaches toy_sim toy_sim_config m [] \<and> (\<forall>x \<in> set (m_nodes m). set (block_set (y_dag (x_sync x))) = blocks (y_dag (x_sync x)))"
proof -
  from toy_sim_run obtain m where m: "sim_reaches toy_sim toy_sim_config m []" by metis
  from divergence_exact[OF toy_sim_law m no_headers(1)] m show ?thesis by auto
qed

theorem runs_return_witness: "\<exists>m. m_nodes m \<noteq> [] \<and> run_for toy_sim 60000 m \<noteq> None \<and> quiesce toy_sim 60000 m \<noteq> None"
proof -
  from toy_sim_run obtain m where m: "sim_reaches toy_sim toy_sim_config m []" "m_now_ms m = GENESIS_MS" "m_config m = toy_sim_config"
    "length (m_nodes m) = 2" by metis
  have "timed toy_sim_config" "length (m_nodes m) = sk_nodes toy_sim_config" "unat (GENESIS_MS + 60000) + horizon toy_sim_config < 2 ^ 64"
    by (simp_all add: m timed_def horizon_def toy_sim_config_def default_sim_config_def default_link_def GENESIS_MS_def)
  with runs_return[of m 60000 toy_sim] have "run_for toy_sim 60000 m \<noteq> None \<and> quiesce toy_sim 60000 m \<noteq> None" unfolding m(2,3) by blast
  moreover have "m_nodes m \<noteq> []" using m(4) by auto
  ultimately show ?thesis by blast
qed

theorem events_well_formed_witness: "\<exists>m. sim_reaches toy_sim toy_sim_config m [] \<and> map x_miner (m_nodes m) = [miner_address 0, miner_address 1]"
proof -
  from toy_sim_run obtain m where m: "sim_reaches toy_sim toy_sim_config m []" by metis
  have n: "[0..<sk_nodes toy_sim_config] = [0, 1]" by (simp add: toy_sim_config_def upt_rec)
  have "inj_on (sl_hash toy_sim) (insert (sim_genesis (empty_root (sl_chain toy_sim))) (set []))" by simp
  from conjunct1[OF conjunct2[OF events_well_formed[OF toy_sim_law m no_headers(1) this]]]
  have "map x_miner (m_nodes m) = [miner_address 0, miner_address 1]" unfolding n by (simp only: list.map)
  with m show ?thesis by (intro exI[of _ m] conjI)
qed

lemma toy_clear: "clear_of_wrap toy_sim_config (GENESIS_MS + 60000)"
  by (simp add: clear_of_wrap_def timed_def horizon_def toy_sim_config_def default_sim_config_def default_link_def GENESIS_MS_def)

lemma dispatch_now: "m_now_ms (dispatch from acts m) = m_now_ms m" "m_config (dispatch from acts m) = m_config m"
proof -
  have one: "m_now_ms (dispatch_one from a m) = m_now_ms m \<and> m_config (dispatch_one from a m) = m_config m" for a and m :: "('a, 'b, 'c, 'd) simulation"
    by (auto simp: dispatch_one_def set_sync_def sim_push_def Let_def split: action.split option.split prod.split)
  have "m_now_ms (dispatch from acts m) = m_now_ms m \<and> m_config (dispatch from acts m) = m_config m"
    unfolding dispatch_def by (induction acts arbitrary: m) (simp_all add: one)
  then show "m_now_ms (dispatch from acts m) = m_now_ms m" "m_config (dispatch from acts m) = m_config m" by simp_all
qed

lemma connect_all_now: "m_now_ms (connect_all m) = m_now_ms m" "m_config (connect_all m) = m_config m"
proof -
  have "m_now_ms (connect_all m) = m_now_ms m \<and> m_config (connect_all m) = m_config m" unfolding connect_all_def
    by (rule fold_invariant[where Q = "\<lambda>_. True"]) (auto simp: act_on_def dispatch_now set_sync_def split: prod.splits)
  then show "m_now_ms (connect_all m) = m_now_ms m" "m_config (connect_all m) = m_config m" by simp_all
qed

lemma toy_tick:
  obtains m e q where "sim_reaches toy_sim toy_sim_config m []" "m_queue m = e # q" "ev_kind e = Tick 1" "ev_at_ms e = GENESIS_MS + 500"
proof -
  from toy_sim_new obtain m m0 where m: "new_simulation toy_sim toy_sim_config = Some m" "m = schedule_initial_events (connect_all m0)"
    "m_now_ms m0 = GENESIS_MS" "m_config m0 = toy_sim_config" by blast
  have n: "length (m_nodes m) = 2"
  proof -
    from sim_reaches.start[OF m(1) toy_clear_start] have "sim_reaches toy_sim toy_sim_config m []" .
    from run_is_ok[OF toy_sim_law this _ no_headers(1)] show ?thesis by (auto simp: run_ok_def toy_sim_config_def)
  qed
  have now: "m_now_ms (schedule_tick i m) = m_now_ms m" "m_config (schedule_tick i m) = m_config m"
    "m_now_ms (schedule_next_mine i m) = m_now_ms m" "m_config (schedule_next_mine i m) = m_config m" for i and m :: "(toy_tx, unit, nat, u256) simulation"
    by (simp_all add: schedule_tick_def schedule_next_mine_def sim_push_def Let_def split: prod.split)
  have "length (m_nodes m) = length (m_nodes (connect_all m0))" unfolding m(2) schedule_initial_events_def
    by (rule fold_invariant[where Q = "\<lambda>_. True"]) simp_all
  then have two: "length (m_nodes (connect_all m0)) = 2" using n by simp
  let ?m0 = "connect_all m0"
  let ?m1 = "schedule_tick 0 (schedule_next_mine 0 ?m0)"
  have "m = schedule_tick 1 (schedule_next_mine 1 ?m1)" unfolding m(2) schedule_initial_events_def two by (simp add: upt_rec)
  then have "m = sim_push (m_now_ms (schedule_next_mine 1 ?m1) + sk_tick_interval_ms (m_config (schedule_next_mine 1 ?m1))) (Tick 1) (schedule_next_mine 1 ?m1)"
    by (simp add: schedule_tick_def)
  moreover have "m_now_ms (schedule_next_mine 1 ?m1) = GENESIS_MS" "m_config (schedule_next_mine 1 ?m1) = toy_sim_config"
    using m(3,4) by (simp_all add: now connect_all_now)
  ultimately obtain e Q where e: "mset (m_queue m) = add_mset e Q" "ev_kind e = Tick 1" "ev_at_ms e = GENESIS_MS + 500"
    by (simp add: sim_push_def Let_def mset_heap_push toy_sim_config_def default_sim_config_def) 
  obtain q where q: "mset q = Q" using ex_mset by blast
  from sim_reaches.reorder[OF sim_reaches.start[OF m(1) toy_clear_start], of "e # q"] e q
  have "sim_reaches toy_sim toy_sim_config (m\<lparr>m_queue := e # q\<rparr>) []" by simp
  then show ?thesis by (rule that[OF _ _ e(2,3)]) simp
qed

theorem events_never_panic_witness:
  "\<exists>m e q. sim_reaches toy_sim toy_sim_config m [] \<and> m_queue m = e # q \<and> ev_kind e = Tick 1 \<and>
     sim_handle toy_sim (ev_kind e) (m\<lparr>m_queue := q, m_now_ms := ev_at_ms e\<rparr>) \<noteq> None"
proof -
  from toy_tick obtain m e q where m: "sim_reaches toy_sim toy_sim_config m []" "m_queue m = e # q" "ev_kind e = Tick 1"
    "ev_at_ms e = GENESIS_MS + 500" by metis
  have clear: "clear_of_wrap toy_sim_config (ev_at_ms e)" using clear_earlier[OF toy_clear] m(4) by (simp add: GENESIS_MS_def)
  have "inj_on (sl_hash toy_sim) (insert (sim_genesis (empty_root (sl_chain toy_sim))) (set (mined_by toy_sim (ev_kind e)
      (m\<lparr>m_queue := q, m_now_ms := ev_at_ms e\<rparr>) @ [])))" by (simp add: mined_by_def m(3))
  moreover have "wl_sign_hash (sl_wallet toy_sim) signer h \<noteq> None" for signer h by (simp add: toy_sim_def toy_wallets_def)
  ultimately have "sim_handle toy_sim (ev_kind e) (m\<lparr>m_queue := q, m_now_ms := ev_at_ms e\<rparr>) \<noteq> None"
    by (rule events_never_panic[OF toy_sim_law m(1) no_headers(2) m(2) clear])
  with m show ?thesis by blast
qed


end
