(* ===== verification/Storage.thy ===== *)
theory Storage
  imports Message Transport
begin

text \<open>
  The persistent store, \<open>crates/storage/src/lib.rs\<close>. The database \<open>redb\<close> is third party: of it the model has what the
  code calls, tables of bytes that a write transaction reads and replaces at its commit, and the parameter \<open>D\<close>, which
  says at each call whether the library fails and with which error. The RLP encoding of a header is a parameter too.
\<close>

section \<open>The database\<close>

text \<open>The tables of a file, and the calls of the library that may fail.\<close>

record database =
  db_headers :: "(block_hash, byte list) hmap"
  db_bodies :: "(block_hash, byte list) hmap"
  db_meta :: "(string, byte list) hmap"

datatype db_call = CreateDirs | CreateDb | BeginWrite | BeginRead | OpenTable string | TableGet string | TableInsert string | CommitTxn

datatype storage_error =
    Io string
  | Database string
  | Transaction string
  | TableError string
  | StorageFailed string
  | Commit string
  | Decode block_hash string
  | CorruptMeta string
  | SchemaMismatch u32 u32

text \<open>\<open>D\<close> gives the message of the error that a call fails with, if any; each call has one variant of \<open>StorageError\<close>.\<close>

type_synonym faults = "db_call \<Rightarrow> string option"

fun error_of :: "db_call \<Rightarrow> string \<Rightarrow> storage_error" where
  "error_of CreateDirs e = Io e"
| "error_of CreateDb e = Database e"
| "error_of BeginWrite e = Transaction e"
| "error_of BeginRead e = Transaction e"
| "error_of (OpenTable _) e = TableError e"
| "error_of (TableGet _) e = StorageFailed e"
| "error_of (TableInsert _) e = StorageFailed e"
| "error_of CommitTxn e = Commit e"

text \<open>The first of a sequence of calls that fails.\<close>

fun attempt :: "faults \<Rightarrow> db_call list \<Rightarrow> storage_error option" where
  "attempt D [] = None"
| "attempt D (c # cs) = (case D c of Some e \<Rightarrow> Some (error_of c e) | None \<Rightarrow> attempt D cs)"

section \<open>Opening\<close>

definition SCHEMA_VERSION :: u32 where "SCHEMA_VERSION = 1"
definition META_SCHEMA_VERSION :: string where "META_SCHEMA_VERSION = ''schema_version''"

text \<open>\<open>u32::to_le_bytes\<close> and \<open>u32::from_le_bytes\<close>.\<close>

definition to_le_bytes :: "u32 \<Rightarrow> byte list" where "to_le_bytes n = rev (to_be_bytes n)"
definition from_le_bytes :: "byte list \<Rightarrow> u32" where "from_le_bytes bs = from_be_bytes (rev bs)"

definition init_schema :: "faults \<Rightarrow> database \<Rightarrow> (storage_error + unit) \<times> database" where
  "init_schema D db =
     (case attempt D [BeginWrite, OpenTable ''headers'', OpenTable ''bodies'', OpenTable ''meta'', TableGet ''meta''] of
        Some e \<Rightarrow> (Inl e, db)
      | None \<Rightarrow>
          (case map_of (db_meta db) META_SCHEMA_VERSION of
             Some bytes \<Rightarrow>
               if length bytes \<noteq> 4 then (Inl (CorruptMeta META_SCHEMA_VERSION), db)
               else if from_le_bytes bytes \<noteq> SCHEMA_VERSION then (Inl (SchemaMismatch (from_le_bytes bytes) SCHEMA_VERSION), db)
               else (case attempt D [CommitTxn] of Some e \<Rightarrow> (Inl e, db) | None \<Rightarrow> (Inr (), db))
           | None \<Rightarrow>
               (case attempt D [TableInsert ''meta'', CommitTxn] of Some e \<Rightarrow> (Inl e, db)
                | None \<Rightarrow> (Inr (), db\<lparr>db_meta := AList.update META_SCHEMA_VERSION (to_le_bytes SCHEMA_VERSION) (db_meta db)\<rparr>))))"

definition empty_database :: database where
  "empty_database = \<lparr>db_headers = [], db_bodies = [], db_meta = []\<rparr>"

definition tables :: "database option \<Rightarrow> database" where
  "tables file = (case file of None \<Rightarrow> empty_database | Some db \<Rightarrow> db)"

text \<open>\<open>RedbStore::open\<close> on what is at the path: no file, or a database written before.\<close>

definition open_store :: "faults \<Rightarrow> database option \<Rightarrow> (storage_error + unit) \<times> database option" where
  "open_store D file =
     (case attempt D [CreateDirs, CreateDb] of Some e \<Rightarrow> (Inl e, file)
      | None \<Rightarrow>
          (case init_schema D (tables file) of (r, db) \<Rightarrow> (r, Some db)))"

section \<open>Blocks\<close>

record header_codec =
  encoded :: "header \<Rightarrow> byte list"
  decode_header :: "byte list \<Rightarrow> string + header \<times> byte list"

definition codec_law :: "header_codec \<Rightarrow> bool" where
  "codec_law C \<longleftrightarrow> (\<forall>h r. decode_header C (encoded C h @ r) = Inr (h, r))"

definition put_header :: "header_codec \<Rightarrow> faults \<Rightarrow> block_hash \<Rightarrow> header \<Rightarrow> database \<Rightarrow> (storage_error + unit) \<times> database" where
  "put_header C D h hdr db =
     (case attempt D [BeginWrite, OpenTable ''headers'', TableInsert ''headers'', CommitTxn] of Some e \<Rightarrow> (Inl e, db)
      | None \<Rightarrow> (Inr (), db\<lparr>db_headers := AList.update h (encoded C hdr) (db_headers db)\<rparr>))"

definition get_header :: "header_codec \<Rightarrow> faults \<Rightarrow> block_hash \<Rightarrow> database \<Rightarrow> storage_error + header option" where
  "get_header C D h db =
     (case attempt D [BeginRead, OpenTable ''headers'', TableGet ''headers''] of Some e \<Rightarrow> Inl e
      | None \<Rightarrow>
          (case map_of (db_headers db) h of None \<Rightarrow> Inr None
           | Some bytes \<Rightarrow>
               (case decode_header C bytes of Inl e \<Rightarrow> Inl (Decode h e) | Inr (hdr, _) \<Rightarrow> Inr (Some hdr))))"

definition has_header :: "faults \<Rightarrow> block_hash \<Rightarrow> database \<Rightarrow> storage_error + bool" where
  "has_header D h db =
     (case attempt D [BeginRead, OpenTable ''headers'', TableGet ''headers''] of Some e \<Rightarrow> Inl e
      | None \<Rightarrow> Inr (map_of (db_headers db) h \<noteq> None))"

definition put_body :: "faults \<Rightarrow> block_hash \<Rightarrow> byte list \<Rightarrow> database \<Rightarrow> (storage_error + unit) \<times> database" where
  "put_body D h body db =
     (case attempt D [BeginWrite, OpenTable ''bodies'', TableInsert ''bodies'', CommitTxn] of Some e \<Rightarrow> (Inl e, db)
      | None \<Rightarrow> (Inr (), db\<lparr>db_bodies := AList.update h body (db_bodies db)\<rparr>))"

definition get_body :: "faults \<Rightarrow> block_hash \<Rightarrow> database \<Rightarrow> storage_error + byte list option" where
  "get_body D h db =
     (case attempt D [BeginRead, OpenTable ''bodies'', TableGet ''bodies''] of Some e \<Rightarrow> Inl e
      | None \<Rightarrow> Inr (map_of (db_bodies db) h))"

section \<open>The schema version\<close>

lemma from_be_bytes_inverse: "length bs = 4 \<Longrightarrow> to_be_bytes (from_be_bytes bs) = bs"
proof -
  assume "length bs = 4"
  then obtain a b c d where bs: "bs = [a, b, c, d]" by (auto simp: eval_nat_numeral length_Suc_conv)
  let ?n = "from_be_bytes bs"
  have "ucast (drop_bit 24 ?n) = a" "ucast (drop_bit 16 ?n) = b" "ucast (drop_bit 8 ?n) = c" "ucast ?n = d"
    by (rule bit_word_eqI; auto simp: from_be_bytes_def bs bit_simps dest: bit_imp_le_length)+
  then show ?thesis by (simp add: to_be_bytes_def bs)
qed

lemma le_bytes: "length bs = 4 \<Longrightarrow> from_le_bytes bs = n \<longleftrightarrow> bs = to_le_bytes n"
  unfolding from_le_bytes_def to_le_bytes_def
  by (metis be_bytes_roundtrip from_be_bytes_inverse length_rev rev_rev_ident)

lemma length_to_le_bytes [simp]: "length (to_le_bytes n) = 4"
  by (simp add: to_le_bytes_def)

text \<open>What opening says of a version found in the database.\<close>

definition version_verdict :: "byte list option \<Rightarrow> storage_error + unit" where
  "version_verdict stored =
     (case stored of None \<Rightarrow> Inr ()
      | Some bytes \<Rightarrow>
          if length bytes \<noteq> 4 then Inl (CorruptMeta ''schema_version'')
          else if bytes \<noteq> [1, 0, 0, 0] then Inl (SchemaMismatch (from_le_bytes bytes) 1) else Inr ())"

definition open_calls :: "db_call list" where
  "open_calls = [CreateDirs, CreateDb, BeginWrite, OpenTable ''headers'', OpenTable ''bodies'', OpenTable ''meta'', TableGet ''meta'',
     TableInsert ''meta'', CommitTxn]"

lemma schema_bytes: "to_le_bytes SCHEMA_VERSION = [1, 0, 0, 0]"
  by (simp add: to_le_bytes_def SCHEMA_VERSION_def to_be_bytes_def)

lemma version_one: "length bytes = 4 \<Longrightarrow> from_le_bytes bytes = 1 \<longleftrightarrow> bytes = [1, 0, 0, 0]"
  using le_bytes[of bytes 1] schema_bytes by (simp add: SCHEMA_VERSION_def)

lemmas open_defs = open_store_def init_schema_def META_SCHEMA_VERSION_def

lemma open_no_fault:
  assumes "attempt D open_calls = None"
  shows "open_store D file =
    (case version_verdict (map_of (db_meta (tables file)) ''schema_version'') of
       Inl e \<Rightarrow> (Inl e, Some (tables file))
     | Inr _ \<Rightarrow> (Inr (), Some ((tables file)\<lparr>db_meta := (if map_of (db_meta (tables file)) ''schema_version'' = None
         then AList.update ''schema_version'' [1, 0, 0, 0] (db_meta (tables file)) else db_meta (tables file))\<rparr>)))"
proof -
  have calls: "D CreateDirs = None" "D CreateDb = None" "D BeginWrite = None" "D (OpenTable ''headers'') = None" "D (OpenTable ''bodies'') = None"
    "D (OpenTable ''meta'') = None" "D (TableGet ''meta'') = None" "D (TableInsert ''meta'') = None" "D CommitTxn = None"
    using assms by (auto simp: open_calls_def split: option.splits)
  show ?thesis
    by (auto simp: open_defs calls version_verdict_def schema_bytes version_one SCHEMA_VERSION_def[symmetric] split: option.split)
      (simp_all add: SCHEMA_VERSION_def version_one)
qed

text \<open>
  Opening a store never reinterprets or loses data. When it succeeds, the database carries schema version one,
  every header, every body and every other meta value is as before, and opening again succeeds and changes nothing;
  when it fails, every table is as before. Without a failure of the database itself the verdict is decided
  by the stored version alone: none is initialised, four bytes that are not version one are a mismatch naming
  the version found, and any other number of bytes is a corrupt value.
\<close>

theorem open_store_exact:
  assumes "open_store D file = (r, file')"
  shows "(r = Inr () \<longrightarrow> map_of (db_meta (tables file')) ''schema_version'' = Some [1, 0, 0, 0] \<and>
      db_headers (tables file') = db_headers (tables file) \<and> db_bodies (tables file') = db_bodies (tables file) \<and>
      (\<forall>k. k \<noteq> ''schema_version'' \<longrightarrow> map_of (db_meta (tables file')) k = map_of (db_meta (tables file)) k) \<and>
      (\<forall>D'. attempt D' open_calls = None \<longrightarrow> open_store D' file' = (Inr (), file'))) \<and>
    (r \<noteq> Inr () \<longrightarrow> tables file' = tables file) \<and>
    (attempt D open_calls = None \<longrightarrow> r = version_verdict (map_of (db_meta (tables file)) ''schema_version''))"
proof -
  let ?m = "db_meta (tables file)" and ?v = "''schema_version''"
  have ok: "file' = Some ((tables file)\<lparr>db_meta := (if map_of ?m ?v = None then AList.update ?v [1, 0, 0, 0] ?m else ?m)\<rparr>) \<and>
      (map_of ?m ?v = None \<or> map_of ?m ?v = Some [1, 0, 0, 0])" if "r = Inr ()"
    using assms that
    by (auto simp: open_defs schema_bytes[unfolded SCHEMA_VERSION_def] SCHEMA_VERSION_def version_one
        split: option.splits if_splits prod.splits)
  have "open_store D' file' = (Inr (), file')" if "r = Inr ()" "attempt D' open_calls = None" for D'
    using ok[OF that(1)] open_no_fault[OF that(2), of file'] by (auto simp: tables_def version_verdict_def)
  moreover have "tables file' = tables file" if "r \<noteq> Inr ()"
    using assms that by (auto simp: open_defs tables_def split: option.splits if_splits prod.splits)
  moreover have "r = version_verdict (map_of ?m ?v)" if "attempt D open_calls = None"
    using assms open_no_fault[OF that] by (auto split: sum.splits simp: version_verdict_def)
  ultimately show ?thesis using ok by (auto simp: tables_def)
qed

theorem open_store_exact_witness:
  "open_store (\<lambda>_. None) None = (Inr (), Some \<lparr>db_headers = [], db_bodies = [], db_meta = [(''schema_version'', [1, 0, 0, 0])]\<rparr>) \<and>
   version_verdict (Some [2, 0, 0, 0]) = Inl (SchemaMismatch 2 1) \<and>
   fst (open_store (\<lambda>_. None) (Some (empty_database\<lparr>db_meta := [(''schema_version'', [2, 0, 0, 0])]\<rparr>))) = Inl (SchemaMismatch 2 1)"
proof -
  have "open_store (\<lambda>_. None) None = (Inr (), Some \<lparr>db_headers = [], db_bodies = [], db_meta = [(''schema_version'', [1, 0, 0, 0])]\<rparr>)"
    and v: "version_verdict (Some [2, 0, 0, 0]) = Inl (SchemaMismatch 2 1)" by code_simp+
  moreover have "attempt (\<lambda>_. None) open_calls = None" by (simp add: open_calls_def)
  moreover note open_store_exact[OF surjective_pairing, of "\<lambda>_. None" "Some (empty_database\<lparr>db_meta := [(''schema_version'', [2, 0, 0, 0])]\<rparr>)"]
  ultimately show ?thesis by (simp add: tables_def)
qed

section \<open>Reading what was written\<close>

text \<open>A write, with the failures of the database while it runs.\<close>

datatype store_write = WriteHeader faults block_hash header | WriteBody faults block_hash "byte list"

fun run_write :: "header_codec \<Rightarrow> store_write \<Rightarrow> database \<Rightarrow> (storage_error + unit) \<times> database" where
  "run_write C (WriteHeader D h hdr) db = put_header C D h hdr db"
| "run_write C (WriteBody D h body) db = put_body D h body db"

definition run_writes :: "header_codec \<Rightarrow> store_write list \<Rightarrow> database \<Rightarrow> database" where
  "run_writes C = fold (\<lambda>w db. snd (run_write C w db))"

text \<open>The writes that reported success, in order.\<close>

fun header_written :: "store_write \<Rightarrow> (block_hash \<times> header) option" where
  "header_written (WriteHeader D h hdr) =
     (if attempt D [BeginWrite, OpenTable ''headers'', TableInsert ''headers'', CommitTxn] = None then Some (h, hdr) else None)"
| "header_written _ = None"

fun body_written :: "store_write \<Rightarrow> (block_hash \<times> byte list) option" where
  "body_written (WriteBody D h body) =
     (if attempt D [BeginWrite, OpenTable ''bodies'', TableInsert ''bodies'', CommitTxn] = None then Some (h, body) else None)"
| "body_written _ = None"

lemma written_success:
  "fst (run_write C w db) = Inr () \<longleftrightarrow> header_written w \<noteq> None \<or> body_written w \<noteq> None"
  by (cases w) (auto simp del: attempt.simps simp: put_header_def put_body_def split: option.split)

text \<open>
  The contract of a table of \<open>BlockStore\<close>: a write that reports success stores its value under its hash,
  and nothing else changes what is stored.
\<close>

locale block_table =
  fixes effect :: "'w \<Rightarrow> 's \<Rightarrow> 's" and written :: "'w \<Rightarrow> (block_hash \<times> 'v) option" and stored :: "block_hash \<Rightarrow> 's \<Rightarrow> 'v option"
  assumes stored_write: "stored h (effect w s) =
    (case written w of Some (h', v) \<Rightarrow> if h = h' then Some v else stored h s | None \<Rightarrow> stored h s)"
begin

lemma stored_after:
  "stored h (fold effect ws s) = (case map_of (rev (List.map_filter written ws)) h of None \<Rightarrow> stored h s | Some v \<Rightarrow> Some v)"
  by (induction ws arbitrary: s) (auto simp: stored_write map_filter_def map_add_def split: option.split)

lemma unwritten: "h \<notin> fst ` set (List.map_filter written ws) \<Longrightarrow> stored h (fold effect ws s) = stored h s"
  by (force simp: stored_after split: option.split dest: map_of_SomeD)

end

interpretation header_table: block_table "\<lambda>w db. snd (run_write C w db)" "\<lambda>w. map_option (\<lambda>(h, hdr). (h, encoded C hdr)) (header_written w)"
    "\<lambda>h db. map_of (db_headers db) h" for C
proof
  show "map_of (db_headers (snd (run_write C w db))) h =
    (case map_option (\<lambda>(h, hdr). (h, encoded C hdr)) (header_written w) of Some (h', v) \<Rightarrow> if h = h' then Some v else map_of (db_headers db) h
     | None \<Rightarrow> map_of (db_headers db) h)" for h w db
    by (cases w) (auto simp del: attempt.simps simp: put_header_def put_body_def split: option.split)
qed

interpretation body_table: block_table "\<lambda>w db. snd (run_write C w db)" body_written "\<lambda>h db. map_of (db_bodies db) h" for C
proof
  show "map_of (db_bodies (snd (run_write C w db))) h =
    (case body_written w of Some (h', v) \<Rightarrow> if h = h' then Some v else map_of (db_bodies db) h | None \<Rightarrow> map_of (db_bodies db) h)" for h w db
    by (cases w) (auto simp del: attempt.simps simp: put_header_def put_body_def split: option.split)
qed

lemma map_of_encoded:
  "map_of (rev (List.map_filter (\<lambda>w. map_option (\<lambda>(h, hdr). (h, f hdr)) (g w)) ws)) h = map_option f (map_of (rev (List.map_filter g ws)) h)"
proof -
  have "rev (List.map_filter (\<lambda>w. map_option (\<lambda>(h, hdr). (h, f hdr)) (g w)) ws) = map (\<lambda>(h, hdr). (h, f hdr)) (rev (List.map_filter g ws))"
    by (induction ws) (auto simp: map_filter_def)
  then show ?thesis by (simp add: map_of_map)
qed

definition header_reads :: "db_call list" where "header_reads = [BeginRead, OpenTable ''headers'', TableGet ''headers'']"
definition body_reads :: "db_call list" where "body_reads = [BeginRead, OpenTable ''bodies'', TableGet ''bodies'']"

text \<open>
  What is read is what was last written. After any sequence of header and body writes, of which any may fail, a
  read that the database lets through gives for every hash the header, or the body, of the last write
  under that hash that reported success, and what was there before if there was none; and it says that a header is
  present just when it would find one.
\<close>

theorem store_exact:
  assumes "codec_law C" and "attempt D header_reads = None" and "attempt D body_reads = None"
  shows "get_header C D h (run_writes C ws db) =
      (case map_of (rev (List.map_filter header_written ws)) h of Some hdr \<Rightarrow> Inr (Some hdr) | None \<Rightarrow> get_header C D h db) \<and>
    has_header D h (run_writes C ws db) =
      (if map_of (rev (List.map_filter header_written ws)) h = None then has_header D h db else Inr True) \<and>
    get_body D h (run_writes C ws db) =
      (case map_of (rev (List.map_filter body_written ws)) h of Some body \<Rightarrow> Inr (Some body) | None \<Rightarrow> get_body D h db)"
proof -
  have dec: "decode_header C (encoded C hdr) = Inr (hdr, [])" for hdr using assms(1) unfolding codec_law_def by (metis append_Nil2)
  note hs = header_table.stored_after[where h = h and ws = ws and s = db and C = C, folded run_writes_def, unfolded map_of_encoded]
  note bs = body_table.stored_after[where h = h and ws = ws and s = db and C = C, folded run_writes_def]
  note reads = assms(2,3)[unfolded header_reads_def body_reads_def]
  show ?thesis
    by (auto simp del: attempt.simps simp: get_header_def has_header_def get_body_def reads hs bs dec split: option.split)
qed

text \<open>A header codec that obeys the law, and two writes of which the second fails.\<close>

definition toy_codec :: header_codec where
  "toy_codec = \<lparr>encoded = (\<lambda>h. unary (payload_tuple (empty_payload h))),
     decode_header = (\<lambda>bs. reread (\<lambda>t. bp_header (tuple_payload t)) (ununary bs))\<rparr>"

lemma toy_codec_law: "codec_law toy_codec"
proof -
  have "tuple_payload (payload_tuple b) = b" for b by (simp add: tuple_payload_def payload_tuple_def Let_def)
  then show ?thesis by (simp add: codec_law_def toy_codec_def ununary reread_def empty_payload_def)
qed

theorem store_exact_witness:
  "codec_law toy_codec \<and> get_body (\<lambda>_. None) 7 (run_writes toy_codec [WriteBody (\<lambda>_. None) 7 [1, 2],
     WriteBody (\<lambda>c. if c = CommitTxn then Some ''disk full'' else None) 7 [3]] empty_database) = Inr (Some [1, 2])"
proof -
  have "attempt (\<lambda>_. None) header_reads = None" "attempt (\<lambda>_. None) body_reads = None" by (simp_all add: header_reads_def body_reads_def)
  from store_exact[OF toy_codec_law this] show ?thesis by (simp add: toy_codec_law map_filter_def)
qed

end
