(* ===== verification/Fuzz.thy ===== *)
theory Fuzz
  imports Dag_Chain Compact Storage Node_Inv
begin

text \<open>
  The fuzz targets (\<open>src/fuzz/fuzz_targets\<close>) as functions of their input: a panic, a failed \<open>expect\<close> or a failed assertion is \<open>None\<close>.
  The library that turns raw bytes into the structured input of \<open>ghostdag_build\<close> is third-party, as are the codecs.
\<close>

definition check :: "bool \<Rightarrow> unit option" where
  "check b = (if b then Some () else None)"

section \<open>Codecs\<close>

definition fuzz_compact_target :: "u32 \<Rightarrow> unit option" where
  "fuzz_compact_target raw =
     (case to_target raw of Inl _ \<Rightarrow> Some ()
      | Inr target \<Rightarrow>
          if target = 0 then None
          else (case to_target (from_target target) of Inl _ \<Rightarrow> None | Inr again \<Rightarrow> check (again = target)))"

definition fuzz_message_decode :: "rlp_lib \<Rightarrow> octet list \<Rightarrow> unit option" where
  "fuzz_message_decode R data =
     (case decode_from_slice R data of Inl _ \<Rightarrow> Some ()
      | Inr message \<Rightarrow>
          (case decode_from_slice R (encode_to_vec R message) of Inl _ \<Rightarrow> None | Inr decoded \<Rightarrow> check (message = decoded)))"

text \<open>Hashing and the structural validation are total functions of the model.\<close>

definition fuzz_header_rlp :: "(header \<Rightarrow> block_hash) \<Rightarrow> header_codec \<Rightarrow> octet list \<Rightarrow> unit option" where
  "fuzz_header_rlp hash C data =
     (case decode_header C data of Inl _ \<Rightarrow> Some ()
      | Inr (header, _) \<Rightarrow>
          (case decode_header C (encoded C header) of Inl _ \<Rightarrow> None
           | Inr (decoded, _) \<Rightarrow> check (header = decoded \<and> hash header = hash decoded)))"

definition fuzz_transaction_decode :: "('env, 'tx) raw_lib \<Rightarrow> ('env \<Rightarrow> octet list) \<Rightarrow> ('env \<Rightarrow> u256) \<Rightarrow> octet list \<Rightarrow> unit option" where
  "fuzz_transaction_decode R encoded_2718 hash data =
     (case decode_2718 R data of Inl _ \<Rightarrow> Some ()
      | Inr envelope \<Rightarrow>
          (case decode_2718 R (encoded_2718 envelope) of Inl _ \<Rightarrow> None | Inr decoded \<Rightarrow> check (hash envelope = hash decoded)))"

section \<open>Building a DAG\<close>

record block_spec =
  bs_parent_indices :: "16 word list"
  bs_nonce :: "16 word"
  bs_sort_parents :: bool

record scenario =
  sn_k :: "8 word"
  sn_blocks :: "block_spec list"

definition fuzz_genesis :: header where
  "fuzz_genesis =
     \<lparr>h_version = HEADER_VERSION, h_parents = [], h_timestamp_ms = 1700000000000, h_bits = 0x2000ffff, h_nonce = 0, h_miner = 0,
      h_txs_root = 0, h_deferred_height = 0, h_deferred_state_root = 0, h_deferred_receipts_root = 0, h_deferred_gas_used = 0\<rparr>"

definition fuzz_parent :: "block_hash list \<Rightarrow> 16 word \<Rightarrow> block_hash" where
  "fuzz_parent known i =
     (let position = unat i mod max (length known) 1 in
      if position < length known then known ! position else ucast i + 1000000)"

definition fuzz_parents :: "block_hash list \<Rightarrow> block_spec \<Rightarrow> block_hash list" where
  "fuzz_parents known spec =
     (let parents = map (fuzz_parent known) (take 32 (bs_parent_indices spec)) in
      if bs_sort_parents spec then remdups_adj (sort parents) else parents)"

text \<open>What is asserted of a block just accepted; the subtraction of one from no blues would panic.\<close>

definition coherent :: "dag_store \<Rightarrow> block_hash \<Rightarrow> bool" where
  "coherent dag b =
     (case dag_data dag b of None \<Rightarrow> False
      | Some d \<Rightarrow>
          contains dag (d_selected_parent d) \<and> d_selected_parent d \<in> set (d_mergeset_blues d) \<and>
          list_all (\<lambda>red. red \<notin> set (d_mergeset_blues d)) (d_mergeset_reds d) \<and>
          0 < length (d_mergeset_blues d) \<and>
          length (d_mergeset_ordered d) = length (d_mergeset_blues d) - 1 + length (d_mergeset_reds d))"

fun fuzz_blocks ::
  "(header \<Rightarrow> block_hash) \<Rightarrow> nat \<Rightarrow> block_spec list \<Rightarrow> dag_store \<Rightarrow> block_hash list \<Rightarrow> dag_store option" where
  "fuzz_blocks hash index [] dag known = Some dag"
| "fuzz_blocks hash index (spec # specs) dag known =
     (let header = fuzz_genesis\<lparr>h_parents := fuzz_parents known spec, h_nonce := ucast (bs_nonce spec) + of_nat index + 1\<rparr> in
      case add_block hash dag header of
        (Inl _, dag) \<Rightarrow> fuzz_blocks hash (index + 1) specs dag known
      | (Inr _, dag) \<Rightarrow>
          if coherent dag (hash header) then fuzz_blocks hash (index + 1) specs dag (known @ [hash header]) else None)"

definition fuzz_ghostdag_build :: "(header \<Rightarrow> block_hash) \<Rightarrow> scenario \<Rightarrow> unit option" where
  "fuzz_ghostdag_build hash sn =
     (let dag = new_dag hash fuzz_genesis (unat (sn_k sn)) 180 in
      case fuzz_blocks hash 0 (take 64 (sn_blocks sn)) dag [s_genesis dag] of None \<Rightarrow> None
      | Some dag \<Rightarrow>
          let chain = selected_parent_chain dag (virtual_selected_parent dag)
          in check (chain \<noteq> [] \<and> last chain = s_genesis dag))"

section \<open>The assertions hold\<close>

lemma accepted_coherent:
  assumes dr: "dag_reachable hash genesis k limit s" and add: "add_block hash s h = (Inr b, t)"
  shows "coherent t (hash h)" "dag_reachable hash genesis k limit t"
proof -
  have dr': "dag_reachable hash genesis k limit t" using dag_reachable.add[OF dr, of h] add by simp
  then show "dag_reachable hash genesis k limit t" .
  note ok = reachable_ok[OF dr'] note dag = dag_okD[OF ok]
  from add_block_cases[OF reachable_ok[OF dr] add] have ins: "b = hash h" "b \<notin> blocks s" "inserted s b h t" by auto
  have b: "b \<in> blocks t" using inserted_basic(1)[OF ins(3,2)] by simp
  have "b \<noteq> s_genesis t"
    using ins(2,3) dag_okD(1)[OF reachable_ok[OF dr]] by (auto simp: inserted_def topology_ok_def)
  from colouring_of_block[OF ok b this] obtain d bs where
    d: "map_of (s_data t) b = Some d" "d_selected_parent d = select_parent t (parents_of t b)"
      "d_mergeset_blues d = d_selected_parent d # bs" "distinct (d_mergeset_blues d @ d_mergeset_reds d)"
      "set (bs @ d_mergeset_reds d) = set (d_mergeset_ordered d)" "d_mergeset_ordered d = mergeset_order t (parents_of t b) (d_selected_parent d)" by blast
  have ps: "parents_of t b \<noteq> []" "set (parents_of t b) \<subseteq> blocks t"
    using parents_nonempty[OF dag(1) b \<open>b \<noteq> s_genesis t\<close>] parents_in_blocks[OF dag(1)] by auto
  have "distinct (d_mergeset_ordered d)" using mergeset_order_correct(2)[OF dag(1) ps(2)] d(6) by simp
  moreover have "distinct (bs @ d_mergeset_reds d)" using d(3,4) by auto
  ultimately have "length (d_mergeset_ordered d) = length (bs @ d_mergeset_reds d)" using d(5) by (metis distinct_card)
  moreover have "contains t (d_selected_parent d)" using select_parent_in[OF ps(1)] ps(2) d(2) by (auto simp: contains_iff)
  ultimately show "coherent t (hash h)" using d(1,3,4) ins(1) by (auto simp: coherent_def dag_data_def list_all_iff)
qed

lemma fuzz_blocks_pass:
  "dag_reachable hash genesis k limit dag \<Longrightarrow>
   \<exists>t. fuzz_blocks hash index specs dag known = Some t \<and> dag_reachable hash genesis k limit t"
proof (induction hash index specs dag known rule: fuzz_blocks.induct)
  case (2 hash index spec specs dag known)
  let ?h = "fuzz_genesis\<lparr>h_parents := fuzz_parents known spec, h_nonce := ucast (bs_nonce spec) + of_nat index + 1\<rparr>"
  obtain r t where add: "add_block hash dag ?h = (r, t)" by fastforce
  show ?case
  proof (cases r)
    case (Inl e)
    have "dag_reachable hash genesis k limit t" using dag_reachable.add[OF 2(3), of ?h] add by simp
    from 2(1)[OF refl add[symmetric] Inl this] show ?thesis using add Inl by (simp add: Let_def)
  next
    case (Inr b)
    note acc = accepted_coherent[OF 2(3) add[unfolded Inr]]
    from 2(2)[OF refl add[symmetric] Inr acc] show ?thesis using add Inr acc(1) by (simp add: Let_def)
  qed
qed simp

lemma fuzz_ghostdag_build_passes: "fuzz_ghostdag_build hash sn = Some ()"
proof -
  let ?dag = "new_dag hash fuzz_genesis (unat (sn_k sn)) 180"
  have "dag_reachable hash fuzz_genesis (unat (sn_k sn)) 180 ?dag" by (rule dag_reachable.start) (simp add: fuzz_genesis_def)
  from fuzz_blocks_pass[OF this] obtain t where t: "fuzz_blocks hash 0 (take 64 (sn_blocks sn)) ?dag [s_genesis ?dag] = Some t"
    "dag_reachable hash fuzz_genesis (unat (sn_k sn)) 180 t" by blast
  note ok = reachable_ok[OF t(2)]
  from selected_parent_chain_shape[OF dag_okD(1,2)[OF ok] virtual_selected_parent_in[OF ok]] t(1) show ?thesis
    by (simp add: fuzz_ghostdag_build_def check_def Let_def)
qed

text \<open>A parent is never a block that does not exist, since the position is taken modulo the number of known blocks.\<close>

lemma fuzz_parent_known: "known \<noteq> [] \<Longrightarrow> fuzz_parent known i \<in> set known"
  by (simp add: fuzz_parent_def Let_def max_def Suc_le_eq)



end
