(* ===== verification/K_Parameter.thy ===== *)
theory K_Parameter
  imports Complex_Main Chain_Prelude
begin

text \<open>
  The derivation of k, \<open>crates/ghostdag/src/k_parameter.rs\<close>: the least k whose Poisson tail is at most the failure
  probability. The arithmetic of \<open>f64\<close> is the record \<open>float_ops\<close>, so that the loop is the code's for any rounding; the
  exact instance on the reals, \<open>exact_ops\<close>, says what the loop computes when nothing is rounded.
\<close>

section \<open>Floats\<close>

record 'f float_ops =
  f_of_nat :: "nat \<Rightarrow> 'f"
  f_add :: "'f \<Rightarrow> 'f \<Rightarrow> 'f"
  f_sub :: "'f \<Rightarrow> 'f \<Rightarrow> 'f"
  f_mul :: "'f \<Rightarrow> 'f \<Rightarrow> 'f"
  f_div :: "'f \<Rightarrow> 'f \<Rightarrow> 'f"
  f_neg :: "'f \<Rightarrow> 'f"
  f_exp :: "'f \<Rightarrow> 'f"
  f_le :: "'f \<Rightarrow> 'f \<Rightarrow> bool"

section \<open>The derivation\<close>

text \<open>\<open>0.01\<close>, the float nearest to a hundredth, is the quotient of the two floats.\<close>

definition DEFAULT_DELTA :: "'f float_ops \<Rightarrow> 'f" where
  "DEFAULT_DELTA F = f_div F (f_of_nat F 1) (f_of_nat F 100)"

definition MAX_K :: nat where "MAX_K = 1024"

text \<open>The expected number of blocks in twice the delay.\<close>

definition poisson_mu :: "'f float_ops \<Rightarrow> u64 \<Rightarrow> u64 \<Rightarrow> 'f" where
  "poisson_mu F delay_ms blocks_per_second =
     (let delay_secs = f_div F (f_of_nat F (unat delay_ms)) (f_of_nat F 1000)
      in f_mul F (f_mul F (f_of_nat F 2) delay_secs) (f_of_nat F (unat blocks_per_second)))"

text \<open>The loop from \<open>k\<close> on, with \<open>left\<close> turns to go.\<close>

fun k_loop :: "'f float_ops \<Rightarrow> 'f \<Rightarrow> 'f \<Rightarrow> nat \<Rightarrow> nat \<Rightarrow> 'f \<Rightarrow> 'f \<Rightarrow> nat option" where
  "k_loop F mu delta k 0 term cdf = None"
| "k_loop F mu delta k (Suc left) term cdf =
     (if f_le F (f_sub F (f_of_nat F 1) cdf) delta then Some k
      else
        let term = f_mul F term (f_div F mu (f_of_nat F (k + 1)))
        in k_loop F mu delta (k + 1) left term (f_add F cdf term))"

definition calculate_k :: "'f float_ops \<Rightarrow> u64 \<Rightarrow> u64 \<Rightarrow> 'f \<Rightarrow> nat option" where
  "calculate_k F delay_ms blocks_per_second delta =
     (if blocks_per_second = 0 \<or> f_le F delta (f_of_nat F 0) \<or> f_le F (f_of_nat F 1) delta then None
      else
        let mu = poisson_mu F delay_ms blocks_per_second; term = f_exp F (f_neg F mu)
        in k_loop F mu delta 0 (MAX_K + 1) term term)"

definition calculate_k_default :: "'f float_ops \<Rightarrow> u64 \<Rightarrow> u64 \<Rightarrow> nat option" where
  "calculate_k_default F delay_ms blocks_per_second = calculate_k F delay_ms blocks_per_second (DEFAULT_DELTA F)"

section \<open>For any rounding\<close>

text \<open>The terms and sums as the loop forms them.\<close>

primrec k_terms :: "'f float_ops \<Rightarrow> 'f \<Rightarrow> nat \<Rightarrow> 'f \<times> 'f" where
  "k_terms F mu 0 = (let term = f_exp F (f_neg F mu) in (term, term))"
| "k_terms F mu (Suc k) =
     (case k_terms F mu k of (term, cdf) \<Rightarrow>
        let term = f_mul F term (f_div F mu (f_of_nat F (k + 1))) in (term, f_add F cdf term))"

definition k_enough :: "'f float_ops \<Rightarrow> 'f \<Rightarrow> 'f \<Rightarrow> nat \<Rightarrow> bool" where
  "k_enough F mu delta k \<longleftrightarrow> f_le F (f_sub F (f_of_nat F 1) (snd (k_terms F mu k))) delta"

lemma k_loop_exact:
  "k_terms F mu k = (term, cdf) \<Longrightarrow>
   k_loop F mu delta k left term cdf = List.find (k_enough F mu delta) [k..<k + left]"
proof (induction left arbitrary: k "term" cdf)
  case (Suc left)
  obtain t c where s: "k_terms F mu (Suc k) = (t, c)" by fastforce
  have "k_loop F mu delta (Suc k) left t c = List.find (k_enough F mu delta) [Suc k..<Suc k + left]" by (rule Suc.IH[OF s])
  moreover have "t = f_mul F term (f_div F mu (f_of_nat F (k + 1)))" "c = f_add F cdf t" using s Suc.prems by (auto simp: Let_def)
  moreover have "[k..<k + Suc left] = k # [Suc k..<Suc k + left]" by (simp add: upt_rec)
  moreover have "k_enough F mu delta k = f_le F (f_sub F (f_of_nat F 1) cdf) delta" using Suc.prems by (simp add: k_enough_def)
  ultimately show ?case by (simp add: Let_def del: upt_Suc)
qed simp

lemma find_upt_least: "List.find P [0..<n] = Some k \<longleftrightarrow> k < n \<and> P k \<and> (\<forall>j < k. \<not> P j)"
  by (auto simp: find_Some_iff)

lemma calculate_k_exact:
  assumes "blocks_per_second \<noteq> 0" "\<not> f_le F delta (f_of_nat F 0)" "\<not> f_le F (f_of_nat F 1) delta"
  shows "calculate_k F delay_ms blocks_per_second delta = List.find (k_enough F (poisson_mu F delay_ms blocks_per_second) delta) [0..<MAX_K + 1]"
  using assms k_loop_exact[of F "poisson_mu F delay_ms blocks_per_second" 0 "f_exp F (f_neg F (poisson_mu F delay_ms blocks_per_second))" _ delta "MAX_K + 1"]
  by (simp add: calculate_k_def Let_def)

section \<open>Without rounding\<close>

definition exact_ops :: "real float_ops" where
  "exact_ops = \<lparr>f_of_nat = real, f_add = (+), f_sub = (-), f_mul = (*), f_div = (/), f_neg = uminus, f_exp = exp, f_le = (\<le>)\<rparr>"

text \<open>The probability that a Poisson variable of mean \<open>mu\<close> exceeds \<open>k\<close>.\<close>

definition poisson_tail :: "real \<Rightarrow> nat \<Rightarrow> real" where
  "poisson_tail mu k = 1 - (\<Sum>j\<le>k. mu ^ j / fact j * exp (- mu))"

lemma k_terms_exact: "k_terms exact_ops mu k = (mu ^ k / fact k * exp (- mu), \<Sum>j\<le>k. mu ^ j / fact j * exp (- mu))"
proof (induction k)
  case (Suc k)
  have "mu ^ k / fact k * exp (- mu) * (mu / real (k + 1)) = mu ^ Suc k / fact (Suc k) * exp (- mu)" by (simp add: field_simps)
  moreover have "k_terms exact_ops mu (Suc k) = (case k_terms exact_ops mu k of (t, c) \<Rightarrow> (t * (mu / real (k + 1)), c + t * (mu / real (k + 1))))"
    by (simp add: exact_ops_def Let_def split: prod.split)
  ultimately show ?case unfolding Suc.IH by (simp del: fact_Suc k_terms.simps)
qed (simp add: exact_ops_def Let_def)

lemma k_enough_exact: "k_enough exact_ops mu delta k \<longleftrightarrow> poisson_tail mu k \<le> delta"
  unfolding k_enough_def k_terms_exact by (simp add: exact_ops_def poisson_tail_def)

text \<open>The tail shrinks as k grows, so the least k is the threshold itself.\<close>

lemma poisson_tail_antimono: "0 \<le> mu \<Longrightarrow> j \<le> k \<Longrightarrow> poisson_tail mu k \<le> poisson_tail mu j"
  unfolding poisson_tail_def by (intro diff_left_mono sum_mono2) auto

lemma poisson_mu_exact: "poisson_mu exact_ops delay_ms bps = 2 * (real (unat delay_ms) / 1000) * real (unat bps)"
  by (simp add: poisson_mu_def exact_ops_def Let_def)



end
