(* ===== verification/Evm_Env.thy ===== *)
theory Evm_Env
  imports Params Block_Execution
begin

text \<open>
  The environment the EVM runs a chain block in, \<open>crates/execution/src/evm.rs\<close>. The fields of the interpreter's
  configuration that the code sets are kept, the interpreter itself is third-party: \<open>transact\<close> of \<open>chain_lib\<close> and
  \<open>el_call\<close> of the RPC layer stand for running it in this environment.
\<close>

datatype spec_id = OSAKA

record cfg_env =
  cf_spec :: spec_id
  cf_chain_id :: nat

record block_env =
  be_number :: u256
  be_beneficiary :: address
  be_timestamp :: u256
  be_gas_limit :: u64
  be_basefee :: u64
  be_difficulty :: u256
  be_prevrandao :: "u256 option"
  be_blob_excess_gas_and_price :: "(u64 \<times> u64) option"
  be_slot_num :: u64

record evm_environment =
  ee_cfg_env :: cfg_env
  ee_block_env :: block_env

definition NO_EXCESS_BLOB_GAS :: u64 where "NO_EXCESS_BLOB_GAS = 0"
definition BLOB_BASE_FEE_UPDATE_FRACTION :: u64 where "BLOB_BASE_FEE_UPDATE_FRACTION = 5007716"
definition SPEC_ID :: spec_id where "SPEC_ID = OSAKA"

text \<open>\<open>BlobExcessGasAndPrice::new\<close> is its two arguments.\<close>

definition evm_env :: "chain_params \<Rightarrow> block_ctx \<Rightarrow> evm_environment" where
  "evm_env params ctx =
     \<lparr>ee_cfg_env = \<lparr>cf_spec = SPEC_ID, cf_chain_id = chain_id params\<rparr>,
      ee_block_env =
        \<lparr>be_number = ucast (ctx_height ctx), be_beneficiary = 0, be_timestamp = ucast (ctx_timestamp_secs ctx),
         be_gas_limit = ctx_gas_limit ctx, be_basefee = ctx_base_fee ctx, be_difficulty = 1,
         be_prevrandao = Some (ctx_prevrandao ctx),
         be_blob_excess_gas_and_price = Some (NO_EXCESS_BLOB_GAS, BLOB_BASE_FEE_UPDATE_FRACTION), be_slot_num = 0\<rparr>\<rparr>"

definition set_beneficiary :: "address \<Rightarrow> evm_environment \<Rightarrow> evm_environment" where
  "set_beneficiary miner evm = evm\<lparr>ee_block_env := (ee_block_env evm)\<lparr>be_beneficiary := miner\<rparr>\<rparr>"

text \<open>The last miner set is the one that is paid, and the environment determines the block it was built for.\<close>

lemma set_beneficiary_last: "set_beneficiary b (set_beneficiary a evm) = set_beneficiary b evm"
  by (simp add: set_beneficiary_def)

lemma wide_inj: "(ucast a :: u256) = ucast b \<longleftrightarrow> a = b" for a b :: u64
proof
  assume "(ucast a :: u256) = ucast b"
  then have "(ucast (ucast a :: u256) :: u64) = ucast (ucast b :: u256)" by simp
  moreover have "(ucast (ucast x :: u256) :: u64) = x" for x :: u64 by (rule bit_word_eqI) (simp add: bit_simps)
  ultimately show "a = b" by simp
qed simp

lemma evm_env_determines:
  assumes "set_beneficiary m (evm_env p c) = set_beneficiary m' (evm_env p' c')"
  shows "c = c' \<and> m = m' \<and> chain_id p = chain_id p'"
  using assms unfolding evm_env_def set_beneficiary_def by (cases c; cases c') (simp add: wide_inj)

end
