(* ===== verification/Rpc_Server.thy ===== *)
theory Rpc_Server
  imports Eth Dev_Node
begin

text \<open>
  The table of methods the RPC server builds, \<open>crates/rpc/src/server.rs\<close>, with the names the two API traits declare
  (\<open>eth.rs\<close>, \<open>dag_api.rs\<close>). Registering a name twice is an error of the library, on which the code panics: \<open>None\<close>. A
  handler is what identifies it; those of the two traits are modelled in \<open>Eth\<close> and \<open>Dev_Node\<close>. Binding the socket and answering
  requests are the library's.
\<close>

section \<open>The module of the library\<close>

datatype rpc_handler =
    EthMethod string
  | DagMethod string
  | Constant json

type_synonym rpc_module = "(string \<times> rpc_handler) list"

definition register_method :: "string \<Rightarrow> rpc_handler \<Rightarrow> rpc_module \<Rightarrow> rpc_module option" where
  "register_method name handler m = (if name \<in> set (map fst m) then None else Some (m @ [(name, handler)]))"

definition merge_module :: "rpc_module \<Rightarrow> rpc_module \<Rightarrow> rpc_module option" where
  "merge_module other m = (if set (map fst other) \<inter> set (map fst m) = {} then Some (m @ other) else None)"

section \<open>The traits\<close>

definition eth_names :: "string list" where
  "eth_names =
     [''chainId'', ''blockNumber'', ''getBalance'', ''getTransactionCount'', ''getCode'', ''getStorageAt'', ''call'', ''estimateGas'',
      ''gasPrice'', ''maxPriorityFeePerGas'', ''feeHistory'', ''sendRawTransaction'', ''getTransactionReceipt'', ''getTransactionByHash'',
      ''getBlockByNumber'', ''getBlockByHash'', ''accounts'', ''syncing'', ''getLogs'']"

definition dag_names :: "string list" where
  "dag_names = [''getDagTips'', ''getBlockDagInfo'', ''getMergeSet'', ''getConfidence'', ''getDeferredStateRoot'']"

definition eth_into_rpc :: rpc_module where
  "eth_into_rpc = map (\<lambda>name. (''eth_'' @ name, EthMethod name)) eth_names"

definition dag_into_rpc :: rpc_module where
  "dag_into_rpc = map (\<lambda>name. (''chainname_'' @ name, DagMethod name)) dag_names"

section \<open>The server's table\<close>

text \<open>\<open>to_string\<close> of an unsigned integer.\<close>

fun decimal_text :: "nat \<Rightarrow> string" where
  "decimal_text n = (if n < 10 then [char_of (48 + n)] else decimal_text (n div 10) @ [char_of (48 + n mod 10)])"

declare decimal_text.simps [simp del]

definition serve_module :: "string \<Rightarrow> nat \<Rightarrow> rpc_module option" where
  "serve_module client_version chain =
     Option.bind (merge_module eth_into_rpc []) (\<lambda>m.
     Option.bind (merge_module dag_into_rpc m) (\<lambda>m.
     Option.bind (register_method ''web3_clientVersion'' (Constant (JString client_version)) m) (\<lambda>m.
     Option.bind (register_method ''net_version'' (Constant (JString (decimal_text chain))) m) (\<lambda>m.
     Option.bind (register_method ''net_listening'' (Constant (JBool True)) m) (\<lambda>m.
     register_method ''net_peerCount'' (Constant (JString ''0x0'')) m)))))"

definition http_url :: "string \<Rightarrow> string" where
  "http_url addr = ''http://'' @ addr"

section \<open>Building the table never panics\<close>

lemma eth_names_distinct: "distinct eth_names" "distinct dag_names"
  by (simp_all add: eth_names_def dag_names_def)

lemma map_of_prefixed: "map_of (map (\<lambda>n. (p @ n, f n)) names) (p @ x) = (if x \<in> set names then Some (f x) else None)"
  by (induction names) auto

lemma map_of_other_head: "set (map fst m) \<subseteq> range (Cons c) \<Longrightarrow> c \<noteq> d \<Longrightarrow> map_of m (d # x) = None"
  by (auto simp: map_of_eq_None_iff)

definition rest_of_table :: "string \<Rightarrow> nat \<Rightarrow> rpc_module" where
  "rest_of_table version chain =
     [(''web3_clientVersion'', Constant (JString version)), (''net_version'', Constant (JString (decimal_text chain))),
      (''net_listening'', Constant (JBool True)), (''net_peerCount'', Constant (JString ''0x0''))]"

lemma prefixed_distinct: "distinct names \<Longrightarrow> distinct (map fst (map (\<lambda>n. (p @ n, f n)) names))"
  by (simp add: distinct_map inj_on_def comp_def)

lemma table_keys:
  "map fst eth_into_rpc = map (\<lambda>n. ''eth_'' @ n) eth_names" "map fst dag_into_rpc = map (\<lambda>n. ''chainname_'' @ n) dag_names"
  by (simp_all add: eth_into_rpc_def dag_into_rpc_def)

text \<open>The keys, with their first character in sight.\<close>

lemma keys_apart:
  "set (map fst eth_into_rpc) \<subseteq> range (Cons (CHR ''e''))" "set (map fst dag_into_rpc) \<subseteq> range (Cons (CHR ''c''))"
  by (auto simp: table_keys)

lemma fresh_keys:
  "set (map fst dag_into_rpc) \<inter> set (map fst eth_into_rpc) = {}"
  "CHR ''w'' # n \<notin> set (map fst eth_into_rpc)" "CHR ''w'' # n \<notin> set (map fst dag_into_rpc)"
  "CHR ''n'' # n \<notin> set (map fst eth_into_rpc)" "CHR ''n'' # n \<notin> set (map fst dag_into_rpc)"
  using keys_apart by fastforce+

lemma serve_module_table: "serve_module version chain = Some (eth_into_rpc @ dag_into_rpc @ rest_of_table version chain)"
proof -
  have 1: "merge_module eth_into_rpc [] = Some eth_into_rpc" by (simp add: merge_module_def)
  have 2: "merge_module dag_into_rpc eth_into_rpc = Some (eth_into_rpc @ dag_into_rpc)" using fresh_keys(1) by (simp add: merge_module_def)
  have 3: "register_method name h (eth_into_rpc @ dag_into_rpc @ m) = (if name \<in> set (map fst m) then None else Some (eth_into_rpc @ dag_into_rpc @ m @ [(name, h)]))"
    if "hd name = CHR ''w'' \<or> hd name = CHR ''n''" "name \<noteq> []" for name h m
    using that fresh_keys(2-5)[of "tl name"] by (cases name) (auto simp: register_method_def)
  show ?thesis using 3[of _ _ "[]"] unfolding serve_module_def by (simp add: 1 2 3 rest_of_table_def)
qed

lemma table_distinct: "distinct (map fst (eth_into_rpc @ dag_into_rpc @ rest_of_table version chain))"
proof -
  have "distinct (map fst eth_into_rpc)" "distinct (map fst dag_into_rpc)"
    using eth_names_distinct by (simp_all add: table_keys distinct_map inj_on_def)
  moreover have "set (map fst eth_into_rpc) \<inter> set (map fst dag_into_rpc) = {}" using fresh_keys(1) by blast
  moreover have "distinct (map fst (rest_of_table version chain))" by (simp add: rest_of_table_def)
  moreover have "set (map fst (rest_of_table version chain)) \<inter> (set (map fst eth_into_rpc) \<union> set (map fst dag_into_rpc)) = {}"
    using fresh_keys(2-5) by (auto simp: rest_of_table_def)
  ultimately show ?thesis unfolding map_append distinct_append set_append by blast
qed

lemma table_lookup:
  "map_of eth_into_rpc (''eth_'' @ n) = (if n \<in> set eth_names then Some (EthMethod n) else None)"
  "map_of dag_into_rpc (''chainname_'' @ n) = (if n \<in> set dag_names then Some (DagMethod n) else None)"
  "map_of eth_into_rpc (''chainname_'' @ n) = None" "map_of dag_into_rpc (''eth_'' @ n) = None"
  "map_of (rest_of_table version chain) (''eth_'' @ n) = None" "map_of (rest_of_table version chain) (''chainname_'' @ n) = None"
  using map_of_other_head[OF keys_apart(1), of "CHR ''c''"] map_of_other_head[OF keys_apart(2), of "CHR ''e''"]
  by (simp_all only: eth_into_rpc_def dag_into_rpc_def map_of_prefixed) (simp_all add: rest_of_table_def)

text \<open>
  The RPC server's table is built without a panic and says what every name does: no name is registered twice, a name
  \<open>eth_x\<close> or \<open>chainname_x\<close> reaches the method x of its trait and no other, and the four remaining names answer with
  constants, the network version being the chain id in decimal. The peer count is the constant zero, whatever the
  node's connections.
\<close>

theorem serve_module_exact:
  "serve_module version chain =
     Some (eth_into_rpc @ dag_into_rpc @
       [(''web3_clientVersion'', Constant (JString version)), (''net_version'', Constant (JString (decimal_text chain))),
        (''net_listening'', Constant (JBool True)), (''net_peerCount'', Constant (JString ''0x0''))]) \<and>
   distinct (map fst (the (serve_module version chain))) \<and>
   map_of (the (serve_module version chain)) (''eth_'' @ name) = (if name \<in> set eth_names then Some (EthMethod name) else None) \<and>
   map_of (the (serve_module version chain)) (''chainname_'' @ name) = (if name \<in> set dag_names then Some (DagMethod name) else None)"
proof (intro conjI)
  note table = serve_module_table[of version chain]
  show "serve_module version chain = Some (eth_into_rpc @ dag_into_rpc @
       [(''web3_clientVersion'', Constant (JString version)), (''net_version'', Constant (JString (decimal_text chain))),
        (''net_listening'', Constant (JBool True)), (''net_peerCount'', Constant (JString ''0x0''))])"
    using table by (simp add: rest_of_table_def)
  show "distinct (map fst (the (serve_module version chain)))" unfolding table option.sel by (rule table_distinct)
  show "map_of (the (serve_module version chain)) (''eth_'' @ name) = (if name \<in> set eth_names then Some (EthMethod name) else None)"
    "map_of (the (serve_module version chain)) (''chainname_'' @ name) = (if name \<in> set dag_names then Some (DagMethod name) else None)"
    unfolding table option.sel map_of_append map_add_def table_lookup by simp_all
qed

end
