(* ===== verification/Node_Boot.thy ===== *)
theory Node_Boot
  imports Dev_Node Storage
begin

text \<open>
  Starting a node: \<open>crates/node/src/lib.rs\<close>, the command line of \<open>bin/chainname-node/src/main.rs\<close> and the mining loop of
  \<open>crates/node/src/dev.rs\<close>. Reading and parsing the configuration file and the failures of the database are parameters as in \<open>Dev_Node\<close> and
  \<open>Storage\<close>; logging and the asynchronous runtime are left out.
\<close>

section \<open>Booting\<close>

datatype node_error =
    NodeConfigError config_error
  | NodeStorageError storage_error

record node =
  nd_config :: node_config
  nd_store :: database

text \<open>\<open>PathBuf::join\<close> of a directory and a relative name.\<close>

definition join_path :: "string \<Rightarrow> string \<Rightarrow> string" where
  "join_path dir name = (if dir = [] \<or> last dir = CHR ''/'' then dir @ name else dir @ ''/'' @ name)"

definition database_path :: "node_config \<Rightarrow> string" where
  "database_path c = join_path (nc_data_dir c) ''chain.redb''"

text \<open>\<open>Node::boot\<close>: the files are the databases by path; a panic is \<open>None\<close>.\<close>

definition boot :: "faults \<Rightarrow> node_config \<Rightarrow> (string \<Rightarrow> database option) \<Rightarrow> ((node_error + node) option) \<times> (string \<Rightarrow> database option)" where
  "boot D config files =
     (case config_validate config of None \<Rightarrow> (None, files)
      | Some (Inl e) \<Rightarrow> (Some (Inl (NodeConfigError e)), files)
      | Some (Inr _) \<Rightarrow>
          (case open_store D (files (database_path config)) of
             (Inl e, file) \<Rightarrow> (Some (Inl (NodeStorageError e)), files(database_path config := file))
           | (Inr _, file) \<Rightarrow> (Some (Inr \<lparr>nd_config = config, nd_store = tables file\<rparr>), files(database_path config := file))))"

section \<open>The command line\<close>

record cli =
  cl_config :: "string option"
  cl_data_dir :: "string option"
  cl_network :: "network option"
  cl_log_filter :: "string option"
  cl_check :: bool
  cl_dev :: bool
  cl_rpc_addr :: string
  cl_dev_block_time_ms :: u64

definition resolve_config ::
  "(string \<Rightarrow> string + string) \<Rightarrow> (string \<Rightarrow> string + node_config) \<Rightarrow> cli \<Rightarrow> config_error + node_config" where
  "resolve_config read_to_string from_str c =
     (case (case cl_config c of Some path \<Rightarrow> config_from_file read_to_string from_str path | None \<Rightarrow> Inr default_config) of
        Inl e \<Rightarrow> Inl e
      | Inr config \<Rightarrow>
          let config = (case cl_data_dir c of Some d \<Rightarrow> config\<lparr>nc_data_dir := d\<rparr> | None \<Rightarrow> config);
              config = (case cl_network c of Some n \<Rightarrow> config\<lparr>nc_network := n\<rparr> | None \<Rightarrow> config)
          in Inr (case cl_log_filter c of Some f \<Rightarrow> config\<lparr>nc_log_filter := f\<rparr> | None \<Rightarrow> config))"

text \<open>What the program goes on to do.\<close>

datatype main_outcome =
    Checked
  | DevChain chain_params string u64
  | NoTransport

definition node_main ::
  "(string \<Rightarrow> string + string) \<Rightarrow> (string \<Rightarrow> string + node_config) \<Rightarrow> faults \<Rightarrow> cli \<Rightarrow> (string \<Rightarrow> database option) \<Rightarrow>
   ((node_error + main_outcome) option) \<times> (string \<Rightarrow> database option)" where
  "node_main read_to_string from_str D c files =
     (case resolve_config read_to_string from_str c of Inl e \<Rightarrow> (Some (Inl (NodeConfigError e)), files)
      | Inr config \<Rightarrow>
          (case boot D config files of
             (Some (Inr nd), files) \<Rightarrow>
               (Some (Inr (if cl_check c then Checked
                  else if cl_dev c then DevChain (config_params (nd_config nd)) (cl_rpc_addr c) (cl_dev_block_time_ms c)
                  else NoTransport)), files)
           | (Some (Inl e), files) \<Rightarrow> (Some (Inl e), files)
           | (None, files) \<Rightarrow> (None, files)))"

section \<open>The mining loop\<close>

text \<open>
  The loop's turns: the timer fires at some reading of the system clock, in milliseconds before or after the epoch, or the cancellation flag changes.
\<close>

datatype loop_turn =
    TimerAt int
  | CancelChanged bool

definition clock_ms :: "int \<Rightarrow> u64" where
  "clock_ms t = (if 0 \<le> t \<and> t < 2 ^ 64 then of_int t else DEV_GENESIS_MS)"

fun mining_loop ::
  "(u64 \<Rightarrow> ('tx, 'log, 'code) dev_node \<Rightarrow> (block_hash option \<times> ('tx, 'log, 'code) dev_node) option) \<Rightarrow> loop_turn list \<Rightarrow>
   ('tx, 'log, 'code) dev_node \<Rightarrow> ('tx, 'log, 'code) dev_node option" where
  "mining_loop once [] d = Some d"
| "mining_loop once (TimerAt t # turns) d =
     (case once (clock_ms t) d of None \<Rightarrow> None | Some (_, d) \<Rightarrow> mining_loop once turns d)"
| "mining_loop once (CancelChanged stop # turns) d = (if stop then Some d else mining_loop once turns d)"

section \<open>Lemmas\<close>

text \<open>The presets are valid, so booting never panics and fails with the errors of the store only.\<close>

lemma network_validates: "config_validate c = Some (Inr ())"
  by (cases "nc_network c") (simp_all add: config_validate_def config_params_def presets_validate)

lemma boot_exact:
  "boot D config files =
     (let (r, file) = open_store D (files (database_path config)) in
      (Some (map_sum NodeStorageError (\<lambda>_. \<lparr>nd_config = config, nd_store = tables file\<rparr>) r), files(database_path config := file)))"
  by (auto simp: boot_def network_validates Let_def split: prod.split sum.split)

lemma boot_other_files: "path \<noteq> database_path config \<Longrightarrow> snd (boot D config files) path = files path"
  by (simp add: boot_exact split: prod.split)

text \<open>A flag wins over the file, and what neither sets is the file's or the default.\<close>

lemma resolve_config_exact:
  assumes "resolve_config rd parse c = Inr config"
  shows "\<exists>base. (case cl_config c of Some path \<Rightarrow> config_from_file rd parse path = Inr base | None \<Rightarrow> base = default_config) \<and>
    nc_data_dir config = case_option (nc_data_dir base) id (cl_data_dir c) \<and>
    nc_network config = case_option (nc_network base) id (cl_network c) \<and>
    nc_log_filter config = case_option (nc_log_filter base) id (cl_log_filter c)"
proof -
  from assms obtain base where b: "(case cl_config c of Some path \<Rightarrow> config_from_file rd parse path | None \<Rightarrow> Inr default_config) = Inr base"
    by (auto simp: resolve_config_def split: sum.splits)
  with assms have "config = (let config = (case cl_data_dir c of Some d \<Rightarrow> base\<lparr>nc_data_dir := d\<rparr> | None \<Rightarrow> base);
      config = (case cl_network c of Some n \<Rightarrow> config\<lparr>nc_network := n\<rparr> | None \<Rightarrow> config)
    in case cl_log_filter c of Some f \<Rightarrow> config\<lparr>nc_log_filter := f\<rparr> | None \<Rightarrow> config)" by (simp add: resolve_config_def Let_def)
  with b show ?thesis by (intro exI[of _ base]) (auto simp: Let_def split: option.splits)
qed

text \<open>Nothing after the cancellation matters, and a clock out of range reads as the time of genesis.\<close>

lemma mining_loop_stops: "mining_loop once (turns @ CancelChanged True # rest) d = mining_loop once (turns @ [CancelChanged True]) d"
  by (induction once turns d rule: mining_loop.induct) (simp_all split: option.split)

lemma clock_ms_exact: "(0 \<le> t \<and> t < 2 ^ 64 \<longrightarrow> uint (clock_ms t) = t) \<and> (t < 0 \<or> 2 ^ 64 \<le> t \<longrightarrow> clock_ms t = DEV_GENESIS_MS)"
  by (auto simp: clock_ms_def uint_word_of_int)

end
