(* ===== verification/Spec2Isabelle.thy ===== *)
theory Spec2Isabelle
  imports Dag_Props Dag_Chain Execution_Order Reorg Ordering Journal Parallel Dev_Props Eth_Props P2p_Wire Sim_Props Fuzz K_Parameter Evm_Env Rpc_Server Node_Boot Consensus Params Work
begin

text \<open>
  Verification library of a GHOSTDAG execution node. Blocks form a DAG in which no parent is
  privileged; GHOSTDAG derives from it, on every node alike, a selected chain and for each chain
  block the merge set it folds in; the chain executor runs the transactions of those blocks in a
  canonical order on an account state that a reorganisation can unwind.

  How the parts interact: a header passes \<open>validate_header\<close> (structure, clock, the difficulty of
  the retarget rule, proof of work) and enters the store through \<open>add_block\<close>, which computes its
  GHOSTDAG data from its parents'. \<open>compute_reorg\<close> compares the selected chains of the old and the
  new tip; \<open>apply_reorg\<close> undoes the blocks that leave and executes the ones that join, taking for
  each the base sequence of its merge set, deduplicated, ordered in conflict-free rounds, and run
  sequentially or by speculation. The node puts this behind one lock (\<open>backend_add_block\<close>), next to a
  transaction pool and an index of executed transactions; the development miner builds on its tips. Blocks reach
  a node through the synchroniser, a state machine fed with decoded messages, which travel as frames. The testkit's simulation
  runs many such nodes over a lossy network in virtual time, and judges whether their DAGs and their states agree.

  Theories and sources (under \<open>src/crates\<close>):
  \<^item> \<open>Chain_Prelude\<close>: the shared library. Machine words with saturating, checked and truncating
    arithmetic as the code uses them, hash maps as association lists, comparators as Rust's
    \<open>Ordering\<close>, stable sorting by a comparator (the locale \<open>strict_comparator\<close>). \<open>Btree_Map\<close>: ordered maps,
    and the locale \<open>dictionary\<close> that both kinds of map interpret.
  \<^item> \<open>Params\<close> (\<open>primitives/src/params.rs\<close>), \<open>Header\<close> (\<open>primitives/src/header.rs\<close>), \<open>Compact\<close> and \<open>Asert\<close>
    (\<open>difficulty/src\<close>), \<open>Consensus\<close> (\<open>consensus/src\<close>, \<open>pow/src\<close>), \<open>Work\<close> (\<open>ghostdag/src/work.rs\<close>): the
    stateless consensus rules. Lemmas: exact acceptance conditions and the order of errors, round
    trip and monotonicity of the compact encoding, bounds of the retarget rule and the range of
    its 128-bit intermediates.
  \<^item> \<open>Dag\<close> (\<open>ghostdag/src/dag.rs\<close>): the store and every operation on it, the mutex-protected cache being
    part of the state. \<open>Dag_Reach\<close> (reachability and the locale \<open>reachability_oracle\<close> through which
    the later theories use it), \<open>Dag_Mergeset\<close>, \<open>Dag_Colour\<close>, \<open>Dag_Spec\<close> (the abstract GHOSTDAG
    function and the refinement), \<open>Dag_Local\<close> (the data of a block depends on its past only),
    \<open>Dag_Inv\<close> (the invariant and its preservation), \<open>Dag_Props\<close> and \<open>Dag_Chain\<close> (properties of
    reachable stores).
  \<^item> \<open>Ordering\<close> (\<open>ghostdag/src/ordering.rs\<close>), \<open>Execution_Order\<close>, \<open>Reorg\<close> (\<open>chain/src/reorg.rs\<close>): the order
    of execution, and chain reorganisation.
  \<^item> \<open>World_State\<close> (\<open>execution/src/state.rs\<close>, \<open>chain/src/journal.rs\<close>), \<open>Journal\<close> (the undo contract as a
    locale, interpreted on the world state), \<open>Block_Execution\<close> and \<open>Parallel\<close> (\<open>chain/src/bodies.rs\<close>,
    \<open>chain/src/parallel.rs\<close>, the two execution paths of \<open>chain/src/executor.rs\<close>).
  \<^item> \<open>Executor\<close> (the rest of \<open>chain/src/executor.rs\<close>). \<open>Executor_View\<close>: execution depends on the accounts and
    their code only. \<open>Executor_Replay\<close> and \<open>Executor_Props\<close>: the journal invariant, undoing as the inverse of
    executing, and a reorganisation as a replay.
  \<^item> \<open>Pool\<close> (\<open>pool/src/lib.rs\<close>), with its invariant (\<open>Pool_Inv\<close>), admission (\<open>Pool_Props\<close>), the greedy choice of
    the miner (\<open>Pool_Best\<close>) and reachable pools (\<open>Pool_Reach\<close>).
  \<^item> \<open>Node\<close> (\<open>rpc/src/backend.rs\<close>). \<open>Node_Replay\<close>, \<open>Node_Inv\<close> and \<open>Node_Props\<close>: a node stands where executing its
    selected chain from genesis puts it, and its index and pool follow.
  \<^item> \<open>Dev_Node\<close> (\<open>execution/src/genesis.rs\<close>, \<open>node/src/config.rs\<close>, \<open>node/src/dev.rs\<close>, \<open>rpc/src/dag_api.rs\<close>) and
    \<open>Dev_Props\<close>: the genesis state, mining, and settlement depth.
  \<^item> \<open>Json\<close>: JSON values and hexadecimal text. \<open>Eth\<close> (\<open>rpc/src/eth.rs\<close>) and \<open>Eth_Props\<close>: the \<open>eth\<close> namespace over the node
    state, blocks as a client walks them, and log queries.
  \<^item> \<open>Peer\<close> (\<open>net/src/peer.rs\<close>), \<open>Transport\<close> (\<open>net/src/transport.rs\<close>), \<open>Message\<close> (\<open>net/src/message.rs\<close>) and
    \<open>Sync\<close> (\<open>net/src/sync.rs\<close>). \<open>Sync_Inv\<close>: the invariant of the orphan pool, also in the middle of a resolution.
    \<open>Sync_Handlers\<close>: every handler keeps it and loses no block. \<open>Sync_Props\<close>: convergence. \<open>Sync_Tick\<close>: requests.
    \<open>Sync_Peers\<close>: which peers are known and asked.
  \<^item> \<open>P2p\<close> (\<open>net/src/p2p.rs\<close>): the tasks of the runtime as steps of a state machine, in any interleaving of the sections that
    the code runs under one lock. \<open>P2p_Inv\<close>: tasks, channels and the state machine stay in step. \<open>P2p_Props\<close>: reachable
    nodes, and connections end. \<open>P2p_Wire\<close>: what is written is heard.
  \<^item> \<open>Rng\<close> (\<open>testkit/src/rng.rs\<close>) and \<open>Sim\<close> (\<open>testkit/src/sim.rs\<close>, \<open>testkit/src/wallet.rs\<close>): the simulation, a partial function for each
    event loop. \<open>Sim_Events\<close>: what handlers schedule, and the loops end. \<open>Sim_Sync\<close>: the handlers report exactly the blocks that join, with
    their bodies. \<open>Sim_Exec\<close>: the executor of a node catches up with its DAG. \<open>Sim_Run\<close>: runs as an inductive relation, in any order of the
    pending events, and their invariant. \<open>Sim_Start\<close>: it holds from the start, and nothing panics. \<open>Sim_Props\<close>: the two verdicts.
  \<^item> \<open>K_Parameter\<close> (\<open>ghostdag/src/k_parameter.rs\<close>): the derivation of k over any arithmetic of floats, and over the reals.
    \<open>Evm_Env\<close> (\<open>execution/src/evm.rs\<close>): the environment of a chain block. \<open>Rpc_Server\<close> (\<open>rpc/src/server.rs\<close>): the table of
    methods. \<open>Node_Boot\<close> (\<open>node/src/lib.rs\<close>, \<open>bin/chainname-node/src/main.rs\<close>, the loop of \<open>node/src/dev.rs\<close>): booting, the command line, the
    mining loop. \<open>Fuzz\<close> (\<open>src/fuzz/fuzz_targets\<close>): the five fuzz targets, which no input fails.
  \<^item> \<open>Storage\<close> (\<open>storage/src/lib.rs\<close>): opening with the schema check, and the block store, a table being an interpretation of
    the locale \<open>block_table\<close>.

  Conventions: unsigned integers that are compared, hashed or may wrap are words of their width;
  counters and heights bounded by the number of blocks are naturals. A panic (division by zero, a
  failed narrowing) is \<open>None\<close> in an option result; an event loop of the simulation that never returns is the outer \<open>None\<close> of two.
  Other loops are recursive functions with a termination
  proof; the two that walk data which only an invariant makes finite (the selected-chain walk and
  the chain loop of the colouring) are \<open>while\<close> loops whose termination is proved on reachable stores.
  The only fuel is the guard the code itself has (\<open>MAX_REORG_WALK\<close>), and \<open>compute_reorg_exact\<close> shows
  that it is enough. The iteration order of a Rust hash map is that of the association list.

  Third-party code is a parameter: the block hash, Keccak and the RLP encoding as function
  arguments, and the record \<open>chain_lib\<close> of \<open>Block_Execution\<close> for the transaction accessors, the EVM, the
  base fee formula and the trie roots; the records \<open>raw_lib\<close>, \<open>tx_view\<close> and \<open>eth_lib\<close> for decoding and reading a submitted
  transaction, \<open>rlp_lib\<close> for the payloads of messages, and \<open>wallet_lib\<close> for keys and signatures; \<open>sim_lib\<close> gathers those of the simulation. What a property relies on about them is a named hypothesis,
  shown to hold for a concrete instance in the property's witness: \<open>codec_law\<close> (for stored headers), \<open>gas_bounded\<close>, \<open>evm_law\<close> (the EVM reads a
  state through its accounts and code), \<open>coded\<close> (bytecode is identified by its hash), \<open>rlp_law\<close> (a decoder
  reads back what the encoder wrote). Freedom from collisions is assumed only of the headers at hand.

  Not modelled: what libraries do under the code (the database, sockets and the asynchronous runtime, the EVM, Keccak, RLP, signatures, the parsing of
  arguments and configuration files, the drawing of fuzz inputs), logging and the texts of \<open>Debug\<close> and of the simulation's diagnostics,
  and the repository's tests. The rounding of floats is a parameter of \<open>K_Parameter\<close>.
\<close>

end
